(* ===== verification/Prelude.thy ===== *)
theory Prelude
  imports Main "HOL-Library.Word" "HOL-Library.Monad_Syntax" "HOL-Library.Code_Target_Nat"
begin

text \<open>
  Shared material of the development.

  \<^item> The undefined outcomes of the C++ (a read or write outside an object, a failed
    \<^verbatim>\<open>assert\<close>, a loop that never ends) are the value \<open>None\<close> of an option type,
    sequenced with the library's \<open>do\<close> notation.
  \<^item> \<open>size_t\<close> is a natural number below \<open>2 ^ 64\<close>; \<open>sz_add\<close> and \<open>sz_sub\<close>
    write the wrap-around of its arithmetic out, \<open>sz_int\<close> is the conversion to a
    32-bit \<open>int\<close>.
  \<^item> A block of memory seen through a pointer is the list of its bytes from the pointer
    on, a byte that was never written being \<open>None\<close>; a \<^verbatim>\<open>const char*\<close> is such a block
    or \<open>NULL\<close>.
\<close>

named_theorems sz_simps \<open>arithmetic of size_t below the wrap-around\<close>
named_theorems mem_simps \<open>reading and writing blocks of bytes\<close>

section \<open>Defined results\<close>

text \<open>
  \<open>returns m P\<close>: the computation \<open>m\<close> has a defined result, and the result satisfies
  \<open>P\<close>. This is total correctness: \<open>None\<close> never satisfies it.
\<close>

definition returns :: "'a option \<Rightarrow> ('a \<Rightarrow> bool) \<Rightarrow> bool" where
  "returns m P = (case m of None \<Rightarrow> False | Some x \<Rightarrow> P x)"

lemma returns_simps [simp]: "returns None P = False" "returns (Some x) P = P x"
  by (simp_all add: returns_def)

lemma returns_iff: "returns m P \<longleftrightarrow> (\<exists>x. m = Some x \<and> P x)"
  by (cases m) auto

lemma returns_bind:
  assumes "returns m P" and "\<And>x. P x \<Longrightarrow> returns (f x) Q"
  shows "returns (m \<bind> f) Q"
  using assms by (cases m) auto

lemma returns_mono: "returns m P \<Longrightarrow> (\<And>x. P x \<Longrightarrow> Q x) \<Longrightarrow> returns m Q"
  by (cases m) auto

section \<open>size_t\<close>

definition SIZE_MOD :: nat where
  "SIZE_MOD = 2 ^ 64"

definition sz_add :: "nat \<Rightarrow> nat \<Rightarrow> nat" where
  "sz_add a b = (a + b) mod SIZE_MOD"

definition sz_sub :: "nat \<Rightarrow> nat \<Rightarrow> nat" where
  "sz_sub a b = (a + SIZE_MOD - b mod SIZE_MOD) mod SIZE_MOD"

text \<open>The value of \<^verbatim>\<open>(size_t)-1\<close>, which the sources use for not found and to-the-end.\<close>

definition SIZE_MINUS_1 :: nat where
  "SIZE_MINUS_1 = SIZE_MOD - 1"

definition sz_int :: "nat \<Rightarrow> int" where
  "sz_int n = sint (word_of_int (int n) :: 32 word)"

lemma SIZE_MOD_pos [simp]: "0 < SIZE_MOD"
  by (simp add: SIZE_MOD_def)

lemma sz_add_exact [sz_simps]: "a + b < SIZE_MOD \<Longrightarrow> sz_add a b = a + b"
  by (simp add: sz_add_def)

lemma sz_sub_exact [sz_simps]:
  assumes "b \<le> a" and "a < SIZE_MOD"
  shows "sz_sub a b = a - b"
proof -
  have "a + SIZE_MOD - b = (a - b) + SIZE_MOD" using assms by simp
  then have "(a + SIZE_MOD - b) mod SIZE_MOD = a - b"
    using assms by (simp only: mod_add_self2) simp
  then show ?thesis using assms by (simp add: sz_sub_def)
qed

lemma sz_sub_wraps:
  assumes "a < b" and "b < SIZE_MOD"
  shows "sz_sub a b = SIZE_MOD - (b - a)"
  using assms by (simp add: sz_sub_def)

lemma sz_int_small:
  assumes "n < 2 ^ 31"
  shows "sz_int n = int n"
proof -
  have "sz_int n = signed_take_bit 31 (int n)"
    unfolding sz_int_def by (subst sint_sbintrunc') simp
  also have "\<dots> = int n"
    using assms by (intro signed_take_bit_int_eq_self) auto
  finally show ?thesis .
qed

section \<open>Bytes and C strings\<close>

type_synonym bytes = "char option list"

definition NUL :: char where
  "NUL = char_of (0::nat)"

text \<open>The bytes of a C string literal or of any NUL-terminated buffer holding \<open>s\<close>.\<close>

definition cstr :: "string \<Rightarrow> bytes" where
  "cstr s = map Some s @ [Some NUL]"

text \<open>
  \<open>strlen\<close> runs until the first NUL; running off the block or reading a byte that was
  never written has no defined result.
\<close>

fun strlen :: "bytes \<Rightarrow> nat option" where
  "strlen [] = None"
| "strlen (None # bs) = None"
| "strlen (Some c # bs) = (if c = NUL then Some 0 else map_option Suc (strlen bs))"

text \<open>The C string a block holds: the bytes before its first NUL.\<close>

definition cstring :: "bytes \<Rightarrow> string option" where
  "cstring bs = map_option (\<lambda>n. map the (take n bs)) (strlen bs)"

definition nul_free :: "string \<Rightarrow> bool" where
  "nul_free s \<longleftrightarrow> NUL \<notin> set s"

lemma nul_free_simps [simp]:
  "nul_free []" "nul_free (c # s) \<longleftrightarrow> c \<noteq> NUL \<and> nul_free s"
  "nul_free (s @ t) \<longleftrightarrow> nul_free s \<and> nul_free t"
  by (auto simp: nul_free_def)

lemma strlen_map_Some [mem_simps]:
  "nul_free s \<Longrightarrow> strlen (map Some s @ Some NUL # bs) = Some (length s)"
  by (induction s) auto

lemma cstring_map_Some [mem_simps]:
  "nul_free s \<Longrightarrow> cstring (map Some s @ Some NUL # bs) = Some s"
  by (simp add: cstring_def strlen_map_Some)

lemma cstring_cstr [simp]: "nul_free s \<Longrightarrow> cstring (cstr s) = Some s"
  by (simp add: cstr_def cstring_map_Some)

lemma strlen_cstr [simp]: "nul_free s \<Longrightarrow> strlen (cstr s) = Some (length s)"
  by (simp add: cstr_def strlen_map_Some)

text \<open>
  A string with a NUL in it: everything behind the NUL is invisible to the C library.
\<close>

definition c_prefix :: "string \<Rightarrow> string" where
  "c_prefix s = takeWhile (\<lambda>c. c \<noteq> NUL) s"

lemma nul_free_c_prefix [simp]: "nul_free (c_prefix s)"
  by (auto simp: nul_free_def c_prefix_def dest: set_takeWhileD)

lemma c_prefix_nul_free [simp]: "nul_free s \<Longrightarrow> c_prefix s = s"
  unfolding nul_free_def c_prefix_def by (induction s) auto

lemma strlen_c_prefix [mem_simps]:
  "strlen (map Some s @ Some NUL # bs) = Some (length (c_prefix s))"
  by (induction s) (auto simp: c_prefix_def)

lemma cstring_c_prefix [mem_simps]:
  "cstring (map Some s @ Some NUL # bs) = Some (c_prefix s)"
proof -
  have "take (length (c_prefix s)) (map Some s) = map Some (c_prefix s)"
    unfolding c_prefix_def take_map by (simp only: takeWhile_eq_take [symmetric])
  moreover have "length (c_prefix s) \<le> length s"
    unfolding c_prefix_def by (rule length_takeWhile_le)
  ultimately show ?thesis by (simp add: cstring_def strlen_c_prefix comp_def)
qed

text \<open>Reading and writing \<open>n\<close> bytes, as \<open>memcpy\<close> and \<open>memmove\<close> do.\<close>

definition mem_read :: "bytes \<Rightarrow> nat \<Rightarrow> nat \<Rightarrow> bytes option" where
  "mem_read bs i n = (if i + n \<le> length bs then Some (take n (drop i bs)) else None)"

definition mem_write :: "bytes \<Rightarrow> nat \<Rightarrow> bytes \<Rightarrow> bytes option" where
  "mem_write bs i new =
     (if i + length new \<le> length bs
      then Some (take i bs @ new @ drop (i + length new) bs) else None)"

text \<open>Storing one byte, and reading one whose value the code then uses.\<close>

definition mem_set :: "bytes \<Rightarrow> nat \<Rightarrow> char \<Rightarrow> bytes option" where
  "mem_set bs i c = (if i < length bs then Some (bs[i := Some c]) else None)"

definition mem_get :: "bytes \<Rightarrow> nat \<Rightarrow> char option" where
  "mem_get bs i = (if i < length bs then bs ! i else None)"

lemma mem_read_0 [mem_simps]: "n \<le> length bs \<Longrightarrow> mem_read bs 0 n = Some (take n bs)"
  by (simp add: mem_read_def)

lemma mem_read_split [mem_simps]:
  "n \<le> length ys \<Longrightarrow> mem_read (xs @ ys) (length xs) n = Some (take n ys)"
  by (simp add: mem_read_def)

lemma mem_write_split [mem_simps]:
  "length new \<le> length ys \<Longrightarrow>
     mem_write (xs @ ys) (length xs) new = Some (xs @ new @ drop (length new) ys)"
  by (simp add: mem_write_def)

lemma mem_set_split [mem_simps]: "mem_set (xs @ y # ys) (length xs) c = Some (xs @ Some c # ys)"
  by (simp add: mem_set_def)

lemma mem_get_Some [mem_simps]: "i < length s \<Longrightarrow> mem_get (map Some s @ bs) i = Some (s ! i)"
  by (simp add: mem_get_def nth_append)

lemma mem_set_Some [mem_simps]:
  "i < length s \<Longrightarrow> mem_set (map Some s @ bs) i c = Some (map Some (s[i := c]) @ bs)"
  by (simp add: mem_set_def list_update_append map_update)

lemma length_mem_write: "mem_write bs i new = Some bs' \<Longrightarrow> length bs' = length bs"
  by (auto simp: mem_write_def split: if_splits)

lemma length_mem_set: "mem_set bs i c = Some bs' \<Longrightarrow> length bs' = length bs"
  by (auto simp: mem_set_def split: if_splits)

end
