(* ===== verification/UtlChain.thy ===== *)
theory UtlChain
  imports Prelude
begin

text \<open>
  The intrusive doubly linked lists under every container
  (\<^verbatim>\<open>sipXportLib/src/utl/UtlLink.cpp\<close>, \<^verbatim>\<open>sipXportLib/include/utl/UtlLink.h\<close>), on an explicit
  store: a heap maps the address of a \<^verbatim>\<open>UtlChain\<close> object to its two pointers, \<open>None\<close> being
  NULL. A list header is a \<^verbatim>\<open>UtlChain\<close> whose \<open>next\<close> is the head and whose \<open>prev\<close> is
  the tail. Reading or writing through an address that is not in the heap has no defined
  result, and neither has a failed \<^verbatim>\<open>assert\<close>.

  \<open>list_at h L xs\<close> says that the header \<open>L\<close> heads the list of the nodes \<open>xs\<close>; each
  operation is shown to be the corresponding operation on that list and to leave every
  other node of the heap alone, which is what lets the containers be modelled with lists.
  The last part is the pool from which link blocks are drawn.
\<close>

section \<open>Nodes and the heap\<close>

type_synonym addr = nat

record chain =
  cprev :: "addr option"
  cnext :: "addr option"

type_synonym heap = "addr \<rightharpoonup> chain"

definition unlinked_chain :: chain where
  "unlinked_chain = \<lparr>cprev = None, cnext = None\<rparr>"

definition set_next :: "heap \<Rightarrow> addr \<Rightarrow> addr option \<Rightarrow> heap option" where
  "set_next h a v = map_option (\<lambda>c. h(a \<mapsto> c\<lparr>cnext := v\<rparr>)) (h a)"

definition set_prev :: "heap \<Rightarrow> addr \<Rightarrow> addr option \<Rightarrow> heap option" where
  "set_prev h a v = map_option (\<lambda>c. h(a \<mapsto> c\<lparr>cprev := v\<rparr>)) (h a)"

definition isUnLinked :: "heap \<Rightarrow> addr \<Rightarrow> bool option" where
  "isUnLinked h a = map_option (\<lambda>c. cprev c = None \<and> cnext c = None) (h a)"

definition listHead :: "heap \<Rightarrow> addr \<Rightarrow> addr option option" where
  "listHead h a = map_option cnext (h a)"

definition listTail :: "heap \<Rightarrow> addr \<Rightarrow> addr option option" where
  "listTail h a = map_option cprev (h a)"

section \<open>Chain operations\<close>

definition unchain :: "heap \<Rightarrow> addr \<Rightarrow> heap option" where
  "unchain h this = do {
     c \<leftarrow> h this;
     h1 \<leftarrow> (case cprev c of None \<Rightarrow> Some h | Some p \<Rightarrow> set_next h p (cnext c));
     h2 \<leftarrow> (case cnext c of None \<Rightarrow> Some h1 | Some n \<Rightarrow> set_prev h1 n (cprev c));
     h3 \<leftarrow> set_prev h2 this None;
     set_next h3 this None }"

definition chainBefore :: "heap \<Rightarrow> addr \<Rightarrow> addr \<Rightarrow> heap option" where
  "chainBefore h this existing = do {
     u \<leftarrow> isUnLinked h this;
     if u then do {
       h1 \<leftarrow> set_next h this (Some existing);
       e \<leftarrow> h1 existing;
       h2 \<leftarrow> (if cprev e \<noteq> None then set_prev h1 this (cprev e) else Some h1);
       t \<leftarrow> h2 this;
       h3 \<leftarrow> (case cprev t of None \<Rightarrow> Some h2 | Some p \<Rightarrow> set_next h2 p (Some this));
       set_prev h3 existing (Some this)
     } else None }"

definition chainAfter :: "heap \<Rightarrow> addr \<Rightarrow> addr \<Rightarrow> heap option" where
  "chainAfter h this existing = do {
     u \<leftarrow> isUnLinked h this;
     if u then do {
       h1 \<leftarrow> set_prev h this (Some existing);
       e \<leftarrow> h1 existing;
       h2 \<leftarrow> set_next h1 this (cnext e);
       h3 \<leftarrow> (case cnext e of None \<Rightarrow> Some h2 | Some n \<Rightarrow> set_prev h2 n (Some this));
       set_next h3 existing (Some this)
     } else None }"

section \<open>List operations\<close>

definition listBefore :: "heap \<Rightarrow> addr \<Rightarrow> addr \<Rightarrow> addr option \<Rightarrow> heap option" where
  "listBefore h this list existing =
     (case existing of
        None \<Rightarrow> do {
          l \<leftarrow> h list;
          case cprev l of
            Some t \<Rightarrow> do { h1 \<leftarrow> chainAfter h this t; set_prev h1 list (Some this) }
          | None \<Rightarrow> do { h1 \<leftarrow> set_next h list (Some this); set_prev h1 list (Some this) } }
      | Some e \<Rightarrow> do {
          h1 \<leftarrow> chainBefore h this e;
          l \<leftarrow> h1 list;
          if cnext l = Some e then set_next h1 list (Some this) else Some h1 })"

definition listAfter :: "heap \<Rightarrow> addr \<Rightarrow> addr \<Rightarrow> addr option \<Rightarrow> heap option" where
  "listAfter h this list existing =
     (case existing of
        None \<Rightarrow> do {
          l \<leftarrow> h list;
          case cnext l of
            Some n \<Rightarrow> do { h1 \<leftarrow> chainBefore h this n; set_next h1 list (Some this) }
          | None \<Rightarrow> do { h1 \<leftarrow> set_next h list (Some this); set_prev h1 list (Some this) } }
      | Some e \<Rightarrow> do {
          h1 \<leftarrow> chainAfter h this e;
          l \<leftarrow> h1 list;
          if cprev l = Some e then set_prev h1 list (Some this) else Some h1 })"

definition detachFromList :: "heap \<Rightarrow> addr \<Rightarrow> addr \<Rightarrow> heap option" where
  "detachFromList h this list = do {
     l \<leftarrow> h list;
     t \<leftarrow> h this;
     h1 \<leftarrow> (if cnext l = Some this then set_next h list (cnext t) else Some h);
     l1 \<leftarrow> h1 list;
     h2 \<leftarrow> (if cprev l1 = Some this then set_prev h1 list (cprev t) else Some h1);
     unchain h2 this }"

section \<open>The pool of link blocks\<close>

text \<open>
  \<^verbatim>\<open>UtlChainPool\<close>: free blocks are chained on \<open>mPool\<close>; when there is none, \<open>allocate\<close>
  takes a block of \<open>mBlockSize\<close> objects from the heap, at an address \<open>base\<close> that \<^verbatim>\<open>new\<close>
  chooses, chains the first on \<open>mBlocks\<close> and the others on \<open>mPool\<close>.
\<close>

record pool =
  mPool :: addr
  mBlocks :: addr
  mBlockSize :: nat
  mAllocations :: nat

fun link_all :: "heap \<Rightarrow> addr list \<Rightarrow> addr \<Rightarrow> heap option" where
  "link_all h [] list = Some h"
| "link_all h (a # as) list = do { h1 \<leftarrow> listBefore h a list None; link_all h1 as list }"

definition new_block :: "heap \<Rightarrow> addr \<Rightarrow> nat \<Rightarrow> heap" where
  "new_block h base n = (\<lambda>a. if base \<le> a \<and> a < base + n then Some unlinked_chain else h a)"

definition allocate :: "heap \<Rightarrow> addr \<Rightarrow> nat \<Rightarrow> addr \<Rightarrow> addr \<Rightarrow> heap option" where
  "allocate h base blocksize blockList pl = do {
     h1 \<leftarrow> listBefore (new_block h base blocksize) base blockList None;
     link_all h1 (map (\<lambda>i. base + i) [1..<blocksize]) pl }"

definition pool_get :: "heap \<Rightarrow> pool \<Rightarrow> addr \<Rightarrow> (heap \<times> pool \<times> addr option) option" where
  "pool_get h p base = do {
     empty \<leftarrow> isUnLinked h (mPool p);
     (h1, p1) \<leftarrow> (if empty then do {
                    h1 \<leftarrow> allocate h base (mBlockSize p) (mBlocks p) (mPool p);
                    Some (h1, p\<lparr>mAllocations := Suc (mAllocations p)\<rparr>)
                  } else Some (h, p));
     newChain \<leftarrow> listHead h1 (mPool p1);
     case newChain of
       None \<Rightarrow> Some (h1, p1, None)
     | Some a \<Rightarrow> do { h2 \<leftarrow> detachFromList h1 a (mPool p1); Some (h2, p1, Some a) } }"

definition pool_release :: "heap \<Rightarrow> pool \<Rightarrow> addr \<Rightarrow> heap option" where
  "pool_release h p freeChain = listBefore h freeChain (mPool p) None"

definition totalAllocated :: "pool \<Rightarrow> nat" where
  "totalAllocated p = mAllocations p * (mBlockSize p - 1)"

text \<open>
  \<^verbatim>\<open>UtlLink\<close>: a chain object that also carries the contained object and its hash. The
  store keeps the payloads beside the heap of pointers.
\<close>

record 'd links =
  lheap :: heap
  ldata :: "addr \<Rightarrow> 'd option"
  lhash :: "addr \<Rightarrow> 32 word"
  lpool :: pool

definition link_new :: "'d links \<Rightarrow> addr \<Rightarrow> 'd \<Rightarrow> 32 word \<Rightarrow> ('d links \<times> addr) option" where
  "link_new w base newData newHash = do {
     (h, p, a) \<leftarrow> pool_get (lheap w) (lpool w) base;
     newLink \<leftarrow> a;
     Some (w\<lparr>lheap := h, lpool := p, ldata := (ldata w)(newLink := Some newData),
             lhash := (lhash w)(newLink := newHash)\<rparr>, newLink) }"

definition link_listBefore ::
  "'d links \<Rightarrow> addr \<Rightarrow> addr \<Rightarrow> addr option \<Rightarrow> 'd \<Rightarrow> 32 word \<Rightarrow> ('d links \<times> addr) option" where
  "link_listBefore w base list existing newData newHash = do {
     (w1, newLink) \<leftarrow> link_new w base newData newHash;
     h \<leftarrow> listBefore (lheap w1) newLink list existing;
     Some (w1\<lparr>lheap := h\<rparr>, newLink) }"

definition link_listAfter ::
  "'d links \<Rightarrow> addr \<Rightarrow> addr \<Rightarrow> addr option \<Rightarrow> 'd \<Rightarrow> 32 word \<Rightarrow> ('d links \<times> addr) option" where
  "link_listAfter w base list existing newData newHash = do {
     (w1, newLink) \<leftarrow> link_new w base newData newHash;
     h \<leftarrow> listAfter (lheap w1) newLink list existing;
     Some (w1\<lparr>lheap := h\<rparr>, newLink) }"

definition link_release :: "'d links \<Rightarrow> addr \<Rightarrow> 'd links option" where
  "link_release w a = do {
     h \<leftarrow> pool_release (lheap w) (lpool w) a;
     Some (w\<lparr>lheap := h, ldata := (ldata w)(a := None), lhash := (lhash w)(a := 0)\<rparr>) }"

definition link_detachFrom :: "'d links \<Rightarrow> addr \<Rightarrow> addr \<Rightarrow> ('d links \<times> 'd option) option" where
  "link_detachFrom w a list = do {
     let theData = ldata w a;
     h \<leftarrow> detachFromList (lheap w) a list;
     w1 \<leftarrow> link_release (w\<lparr>lheap := h, ldata := (ldata w)(a := None), lhash := (lhash w)(a := 0)\<rparr>) a;
     Some (w1, theData) }"

section \<open>The list a header heads\<close>

definition first_of :: "addr list \<Rightarrow> addr option \<Rightarrow> addr option" where
  "first_of xs q = (case xs of [] \<Rightarrow> q | x # _ \<Rightarrow> Some x)"

definition last_of :: "addr option \<Rightarrow> addr list \<Rightarrow> addr option" where
  "last_of p xs = (if xs = [] then p else Some (last xs))"

text \<open>The nodes \<open>xs\<close> are chained, \<open>p\<close> before the first and \<open>q\<close> after the last.\<close>

fun dll :: "heap \<Rightarrow> addr option \<Rightarrow> addr list \<Rightarrow> addr option \<Rightarrow> bool" where
  "dll h p [] q = True"
| "dll h p (x # xs) q \<longleftrightarrow> h x = Some \<lparr>cprev = p, cnext = first_of xs q\<rparr> \<and> dll h (Some x) xs q"

definition list_at :: "heap \<Rightarrow> addr \<Rightarrow> addr list \<Rightarrow> bool" where
  "list_at h L xs \<longleftrightarrow>
     h L = Some \<lparr>cprev = last_of None xs, cnext = first_of xs None\<rparr> \<and> dll h None xs None
     \<and> distinct (L # xs)"

lemma first_of_simps [simp]: "first_of [] q = q" "first_of (x # xs) q = Some x"
  by (simp_all add: first_of_def)

lemma last_of_simps [simp]:
  "last_of p [] = p" "last_of p (x # xs) = last_of (Some x) xs" "last_of p (xs @ [x]) = Some x"
  by (simp_all add: last_of_def)

lemma first_of_append [simp]: "first_of (xs @ ys) q = first_of xs (first_of ys q)"
  by (cases xs) simp_all

lemma last_of_append [simp]: "last_of p (xs @ ys) = last_of (last_of p xs) ys"
  by (simp add: last_of_def)

lemma first_of_mem: "first_of xs (Some x) = Some a \<Longrightarrow> a = x \<or> a \<in> set xs"
  by (cases xs) auto

lemma last_of_mem: "last_of (Some x) xs = Some a \<Longrightarrow> a = x \<or> a \<in> set xs"
  by (auto simp: last_of_def split: if_splits)

lemma dll_append [simp]:
  "dll h p (xs @ ys) q \<longleftrightarrow> dll h p xs (first_of ys q) \<and> dll h (last_of p xs) ys q"
  by (induction xs arbitrary: p) auto

lemma dll_cong: "\<forall>x\<in>set xs. h' x = h x \<Longrightarrow> dll h' p xs q = dll h p xs q"
  by (induction xs arbitrary: p) auto

lemma dll_upd [simp]: "a \<notin> set xs \<Longrightarrow> dll (h(a \<mapsto> c)) p xs q = dll h p xs q"
  by (rule dll_cong) auto

lemma list_at_frame:
  "list_at h L xs \<Longrightarrow> h' L = h L \<Longrightarrow> \<forall>x\<in>set xs. h' x = h x \<Longrightarrow> list_at h' L xs"
  using dll_cong [of xs h' h] by (simp add: list_at_def)

text \<open>What the heap looks like away from a list and one more node.\<close>

definition frame :: "heap \<Rightarrow> heap \<Rightarrow> addr set \<Rightarrow> bool" where
  "frame h h' A \<longleftrightarrow> (\<forall>b. b \<notin> A \<longrightarrow> h' b = h b)"

lemma frame_trans: "frame h h1 A \<Longrightarrow> frame h1 h2 B \<Longrightarrow> B \<subseteq> A \<Longrightarrow> frame h h2 A"
  unfolding frame_def by (metis subsetD)

lemma frame_mono: "frame h h' B \<Longrightarrow> B \<subseteq> A \<Longrightarrow> frame h h' A"
  unfolding frame_def by blast

lemma list_at_away:
  assumes "list_at h L xs" and "frame h h' A" and "insert L (set xs) \<inter> A = {}"
  shows "list_at h' L xs"
  using assms(2,3) by (intro list_at_frame [OF assms(1)]) (auto simp: frame_def disjoint_iff)

named_theorems chain_defs \<open>the pointer operations, for unfolding\<close>
declare set_next_def [chain_defs] set_prev_def [chain_defs] isUnLinked_def [chain_defs]
  chainBefore_def [chain_defs] chainAfter_def [chain_defs] unchain_def [chain_defs]
  unlinked_chain_def [chain_defs]

text \<open>
  Inserting an unlinked node \<open>a\<close> between \<open>xs\<close> and \<open>ys\<close>: four cases, by which of the
  two parts is empty.
\<close>

definition inserted :: "heap \<Rightarrow> addr \<Rightarrow> addr \<Rightarrow> addr list \<Rightarrow> addr list \<Rightarrow> heap \<Rightarrow> bool" where
  "inserted h a L xs ys h' \<longleftrightarrow> list_at h' L (xs @ a # ys) \<and> frame h h' (insert a (insert L (set (xs @ ys))))"

definition detached :: "heap \<Rightarrow> addr \<Rightarrow> addr \<Rightarrow> addr list \<Rightarrow> addr list \<Rightarrow> heap \<Rightarrow> bool" where
  "detached h a L xs ys h' \<longleftrightarrow>
     list_at h' L (xs @ ys) \<and> h' a = Some unlinked_chain \<and> frame h h' (insert a (insert L (set (xs @ ys))))"

lemma listBefore_list:
  assumes "list_at h L (xs @ ys)" and "h a = Some unlinked_chain" and "a \<notin> set (L # xs @ ys)"
  shows "returns (listBefore h a L (first_of ys None)) (inserted h a L xs ys)"
  by (insert assms, cases ys; cases xs rule: rev_cases)
    (auto simp: listBefore_def inserted_def list_at_def frame_def chain_defs dest: first_of_mem last_of_mem)

lemma listAfter_list:
  assumes "list_at h L (xs @ ys)" and "h a = Some unlinked_chain" and "a \<notin> set (L # xs @ ys)"
  shows "returns (listAfter h a L (last_of None xs)) (inserted h a L xs ys)"
  by (insert assms, cases ys; cases xs rule: rev_cases)
    (auto simp: listAfter_def inserted_def list_at_def frame_def chain_defs dest: first_of_mem last_of_mem)

lemma detachFromList_list:
  assumes "list_at h L (xs @ a # ys)"
  shows "returns (detachFromList h a L) (detached h a L xs ys)"
  by (insert assms, cases ys; cases xs rule: rev_cases)
    (auto simp: detachFromList_def detached_def list_at_def frame_def chain_defs dest: first_of_mem last_of_mem)

section \<open>The pool hands out each block once\<close>

definition pool_ok :: "heap \<Rightarrow> pool \<Rightarrow> addr list \<Rightarrow> addr list \<Rightarrow> bool" where
  "pool_ok h p free blocks \<longleftrightarrow>
     list_at h (mPool p) free \<and> list_at h (mBlocks p) blocks \<and> 2 \<le> mBlockSize p
     \<and> insert (mPool p) (set free) \<inter> insert (mBlocks p) (set blocks) = {}"

definition pool_nodes :: "pool \<Rightarrow> addr list \<Rightarrow> addr list \<Rightarrow> addr set" where
  "pool_nodes p free blocks = insert (mPool p) (insert (mBlocks p) (set free \<union> set blocks))"

definition fresh_block :: "heap \<Rightarrow> addr \<Rightarrow> nat \<Rightarrow> bool" where
  "fresh_block h base n \<longleftrightarrow> (\<forall>i<n. h (base + i) = None)"

lemma link_all_list:
  assumes "list_at h L xs" and "\<forall>a\<in>set as. h a = Some unlinked_chain" and "distinct as"
    and "set as \<inter> insert L (set xs) = {}"
  shows "returns (link_all h as L) (\<lambda>h'. list_at h' L (xs @ as) \<and> frame h h' (insert L (set xs \<union> set as)))"
  using assms
proof (induction as arbitrary: h xs)
  case Nil
  then show ?case by (simp add: frame_def)
next
  case (Cons a as)
  have step: "returns (listBefore h a L None) (inserted h a L xs [])"
    using listBefore_list [of h L xs "[]" a] Cons.prems by simp
  have "returns (link_all h1 as L) (\<lambda>h'. list_at h' L (xs @ a # as) \<and> frame h h' (insert L (set xs \<union> set (a # as))))"
    if "inserted h a L xs [] h1" for h1
  proof -
    have l1: "list_at h1 L (xs @ [a])" and f1: "frame h h1 (insert a (insert L (set xs)))"
      using that by (simp_all add: inserted_def)
    have "\<forall>b\<in>set as. h1 b = Some unlinked_chain"
      using f1 Cons.prems by (auto simp: frame_def)
    then have "returns (link_all h1 as L)
        (\<lambda>h'. list_at h' L ((xs @ [a]) @ as) \<and> frame h1 h' (insert L (set (xs @ [a]) \<union> set as)))"
      using Cons.prems by (intro Cons.IH [OF l1]) auto
    then show ?thesis
      by (rule returns_mono) (use f1 in \<open>auto simp: frame_def\<close>)
  qed
  then show ?case unfolding link_all.simps by (rule returns_bind [OF step])
qed

lemma allocate_list:
  assumes ok: "pool_ok h p [] blocks" and fresh: "fresh_block h base (mBlockSize p)"
  shows "returns (allocate h base (mBlockSize p) (mBlocks p) (mPool p)) (\<lambda>h'.
           pool_ok h' p (map (\<lambda>i. base + i) [1..<mBlockSize p]) (blocks @ [base])
           \<and> frame h h' (pool_nodes p [] blocks \<union> {base..<base + mBlockSize p}))"
proof -
  define n where "n = mBlockSize p"
  define new where "new = map (\<lambda>i. base + i) [1..<n]"
  have n: "2 \<le> n" using ok by (simp add: pool_ok_def n_def)
  have sn: "set new = {Suc base..<base + n}" by (auto simp: new_def image_iff intro: le_Suc_ex)
  have bn: "base \<notin> set new" by (simp add: sn)
  have dn: "distinct new" by (simp add: new_def distinct_map inj_on_def)
  have notin: "h a \<noteq> None \<Longrightarrow> \<not> (base \<le> a \<and> a < base + n)" for a
    using fresh by (metis fresh_block_def n_def add_diff_inverse_nat linorder_not_less nat_add_left_cancel_less)
  have dom_dll: "dll h q xs r \<Longrightarrow> x \<in> set xs \<Longrightarrow> h x \<noteq> None" for q xs r x
    by (induction xs arbitrary: q) auto
  have old: "h a \<noteq> None" if "a \<in> pool_nodes p [] blocks" for a
    using ok that dom_dll by (fastforce simp: pool_ok_def pool_nodes_def list_at_def)
  define h0 where "h0 = new_block h base n"
  have h0: "a \<in> pool_nodes p [] blocks \<Longrightarrow> h0 a = h a" for a
    using old notin by (auto simp: h0_def new_block_def)
  have l0: "list_at h0 (mBlocks p) blocks" "list_at h0 (mPool p) []"
    using ok h0 by (auto simp: pool_ok_def pool_nodes_def intro: list_at_frame)
  have un0: "\<forall>a\<in>insert base (set new). h0 a = Some unlinked_chain"
    using n by (auto simp: h0_def new_block_def sn)
  have disj: "insert base (set new) \<inter> pool_nodes p [] blocks = {}"
    using old notin n sn by fastforce
  have s1: "returns (listBefore h0 base (mBlocks p) None) (inserted h0 base (mBlocks p) blocks [])"
    using listBefore_list [of h0 "mBlocks p" blocks "[]" base] l0(1) un0 disj by (auto simp: pool_nodes_def)
  show ?thesis
    unfolding allocate_def n_def [symmetric] new_def [symmetric] h0_def [symmetric]
  proof (rule returns_bind [OF s1])
    fix h1 assume "inserted h0 base (mBlocks p) blocks [] h1"
    then have l1: "list_at h1 (mBlocks p) (blocks @ [base])"
      and f1: "frame h0 h1 (insert base (insert (mBlocks p) (set blocks)))"
      by (simp_all add: inserted_def)
    have "h1 (mPool p) = h0 (mPool p)"
      using f1 ok disj by (simp add: frame_def pool_ok_def pool_nodes_def)
    then have "list_at h1 (mPool p) []" by (intro list_at_frame [OF l0(2)]) simp_all
    moreover have "h1 a = Some unlinked_chain" if "a \<in> set new" for a
    proof -
      have "a \<notin> pool_nodes p [] blocks" and "a \<noteq> base" using that disj sn by auto
      then have "h1 a = h0 a" using f1 by (simp add: frame_def pool_nodes_def)
      then show ?thesis using that un0 by simp
    qed
    ultimately have "returns (link_all h1 new (mPool p))
        (\<lambda>h'. list_at h' (mPool p) new \<and> frame h1 h' (insert (mPool p) (set new)))"
      using link_all_list [of h1 "mPool p" "[]" new] disj dn by (simp add: pool_nodes_def)
    then show "returns (link_all h1 new (mPool p)) (\<lambda>h'. pool_ok h' p new (blocks @ [base])
        \<and> frame h h' (pool_nodes p [] blocks \<union> {base..<base + n}))"
    proof (rule returns_mono, intro conjI)
      fix h' assume h': "list_at h' (mPool p) new \<and> frame h1 h' (insert (mPool p) (set new))"
      have "list_at h' (mBlocks p) (blocks @ [base])"
        using h' ok disj bn by (intro list_at_away [OF l1]) (auto simp: pool_ok_def pool_nodes_def)
      then show "pool_ok h' p new (blocks @ [base])"
        using h' ok disj bn by (auto simp: pool_ok_def pool_nodes_def)
      show "frame h h' (pool_nodes p [] blocks \<union> {base..<base + n})"
        using h' f1 sn n by (auto simp: frame_def pool_nodes_def h0_def new_block_def)
    qed
  qed
qed

definition got :: "heap \<Rightarrow> addr set \<Rightarrow> heap \<times> pool \<times> addr option \<Rightarrow> bool" where
  "got h A r \<longleftrightarrow> (case r of (h', p', a) \<Rightarrow> \<exists>x free blocks. a = Some x \<and> h' x = Some unlinked_chain
     \<and> pool_ok h' p' free blocks \<and> x \<notin> pool_nodes p' free blocks
     \<and> insert x (pool_nodes p' free blocks) \<subseteq> A \<and> frame h h' A)"

lemma detach_head_of_pool:
  assumes "pool_ok h p (x # free) blocks"
  shows "returns (detachFromList h x (mPool p)) (\<lambda>h'. h' x = Some unlinked_chain \<and> pool_ok h' p free blocks
           \<and> x \<notin> pool_nodes p free blocks \<and> frame h h' (pool_nodes p (x # free) blocks))"
proof -
  have l: "list_at h (mPool p) ([] @ x # free)" "list_at h (mBlocks p) blocks"
    and disj: "insert (mPool p) (set (x # free)) \<inter> insert (mBlocks p) (set blocks) = {}"
    using assms by (simp_all add: pool_ok_def)
  have x: "x \<notin> pool_nodes p free blocks"
    using l(1) disj by (auto simp: pool_nodes_def list_at_def)
  show ?thesis
  proof (rule returns_mono [OF detachFromList_list [OF l(1)]])
    fix h' assume d: "detached h x (mPool p) [] free h'"
    then have f: "frame h h' (insert x (insert (mPool p) (set free)))" by (simp add: detached_def)
    have "list_at h' (mBlocks p) blocks"
      using disj x by (intro list_at_away [OF l(2) f]) (auto simp: pool_nodes_def)
    then show "h' x = Some unlinked_chain \<and> pool_ok h' p free blocks \<and> x \<notin> pool_nodes p free blocks
        \<and> frame h h' (pool_nodes p (x # free) blocks)"
      using d assms x f by (auto simp: detached_def pool_ok_def frame_def pool_nodes_def)
  qed
qed

lemma pool_get_list:
  assumes ok: "pool_ok h p free blocks" and fresh: "free = [] \<Longrightarrow> fresh_block h base (mBlockSize p)"
  shows "returns (pool_get h p base)
           (got h (pool_nodes p free blocks \<union> (if free = [] then {base..<base + mBlockSize p} else {})))"
proof (cases free)
  case (Cons x free')
  have hd: "listHead h (mPool p) = Some (Some x)" "isUnLinked h (mPool p) = Some False"
    using ok by (auto simp: Cons pool_ok_def list_at_def listHead_def isUnLinked_def)
  obtain h' where h': "detachFromList h x (mPool p) = Some h'" "h' x = Some unlinked_chain"
    "pool_ok h' p free' blocks" "x \<notin> pool_nodes p free' blocks" "frame h h' (pool_nodes p (x # free') blocks)"
    using detach_head_of_pool [OF ok [unfolded Cons]] by (auto simp: returns_iff)
  have "insert x (pool_nodes p free' blocks) = pool_nodes p (x # free') blocks"
    by (auto simp: pool_nodes_def)
  then show ?thesis using h' by (auto simp: pool_get_def hd Cons got_def)
next
  case Nil
  have un: "isUnLinked h (mPool p) = Some True"
    using ok by (simp add: Nil pool_ok_def list_at_def isUnLinked_def)
  define n where "n = mBlockSize p"
  obtain m where m: "n = Suc (Suc m)" using ok by (metis n_def Suc_le_D numeral_2_eq_2 pool_ok_def Suc_le_mono)
  define new where "new = map (\<lambda>i. base + i) [2..<n]"
  have new: "map (\<lambda>i. base + i) [1..<n] = Suc base # new" by (simp add: m new_def upt_conv_Cons numeral_2_eq_2)
  obtain h1 where h1: "allocate h base n (mBlocks p) (mPool p) = Some h1"
    and ok1: "pool_ok h1 p (Suc base # new) (blocks @ [base])"
    and f1: "frame h h1 (pool_nodes p [] blocks \<union> {base..<base + n})"
    using allocate_list [OF ok [unfolded Nil] fresh [OF Nil]] new by (auto simp: returns_iff n_def)
  have hd: "listHead h1 (mPool p) = Some (Some (Suc base))"
    using ok1 by (simp add: pool_ok_def list_at_def listHead_def)
  let ?p = "p\<lparr>mAllocations := Suc (mAllocations p)\<rparr>"
  have nodes: "insert (Suc base) (pool_nodes ?p new (blocks @ [base])) \<subseteq> pool_nodes p [] blocks \<union> {base..<base + n}"
    using m by (auto simp: pool_nodes_def new_def)
  obtain h2 where h2: "detachFromList h1 (Suc base) (mPool p) = Some h2"
    and d2: "h2 (Suc base) = Some unlinked_chain" "pool_ok h2 p new (blocks @ [base])"
      "Suc base \<notin> pool_nodes p new (blocks @ [base])"
      "frame h1 h2 (pool_nodes p (Suc base # new) (blocks @ [base]))"
    using detach_head_of_pool [OF ok1] by (auto simp: returns_iff)
  have "pool_nodes p (Suc base # new) (blocks @ [base]) = insert (Suc base) (pool_nodes ?p new (blocks @ [base]))"
    by (auto simp: pool_nodes_def)
  then have "frame h h2 (pool_nodes p [] blocks \<union> {base..<base + n})"
    using frame_trans [OF f1 d2(4)] nodes by simp
  moreover have "pool_ok h2 ?p new (blocks @ [base])" "Suc base \<notin> pool_nodes ?p new (blocks @ [base])"
    using d2(2,3) by (simp_all add: pool_ok_def pool_nodes_def)
  ultimately show ?thesis
    using h1 h2 d2(1) nodes unfolding n_def
    by (auto simp: pool_get_def un Nil hd got_def)
qed

lemma pool_release_list:
  assumes "pool_ok h p free blocks" and "h a = Some unlinked_chain" and "a \<notin> pool_nodes p free blocks"
  shows "returns (pool_release h p a) (\<lambda>h'. pool_ok h' p (free @ [a]) blocks
           \<and> frame h h' (insert a (insert (mPool p) (set free))))"
proof -
  have l: "list_at h (mPool p) (free @ [])" "list_at h (mBlocks p) blocks"
    using assms(1) by (simp_all add: pool_ok_def)
  have "returns (pool_release h p a) (inserted h a (mPool p) free [])"
    using listBefore_list [OF l(1) assms(2)] assms(3) by (simp add: pool_release_def pool_nodes_def)
  then show ?thesis
  proof (rule returns_mono)
    fix h' assume i: "inserted h a (mPool p) free [] h'"
    then have f: "frame h h' (insert a (insert (mPool p) (set free)))" by (simp add: inserted_def)
    have "list_at h' (mBlocks p) blocks"
      using assms(1,3) by (intro list_at_away [OF l(2) f]) (auto simp: pool_ok_def pool_nodes_def)
    then show "pool_ok h' p (free @ [a]) blocks \<and> frame h h' (insert a (insert (mPool p) (set free)))"
      using i f assms(1,3) by (auto simp: inserted_def pool_ok_def pool_nodes_def)
  qed
qed

section \<open>Links in a container\<close>

text \<open>
  A store in which the container's list \<open>L\<close> holds the links \<open>xs\<close>, apart from the pool;
  \<open>pool_fresh\<close> is what \<^verbatim>\<open>new\<close> promises about the block it would return.
\<close>

definition links_ok :: "'d links \<Rightarrow> addr \<Rightarrow> addr list \<Rightarrow> addr list \<Rightarrow> addr list \<Rightarrow> bool" where
  "links_ok w L xs free blocks \<longleftrightarrow>
     list_at (lheap w) L xs \<and> pool_ok (lheap w) (lpool w) free blocks
     \<and> insert L (set xs) \<inter> pool_nodes (lpool w) free blocks = {}"

definition pool_fresh :: "'d links \<Rightarrow> addr list \<Rightarrow> addr \<Rightarrow> bool" where
  "pool_fresh w free base \<longleftrightarrow> (free = [] \<longrightarrow> fresh_block (lheap w) base (mBlockSize (lpool w)))"

definition contents :: "'d links \<Rightarrow> addr list \<Rightarrow> 'd option list" where
  "contents w xs = map (ldata w) xs"

lemma list_at_dom: "list_at h L xs \<Longrightarrow> a \<in> insert L (set xs) \<Longrightarrow> h a \<noteq> None"
proof -
  have "dll h q xs r \<Longrightarrow> a \<in> set xs \<Longrightarrow> h a \<noteq> None" for q r by (induction xs arbitrary: q) auto
  then show "list_at h L xs \<Longrightarrow> a \<in> insert L (set xs) \<Longrightarrow> h a \<noteq> None" by (auto simp: list_at_def)
qed

text \<open>A new link is outside the container's list, which it leaves as it was.\<close>

lemma link_new_ok:
  assumes ok: "links_ok w L xs free blocks" and fresh: "pool_fresh w free base"
  shows "returns (link_new w base d k) (\<lambda>(w', a). a \<notin> set (L # xs) \<and> lheap w' a = Some unlinked_chain
           \<and> ldata w' = (ldata w)(a \<mapsto> d) \<and> lhash w' = (lhash w)(a := k)
           \<and> (\<exists>free' blocks'. links_ok w' L xs free' blocks' \<and> a \<notin> pool_nodes (lpool w') free' blocks'))"
proof -
  let ?A = "pool_nodes (lpool w) free blocks \<union> (if free = [] then {base..<base + mBlockSize (lpool w)} else {})"
  have l: "list_at (lheap w) L xs" and p: "pool_ok (lheap w) (lpool w) free blocks"
    and disj: "insert L (set xs) \<inter> pool_nodes (lpool w) free blocks = {}"
    using ok by (simp_all add: links_ok_def)
  have "lheap w b = None" if "free = []" "b \<in> {base..<base + mBlockSize (lpool w)}" for b
    using fresh that unfolding pool_fresh_def fresh_block_def
    by (metis atLeastLessThan_iff le_Suc_ex nat_add_left_cancel_less)
  then have "free = [] \<Longrightarrow> insert L (set xs) \<inter> {base..<base + mBlockSize (lpool w)} = {}"
    using list_at_dom [OF l] by (metis disjoint_iff)
  then have away: "insert L (set xs) \<inter> ?A = {}" using disj by (auto split: if_splits)
  have "returns (pool_get (lheap w) (lpool w) base) (got (lheap w) ?A)"
    using fresh by (intro pool_get_list [OF p]) (simp add: pool_fresh_def)
  then obtain r where r: "pool_get (lheap w) (lpool w) base = Some r" "got (lheap w) ?A r"
    unfolding returns_iff by blast
  obtain h' p' a free' blocks' where g: "r = (h', p', Some a)" "h' a = Some unlinked_chain"
    "pool_ok h' p' free' blocks'" "a \<notin> pool_nodes p' free' blocks'"
    "insert a (pool_nodes p' free' blocks') \<subseteq> ?A" "frame (lheap w) h' ?A"
    using r(2) by (auto simp: got_def)
  have "list_at h' L xs" by (rule list_at_away [OF l g(6) away])
  moreover have "insert L (set xs) \<inter> pool_nodes p' free' blocks' = {}" "a \<notin> set (L # xs)" using g(5) away by auto
  ultimately show ?thesis using r(1) g by (auto simp: link_new_def links_ok_def)
qed

lemma inserted_links_ok:
  assumes "links_ok w L (xs @ ys) free blocks" and "a \<notin> pool_nodes (lpool w) free blocks"
    and "inserted (lheap w) a L xs ys h"
  shows "links_ok (w\<lparr>lheap := h\<rparr>) L (xs @ a # ys) free blocks"
proof -
  have f: "frame (lheap w) h (insert a (insert L (set (xs @ ys))))" and l: "list_at h L (xs @ a # ys)"
    using assms(3) by (simp_all add: inserted_def)
  have "h b = lheap w b" if "b \<in> pool_nodes (lpool w) free blocks" for b
    using f assms(1,2) that by (auto simp: frame_def links_ok_def)
  then have "pool_ok h (lpool w) free blocks"
    using assms(1) by (auto simp: links_ok_def pool_ok_def pool_nodes_def intro: list_at_frame)
  then show ?thesis using assms(1,2) l by (auto simp: links_ok_def)
qed

definition link_inserted :: "'d links \<Rightarrow> addr \<Rightarrow> addr list \<Rightarrow> addr list \<Rightarrow> 'd \<Rightarrow> 32 word \<Rightarrow> 'd links \<times> addr \<Rightarrow> bool" where
  "link_inserted w L xs ys d k r \<longleftrightarrow> (case r of (w', a) \<Rightarrow>
     a \<notin> set (xs @ ys) \<and> lhash w' a = k
     \<and> contents w' (xs @ a # ys) = contents w xs @ Some d # contents w ys
     \<and> (\<exists>free blocks. links_ok w' L (xs @ a # ys) free blocks))"

lemma link_insert_bind:
  assumes "links_ok w L (xs @ ys) free blocks" and "pool_fresh w free base"
    and op: "\<And>h a. list_at h L (xs @ ys) \<Longrightarrow> h a = Some unlinked_chain \<Longrightarrow> a \<notin> set (L # xs @ ys) \<Longrightarrow>
               returns (f h a) (inserted h a L xs ys)"
  shows "returns (do { (w1, a) \<leftarrow> link_new w base d k; h \<leftarrow> f (lheap w1) a; Some (w1\<lparr>lheap := h\<rparr>, a) })
           (link_inserted w L xs ys d k)"
proof -
  obtain w1 a free' blocks' where n: "link_new w base d k = Some (w1, a)" "a \<notin> set (L # xs @ ys)"
    "lheap w1 a = Some unlinked_chain" "ldata w1 = (ldata w)(a \<mapsto> d)" "lhash w1 = (lhash w)(a := k)"
    "links_ok w1 L (xs @ ys) free' blocks'" "a \<notin> pool_nodes (lpool w1) free' blocks'"
    using link_new_ok [OF assms(1,2), of d k] by (auto simp: returns_iff)
  have "list_at (lheap w1) L (xs @ ys)" using n(6) by (simp add: links_ok_def)
  then obtain h where h: "f (lheap w1) a = Some h" "inserted (lheap w1) a L xs ys h"
    using op n(2,3) by (auto simp: returns_iff)
  have "links_ok (w1\<lparr>lheap := h\<rparr>) L (xs @ a # ys) free' blocks'"
    using inserted_links_ok n(6,7) h(2) by blast
  then show ?thesis
    using n h by (auto simp: link_inserted_def contents_def)
qed

lemma link_listBefore_ok:
  assumes "links_ok w L (xs @ ys) free blocks" and "pool_fresh w free base"
  shows "returns (link_listBefore w base L (first_of ys None) d k) (link_inserted w L xs ys d k)"
  unfolding link_listBefore_def by (rule link_insert_bind [OF assms]) (rule listBefore_list)

lemma link_listAfter_ok:
  assumes "links_ok w L (xs @ ys) free blocks" and "pool_fresh w free base"
  shows "returns (link_listAfter w base L (last_of None xs) d k) (link_inserted w L xs ys d k)"
  unfolding link_listAfter_def by (rule link_insert_bind [OF assms]) (rule listAfter_list)

lemma link_detachFrom_ok:
  assumes ok: "links_ok w L (xs @ a # ys) free blocks"
  shows "returns (link_detachFrom w a L) (\<lambda>(w', d). d = ldata w a
           \<and> links_ok w' L (xs @ ys) (free @ [a]) blocks \<and> contents w' (xs @ ys) = contents w (xs @ ys))"
proof -
  have l: "list_at (lheap w) L (xs @ a # ys)" and p: "pool_ok (lheap w) (lpool w) free blocks"
    and disj: "insert L (set (xs @ a # ys)) \<inter> pool_nodes (lpool w) free blocks = {}"
    using ok by (simp_all add: links_ok_def)
  have dist: "a \<notin> set (xs @ ys)" "a \<noteq> L" using l by (auto simp: list_at_def)
  obtain h1 where h1: "detachFromList (lheap w) a L = Some h1" "list_at h1 L (xs @ ys)"
    "h1 a = Some unlinked_chain" "frame (lheap w) h1 (insert a (insert L (set (xs @ ys))))"
    using detachFromList_list [OF l] by (auto simp: returns_iff detached_def)
  have "h1 b = lheap w b" if "b \<in> pool_nodes (lpool w) free blocks" for b
    using h1(4) disj that by (auto simp: frame_def)
  then have p1: "pool_ok h1 (lpool w) free blocks"
    using p by (auto simp: pool_ok_def pool_nodes_def intro: list_at_frame)
  have "a \<notin> pool_nodes (lpool w) free blocks" using disj by auto
  then obtain h2 where h2: "pool_release h1 (lpool w) a = Some h2" "pool_ok h2 (lpool w) (free @ [a]) blocks"
    "frame h1 h2 (insert a (insert (mPool (lpool w)) (set free)))"
    using pool_release_list [OF p1 h1(3)] by (auto simp: returns_iff)
  have "list_at h2 L (xs @ ys)"
    using disj dist by (intro list_at_away [OF h1(2) h2(3)]) (auto simp: pool_nodes_def)
  moreover have "insert L (set (xs @ ys)) \<inter> pool_nodes (lpool w) (free @ [a]) blocks = {}"
    using disj dist by (auto simp: pool_nodes_def)
  ultimately show ?thesis
    using h1(1) h2 dist by (auto simp: link_detachFrom_def link_release_def links_ok_def contents_def)
qed

section \<open>Properties\<close>

text \<open>An empty list at address 0, with an empty pool (addresses 1 and 2) that grows by
  blocks of four links.\<close>

definition chain_start :: "string links" where
  "chain_start = \<lparr>lheap = [0 \<mapsto> unlinked_chain, 1 \<mapsto> unlinked_chain, 2 \<mapsto> unlinked_chain],
     ldata = (\<lambda>_. None), lhash = (\<lambda>_. 0),
     lpool = \<lparr>mPool = 1, mBlocks = 2, mBlockSize = 4, mAllocations = 0\<rparr>\<rparr>"

lemma chain_start_ok: "links_ok chain_start 0 ([] @ []) [] []" "pool_fresh chain_start [] 10"
  by (auto simp: links_ok_def list_at_def pool_ok_def pool_nodes_def pool_fresh_def fresh_block_def
        chain_start_def unlinked_chain_def)

text \<open>\<open>UtlLink::listBefore\<close> takes a link from the pool, allocating a block when the pool is
  empty, and chains it into the doubly linked list in front of an existing link (at the
  tail for NULL): the list holds the new object at that place, everything else in its order,
  with all pointers in both directions right, and pool and list stay apart.\<close>

theorem utllink_listBefore:
  assumes "links_ok w L (xs @ ys) free blocks" and "pool_fresh w free base"
  shows "returns (link_listBefore w base L (first_of ys None) d k) (link_inserted w L xs ys d k)"
  using assms by (rule link_listBefore_ok)

theorem utllink_listBefore_witness:
  "returns (link_listBefore chain_start 10 0 None ''bob'' 7) (link_inserted chain_start 0 [] [] ''bob'' 7)"
  using utllink_listBefore [OF chain_start_ok, of "''bob''" 7] by simp

text \<open>\<open>UtlLink::detachFrom\<close> takes a link out of its list and returns it to the pool: its
  object is returned, and the rest of the list keeps its links, contents and order.\<close>

theorem utllink_detachFrom:
  assumes "links_ok w L (xs @ a # ys) free blocks"
  shows "returns (link_detachFrom w a L) (\<lambda>(w', d). d = ldata w a
           \<and> links_ok w' L (xs @ ys) (free @ [a]) blocks \<and> contents w' (xs @ ys) = contents w (xs @ ys))"
  using assms by (rule link_detachFrom_ok)

definition chain_one :: "string links" where
  "chain_one = chain_start\<lparr>lheap := [0 \<mapsto> \<lparr>cprev = Some 3, cnext = Some 3\<rparr>, 1 \<mapsto> unlinked_chain,
     2 \<mapsto> unlinked_chain, 3 \<mapsto> unlinked_chain], ldata := [3 \<mapsto> ''bob'']\<rparr>"

theorem utllink_detachFrom_witness:
  "returns (link_detachFrom chain_one 3 0) (\<lambda>(w', d). d = Some ''bob'' \<and> links_ok w' 0 [] [3] [])"
proof -
  have "links_ok chain_one 0 ([] @ 3 # []) [] []"
    by (auto simp: links_ok_def list_at_def pool_ok_def pool_nodes_def chain_one_def chain_start_def unlinked_chain_def)
  from utllink_detachFrom [OF this] show ?thesis by (auto elim!: returns_mono simp: chain_one_def)
qed

end
