(* ===== verification/UtlString.thy ===== *)
theory UtlString
  imports Prelude
begin

unbundle bit_operations_syntax

text \<open>
  The string class (\<^verbatim>\<open>sipXportLib/src/utl/UtlString.cpp\<close>).

  The state of a \<^verbatim>\<open>UtlString\<close> is its buffer \<open>mpData\<close> (as many bytes as \<open>mCapacity\<close>,
  a byte that was never written being \<open>None\<close>), the length \<open>mSize\<close>, the allocated size
  \<open>mCapacity\<close>, and whether the buffer is still the array \<open>mBuiltIn\<close> inside the object.
  \<open>mpData\<close> is not NULL from the constructor to the destructor, so the tests of it are
  always true and are not repeated. Allocation with \<^verbatim>\<open>new\<close> does not fail (the non-VxWorks
  branch). The overloads of a method carry a suffix: \<open>_n\<close> for a pointer and a length,
  \<open>_cstr\<close> for a C string, \<open>_str\<close> for a \<^verbatim>\<open>UtlString\<close>, \<open>_char\<close> for a character. Every
  argument that is another \<^verbatim>\<open>UtlString\<close> is a different object, except in
  \<open>append_self\<close>.
\<close>

section \<open>State and creators\<close>

record ustr =
  mpData :: bytes
  mSize :: nat
  mCapacity :: nat
  isBuiltIn :: bool

type_synonym cptr = "bytes option"

definition UTLSTRING_MIN_INCREMENT :: nat where "UTLSTRING_MIN_INCREMENT = 100"
definition DEFAULT_UTLSTRING_CAPACITY :: nat where "DEFAULT_UTLSTRING_CAPACITY = 100"
definition UTLSTRING_NOT_FOUND :: int where "UTLSTRING_NOT_FOUND = -1"
definition MAX_NUMBER_STRING_SIZE :: nat where "MAX_NUMBER_STRING_SIZE = 256"

definition UtlString_new :: ustr where
  "UtlString_new =
     \<lparr>mpData = (replicate DEFAULT_UTLSTRING_CAPACITY None)[0 := Some NUL],
      mSize = 0, mCapacity = DEFAULT_UTLSTRING_CAPACITY, isBuiltIn = True\<rparr>"

text \<open>
  \<open>capacity\<close> grows the buffer to at least \<open>N\<close> bytes, by at least
  \<open>UTLSTRING_MIN_INCREMENT\<close>; the first \<open>mSize\<close> bytes are copied. The result's
  \<open>mCapacity\<close> is the value the method returns.
\<close>

definition capacity :: "ustr \<Rightarrow> nat \<Rightarrow> ustr option" where
  "capacity u N =
     (if mCapacity u < N \<and> 0 < N then do {
        let N' = (if N < sz_add (mCapacity u) UTLSTRING_MIN_INCREMENT
                  then sz_add (mCapacity u) UTLSTRING_MIN_INCREMENT else N);
        newData \<leftarrow> (if 0 < mSize u
                   then mem_read (mpData u) 0 (mSize u) \<bind> mem_write (replicate N' None) 0
                   else mem_set (replicate N' None) 0 NUL);
        Some (u\<lparr>mpData := newData, mCapacity := N', isBuiltIn := False\<rparr>)
      } else Some u)"

section \<open>Append\<close>

definition append_n :: "ustr \<Rightarrow> cptr \<Rightarrow> nat \<Rightarrow> ustr option" where
  "append_n u szStr N =
     (case szStr of
        None \<Rightarrow> Some u
      | Some src \<Rightarrow>
          if 0 < N \<and> N \<noteq> SIZE_MINUS_1 then do {
            let maxCap = sz_add (sz_add (mSize u) N) 1;
            u1 \<leftarrow> capacity u maxCap;
            if maxCap \<le> mCapacity u1 then do {
              new \<leftarrow> mem_read src 0 N;
              d \<leftarrow> mem_write (mpData u1) (mSize u1) new;
              let sz = sz_add (mSize u1) N;
              d' \<leftarrow> mem_set d sz NUL;
              Some (u1\<lparr>mpData := d', mSize := sz\<rparr>)
            } else Some u1
          } else Some u)"

definition append_cstr :: "ustr \<Rightarrow> cptr \<Rightarrow> ustr option" where
  "append_cstr u szStr =
     (case szStr of None \<Rightarrow> Some u | Some src \<Rightarrow> strlen src \<bind> append_n u szStr)"

definition append_char :: "ustr \<Rightarrow> char \<Rightarrow> ustr option" where
  "append_char u c = append_n u (Some [Some c]) 1"

definition append_str :: "ustr \<Rightarrow> ustr \<Rightarrow> ustr option" where
  "append_str u str = append_n u (Some (mpData str)) (mSize str)"

definition append_sub :: "ustr \<Rightarrow> ustr \<Rightarrow> nat \<Rightarrow> nat \<Rightarrow> ustr option" where
  "append_sub u str position len =
     (if position < mSize str then
        append_n u (Some (drop position (mpData str)))
          (if len = SIZE_MINUS_1 \<or> mSize str < sz_add position len
           then sz_sub (mSize str) position else len)
      else Some u)"

text \<open>
  \<open>s.append(s)\<close>: the source pointer is the buffer of \<open>s\<close> itself. When \<open>capacity\<close>
  has to reallocate, it deletes an allocated buffer before \<open>memcpy\<close> reads it, which has
  no defined result; the array inside the object stays readable.
\<close>

definition append_self :: "ustr \<Rightarrow> ustr option" where
  "append_self u =
     (if 0 < mSize u \<and> mCapacity u < sz_add (sz_add (mSize u) (mSize u)) 1 \<and> \<not> isBuiltIn u
      then None else append_n u (Some (mpData u)) (mSize u))"

text \<open>
  \<open>appendNumber\<close> formats with \<^verbatim>\<open>snprintf\<close> into a buffer of
  \<open>MAX_NUMBER_STRING_SIZE\<close> bytes; \<open>printf_text format value\<close> is the text the format
  produces, a parameter.
\<close>

definition appendFormattedNumber :: "ustr \<Rightarrow> int \<Rightarrow> bytes \<Rightarrow> bytes \<Rightarrow> ustr option" where
  "appendFormattedNumber u formatResult conversionString format =
     (if 0 < formatResult \<and> formatResult < int MAX_NUMBER_STRING_SIZE
      then append_cstr u (Some conversionString)
      else do {
        u1 \<leftarrow> append_cstr u (Some (cstr ''(UtlString::appendNumber format error using ''));
        u2 \<leftarrow> append_char u1 (CHR 0x27);
        u3 \<leftarrow> append_cstr u2 (Some format);
        u4 \<leftarrow> append_char u3 (CHR 0x27);
        append_char u4 (CHR '')'')
      })"

definition appendNumber :: "(string \<Rightarrow> 'v \<Rightarrow> string) \<Rightarrow> ustr \<Rightarrow> 'v \<Rightarrow> string \<Rightarrow> ustr option" where
  "appendNumber printf_text u value format =
     (let text = printf_text format value in
      appendFormattedNumber u (int (length text))
        (cstr (take (MAX_NUMBER_STRING_SIZE - 1) text)) (cstr format))"

section \<open>Remove\<close>

definition remove_from :: "ustr \<Rightarrow> nat \<Rightarrow> ustr option" where
  "remove_from u pos =
     (if pos < mSize u then do {
        d \<leftarrow> mem_set (mpData u) pos NUL;
        Some (u\<lparr>mpData := d, mSize := pos\<rparr>)
      } else Some u)"

definition remove_n :: "ustr \<Rightarrow> nat \<Rightarrow> nat \<Rightarrow> ustr option" where
  "remove_n u pos N =
     (if 0 < N \<and> N \<le> sz_sub (mSize u) pos \<and> pos < mSize u then do {
        let bytesToShift = sz_add (sz_sub (mSize u) (sz_add pos N)) 1;
        moved \<leftarrow> mem_read (mpData u) (sz_add pos N) bytesToShift;
        d \<leftarrow> mem_write (mpData u) pos moved;
        let sz = sz_sub (mSize u) N;
        d' \<leftarrow> mem_set d sz NUL;
        Some (u\<lparr>mpData := d', mSize := sz\<rparr>)
      } else Some u)"

section \<open>Constructors from a value, assignment\<close>

definition UtlString_cstr :: "cptr \<Rightarrow> ustr option" where
  "UtlString_cstr szSource = append_cstr UtlString_new szSource"

definition UtlString_n :: "cptr \<Rightarrow> nat \<Rightarrow> ustr option" where
  "UtlString_n szSource len = append_n UtlString_new szSource len"

definition UtlString_copy :: "ustr \<Rightarrow> ustr option" where
  "UtlString_copy source = do {
     u \<leftarrow> capacity UtlString_new (mCapacity source);
     append_str u source }"

definition UtlString_copy_n :: "ustr \<Rightarrow> nat \<Rightarrow> ustr option" where
  "UtlString_copy_n source len = do {
     u \<leftarrow> capacity UtlString_new (mCapacity source);
     append_n u (Some (mpData source)) (if mSize source < len then mSize source else len) }"

definition assign_cstr :: "ustr \<Rightarrow> cptr \<Rightarrow> ustr option" where
  "assign_cstr u szStr = do {
     u1 \<leftarrow> remove_from u 0;
     case szStr of
       None \<Rightarrow> Some u1
     | Some src \<Rightarrow> do { c \<leftarrow> mem_get src 0; if c \<noteq> NUL then append_cstr u1 szStr else Some u1 } }"

definition assign :: "ustr \<Rightarrow> ustr \<Rightarrow> ustr option" where
  "assign u str = do {
     u1 \<leftarrow> remove_from u 0;
     u2 \<leftarrow> (if mCapacity u1 < mCapacity str then capacity u1 (mCapacity str) else Some u1);
     append_n u2 (Some (mpData str)) (mSize str) }"

definition prepend :: "ustr \<Rightarrow> cptr \<Rightarrow> ustr option" where
  "prepend u szStr = do {
     n1 \<leftarrow> append_cstr UtlString_new szStr;
     n2 \<leftarrow> append_cstr n1 (Some (mpData u));
     u1 \<leftarrow> remove_from u 0;
     append_str u1 n2 }"

definition plus_str :: "ustr \<Rightarrow> ustr \<Rightarrow> ustr option" where
  "plus_str str1 str2 = do { NewS \<leftarrow> UtlString_copy str1; append_str NewS str2 }"

definition plus_cstr :: "ustr \<Rightarrow> cptr \<Rightarrow> ustr option" where
  "plus_cstr str szStr = do { NewS \<leftarrow> UtlString_copy str; append_cstr NewS szStr }"

definition cstr_plus :: "cptr \<Rightarrow> ustr \<Rightarrow> ustr option" where
  "cstr_plus szStr str = do { newS \<leftarrow> UtlString_cstr szStr; append_str newS str }"

section \<open>Insert\<close>

definition insert_n :: "ustr \<Rightarrow> nat \<Rightarrow> bytes \<Rightarrow> nat \<Rightarrow> ustr option" where
  "insert_n u position source sourceLength =
     (if position \<le> mSize u then do {
        let need = sz_add (sz_add (mSize u) sourceLength) 1;
        u1 \<leftarrow> (if mCapacity u < need then capacity u need else Some u);
        moved \<leftarrow> mem_read (mpData u1) position (sz_sub (mSize u1) position);
        d \<leftarrow> mem_write (mpData u1) (sz_add position sourceLength) moved;
        new \<leftarrow> mem_read source 0 sourceLength;
        d1 \<leftarrow> mem_write d position new;
        let sz = sz_add (mSize u1) sourceLength;
        d2 \<leftarrow> mem_set d1 sz NUL;
        Some (u1\<lparr>mpData := d2, mSize := sz\<rparr>)
      } else Some u)"

definition insert_cstr :: "ustr \<Rightarrow> nat \<Rightarrow> cptr \<Rightarrow> ustr option" where
  "insert_cstr u position source =
     (case source of
        None \<Rightarrow> Some u
      | Some src \<Rightarrow>
          if position < mSize u then strlen src \<bind> insert_n u position src
          else if position = mSize u then append_cstr u source
          else Some u)"

definition insert_char :: "ustr \<Rightarrow> nat \<Rightarrow> char \<Rightarrow> ustr option" where
  "insert_char u position source = insert_n u position [Some source] 1"

definition insert_str :: "ustr \<Rightarrow> nat \<Rightarrow> ustr \<Rightarrow> ustr option" where
  "insert_str u start str =
     (if start \<le> mSize u \<and> 0 < mSize str then insert_n u start (mpData str) (mSize str) else Some u)"

section \<open>Replace\<close>

definition replaceAt :: "ustr \<Rightarrow> nat \<Rightarrow> char \<Rightarrow> ustr option" where
  "replaceAt u pos newChar =
     (if pos < mSize u then do {
        d \<leftarrow> mem_set (mpData u) pos newChar;
        Some (u\<lparr>mpData := d\<rparr>)
      } else Some u)"

definition replace_n :: "ustr \<Rightarrow> nat \<Rightarrow> nat \<Rightarrow> cptr \<Rightarrow> nat \<Rightarrow> ustr option" where
  "replace_n u pos N replaceStr L =
     (case replaceStr of
        None \<Rightarrow> Some u
      | Some src \<Rightarrow> do {
          len \<leftarrow> strlen src;
          if L \<le> len then do {
            n1 \<leftarrow> append_n UtlString_new (Some (mpData u)) pos;
            n2 \<leftarrow> append_n n1 replaceStr L;
            let rest = sz_sub (sz_sub (mSize u) N) pos;
            n3 \<leftarrow> (if 0 < sz_int rest
                  then append_n n2 (Some (drop (sz_add pos N) (mpData u))) rest
                  else Some n2);
            u1 \<leftarrow> remove_from u 0;
            append_str u1 n3
          } else Some u })"

definition replace_cstr :: "ustr \<Rightarrow> nat \<Rightarrow> nat \<Rightarrow> bytes \<Rightarrow> ustr option" where
  "replace_cstr u pos N replaceStr =
     do { len \<leftarrow> strlen replaceStr; replace_n u pos N (Some replaceStr) len }"

definition replace_str :: "ustr \<Rightarrow> nat \<Rightarrow> nat \<Rightarrow> ustr \<Rightarrow> ustr option" where
  "replace_str u pos N replaceStr = replace_n u pos N (Some (mpData replaceStr)) (mSize replaceStr)"

text \<open>A loop that updates every character of the string in place, from index \<open>i\<close> on.\<close>

function update_chars :: "(char \<Rightarrow> char) \<Rightarrow> bytes \<Rightarrow> nat \<Rightarrow> nat \<Rightarrow> bytes option" where
  "update_chars f d i n =
     (if i < n then do { c \<leftarrow> mem_get d i; d' \<leftarrow> mem_set d i (f c); update_chars f d' (Suc i) n }
      else Some d)"
  by pat_completeness auto
termination
  by (relation "measure (\<lambda>(f, d, i, n). n - i)") auto

declare update_chars.simps [simp del]

definition replace_char :: "ustr \<Rightarrow> char \<Rightarrow> char \<Rightarrow> ustr option" where
  "replace_char u src tgt =
     (if src \<noteq> NUL \<and> tgt \<noteq> NUL then do {
        d \<leftarrow> update_chars (\<lambda>c. if c = src then tgt else c) (mpData u) 0 (mSize u);
        Some (u\<lparr>mpData := d\<rparr>)
      } else Some u)"

definition tolower :: "char \<Rightarrow> char" where
  "tolower c = (let n = of_char c :: nat in if 65 \<le> n \<and> n \<le> 90 then char_of (n + 32) else c)"

definition toupper :: "char \<Rightarrow> char" where
  "toupper c = (let n = of_char c :: nat in if 97 \<le> n \<and> n \<le> 122 then char_of (n - 32) else c)"

definition toLower :: "ustr \<Rightarrow> ustr option" where
  "toLower u = do { d \<leftarrow> update_chars tolower (mpData u) 0 (mSize u); Some (u\<lparr>mpData := d\<rparr>) }"

definition toUpper :: "ustr \<Rightarrow> ustr option" where
  "toUpper u = do { d \<leftarrow> update_chars toupper (mpData u) 0 (mSize u); Some (u\<lparr>mpData := d\<rparr>) }"

section \<open>Strip\<close>

datatype StripType = leading | trailing | both

definition is_strip_ws :: "char \<Rightarrow> bool" where
  "is_strip_ws c \<longleftrightarrow> c = CHR 0x09 \<or> c = CHR '' '' \<or> c = CHR 0x0A \<or> c = CHR 0x0D"

text \<open>
  The counting loops of \<open>strip\<close>: from the front, and from the back. The source counts
  in an \<^verbatim>\<open>unsigned int\<close>, which is exact for runs shorter than 4 GB.
\<close>

function count_leading :: "(char \<Rightarrow> bool) \<Rightarrow> bytes \<Rightarrow> nat \<Rightarrow> nat \<Rightarrow> nat option" where
  "count_leading p d k n =
     (if k < n then do { c \<leftarrow> mem_get d k; if p c then count_leading p d (Suc k) n else Some k }
      else Some k)"
  by pat_completeness auto
termination
  by (relation "measure (\<lambda>(p, d, k, n). n - k)") auto

function count_trailing :: "(char \<Rightarrow> bool) \<Rightarrow> bytes \<Rightarrow> nat \<Rightarrow> nat \<Rightarrow> nat option" where
  "count_trailing p d k n =
     (if k < n then do { c \<leftarrow> mem_get d (n - 1 - k); if p c then count_trailing p d (Suc k) n else Some k }
      else Some k)"
  by pat_completeness auto
termination
  by (relation "measure (\<lambda>(p, d, k, n). n - k)") auto

declare count_leading.simps [simp del] count_trailing.simps [simp del]

definition strip_front :: "(char \<Rightarrow> bool) \<Rightarrow> ustr \<Rightarrow> ustr option" where
  "strip_front p u = do {
     removeLeading \<leftarrow> count_leading p (mpData u) 0 (mSize u);
     if 0 < removeLeading then remove_n u 0 removeLeading else Some u }"

definition strip_back :: "(char \<Rightarrow> bool) \<Rightarrow> ustr \<Rightarrow> ustr option" where
  "strip_back p u = do {
     removeTrailing \<leftarrow> count_trailing p (mpData u) 0 (mSize u);
     if 0 < removeTrailing then remove_from u (sz_sub (mSize u) removeTrailing) else Some u }"

definition strip_leading_ws :: "ustr \<Rightarrow> ustr option" where
  "strip_leading_ws u = (if 0 < mSize u then strip_front is_strip_ws u else Some u)"

definition strip_trailing_ws :: "ustr \<Rightarrow> ustr option" where
  "strip_trailing_ws u = (if 0 < mSize u then strip_back is_strip_ws u else Some u)"

definition strip_ws :: "ustr \<Rightarrow> StripType \<Rightarrow> ustr option" where
  "strip_ws u t =
     (if 0 < mSize u then
        (case t of
           both \<Rightarrow> strip_leading_ws u \<bind> strip_trailing_ws
         | leading \<Rightarrow> strip_front is_strip_ws u
         | trailing \<Rightarrow> strip_back is_strip_ws u)
      else Some u)"

definition strip :: "ustr \<Rightarrow> ustr option" where
  "strip u = strip_ws u trailing"

definition strip_char :: "ustr \<Rightarrow> StripType \<Rightarrow> char \<Rightarrow> ustr option" where
  "strip_char u t toBeStriped =
     (if 0 < mSize u then do {
        u1 \<leftarrow> (if t = leading \<or> t = both then strip_front (\<lambda>c. c = toBeStriped) u else Some u);
        if t = trailing \<or> t = both then strip_back (\<lambda>c. c = toBeStriped) u1 else Some u1
      } else Some u)"

section \<open>Size\<close>

definition setLength :: "ustr \<Rightarrow> nat \<Rightarrow> ustr option" where
  "setLength u newLength =
     (if sz_add newLength 1 \<le> mCapacity u then do {
        d \<leftarrow> mem_set (mpData u) newLength NUL;
        Some (u\<lparr>mpData := d, mSize := newLength\<rparr>)
      } else None)"

function zero_fill :: "bytes \<Rightarrow> nat \<Rightarrow> nat \<Rightarrow> bytes option" where
  "zero_fill d i n =
     (if i < n then do { d' \<leftarrow> mem_set d i NUL; zero_fill d' (Suc i) n } else Some d)"
  by pat_completeness auto
termination
  by (relation "measure (\<lambda>(d, i, n). n - i)") auto

declare zero_fill.simps [simp del]

definition resize :: "ustr \<Rightarrow> nat \<Rightarrow> ustr option" where
  "resize u N =
     (if mSize u < N then do {
        u1 \<leftarrow> (if mCapacity u \<le> N then capacity u (sz_add N 1) else Some u);
        d \<leftarrow> zero_fill (mpData u1) (mSize u1) N;
        d' \<leftarrow> mem_set d N NUL;
        Some (u1\<lparr>mpData := d', mSize := N\<rparr>)
      } else remove_from u N)"

section \<open>Accessors\<close>

definition char_at :: "ustr \<Rightarrow> nat \<Rightarrow> char option" where
  "char_at u N = (if N < mSize u then mem_get (mpData u) N else Some NUL)"

definition substr :: "ustr \<Rightarrow> nat \<Rightarrow> nat \<Rightarrow> ustr option" where
  "substr u start len =
     (if start \<le> mSize u \<and> len = SIZE_MINUS_1
      then append_n UtlString_new (Some (drop start (mpData u))) (sz_sub (mSize u) start)
      else if start \<le> sz_add start len \<and> sz_add start len \<le> mSize u
      then append_n UtlString_new (Some (drop start (mpData u))) len
      else Some UtlString_new)"

text \<open>
  The search loops share one shape: the first position of \<open>pos\<close>, \<open>pos + 1\<close>, \<dots> below
  \<open>n\<close> where the test holds, or \<open>UTLSTRING_NOT_FOUND\<close>.
\<close>

function scan :: "(nat \<Rightarrow> bool option) \<Rightarrow> nat \<Rightarrow> nat \<Rightarrow> int option" where
  "scan test pos n =
     (if pos < n then do { b \<leftarrow> test pos; if b then Some (int pos) else scan test (Suc pos) n }
      else Some UTLSTRING_NOT_FOUND)"
  by pat_completeness auto
termination
  by (relation "measure (\<lambda>(test, pos, n). n - pos)") auto

declare scan.simps [simp del]

definition char_test :: "bytes \<Rightarrow> char \<Rightarrow> nat \<Rightarrow> bool option" where
  "char_test d searchChar pos = map_option (\<lambda>c. c = searchChar) (mem_get d pos)"

text \<open>\<open>memcmp (a, b, n) == 0\<close> on initialised bytes.\<close>

fun memcmp_eq :: "bytes \<Rightarrow> bytes \<Rightarrow> nat \<Rightarrow> bool option" where
  "memcmp_eq a b 0 = Some True"
| "memcmp_eq (Some x # a) (Some y # b) (Suc n) = (if x = y then memcmp_eq a b n else Some False)"
| "memcmp_eq a b (Suc n) = None"

text \<open>\<open>strncasecmp (a, b, n) == 0\<close>.\<close>

fun strncasecmp_eq :: "bytes \<Rightarrow> bytes \<Rightarrow> nat \<Rightarrow> bool option" where
  "strncasecmp_eq a b 0 = Some True"
| "strncasecmp_eq (Some x # a) (Some y # b) (Suc n) =
     (if tolower x \<noteq> tolower y then Some False
      else if x = NUL then Some True else strncasecmp_eq a b n)"
| "strncasecmp_eq a b (Suc n) = None"

datatype CompareCase = matchCase | ignoreCase

definition index_char :: "ustr \<Rightarrow> char \<Rightarrow> nat \<Rightarrow> int option" where
  "index_char u searchChar start = scan (char_test (mpData u) searchChar) start (mSize u)"

definition index_bytes :: "ustr \<Rightarrow> bytes \<Rightarrow> nat \<Rightarrow> nat \<Rightarrow> int option" where
  "index_bytes u needle searchStrSize start =
     (if searchStrSize \<le> mSize u
      then scan (\<lambda>pos. memcmp_eq (drop pos (mpData u)) needle searchStrSize)
             start (Suc (mSize u - searchStrSize))
      else Some UTLSTRING_NOT_FOUND)"

definition index_bytes_nocase :: "ustr \<Rightarrow> bytes \<Rightarrow> nat \<Rightarrow> nat \<Rightarrow> int option" where
  "index_bytes_nocase u needle searchStrSize start =
     (if searchStrSize \<le> mSize u
      then scan (\<lambda>pos. strncasecmp_eq (drop pos (mpData u)) needle searchStrSize)
             start (Suc (mSize u - searchStrSize))
      else Some UTLSTRING_NOT_FOUND)"

definition index_str :: "ustr \<Rightarrow> ustr \<Rightarrow> nat \<Rightarrow> int option" where
  "index_str u searchString start = index_bytes u (mpData searchString) (mSize searchString) start"

definition index_str_case :: "ustr \<Rightarrow> ustr \<Rightarrow> nat \<Rightarrow> CompareCase \<Rightarrow> int option" where
  "index_str_case u searchString start t =
     (if t = matchCase then index_str u searchString start
      else index_bytes_nocase u (mpData searchString) (mSize searchString) start)"

definition index_cstr :: "ustr \<Rightarrow> cptr \<Rightarrow> nat \<Rightarrow> int option" where
  "index_cstr u searchStr start =
     (case searchStr of
        None \<Rightarrow> Some UTLSTRING_NOT_FOUND
      | Some s \<Rightarrow> do { n \<leftarrow> strlen s; index_bytes u s n start })"

definition index_cstr_case :: "ustr \<Rightarrow> cptr \<Rightarrow> nat \<Rightarrow> CompareCase \<Rightarrow> int option" where
  "index_cstr_case u searchStr start t =
     (case searchStr of
        None \<Rightarrow> Some UTLSTRING_NOT_FOUND
      | Some s \<Rightarrow> do {
          n \<leftarrow> strlen s;
          if t = matchCase then index_cstr u searchStr start
          else index_bytes_nocase u s n start })"

function last_loop :: "bytes \<Rightarrow> char \<Rightarrow> nat \<Rightarrow> nat \<Rightarrow> int \<Rightarrow> int option" where
  "last_loop d searchChar pos n foundPosition =
     (if pos < n then do {
        c \<leftarrow> mem_get d pos;
        last_loop d searchChar (Suc pos) n (if c = searchChar then int pos else foundPosition)
      } else Some foundPosition)"
  by pat_completeness auto
termination
  by (relation "measure (\<lambda>(d, c, pos, n, f). n - pos)") auto

declare last_loop.simps [simp del]

definition last_char :: "ustr \<Rightarrow> char \<Rightarrow> int option" where
  "last_char u searchChar = last_loop (mpData u) searchChar 0 (mSize u) UTLSTRING_NOT_FOUND"

definition contains :: "ustr \<Rightarrow> cptr \<Rightarrow> bool option" where
  "contains u searchStr = map_option (\<lambda>i. i \<noteq> UTLSTRING_NOT_FOUND) (index_cstr u searchStr 0)"

definition isNull :: "ustr \<Rightarrow> bool" where
  "isNull u \<longleftrightarrow> mSize u = 0"

section \<open>Hash and comparison\<close>

text \<open>A plain \<open>char\<close> is signed on the platforms of the build.\<close>

definition char_int :: "char \<Rightarrow> int" where
  "char_int c = (let n = of_char c :: int in if n < 128 then n else n - 256)"

definition hash_step :: "32 word \<Rightarrow> char \<Rightarrow> 32 word" where
  "hash_step h c = push_bit 5 h - h + word_of_int (char_int c)"

fun hash_loop :: "bytes \<Rightarrow> nat \<Rightarrow> 32 word \<Rightarrow> 32 word option" where
  "hash_loop d 0 h = Some h"
| "hash_loop (Some c # d) (Suc n) h = hash_loop d n (hash_step h c)"
| "hash_loop d (Suc n) h = None"

definition hash :: "ustr \<Rightarrow> 32 word option" where
  "hash u = hash_loop (mpData u) (mSize u) 0"

text \<open>
  \<open>strcmp\<close> and \<open>strcasecmp\<close> compare as unsigned characters up to the first NUL; only
  the sign of their result is specified, which the model takes as \<open>-1\<close>, \<open>0\<close>, \<open>1\<close>.
\<close>

fun strcmp_by :: "(char \<Rightarrow> char) \<Rightarrow> bytes \<Rightarrow> bytes \<Rightarrow> int option" where
  "strcmp_by f (Some x # a) (Some y # b) =
     (if of_char (f x) < (of_char (f y) :: nat) then Some (-1)
      else if (of_char (f y) :: nat) < of_char (f x) then Some 1
      else if x = NUL then Some 0 else strcmp_by f a b)"
| "strcmp_by f a b = None"

definition strcmp :: "bytes \<Rightarrow> bytes \<Rightarrow> int option" where
  "strcmp = strcmp_by id"

definition strcasecmp :: "bytes \<Rightarrow> bytes \<Rightarrow> int option" where
  "strcasecmp = strcmp_by tolower"

definition compareTo_case :: "ustr \<Rightarrow> cptr \<Rightarrow> CompareCase \<Rightarrow> int option" where
  "compareTo_case u compareStr t =
     (let s = (case compareStr of None \<Rightarrow> cstr [] | Some s \<Rightarrow> s) in
      if t = matchCase then strcmp (mpData u) s else strcasecmp (mpData u) s)"

definition compareTo_cstr :: "ustr \<Rightarrow> cptr \<Rightarrow> int option" where
  "compareTo_cstr u compareStr =
     (case compareStr of
        None \<Rightarrow> Some (if 0 < mSize u then 1 else 0)
      | Some s \<Rightarrow> compareTo_case u compareStr matchCase)"

text \<open>
  Comparison with another containable: \<open>None\<close> is a null pointer or an object of another
  class.
\<close>

definition compareTo :: "ustr \<Rightarrow> ustr option \<Rightarrow> int option" where
  "compareTo u compareContainable =
     (case compareContainable of
        None \<Rightarrow> Some (-1)
      | Some c \<Rightarrow> compareTo_cstr u (Some (mpData c)))"

definition compareTo_str_case :: "ustr \<Rightarrow> ustr \<Rightarrow> CompareCase \<Rightarrow> int option" where
  "compareTo_str_case u compareStr t =
     (if mSize u = 0 \<or> mSize compareStr = 0 then
        Some (if mSize compareStr \<noteq> mSize u then (if mSize compareStr < mSize u then 1 else -1) else 0)
      else if t = matchCase then strcmp (mpData u) (mpData compareStr)
      else strcasecmp (mpData u) (mpData compareStr))"

definition isEqual :: "ustr \<Rightarrow> ustr option \<Rightarrow> bool option" where
  "isEqual u compareContainable = map_option (\<lambda>r. r = 0) (compareTo u compareContainable)"

definition eq_cstr :: "ustr \<Rightarrow> cptr \<Rightarrow> bool option" where
  "eq_cstr u compareStr = map_option (\<lambda>r. r = 0) (compareTo_cstr u compareStr)"

definition eq_str :: "ustr \<Rightarrow> ustr \<Rightarrow> bool option" where
  "eq_str u compareStr = map_option (\<lambda>r. r = 0) (compareTo_cstr u (Some (mpData compareStr)))"

definition eq_char :: "char \<Rightarrow> ustr \<Rightarrow> bool option" where
  "eq_char compareChar u =
     (if mSize u = 1 then map_option (\<lambda>c. c = compareChar) (mem_get (mpData u) 0) else Some False)"

section \<open>What a string object holds\<close>

text \<open>
  \<open>ustr_holds u s\<close>: the object holds the characters \<open>s\<close>, its sizes agree with its buffer
  and there is room for a terminator. \<open>ustr_ok u s\<close>: moreover the terminator is there, so
  that \<open>data()\<close> is a C string. The second is the invariant of the class; the first is
  what \<open>capacity\<close> leaves behind.
\<close>

definition ustr_holds :: "ustr \<Rightarrow> string \<Rightarrow> bool" where
  "ustr_holds u s \<longleftrightarrow>
     mSize u = length s \<and> length (mpData u) = mCapacity u \<and> length s < mCapacity u
     \<and> mCapacity u < SIZE_MOD \<and> take (length s) (mpData u) = map Some s"

definition ustr_ok :: "ustr \<Rightarrow> string \<Rightarrow> bool" where
  "ustr_ok u s \<longleftrightarrow> ustr_holds u s \<and> mpData u ! length s = Some NUL"

named_theorems ustr_intros \<open>total correctness of the string operations\<close>

lemma ustr_holds_iff:
  "ustr_holds u s \<longleftrightarrow>
     mSize u = length s \<and> mCapacity u = length (mpData u) \<and> mCapacity u < SIZE_MOD
     \<and> (\<exists>x rest. mpData u = map Some s @ x # rest)"
proof
  assume h: "ustr_holds u s"
  then have "mpData u = map Some s @ drop (length s) (mpData u)"
    unfolding ustr_holds_def by (metis append_take_drop_id)
  moreover have "drop (length s) (mpData u) \<noteq> []" using h by (simp add: ustr_holds_def)
  ultimately show "mSize u = length s \<and> mCapacity u = length (mpData u) \<and> mCapacity u < SIZE_MOD
     \<and> (\<exists>x rest. mpData u = map Some s @ x # rest)"
    using h by (metis neq_Nil_conv ustr_holds_def)
qed (auto simp: ustr_holds_def)

lemma ustr_ok_iff:
  "ustr_ok u s \<longleftrightarrow>
     mSize u = length s \<and> mCapacity u = length (mpData u) \<and> mCapacity u < SIZE_MOD
     \<and> (\<exists>rest. mpData u = map Some s @ Some NUL # rest)"
  by (auto simp: ustr_ok_def ustr_holds_iff nth_append)

lemma ustr_ok_holds: "ustr_ok u s \<Longrightarrow> ustr_holds u s"
  by (simp add: ustr_ok_def)

lemma ustr_ok_unique: "ustr_ok u s \<Longrightarrow> ustr_ok u t \<Longrightarrow> s = t"
  by (metis (mono_tags, lifting) inj_Some map_injective ustr_holds_def ustr_ok_def)

lemma ustr_ok_new: "ustr_ok UtlString_new []"
  by (simp add: ustr_ok_def ustr_holds_def UtlString_new_def DEFAULT_UTLSTRING_CAPACITY_def SIZE_MOD_def)

text \<open>
  Growing keeps the characters; the terminator survives only when nothing is reallocated
  or the string is empty.
\<close>

lemma capacity_holds:
  assumes "ustr_holds u s" and "N < SIZE_MOD"
  shows "returns (capacity u N) (\<lambda>u'. ustr_holds u' s \<and> N \<le> mCapacity u' \<and> mCapacity u \<le> mCapacity u'
           \<and> (ustr_ok u s \<and> (s = [] \<or> N \<le> mCapacity u) \<longrightarrow> ustr_ok u' s))"
proof (cases "mCapacity u < N")
  case False
  then show ?thesis using assms by (simp add: capacity_def)
next
  case True
  define N' where "N' = (if N < sz_add (mCapacity u) UTLSTRING_MIN_INCREMENT
                  then sz_add (mCapacity u) UTLSTRING_MIN_INCREMENT else N)"
  have N': "N \<le> N'" "N' < SIZE_MOD" using assms(2) by (auto simp: N'_def sz_add_def)
  obtain x rest where d: "mpData u = map Some s @ x # rest" and sz: "mSize u = length s"
    and cap: "mCapacity u = length (mpData u)"
    using assms(1) by (auto simp: ustr_holds_iff)
  have len: "length s < N'" using True N'(1) by (simp add: cap d)
  then obtain M where M: "N' = length s + Suc M" by (metis add_Suc_right less_imp_Suc_add)
  have rd: "mem_read (mpData u) 0 (length s) = Some (map Some s)" by (simp add: mem_read_def d)
  have wr: "mem_write (replicate N' None) 0 (map Some s) = Some (map Some s @ replicate (Suc M) None)"
    by (simp add: mem_write_def M drop_replicate del: replicate_Suc)
  show ?thesis
  proof (cases "s = []")
    case True
    have "mem_set (replicate N' None) 0 NUL = Some (Some NUL # replicate M None)"
      using True by (simp add: mem_set_def M)
    then have "capacity u N = Some (u\<lparr>mpData := Some NUL # replicate M None, mCapacity := N', isBuiltIn := False\<rparr>)"
      using \<open>mCapacity u < N\<close> True sz by (simp add: capacity_def N'_def [symmetric])
    then show ?thesis using N' M True sz \<open>mCapacity u < N\<close> by (simp add: ustr_ok_iff ustr_holds_iff)
  next
    case False
    have "capacity u N = Some (u\<lparr>mpData := map Some s @ replicate (Suc M) None, mCapacity := N', isBuiltIn := False\<rparr>)"
      using \<open>mCapacity u < N\<close> False sz rd wr by (simp add: capacity_def N'_def [symmetric])
    then show ?thesis using N' M False sz \<open>mCapacity u < N\<close> by (simp add: ustr_holds_iff)
  qed
qed

lemma ustr_with_room:
  assumes "ustr_holds u s" and "length s + Suc n \<le> mCapacity u"
  obtains old y rest where "mpData u = map Some s @ old @ y # rest" and "length old = n"
proof -
  obtain r where r: "mpData u = map Some s @ r"
    using assms(1) by (auto simp: ustr_holds_iff)
  have "length r = mCapacity u - length s" using assms(1) r by (auto simp: ustr_holds_iff)
  then have "n < length r" using assms(2) by simp
  then have "r = take n r @ r ! n # drop (Suc n) r" and "length (take n r) = n"
    by (simp_all add: id_take_nth_drop)
  then show ?thesis using that r by metis
qed

lemma append_n_nonempty:
  assumes "ustr_holds u s" and "t \<noteq> []" and "Suc (length s + length t) < SIZE_MOD"
  shows "returns (append_n u (Some (map Some t @ tail)) (length t)) (\<lambda>u'. ustr_ok u' (s @ t))"
proof -
  have sz: "mSize u = length s" using assms(1) by (simp add: ustr_holds_def)
  have add: "sz_add (length s) (length t) = length s + length t"
    using assms(3) by (simp add: sz_simps)
  have cap: "sz_add (length s + length t) (Suc 0) = Suc (length s + length t)"
    using assms(3) by (simp add: sz_simps)
  have ne: "length t \<noteq> SIZE_MINUS_1" using assms(2,3) by (auto simp: SIZE_MINUS_1_def)
  have "returns (capacity u (Suc (length s + length t)))
          (\<lambda>u'. ustr_holds u' s \<and> Suc (length s + length t) \<le> mCapacity u')"
    by (rule returns_mono [OF capacity_holds [OF assms(1,3)]]) simp
  then obtain u1 where u1: "capacity u (Suc (length s + length t)) = Some u1"
    and h1: "ustr_holds u1 s" and c1: "Suc (length s + length t) \<le> mCapacity u1"
    by (auto simp: returns_iff)
  obtain old y rest where d: "mpData u1 = map Some s @ old @ y # rest" and lo: "length old = length t"
    using ustr_with_room [OF h1, of "length t"] c1 by auto
  have sz1: "mSize u1 = length s" using h1 by (simp add: ustr_holds_def)
  have rd: "mem_read (map Some t @ tail) 0 (length t) = Some (map Some t)" by (simp add: mem_read_def)
  have wr: "mem_write (mpData u1) (length s) (map Some t) = Some (map Some s @ map Some t @ y # rest)"
    using mem_write_split [of "map Some t" "old @ y # rest" "map Some s"] lo by (simp add: d)
  have st: "mem_set (map Some s @ map Some t @ y # rest) (length s + length t) NUL
              = Some (map Some s @ map Some t @ Some NUL # rest)"
    using mem_set_split [of "map Some s @ map Some t" y rest NUL] by simp
  have "append_n u (Some (map Some t @ tail)) (length t) =
          Some (u1\<lparr>mpData := map Some s @ map Some t @ Some NUL # rest, mSize := length s + length t\<rparr>)"
    using assms(2) by (simp add: append_n_def sz add cap ne u1 c1 rd sz1 wr st Let_def)
  moreover have "mCapacity u1 = length (mpData u1)" and "mCapacity u1 < SIZE_MOD"
    using h1 by (auto simp: ustr_holds_iff)
  ultimately show ?thesis using d lo by (simp add: ustr_ok_iff)
qed

lemma append_n_ok [ustr_intros]:
  assumes "ustr_ok u s" and "Suc (length s + length t) < SIZE_MOD"
  shows "returns (append_n u (Some (map Some t @ tail)) (length t)) (\<lambda>u'. ustr_ok u' (s @ t))"
proof (cases "t = []")
  case True
  then show ?thesis using assms by (simp add: append_n_def)
next
  case False
  then show ?thesis using append_n_nonempty assms ustr_ok_holds by blast
qed

lemma append_cstr_ok [ustr_intros]:
  assumes "ustr_ok u s" and "Suc (length s + length t) < SIZE_MOD"
  shows "returns (append_cstr u (Some (map Some t @ Some NUL # tail))) (\<lambda>u'. ustr_ok u' (s @ c_prefix t))"
proof -
  have le: "length (c_prefix t) \<le> length t" by (simp add: c_prefix_def length_takeWhile_le)
  define tail' where "tail' = map Some (dropWhile (\<lambda>c. c \<noteq> NUL) t) @ Some NUL # tail"
  have tt: "map Some t @ Some NUL # tail = map Some (c_prefix t) @ tail'"
    by (simp add: tail'_def c_prefix_def flip: map_append append_assoc)
  have "strlen (map Some (c_prefix t) @ tail') = Some (length (c_prefix t))"
    unfolding tt [symmetric] by (rule strlen_c_prefix)
  moreover have "returns (append_n u (Some (map Some (c_prefix t) @ tail')) (length (c_prefix t)))
                   (\<lambda>u'. ustr_ok u' (s @ c_prefix t))"
    using assms(2) le by (intro append_n_ok [OF assms(1)]) simp
  ultimately show ?thesis by (simp add: append_cstr_def tt)
qed

lemma append_str_ok [ustr_intros]:
  assumes "ustr_ok u s" and "ustr_ok v t" and "Suc (length s + length t) < SIZE_MOD"
  shows "returns (append_str u v) (\<lambda>u'. ustr_ok u' (s @ t))"
proof -
  obtain rest where "mpData v = map Some t @ Some NUL # rest" and "mSize v = length t"
    using assms(2) by (auto simp: ustr_ok_iff)
  then show ?thesis using append_n_ok [OF assms(1,3)] by (simp add: append_str_def)
qed

lemma append_char_ok [ustr_intros]:
  assumes "ustr_ok u s" and "Suc (Suc (length s)) < SIZE_MOD"
  shows "returns (append_char u c) (\<lambda>u'. ustr_ok u' (s @ [c]))"
  using append_n_ok [OF assms(1), of "[c]" "[]"] assms(2) by (simp add: append_char_def)

lemma append_tail_ok [ustr_intros]:
  assumes "ustr_ok u s" and "ustr_ok v t" and "p + n \<le> length t" and "Suc (length s + n) < SIZE_MOD"
  shows "returns (append_n u (Some (drop p (mpData v))) n) (\<lambda>u'. ustr_ok u' (s @ take n (drop p t)))"
proof -
  obtain rest where d: "mpData v = map Some t @ Some NUL # rest"
    using assms(2) by (auto simp: ustr_ok_iff)
  define x where "x = take n (drop p t)"
  have len: "length x = n" using assms(3) by (simp add: x_def)
  have "drop p (map Some t @ Some NUL # rest) = map Some (drop p t) @ Some NUL # rest"
    using assms(3) by (simp add: drop_map)
  also have "\<dots> = map Some x @ map Some (drop n (drop p t)) @ Some NUL # rest"
    unfolding x_def append_assoc [symmetric] map_append [symmetric] by (simp only: append_take_drop_id)
  finally have "drop p (mpData v) = map Some x @ map Some (drop n (drop p t)) @ Some NUL # rest"
    by (simp add: d)
  then show ?thesis
    using append_n_ok [OF assms(1), of x "map Some (drop n (drop p t)) @ Some NUL # rest"] assms(4) len
    by (simp add: x_def)
qed

lemma append_sub_ok [ustr_intros]:
  assumes "ustr_ok u s" and "ustr_ok v t" and "Suc (length s + length t) < SIZE_MOD"
    and "len = SIZE_MINUS_1 \<or> position + len < SIZE_MOD"
  shows "returns (append_sub u v position len) (\<lambda>u'. ustr_ok u' (s @ take len (drop position t)))"
proof (cases "position < length t")
  case False
  then show ?thesis using assms by (simp add: append_sub_def ustr_ok_iff)
next
  case True
  have sz: "mSize v = length t" and lt: "length t < SIZE_MOD"
    using assms(2) by (auto simp: ustr_ok_iff)
  have sub: "sz_sub (length t) position = length t - position"
    using True lt by (simp add: sz_simps)
  have all: "returns (append_n u (Some (drop position (mpData v))) (length t - position))
               (\<lambda>u'. ustr_ok u' (s @ drop position t))"
    using append_tail_ok [OF assms(1,2), of position "length t - position"] True assms(3) by simp
  show ?thesis
  proof (cases "len = SIZE_MINUS_1 \<or> length t < sz_add position len")
    case long: True
    then have "length t - position \<le> len"
      using assms(4) lt True by (auto simp: SIZE_MINUS_1_def sz_simps)
    then show ?thesis using all True long sz sub by (simp add: append_sub_def)
  next
    case False
    then have "position + len \<le> length t" using assms(4) by (auto simp: sz_simps)
    then show ?thesis
      using append_tail_ok [OF assms(1,2), of position len] True False sz assms(3)
      by (simp add: append_sub_def)
  qed
qed

section \<open>Removing\<close>

lemma remove_from_ok [ustr_intros]:
  assumes "ustr_ok u s"
  shows "returns (remove_from u pos) (\<lambda>u'. ustr_ok u' (take pos s))"
proof (cases "pos < length s")
  case False
  then show ?thesis using assms by (simp add: remove_from_def ustr_ok_iff)
next
  case True
  obtain rest where d: "mpData u = map Some s @ Some NUL # rest" and sz: "mSize u = length s"
    using assms by (auto simp: ustr_ok_iff)
  have "map Some s = map Some (take pos s) @ Some (s ! pos) # map Some (drop (Suc pos) s)"
    using True by (metis id_take_nth_drop list.simps(9) map_append)
  then have "mem_set (mpData u) pos NUL =
          Some (map Some (take pos s) @ Some NUL # map Some (drop (Suc pos) s) @ Some NUL # rest)"
    using mem_set_split [of "map Some (take pos s)" "Some (s ! pos)"
        "map Some (drop (Suc pos) s) @ Some NUL # rest" NUL] True d by (simp add: min_def)
  then show ?thesis using True sz assms d by (auto simp: remove_from_def ustr_ok_iff min_def)
qed

lemma remove_n_ok [ustr_intros]:
  assumes "ustr_ok u s" and "pos + N \<le> length s"
  shows "returns (remove_n u pos N) (\<lambda>u'. ustr_ok u' (take pos s @ drop (pos + N) s))"
proof (cases "N = 0")
  case True
  then show ?thesis using assms by (simp add: remove_n_def)
next
  case False
  define a where "a = take pos s"
  define b where "b = take N (drop pos s)"
  define c where "c = drop (pos + N) s"
  have s: "s = a @ b @ c"
    by (metis a_def b_def c_def add.commute append_take_drop_id drop_drop)
  have la: "length a = pos" and lb: "length b = N" using assms(2) by (simp_all add: a_def b_def)
  obtain rest where d: "mpData u = map Some s @ Some NUL # rest" and sz: "mSize u = length s"
    and lt: "Suc (length s) < SIZE_MOD"
    using assms(1) by (auto simp: ustr_ok_iff)
  have ar: "sz_sub (length s) pos = length s - pos" "sz_add pos N = pos + N"
    "sz_sub (length s) (pos + N) = length c" "sz_add (length c) (Suc 0) = Suc (length c)"
    "sz_sub (length s) N = pos + length c"
    using assms(2) lt by (auto simp: sz_simps s la lb)
  have rd: "mem_read (mpData u) (pos + N) (Suc (length c)) = Some (map Some c @ [Some NUL])"
    using mem_read_split [of "Suc (length c)" "map Some c @ Some NUL # rest" "map Some a @ map Some b"]
    by (simp add: d s la lb)
  obtain X where "mem_write (mpData u) pos (map Some c @ [Some NUL]) = Some (map Some a @ (map Some c @ [Some NUL]) @ X)"
    using mem_write_split [of "map Some c @ [Some NUL]" "map Some b @ map Some c @ Some NUL # rest" "map Some a"]
    by (simp add: d s la)
  moreover have "mem_set (map Some a @ (map Some c @ [Some NUL]) @ X) (pos + length c) NUL =
                   Some (map Some a @ map Some c @ Some NUL # X)"
    using mem_set_split [of "map Some a @ map Some c" "Some NUL" X NUL] by (simp add: la)
  ultimately have eq: "remove_n u pos N =
      Some (u\<lparr>mpData := map Some a @ map Some c @ Some NUL # X, mSize := pos + length c\<rparr>)"
    using False assms(2) sz by (simp add: remove_n_def ar rd Let_def)
  have "length (map Some a @ (map Some c @ [Some NUL]) @ X) = length (mpData u)"
    using \<open>mem_write _ _ _ = _\<close> by (rule length_mem_write)
  then show ?thesis
    using assms(1) by (simp add: eq ustr_ok_iff la flip: a_def c_def)
qed

section \<open>Inserting\<close>

lemma insert_n_ok [ustr_intros]:
  assumes "ustr_ok u s" and "pos \<le> length s" and "Suc (length s + length t) < SIZE_MOD"
  shows "returns (insert_n u pos (map Some t @ tail) (length t))
           (\<lambda>u'. ustr_ok u' (take pos s @ t @ drop pos s))"
proof -
  define a where "a = take pos s"
  define c where "c = drop pos s"
  have s: "s = a @ c" and la: "length a = pos" using assms(2) by (simp_all add: a_def c_def)
  have sz: "mSize u = length s" using assms(1) by (simp add: ustr_ok_iff)
  have ar: "sz_add (length s) (length t) = length s + length t"
    "sz_add (length s + length t) (Suc 0) = Suc (length s + length t)"
    "sz_sub (length s) pos = length c" "sz_add pos (length t) = pos + length t"
    using assms(2,3) by (auto simp: sz_simps s la)
  have "returns (if mCapacity u < Suc (length s + length t) then capacity u (Suc (length s + length t)) else Some u)
          (\<lambda>u'. ustr_holds u' s \<and> Suc (length s + length t) \<le> mCapacity u')"
    using capacity_holds [OF ustr_ok_holds [OF assms(1)] assms(3)] ustr_ok_holds [OF assms(1)]
    by (auto elim: returns_mono)
  then obtain u1 where u1: "(if mCapacity u < Suc (length s + length t)
        then capacity u (Suc (length s + length t)) else Some u) = Some u1"
    and h1: "ustr_holds u1 s" and c1: "Suc (length s + length t) \<le> mCapacity u1"
    by (auto simp: returns_iff)
  obtain old y rest where d: "mpData u1 = map Some s @ old @ y # rest" and lo: "length old = length t"
    using ustr_with_room [OF h1, of "length t"] c1 by auto
  have sz1: "mSize u1 = length s" using h1 by (simp add: ustr_holds_def)
  obtain X Y where XY: "map Some c @ old = X @ Y" and lX: "length X = length t" and lY: "length Y = length c"
  proof
    show "map Some c @ old = take (length t) (map Some c @ old) @ drop (length t) (map Some c @ old)"
      by (simp only: append_take_drop_id)
  qed (use lo in simp_all)
  have rd: "mem_read (mpData u1) pos (length c) = Some (map Some c)"
    using mem_read_split [of "length c" "map Some c @ old @ y # rest" "map Some a"] by (simp add: d s la)
  have "mem_write (map Some a @ X @ Y @ y # rest) (pos + length t) (map Some c)
          = Some (map Some a @ X @ map Some c @ y # rest)"
    using mem_write_split [of "map Some c" "Y @ y # rest" "map Some a @ X"] lX lY by (simp add: la)
  moreover have "mpData u1 = map Some a @ X @ Y @ y # rest"
    unfolding d s map_append append_assoc same_append_eq by (metis XY append_assoc)
  ultimately have wr: "mem_write (mpData u1) (pos + length t) (map Some c)
          = Some (map Some a @ X @ map Some c @ y # rest)" by simp
  have rd2: "mem_read (map Some t @ tail) 0 (length t) = Some (map Some t)" by (simp add: mem_read_def)
  have wr2: "mem_write (map Some a @ X @ map Some c @ y # rest) pos (map Some t)
          = Some (map Some a @ map Some t @ map Some c @ y # rest)"
    using mem_write_split [of "map Some t" "X @ map Some c @ y # rest" "map Some a"] lX by (simp add: la)
  have st: "mem_set (map Some a @ map Some t @ map Some c @ y # rest) (length s + length t) NUL
          = Some (map Some a @ map Some t @ map Some c @ Some NUL # rest)"
    using mem_set_split [of "map Some a @ map Some t @ map Some c" y rest NUL] by (simp add: s add.commute add.left_commute)
  have "insert_n u pos (map Some t @ tail) (length t) =
      Some (u1\<lparr>mpData := map Some a @ map Some t @ map Some c @ Some NUL # rest, mSize := length s + length t\<rparr>)"
    using assms(2) by (simp add: insert_n_def sz ar u1 sz1 rd wr rd2 wr2 st Let_def)
  moreover have "mCapacity u1 = length (mpData u1)" "mCapacity u1 < SIZE_MOD" using h1 by (auto simp: ustr_holds_iff)
  ultimately show ?thesis using d lo by (simp add: ustr_ok_iff s la)
qed

lemma insert_str_ok [ustr_intros]:
  assumes "ustr_ok u s" and "ustr_ok v t" and "pos \<le> length s" and "Suc (length s + length t) < SIZE_MOD"
  shows "returns (insert_str u pos v) (\<lambda>u'. ustr_ok u' (take pos s @ t @ drop pos s))"
proof (cases "t = []")
  case True
  then show ?thesis using assms by (auto simp: insert_str_def ustr_ok_iff)
next
  case False
  obtain rest where "mpData v = map Some t @ Some NUL # rest" "mSize v = length t"
    using assms(2) by (auto simp: ustr_ok_iff)
  moreover have "mSize u = length s" using assms(1) by (simp add: ustr_ok_iff)
  ultimately show ?thesis
    using False assms(3) insert_n_ok [OF assms(1,3,4)] by (simp add: insert_str_def)
qed

section \<open>Assignment, prepending, replacing\<close>

lemma assign_ok [ustr_intros]:
  assumes "ustr_ok u s" and "ustr_ok v t" and "Suc (length t) < SIZE_MOD"
  shows "returns (assign u v) (\<lambda>u'. ustr_ok u' t)"
proof -
  obtain rest where d: "mpData v = map Some t @ Some NUL # rest" "mSize v = length t"
    and cap: "mCapacity v < SIZE_MOD"
    using assms(2) by (auto simp: ustr_ok_iff)
  have grow: "returns (if mCapacity u1 < mCapacity v then capacity u1 (mCapacity v) else Some u1) (\<lambda>u'. ustr_ok u' [])"
    if "ustr_ok u1 []" for u1
    using that returns_mono [OF capacity_holds [OF ustr_ok_holds [OF that] cap]] by auto
  have fill: "returns (append_n u2 (Some (mpData v)) (mSize v)) (\<lambda>u'. ustr_ok u' t)"
    if "ustr_ok u2 []" for u2
    using append_n_ok [OF that, of t] assms(3) d by simp
  show ?thesis
    unfolding assign_def
  proof (rule returns_bind [OF remove_from_ok [OF assms(1)]])
    fix u1 assume "ustr_ok u1 (take 0 s)"
    then have "ustr_ok u1 []" by simp
    then show "returns ((if mCapacity u1 < mCapacity v then capacity u1 (mCapacity v) else Some u1)
                 \<bind> (\<lambda>u2. append_n u2 (Some (mpData v)) (mSize v))) (\<lambda>u'. ustr_ok u' t)"
      by (rule returns_bind [OF grow fill])
  qed
qed

lemma prepend_ok [ustr_intros]:
  assumes "ustr_ok u s" and "Suc (length t + length s) < SIZE_MOD"
  shows "returns (prepend u (Some (map Some t @ Some NUL # tail))) (\<lambda>u'. ustr_ok u' (c_prefix t @ c_prefix s))"
proof -
  have le: "length (c_prefix x) \<le> length x" for x by (simp add: c_prefix_def length_takeWhile_le)
  obtain rest where d: "mpData u = map Some s @ Some NUL # rest" using assms(1) by (auto simp: ustr_ok_iff)
  have 1: "returns (append_cstr UtlString_new (Some (map Some t @ Some NUL # tail))) (\<lambda>u'. ustr_ok u' (c_prefix t))"
    using append_cstr_ok [OF ustr_ok_new, of t] assms(2) by simp
  have 2: "returns (append_cstr n1 (Some (mpData u))) (\<lambda>u'. ustr_ok u' (c_prefix t @ c_prefix s))"
    if "ustr_ok n1 (c_prefix t)" for n1
    using append_cstr_ok [OF that, of s] assms(2) le [of t] by (simp add: d)
  have 3: "returns (append_str u1 n2) (\<lambda>u'. ustr_ok u' (c_prefix t @ c_prefix s))"
    if "ustr_ok u1 []" and "ustr_ok n2 (c_prefix t @ c_prefix s)" for u1 n2
    using append_str_ok [OF that] assms(2) le [of t] le [of s] by simp
  show ?thesis
    unfolding prepend_def
    by (rule returns_bind [OF 1], rule returns_bind [OF 2], assumption,
        rule returns_bind [OF remove_from_ok [OF assms(1)]]) (auto intro: 3)
qed

text \<open>
  \<open>replace\<close> on a range inside the string, for sizes below 2 GB (the source converts the
  number of remaining characters to \<open>int\<close>).
\<close>

lemma replace_n_ok [ustr_intros]:
  assumes "ustr_ok u s" and "pos + N \<le> length s" and "length s < 2 ^ 31" and "length t < 2 ^ 31"
    and "nul_free t" and "L \<le> length t"
  shows "returns (replace_n u pos N (Some (cstr t)) L)
           (\<lambda>u'. ustr_ok u' (take pos s @ take L t @ drop (pos + N) s))"
proof -
  have big: "x < 2 ^ 32 \<Longrightarrow> x < SIZE_MOD" for x by (simp add: SIZE_MOD_def)
  define c where "c = drop (pos + N) s"
  have lens: "length s = pos + N + length c" using assms(2) by (simp add: c_def)
  have room: "Suc (length s + length t) < SIZE_MOD" using assms(3,4) by (intro big) simp
  have sz: "mSize u = length s" using assms(1) by (simp add: ustr_ok_iff)
  have ar: "sz_sub (length s) N = pos + length c" "sz_sub (pos + length c) pos = length c"
    "sz_add pos N = pos + N" "sz_int (length c) = int (length c)"
    using assms(3) lens big by (auto simp: sz_simps sz_int_small)
  have t: "cstr t = map Some (take L t) @ map Some (drop L t) @ [Some NUL]"
    by (simp add: cstr_def flip: map_append append_assoc)
  have 1: "returns (append_n UtlString_new (Some (mpData u)) pos) (\<lambda>n. ustr_ok n (take pos s))"
    using append_tail_ok [OF ustr_ok_new assms(1), of 0 pos] assms(2) room by simp
  have 2: "returns (append_n n1 (Some (cstr t)) L) (\<lambda>n. ustr_ok n (take pos s @ take L t))"
    if "ustr_ok n1 (take pos s)" for n1
    using append_n_ok [OF that, of "take L t"] assms(2,6) room unfolding t by (simp add: min_absorb2)
  have 3: "returns (if 0 < sz_int (length c) then append_n n2 (Some (drop (pos + N) (mpData u))) (length c) else Some n2)
             (\<lambda>n. ustr_ok n (take pos s @ take L t @ c))"
    if n2: "ustr_ok n2 (take pos s @ take L t)" for n2
  proof -
    have "length (take pos s @ take L t) = pos + L" using assms(6) lens by simp
    then have "returns (append_n n2 (Some (drop (pos + N) (mpData u))) (length c))
        (\<lambda>n. ustr_ok n ((take pos s @ take L t) @ take (length c) (drop (pos + N) s)))"
      using lens room assms(6) by (intro append_tail_ok [OF n2 assms(1)]) simp_all
    then show ?thesis using n2 unfolding ar(4) c_def [symmetric] by simp
  qed
  have 4: "returns (append_str u1 n3) (\<lambda>u'. ustr_ok u' (take pos s @ take L t @ c))"
    if "ustr_ok u1 []" and "ustr_ok n3 (take pos s @ take L t @ c)" for u1 n3
    using append_str_ok [OF that] assms(6) room lens by simp
  show ?thesis
    unfolding replace_n_def Let_def option.case sz ar(1-3) strlen_cstr [OF assms(5)] bind.bind_lunit
      c_def [symmetric] if_P [OF assms(6)]
  proof (rule returns_bind [OF 1], rule returns_bind [OF 2], assumption,
      rule returns_bind [OF 3], assumption, rule returns_bind [OF remove_from_ok [OF assms(1)]])
    fix u1 n3
    assume "ustr_ok u1 (take 0 s)" and "ustr_ok n3 (take pos s @ take L t @ c)"
    then show "returns (append_str u1 n3) (\<lambda>u'. ustr_ok u' (take pos s @ take L t @ c))"
      using 4 by simp
  qed
qed

section \<open>Loops over the characters\<close>

lemma update_chars_Some:
  "i \<le> length s \<Longrightarrow>
     update_chars f (map Some s @ bs) i (length s) = Some (map Some (take i s @ map f (drop i s)) @ bs)"
proof (induction "length s - i" arbitrary: i s)
  case 0
  then show ?case by (subst update_chars.simps) simp
next
  case (Suc n)
  then have i: "i < length s" by simp
  have IH: "update_chars f (map Some (s[i := f (s ! i)]) @ bs) (Suc i) (length s)
      = Some (map Some (take (Suc i) (s[i := f (s ! i)]) @ map f (drop (Suc i) s)) @ bs)"
    using Suc.hyps(1) [of "s[i := f (s ! i)]" "Suc i"] Suc.hyps(2) i by simp
  have "take (Suc i) (s[i := f (s ! i)]) @ map f (drop (Suc i) s) = take i s @ map f (drop i s)"
    using i by (simp add: take_Suc_conv_app_nth Cons_nth_drop_Suc [symmetric])
  then show ?case
    using i IH by (subst update_chars.simps) (simp add: mem_get_Some mem_set_Some)
qed

lemma update_chars_ok:
  assumes "ustr_ok u s"
  shows "returns (do { d \<leftarrow> update_chars f (mpData u) 0 (mSize u); Some (u\<lparr>mpData := d\<rparr>) })
           (\<lambda>u'. ustr_ok u' (map f s))"
proof -
  obtain rest where d: "mpData u = map Some s @ Some NUL # rest" and sz: "mSize u = length s"
    using assms by (auto simp: ustr_ok_iff)
  have "update_chars f (mpData u) 0 (mSize u) = Some (map Some (map f s) @ Some NUL # rest)"
    using update_chars_Some [of 0 s f "Some NUL # rest"] by (simp add: d sz)
  then show ?thesis using assms by (auto simp: ustr_ok_iff d)
qed

lemma replace_char_ok [ustr_intros]:
  assumes "ustr_ok u s" and "src \<noteq> NUL" and "tgt \<noteq> NUL"
  shows "returns (replace_char u src tgt) (\<lambda>u'. ustr_ok u' (map (\<lambda>c. if c = src then tgt else c) s))"
  using update_chars_ok [OF assms(1)] assms(2,3) by (simp add: replace_char_def)

lemma toLower_ok [ustr_intros]: "ustr_ok u s \<Longrightarrow> returns (toLower u) (\<lambda>u'. ustr_ok u' (map tolower s))"
  unfolding toLower_def by (rule update_chars_ok)

lemma toUpper_ok [ustr_intros]: "ustr_ok u s \<Longrightarrow> returns (toUpper u) (\<lambda>u'. ustr_ok u' (map toupper s))"
  unfolding toUpper_def by (rule update_chars_ok)

lemma count_leading_Some:
  "k \<le> length s \<Longrightarrow>
     count_leading p (map Some s @ bs) k (length s) = Some (k + length (takeWhile p (drop k s)))"
proof (induction "length s - k" arbitrary: k)
  case 0
  then show ?case by (subst count_leading.simps) simp
next
  case (Suc n)
  then have k: "k < length s" by simp
  then have "drop k s = s ! k # drop (Suc k) s" by (simp add: Cons_nth_drop_Suc)
  then show ?case
    using k Suc.hyps(1) [of "Suc k"] Suc.hyps(2) by (subst count_leading.simps) (simp add: mem_get_Some)
qed

lemma count_trailing_Some:
  "k \<le> length s \<Longrightarrow>
     count_trailing p (map Some s @ bs) k (length s) = Some (k + length (takeWhile p (drop k (rev s))))"
proof (induction "length s - k" arbitrary: k)
  case 0
  then show ?case by (subst count_trailing.simps) simp
next
  case (Suc n)
  then have k: "k < length s" by simp
  then have "drop k (rev s) = s ! (length s - 1 - k) # drop (Suc k) (rev s)"
    by (simp add: Cons_nth_drop_Suc [symmetric] rev_nth)
  then show ?case
    using k Suc.hyps(1) [of "Suc k"] Suc.hyps(2) by (subst count_trailing.simps) (simp add: mem_get_Some)
qed

definition drop_back :: "(char \<Rightarrow> bool) \<Rightarrow> string \<Rightarrow> string" where
  "drop_back p s = rev (dropWhile p (rev s))"

lemma strip_front_ok:
  assumes "ustr_ok u s"
  shows "returns (strip_front p u) (\<lambda>u'. ustr_ok u' (dropWhile p s))"
proof -
  obtain rest where d: "mpData u = map Some s @ Some NUL # rest" and sz: "mSize u = length s"
    using assms by (auto simp: ustr_ok_iff)
  define n where "n = length (takeWhile p s)"
  have c: "count_leading p (mpData u) 0 (mSize u) = Some n"
    using count_leading_Some [of 0 s p] by (simp add: d sz n_def)
  have "returns (remove_n u 0 n) (\<lambda>u'. ustr_ok u' (drop n s))"
    using remove_n_ok [OF assms, of 0 n] by (simp add: n_def length_takeWhile_le)
  then show ?thesis
    using assms by (cases "n = 0") (auto simp: strip_front_def c n_def dropWhile_eq_drop)
qed

lemma strip_back_ok:
  assumes "ustr_ok u s"
  shows "returns (strip_back p u) (\<lambda>u'. ustr_ok u' (drop_back p s))"
proof -
  obtain rest where d: "mpData u = map Some s @ Some NUL # rest" and sz: "mSize u = length s"
    and lt: "length s < SIZE_MOD"
    using assms by (auto simp: ustr_ok_iff)
  define n where "n = length (takeWhile p (rev s))"
  have n: "n \<le> length s" using length_takeWhile_le [of p "rev s"] by (simp add: n_def)
  have c: "count_trailing p (mpData u) 0 (length s) = Some n"
    using count_trailing_Some [of 0 s p] by (simp add: d n_def)
  have eq: "take (length s - n) s = drop_back p s"
    unfolding drop_back_def dropWhile_eq_drop n_def [symmetric] by (simp add: rev_drop)
  have "returns (remove_from u (length s - n)) (\<lambda>u'. ustr_ok u' (drop_back p s))"
    using remove_from_ok [OF assms, of "length s - n"] by (simp add: eq)
  then show ?thesis
    using assms n lt eq by (cases "n = 0") (auto simp: strip_back_def c sz sz_simps)
qed

lemma drop_back_Nil [simp]: "drop_back p [] = []"
  by (simp add: drop_back_def)

fun strip_spec :: "(char \<Rightarrow> bool) \<Rightarrow> StripType \<Rightarrow> string \<Rightarrow> string" where
  "strip_spec p leading s = dropWhile p s"
| "strip_spec p trailing s = drop_back p s"
| "strip_spec p both s = drop_back p (dropWhile p s)"

lemma strip_ws_ok [ustr_intros]:
  assumes "ustr_ok u s"
  shows "returns (strip_ws u t) (\<lambda>u'. ustr_ok u' (strip_spec is_strip_ws t s))"
proof (cases "s = []")
  case True
  then show ?thesis using assms by (cases t) (simp_all add: strip_ws_def ustr_ok_iff)
next
  case False
  have tr: "returns (strip_trailing_ws v) (\<lambda>u'. ustr_ok u' (drop_back is_strip_ws x))" if "ustr_ok v x" for v x
    using strip_back_ok [OF that] that by (auto simp: strip_trailing_ws_def ustr_ok_iff)
  have "0 < mSize u" using False assms by (simp add: ustr_ok_iff)
  then show ?thesis
    using strip_front_ok [OF assms] strip_back_ok [OF assms]
    by (cases t) (auto simp: strip_ws_def strip_leading_ws_def intro: returns_bind [OF strip_front_ok [OF assms] tr])
qed

lemma strip_char_ok [ustr_intros]:
  assumes "ustr_ok u s"
  shows "returns (strip_char u t c) (\<lambda>u'. ustr_ok u' (strip_spec (\<lambda>x. x = c) t s))"
proof (cases "s = []")
  case True
  then show ?thesis using assms by (cases t) (simp_all add: strip_char_def ustr_ok_iff)
next
  case False
  then have "0 < mSize u" using assms by (simp add: ustr_ok_iff)
  then show ?thesis
    using strip_front_ok [OF assms] strip_back_ok [OF assms]
    by (cases t) (auto simp: strip_char_def intro: returns_bind [OF strip_front_ok [OF assms] strip_back_ok])
qed

section \<open>Sizes and substrings\<close>

lemma zero_fill_Some:
  "length s \<le> n \<Longrightarrow> n \<le> length s + length bs \<Longrightarrow>
     zero_fill (map Some s @ bs) (length s) n
       = Some (map Some (s @ replicate (n - length s) NUL) @ drop (n - length s) bs)"
proof (induction "n - length s" arbitrary: s bs)
  case 0
  then show ?case by (subst zero_fill.simps) simp
next
  case (Suc k)
  then obtain y ys where bs: "bs = y # ys" by (cases bs) auto
  have n: "n - length s = Suc (n - Suc (length s))" using Suc.hyps(2) by simp
  have IH: "zero_fill (map Some (s @ [NUL]) @ ys) (Suc (length s)) n
      = Some (map Some (s @ NUL # replicate (n - Suc (length s)) NUL) @ drop (n - Suc (length s)) ys)"
    using Suc.hyps(1) [of "s @ [NUL]" ys] Suc.hyps(2) Suc.prems bs by simp
  have "mem_set (map Some s @ bs) (length s) NUL = Some (map Some (s @ [NUL]) @ ys)"
    using mem_set_split [of "map Some s" y ys NUL] by (simp add: bs)
  moreover have "length s < n" using Suc.hyps(2) by simp
  ultimately show ?case using IH by (subst zero_fill.simps) (simp add: bs n)
qed

lemma resize_ok [ustr_intros]:
  assumes "ustr_ok u s" and "Suc N < SIZE_MOD"
  shows "returns (resize u N) (\<lambda>u'. ustr_ok u' (take N s @ replicate (N - length s) NUL))"
proof (cases "length s < N")
  case False
  then show ?thesis
    using remove_from_ok [OF assms(1), of N] assms(1) by (simp add: resize_def ustr_ok_iff)
next
  case True
  have sz: "mSize u = length s" using assms(1) by (simp add: ustr_ok_iff)
  have ad: "sz_add N (Suc 0) = Suc N" using assms(2) by (simp add: sz_simps)
  have "returns (if mCapacity u \<le> N then capacity u (Suc N) else Some u)
          (\<lambda>u'. ustr_holds u' s \<and> Suc N \<le> mCapacity u')"
    using capacity_holds [OF ustr_ok_holds [OF assms(1)] assms(2)] ustr_ok_holds [OF assms(1)]
    by (auto elim: returns_mono)
  then obtain u1 where u1: "(if mCapacity u \<le> N then capacity u (Suc N) else Some u) = Some u1"
    and h1: "ustr_holds u1 s" and c1: "Suc N \<le> mCapacity u1"
    by (auto simp: returns_iff)
  obtain old y rest where d: "mpData u1 = map Some s @ old @ y # rest" and lo: "length old = N - length s"
    using ustr_with_room [OF h1, of "N - length s"] c1 True by auto
  have zf: "zero_fill (mpData u1) (length s) N = Some (map Some (s @ replicate (N - length s) NUL) @ y # rest)"
    using zero_fill_Some [of s N "old @ y # rest"] True lo by (simp add: d)
  have st: "mem_set (map Some (s @ replicate (N - length s) NUL) @ y # rest) N NUL
              = Some (map Some (s @ replicate (N - length s) NUL) @ Some NUL # rest)"
    using mem_set_split [of "map Some (s @ replicate (N - length s) NUL)" y rest NUL] True by simp
  have "mSize u1 = length s" using h1 by (simp add: ustr_holds_def)
  then have "resize u N = Some (u1\<lparr>mpData := map Some (s @ replicate (N - length s) NUL) @ Some NUL # rest, mSize := N\<rparr>)"
    using True unfolding resize_def One_nat_def ad by (simp add: sz u1 zf st del: map_append split del: if_split)
  then show ?thesis using h1 True lo by (auto simp: ustr_ok_iff ustr_holds_iff d)
qed

lemma substr_ok [ustr_intros]:
  assumes "ustr_ok u s" and "start + len \<le> length s"
  shows "returns (substr u start len) (\<lambda>u'. ustr_ok u' (take len (drop start s)))"
proof -
  have sz: "mSize u = length s" and lt: "Suc (length s) < SIZE_MOD" using assms(1) by (auto simp: ustr_ok_iff)
  have "len \<noteq> SIZE_MINUS_1" "sz_add start len = start + len"
    using assms(2) lt by (auto simp: SIZE_MINUS_1_def sz_simps)
  then show ?thesis
    using append_tail_ok [OF ustr_ok_new assms(1), of start len] assms(2) lt
    by (simp add: substr_def sz)
qed

section \<open>Searching\<close>

text \<open>\<open>r\<close> is the first position from \<open>pos\<close> on, below \<open>n\<close>, where \<open>P\<close> holds, or \<open>-1\<close>.\<close>

definition first_pos :: "(nat \<Rightarrow> bool) \<Rightarrow> nat \<Rightarrow> nat \<Rightarrow> int \<Rightarrow> bool" where
  "first_pos P pos n r \<longleftrightarrow>
     (r = UTLSTRING_NOT_FOUND \<and> (\<forall>j\<in>{pos..<n}. \<not> P j))
     \<or> (\<exists>i\<in>{pos..<n}. r = int i \<and> P i \<and> (\<forall>j\<in>{pos..<i}. \<not> P j))"

lemma first_pos_Suc:
  assumes "\<not> P pos" and "first_pos P (Suc pos) n r" and "pos < n"
  shows "first_pos P pos n r"
proof -
  have split: "{pos..<k} = insert pos {Suc pos..<k}" if "pos < k" for k using that by auto
  show ?thesis
    using assms unfolding first_pos_def by (auto simp: split)
qed

lemma scan_first_pos:
  assumes "\<And>i. pos \<le> i \<Longrightarrow> i < n \<Longrightarrow> test i = Some (P i)"
  shows "returns (scan test pos n) (first_pos P pos n)"
  using assms
proof (induction "n - pos" arbitrary: pos)
  case 0
  then show ?case by (subst scan.simps) (simp add: first_pos_def)
next
  case (Suc k)
  then have pos: "pos < n" by simp
  have "returns (scan test (Suc pos) n) (first_pos P (Suc pos) n)"
    using Suc.hyps(2) Suc.prems by (intro Suc.hyps(1)) auto
  then have "\<not> P pos \<Longrightarrow> returns (scan test (Suc pos) n) (first_pos P pos n)"
    by (rule returns_mono) (auto intro: first_pos_Suc pos)
  moreover have "P pos \<Longrightarrow> first_pos P pos n (int pos)" using pos by (auto simp: first_pos_def)
  ultimately show ?case using pos Suc.prems [of pos] by (subst scan.simps) simp
qed

lemma index_char_ok [ustr_intros]:
  assumes "ustr_ok u s"
  shows "returns (index_char u c start) (first_pos (\<lambda>i. s ! i = c) start (length s))"
proof -
  obtain rest where "mpData u = map Some s @ Some NUL # rest" "mSize u = length s"
    using assms by (auto simp: ustr_ok_iff)
  then show ?thesis
    unfolding index_char_def by (auto simp: char_test_def mem_get_Some intro: scan_first_pos)
qed

lemma memcmp_eq_Some:
  "n \<le> length s \<Longrightarrow> n \<le> length t \<Longrightarrow>
     memcmp_eq (map Some s @ a) (map Some t @ b) n = Some (take n s = take n t)"
proof (induction n arbitrary: s t)
  case (Suc n)
  then obtain x s' y t' where "s = x # s'" "t = y # t'" by (metis Suc_le_length_iff)
  then show ?case using Suc by simp
qed simp

definition occurs_at :: "string \<Rightarrow> string \<Rightarrow> nat \<Rightarrow> bool" where
  "occurs_at t s i \<longleftrightarrow> take (length t) (drop i s) = t"

lemma index_bytes_ok:
  assumes "ustr_ok u s"
  shows "returns (index_bytes u (map Some t @ b) (length t) start)
           (first_pos (occurs_at t s) start (Suc (length s) - length t))"
proof (cases "length t \<le> length s")
  case False
  then show ?thesis using assms by (simp add: index_bytes_def ustr_ok_iff first_pos_def)
next
  case True
  obtain rest where d: "mpData u = map Some s @ Some NUL # rest" and sz: "mSize u = length s"
    using assms by (auto simp: ustr_ok_iff)
  have "memcmp_eq (drop i (mpData u)) (map Some t @ b) (length t) = Some (occurs_at t s i)"
    if "i < Suc (length s - length t)" for i
    using memcmp_eq_Some [of "length t" "drop i s" t "Some NUL # rest" b] that True
    by (simp add: d occurs_at_def drop_map)
  then have "returns (scan (\<lambda>pos. memcmp_eq (drop pos (mpData u)) (map Some t @ b) (length t)) start
         (Suc (length s - length t))) (first_pos (occurs_at t s) start (Suc (length s - length t)))"
    by (intro scan_first_pos) auto
  then show ?thesis using True by (simp add: index_bytes_def sz Suc_diff_le)
qed

lemma index_str_ok [ustr_intros]:
  assumes "ustr_ok u s" and "ustr_ok v t"
  shows "returns (index_str u v start) (first_pos (occurs_at t s) start (Suc (length s) - length t))"
  using index_bytes_ok [OF assms(1), of t] assms(2) by (auto simp: index_str_def ustr_ok_iff)

lemma index_cstr_ok [ustr_intros]:
  assumes "ustr_ok u s" and "nul_free t"
  shows "returns (index_cstr u (Some (cstr t)) start) (first_pos (occurs_at t s) start (Suc (length s) - length t))"
  using index_bytes_ok [OF assms(1), of t] strlen_cstr [OF assms(2)] by (simp add: index_cstr_def cstr_def)

text \<open>\<open>last\<close> against its own specification: the greatest position of the character.\<close>

definition last_pos :: "(nat \<Rightarrow> bool) \<Rightarrow> nat \<Rightarrow> int \<Rightarrow> bool" where
  "last_pos P n r \<longleftrightarrow>
     (r = UTLSTRING_NOT_FOUND \<and> (\<forall>j<n. \<not> P j)) \<or> (\<exists>i<n. r = int i \<and> P i \<and> (\<forall>j\<in>{i<..<n}. \<not> P j))"

lemma last_pos_Suc: "last_pos P n r \<Longrightarrow> last_pos P (Suc n) (if P n then int n else r)"
  unfolding last_pos_def by (auto simp: less_Suc_eq)

lemma last_loop_Some:
  "pos \<le> length s \<Longrightarrow> last_pos (\<lambda>i. s ! i = c) pos r \<Longrightarrow>
     returns (last_loop (map Some s @ bs) c pos (length s) r) (last_pos (\<lambda>i. s ! i = c) (length s))"
proof (induction "length s - pos" arbitrary: pos r)
  case 0
  then show ?case by (subst last_loop.simps) simp
next
  case (Suc k)
  then have "pos < length s" by simp
  moreover have "returns (last_loop (map Some s @ bs) c (Suc pos) (length s)
        (if s ! pos = c then int pos else r)) (last_pos (\<lambda>i. s ! i = c) (length s))"
    using Suc.hyps(2) Suc.prems last_pos_Suc [OF Suc.prems(2)] by (intro Suc.hyps(1)) auto
  ultimately show ?case by (subst last_loop.simps) (simp add: mem_get_Some)
qed

lemma last_char_ok [ustr_intros]:
  assumes "ustr_ok u s"
  shows "returns (last_char u c) (last_pos (\<lambda>i. s ! i = c) (length s))"
  using assms last_loop_Some [of 0 s c] by (auto simp: last_char_def ustr_ok_iff last_pos_def)

section \<open>Hash and comparison\<close>

definition str_hash :: "string \<Rightarrow> 32 word" where
  "str_hash s = fold (\<lambda>c h. hash_step h c) s 0"

lemma hash_loop_Some: "hash_loop (map Some s @ bs) (length s) h = Some (fold (\<lambda>c h. hash_step h c) s h)"
  by (induction s arbitrary: h) auto

lemma hash_ok [ustr_intros]: "ustr_ok u s \<Longrightarrow> hash u = Some (str_hash s)"
  by (auto simp: hash_def ustr_ok_iff str_hash_def hash_loop_Some)

text \<open>The three-way comparison of two sequences of character codes.\<close>

fun seq_cmp :: "nat list \<Rightarrow> nat list \<Rightarrow> int" where
  "seq_cmp [] [] = 0"
| "seq_cmp [] (y # ys) = -1"
| "seq_cmp (x # xs) [] = 1"
| "seq_cmp (x # xs) (y # ys) = (if x < y then -1 else if y < x then 1 else seq_cmp xs ys)"

lemma seq_cmp_refl [simp]: "seq_cmp xs xs = 0"
  by (induction xs) auto

lemma seq_cmp_0: "seq_cmp xs ys = 0 \<longleftrightarrow> xs = ys"
  by (induction xs ys rule: seq_cmp.induct) auto

lemma seq_cmp_swap: "seq_cmp ys xs = - seq_cmp xs ys"
  by (induction xs ys rule: seq_cmp.induct) auto

lemma seq_cmp_Cons_le: "seq_cmp (x # xs) (y # ys) \<le> 0 \<longleftrightarrow> x < y \<or> (x = y \<and> seq_cmp xs ys \<le> 0)"
  by simp

lemma seq_cmp_trans: "seq_cmp xs ys \<le> 0 \<Longrightarrow> seq_cmp ys zs \<le> 0 \<Longrightarrow> seq_cmp xs zs \<le> 0"
proof (induction xs arbitrary: ys zs)
  case Nil
  then show ?case by (cases zs) simp_all
next
  case (Cons x xs)
  then obtain y ys' where ys: "ys = y # ys'" by (cases ys) simp_all
  then obtain z zs' where zs: "zs = z # zs'" using Cons.prems(2) by (cases zs) simp_all
  have "x < y \<or> (x = y \<and> seq_cmp xs ys' \<le> 0)" using Cons.prems(1) unfolding ys seq_cmp_Cons_le .
  moreover have "y < z \<or> (y = z \<and> seq_cmp ys' zs' \<le> 0)" using Cons.prems(2) unfolding ys zs seq_cmp_Cons_le .
  ultimately show ?case unfolding zs seq_cmp_Cons_le using Cons.IH by (metis less_trans)
qed

definition codes :: "(char \<Rightarrow> char) \<Rightarrow> string \<Rightarrow> nat list" where
  "codes f s = map (\<lambda>c. of_char (f c)) s"

lemma of_char_NUL [simp]: "of_char NUL = (0::nat)"
  by (simp add: NUL_def)

lemma of_char_pos: "c \<noteq> NUL \<Longrightarrow> 0 < (of_char c :: nat)"
  by (metis NUL_def char_of_char gr0I)

lemma c_prefix_simps [simp]:
  "c_prefix [] = []" "c_prefix (c # s) = (if c = NUL then [] else c # c_prefix s)"
  by (simp_all add: c_prefix_def)

lemma strcmp_by_Some:
  assumes f: "\<And>c. f c = NUL \<longleftrightarrow> c = NUL"
  shows "strcmp_by f (map Some s @ Some NUL # a) (map Some t @ Some NUL # b)
           = Some (seq_cmp (codes f (c_prefix s)) (codes f (c_prefix t)))"
proof -
  have fN: "f NUL = NUL" using f by simp
  have pos: "c \<noteq> NUL \<Longrightarrow> (of_char (f c) :: nat) \<noteq> 0" for c
    using of_char_pos [of "f c"] f [of c] by simp
  show ?thesis
  proof (induction s arbitrary: t)
    case Nil
    show ?case
    proof (cases t)
      case (Cons y t')
      show ?thesis using pos [of y] by (cases "y = NUL") (simp_all add: Cons codes_def fN)
    qed (simp add: codes_def fN)
  next
    case (Cons x s)
    show ?case
    proof (cases t)
      case Nil
      show ?thesis using pos [of x] by (cases "x = NUL") (simp_all add: Nil codes_def fN)
    next
      case t: (Cons y t')
      show ?thesis
        using Cons.IH [of t'] pos [of x] pos [of y]
        by (cases "x = NUL"; cases "y = NUL") (simp_all add: t codes_def fN)
    qed
  qed
qed

lemma tolower_NUL_iff: "tolower c = NUL \<longleftrightarrow> c = NUL"
proof -
  have "char_of ((of_char c :: nat) + 32) \<noteq> NUL" if "(of_char c :: nat) \<le> 90"
  proof
    assume "char_of ((of_char c :: nat) + 32) = NUL"
    then have "of_char (char_of ((of_char c :: nat) + 32)) = (0::nat)" by simp
    then show False using that by simp
  qed
  then show ?thesis by (auto simp: tolower_def Let_def NUL_def)
qed

definition str_cmp :: "string \<Rightarrow> string \<Rightarrow> int" where
  "str_cmp s t = seq_cmp (codes id (c_prefix s)) (codes id (c_prefix t))"

definition str_casecmp :: "string \<Rightarrow> string \<Rightarrow> int" where
  "str_casecmp s t = seq_cmp (codes tolower (c_prefix s)) (codes tolower (c_prefix t))"

lemma codes_id_inj: "codes id s = codes id t \<longleftrightarrow> s = t"
  unfolding codes_def id_def by (metis (no_types, lifting) inj_def map_injective of_char_eq_iff)

lemma compareTo_case_ok [ustr_intros]:
  assumes "ustr_ok u s"
  shows "compareTo_case u (Some (map Some t @ Some NUL # b)) matchCase = Some (str_cmp s t)"
    and "compareTo_case u (Some (map Some t @ Some NUL # b)) ignoreCase = Some (str_casecmp s t)"
  using assms strcmp_by_Some [of id] strcmp_by_Some [of tolower, OF tolower_NUL_iff]
  by (auto simp: compareTo_case_def strcmp_def strcasecmp_def ustr_ok_iff str_cmp_def str_casecmp_def)

lemma compareTo_ok [ustr_intros]:
  assumes "ustr_ok u s" and "ustr_ok v t"
  shows "compareTo u (Some v) = Some (str_cmp s t)"
  using compareTo_case_ok(1) [OF assms(1), of t] assms(2)
  by (auto simp: compareTo_def compareTo_cstr_def ustr_ok_iff)

lemma isEqual_ok [ustr_intros]:
  assumes "ustr_ok u s" and "ustr_ok v t"
  shows "isEqual u (Some v) = Some (c_prefix s = c_prefix t)"
  by (simp add: isEqual_def compareTo_ok [OF assms] str_cmp_def seq_cmp_0 codes_id_inj)

section \<open>Properties\<close>

text \<open>A string object that holds \<open>s\<close> in the array inside the object.\<close>

definition ustr_of :: "string \<Rightarrow> ustr" where
  "ustr_of s = \<lparr>mpData = map Some s @ Some NUL # replicate (99 - length s) None,
                mSize = length s, mCapacity = 100, isBuiltIn = True\<rparr>"

lemma ustr_of_ok: "length s < 100 \<Longrightarrow> ustr_ok (ustr_of s) s"
  by (auto simp: ustr_ok_iff ustr_of_def SIZE_MOD_def)

text \<open>Appending one string object to another appends their contents: the call is defined,
  growing the buffer when it has to, and the result holds the two contents one after the
  other with the terminator behind them.\<close>

theorem utlstring_append:
  assumes "ustr_ok u s" and "ustr_ok v t" and "Suc (length s + length t) < SIZE_MOD"
  shows "returns (append_str u v) (\<lambda>u'. ustr_ok u' (s @ t))"
  using assms by (rule append_str_ok)

theorem utlstring_append_witness:
  "returns (append_str (ustr_of ''sip:'') (ustr_of ''bob'')) (\<lambda>u'. ustr_ok u' ''sip:bob'')"
  using utlstring_append [OF ustr_of_ok ustr_of_ok, of "''sip:''" "''bob''"] by (simp add: SIZE_MOD_def)

text \<open>Inserting a string at a position and then removing as many characters from there
  gives the contents back.\<close>

theorem utlstring_insert_remove:
  assumes "ustr_ok u s" and "ustr_ok v t" and "pos \<le> length s" and "Suc (length s + length t) < SIZE_MOD"
  shows "returns (do { u1 \<leftarrow> insert_str u pos v; remove_n u1 pos (length t) }) (\<lambda>u'. ustr_ok u' s)"
proof (rule returns_bind [OF insert_str_ok [OF assms]])
  fix u1
  assume u1: "ustr_ok u1 (take pos s @ t @ drop pos s)"
  have "take pos (take pos s @ t @ drop pos s) @ drop (pos + length t) (take pos s @ t @ drop pos s) = s"
    using assms(3) by simp
  then show "returns (remove_n u1 pos (length t)) (\<lambda>u'. ustr_ok u' s)"
    using remove_n_ok [OF u1, of pos "length t"] assms(3) by simp
qed

theorem utlstring_insert_remove_witness:
  "returns (do { u1 \<leftarrow> insert_str (ustr_of ''sipbob'') 3 (ustr_of '':''); remove_n u1 3 1 }) (\<lambda>u'. ustr_ok u' ''sipbob'')"
  using utlstring_insert_remove [OF ustr_of_ok ustr_of_ok, of "''sipbob''" "'':''" 3] by (simp add: SIZE_MOD_def)

text \<open>Replacing \<open>N\<close> characters at \<open>pos\<close>, within the string, by the first \<open>L\<close> characters of
  a C string: the characters before and behind the range stay.\<close>

theorem utlstring_replace:
  assumes "ustr_ok u s" and "pos + N \<le> length s" and "length s < 2 ^ 31" and "length t < 2 ^ 31"
    and "nul_free t" and "L \<le> length t"
  shows "returns (replace_n u pos N (Some (cstr t)) L)
           (\<lambda>u'. ustr_ok u' (take pos s @ take L t @ drop (pos + N) s))"
  using assms by (rule replace_n_ok)

theorem utlstring_replace_witness:
  "returns (replace_n (ustr_of ''sip:bob'') 0 3 (Some (cstr ''sips'')) 4) (\<lambda>u'. ustr_ok u' ''sips:bob'')"
proof -
  have "nul_free ''sips''" by code_simp
  then show ?thesis using utlstring_replace [OF ustr_of_ok, of "''sip:bob''" 0 3 "''sips''" 4] by simp
qed

text \<open>\<open>index\<close> returns the first position from \<open>start\<close> on where the string sought occurs,
  and \<open>UTL_NOT_FOUND\<close> when there is none.\<close>

theorem utlstring_index:
  assumes "ustr_ok u s" and "ustr_ok v t"
  shows "returns (index_str u v start) (first_pos (occurs_at t s) start (Suc (length s) - length t))"
  using assms by (rule index_str_ok)

theorem utlstring_index_witness:
  "returns (index_str (ustr_of ''a@b@c'') (ustr_of ''@'') 2) (first_pos (occurs_at ''@'' ''a@b@c'') 2 5)"
  using utlstring_index [OF ustr_of_ok ustr_of_ok, of "''a@b@c''" "''@''" 2]
  by (simp add: numeral_eq_Suc)

text \<open>\<open>strip\<close> removes exactly the blanks at the ends the strip type names.\<close>

theorem utlstring_strip:
  assumes "ustr_ok u s"
  shows "returns (strip_ws u t) (\<lambda>u'. ustr_ok u' (strip_spec is_strip_ws t s))"
  using assms by (rule strip_ws_ok)

theorem utlstring_strip_witness:
  "returns (strip_ws (ustr_of ''  bob '') both) (\<lambda>u'. ustr_ok u' ''bob'')"
proof -
  have "strip_spec is_strip_ws both ''  bob '' = ''bob''" by code_simp
  then show ?thesis using utlstring_strip [OF ustr_of_ok, of "''  bob ''" both] by simp
qed

text \<open>\<open>compareTo\<close> is a total preorder on string objects: its sign changes with the order
  of the arguments, it is transitive, and it is 0 exactly for strings that are the same up
  to the first NUL.\<close>

theorem utlstring_compareTo:
  assumes "ustr_ok u s" and "ustr_ok v t" and "ustr_ok w r"
  shows "\<exists>a b c. compareTo u (Some v) = Some a \<and> compareTo v (Some u) = Some (- a) \<and>
           compareTo v (Some w) = Some b \<and> compareTo u (Some w) = Some c \<and>
           (a \<le> 0 \<and> b \<le> 0 \<longrightarrow> c \<le> 0) \<and> (a = 0 \<longleftrightarrow> c_prefix s = c_prefix t)"
proof -
  have "str_cmp t s = - str_cmp s t" unfolding str_cmp_def by (rule seq_cmp_swap)
  moreover have "str_cmp s t \<le> 0 \<and> str_cmp t r \<le> 0 \<longrightarrow> str_cmp s r \<le> 0"
    unfolding str_cmp_def using seq_cmp_trans by blast
  moreover have "str_cmp s t = 0 \<longleftrightarrow> c_prefix s = c_prefix t"
    by (simp add: str_cmp_def seq_cmp_0 codes_id_inj)
  ultimately show ?thesis
    using compareTo_ok [OF assms(1,2)] compareTo_ok [OF assms(2,1)] compareTo_ok [OF assms(2,3)]
      compareTo_ok [OF assms(1,3)] by simp
qed

theorem utlstring_compareTo_witness:
  "\<exists>a b c. compareTo (ustr_of ''alice'') (Some (ustr_of ''bob'')) = Some a \<and>
     compareTo (ustr_of ''bob'') (Some (ustr_of ''carl'')) = Some b \<and>
     compareTo (ustr_of ''alice'') (Some (ustr_of ''carl'')) = Some c \<and> (a \<le> 0 \<and> b \<le> 0 \<longrightarrow> c \<le> 0)"
  using utlstring_compareTo [OF ustr_of_ok ustr_of_ok ustr_of_ok, of "''alice''" "''bob''" "''carl''"] by auto

text \<open>\<open>capacity\<close>, called to reserve more room for a string that is not empty, loses the
  terminator: it copies \<open>mSize\<close> characters into the new buffer and not the NUL behind them,
  so that \<open>data()\<close> is not a C string until the next change of the string.\<close>

theorem utlstring_capacity_drops_terminator:
  "case capacity (ustr_of ''bob'') 500 of
     None \<Rightarrow> False
   | Some u \<Rightarrow> ustr_holds u ''bob'' \<and> strlen (mpData u) = None"
  by code_simp

end
