(* ===== verification/UtlContainable.thy ===== *)
theory UtlContainable
  imports UtlString
begin

text \<open>
  The contract of the objects that containers hold
  (\<^verbatim>\<open>sipXportLib/src/utl/UtlContainable.cpp\<close>): every class has a \<open>hash\<close> and a
  \<open>compareTo\<close>, and objects that are equal have the same hash code. The locale
  \<open>containable\<close> states what the containers rely on; it is interpreted on the classes
  \<open>UtlInt\<close>, \<open>UtlLongLongInt\<close>, \<open>UtlBool\<close>, \<open>UtlVoidPtr\<close> and \<open>UtlString\<close> together, as one
  type of objects, because one container may hold all of them.

  \<open>intptr_t\<close> and pointers are 64-bit words, \<open>int\<close> and \<open>unsigned\<close> are 32 bits wide. A
  string object stands for the characters it holds; theory \<open>UtlString\<close> shows that its
  methods compute \<open>str_hash\<close> and \<open>str_cmp\<close> of them.
\<close>

section \<open>The contract\<close>

locale containable =
  fixes hash :: "'k \<Rightarrow> 32 word" and eq :: "'k \<Rightarrow> 'k \<Rightarrow> bool" and ok :: "'k \<Rightarrow> bool"
  assumes eq_refl: "ok k \<Longrightarrow> eq k k"
    and eq_sym: "ok k \<Longrightarrow> ok l \<Longrightarrow> eq k l \<Longrightarrow> eq l k"
    and eq_trans: "ok k \<Longrightarrow> ok l \<Longrightarrow> ok j \<Longrightarrow> eq k l \<Longrightarrow> eq l j \<Longrightarrow> eq k j"
    and eq_hash: "ok k \<Longrightarrow> ok l \<Longrightarrow> eq k l \<Longrightarrow> hash k = hash l"

section \<open>The classes\<close>

datatype object =
    IntObj "64 word"
  | LongLongObj "64 word"
  | BoolObj bool
  | VoidPtrObj "64 word"
  | StringObj string

definition INT_MAX :: int where
  "INT_MAX = 2 ^ 31 - 1"

text \<open>Conversion of a 64-bit value to \<open>unsigned\<close> and to \<open>int\<close> keeps the low 32 bits.\<close>

definition to_unsigned :: "64 word \<Rightarrow> 32 word" where
  "to_unsigned w = ucast w"

definition to_int :: "64 word \<Rightarrow> int" where
  "to_int w = sint (ucast w :: 32 word)"

text \<open>Incrementing and decrementing a \<open>UtlInt\<close> or a \<open>UtlLongLongInt\<close> returns the new
  value (prefix) or the old one (postfix), beside the updated object.\<close>

definition UtlInt_preinc :: "64 word \<Rightarrow> 64 word \<times> 64 word" where
  "UtlInt_preinc v = (v + 1, v + 1)"

definition UtlInt_postinc :: "64 word \<Rightarrow> 64 word \<times> 64 word" where
  "UtlInt_postinc v = (let temp = v in (fst (UtlInt_preinc v), temp))"

definition UtlInt_predec :: "64 word \<Rightarrow> 64 word \<times> 64 word" where
  "UtlInt_predec v = (v - 1, v - 1)"

definition UtlInt_postdec :: "64 word \<Rightarrow> 64 word \<times> 64 word" where
  "UtlInt_postdec v = (let temp = v in (fst (UtlInt_predec v), temp))"

definition UtlInt_setValue :: "64 word \<Rightarrow> 64 word \<Rightarrow> 64 word \<times> 64 word" where
  "UtlInt_setValue v iValue = (iValue, v)"

text \<open>
  \<open>UtlInt::compareTo\<close> stores the 64-bit difference in an \<open>int\<close>; \<open>None\<close> is an object of
  another class.
\<close>

definition UtlInt_compareTo :: "64 word \<Rightarrow> 64 word option \<Rightarrow> int" where
  "UtlInt_compareTo v inVal = (case inVal of Some w \<Rightarrow> to_int (v - w) | None \<Rightarrow> INT_MAX)"

definition UtlLongLongInt_compareTo :: "64 word \<Rightarrow> 64 word option \<Rightarrow> int" where
  "UtlLongLongInt_compareTo v inVal =
     (case inVal of
        Some w \<Rightarrow> if sint w < sint v then 1 else if v = w then 0 else -1
      | None \<Rightarrow> INT_MAX)"

definition UtlBool_compareTo :: "bool \<Rightarrow> bool option \<Rightarrow> int" where
  "UtlBool_compareTo v inVal = (case inVal of Some w \<Rightarrow> if w = v then 0 else 1 | None \<Rightarrow> 1)"

text \<open>\<open>comparePtrs\<close> on a machine whose pointers are wider than \<open>int\<close>.\<close>

definition comparePtrs :: "64 word \<Rightarrow> 64 word \<Rightarrow> int" where
  "comparePtrs ptr1 ptr2 = (if ptr1 < ptr2 then -1 else if ptr2 < ptr1 then 1 else 0)"

definition UtlVoidPtr_compareTo :: "64 word \<Rightarrow> 64 word option \<Rightarrow> int" where
  "UtlVoidPtr_compareTo v inVal = (case inVal of Some w \<Rightarrow> comparePtrs v w | None \<Rightarrow> -1)"

definition hashPtr :: "64 word \<Rightarrow> 32 word" where
  "hashPtr ptr = to_unsigned ptr"

fun object_compareTo :: "object \<Rightarrow> object \<Rightarrow> int" where
  "object_compareTo (IntObj v) x = UtlInt_compareTo v (case x of IntObj w \<Rightarrow> Some w | _ \<Rightarrow> None)"
| "object_compareTo (LongLongObj v) x =
     UtlLongLongInt_compareTo v (case x of LongLongObj w \<Rightarrow> Some w | _ \<Rightarrow> None)"
| "object_compareTo (BoolObj v) x = UtlBool_compareTo v (case x of BoolObj w \<Rightarrow> Some w | _ \<Rightarrow> None)"
| "object_compareTo (VoidPtrObj v) x =
     UtlVoidPtr_compareTo v (case x of VoidPtrObj w \<Rightarrow> Some w | _ \<Rightarrow> None)"
| "object_compareTo (StringObj s) x = (case x of StringObj t \<Rightarrow> str_cmp s t | _ \<Rightarrow> -1)"

definition object_isEqual :: "object \<Rightarrow> object \<Rightarrow> bool" where
  "object_isEqual x y \<longleftrightarrow> object_compareTo x y = 0"

fun object_hash :: "object \<Rightarrow> 32 word" where
  "object_hash (IntObj v) = to_unsigned v"
| "object_hash (LongLongObj v) = to_unsigned v"
| "object_hash (BoolObj v) = (if v then 1 else 0)"
| "object_hash (VoidPtrObj v) = hashPtr v"
| "object_hash (StringObj s) = str_hash s"

text \<open>
  The hash function offered to implementations that keep a C string
  (\<open>UtlContainable::stringHash\<close>). Its loop runs while the character is NUL and never
  advances the pointer: with \<open>fuel\<close> rounds it has a result exactly when the loop ends
  within them.
\<close>

fun stringHash_loop :: "nat \<Rightarrow> bytes \<Rightarrow> 32 word \<Rightarrow> 32 word option" where
  "stringHash_loop fuel [] result = None"
| "stringHash_loop fuel (None # bs) result = None"
| "stringHash_loop fuel (Some c # bs) result =
     (if c = NUL then
        (case fuel of
           0 \<Rightarrow> None
         | Suc f \<Rightarrow> stringHash_loop f (Some c # bs)
                     (((result AND 0x3f) XOR push_bit 6 result) XOR word_of_int (char_int c)))
      else Some result)"

definition stringHash :: "nat \<Rightarrow> bytes \<Rightarrow> 32 word option" where
  "stringHash fuel value = stringHash_loop fuel value 0"

section \<open>The classes meet the contract\<close>

definition object_ok :: "object \<Rightarrow> bool" where
  "object_ok x \<longleftrightarrow> (case x of StringObj s \<Rightarrow> nul_free s | _ \<Rightarrow> True)"

lemma to_int_0: "to_int w = 0 \<longleftrightarrow> to_unsigned w = 0"
  unfolding to_int_def to_unsigned_def by (metis sint_0 signed_word_eqI)

lemma take_bit_diff_diff:
  "take_bit 32 (v - w) = take_bit 32 (take_bit 64 v - take_bit 64 (w :: int))"
  using take_bit_diff [of 32 v w] take_bit_diff [of 32 "take_bit 64 v" "take_bit 64 w"] by simp

lemma to_unsigned_diff: "to_unsigned (v - w) = to_unsigned v - to_unsigned w"
  unfolding to_unsigned_def by transfer (simp, rule take_bit_diff_diff)

lemma UtlInt_compareTo_0: "UtlInt_compareTo v (Some w) = 0 \<longleftrightarrow> to_unsigned v = to_unsigned w"
  by (simp add: UtlInt_compareTo_def to_int_0 to_unsigned_diff)

lemma UtlLongLongInt_compareTo_0: "UtlLongLongInt_compareTo v (Some w) = 0 \<longleftrightarrow> v = w"
  by (auto simp: UtlLongLongInt_compareTo_def)

lemma comparePtrs_0: "comparePtrs p q = 0 \<longleftrightarrow> p = q"
  by (auto simp: comparePtrs_def)

text \<open>When two objects are equal: same class, and the same value up to what the class's
  comparison looks at.\<close>

lemma object_isEqual_iff:
  "object_isEqual x y \<longleftrightarrow>
     (case (x, y) of
        (IntObj v, IntObj w) \<Rightarrow> to_unsigned v = to_unsigned w
      | (LongLongObj v, LongLongObj w) \<Rightarrow> v = w
      | (BoolObj v, BoolObj w) \<Rightarrow> v = w
      | (VoidPtrObj v, VoidPtrObj w) \<Rightarrow> v = w
      | (StringObj s, StringObj t) \<Rightarrow> c_prefix s = c_prefix t
      | _ \<Rightarrow> False)"
  by (cases x; cases y)
     (auto simp: object_isEqual_def UtlInt_compareTo_0 UtlLongLongInt_compareTo_0 comparePtrs_0
        UtlVoidPtr_compareTo_def UtlBool_compareTo_def str_cmp_def seq_cmp_0 codes_id_inj
        UtlInt_compareTo_def [of _ None] UtlLongLongInt_compareTo_def [of _ None] INT_MAX_def)

lemma object_isEqual_hash:
  "object_ok x \<Longrightarrow> object_ok y \<Longrightarrow> object_isEqual x y \<Longrightarrow> object_hash x = object_hash y"
  by (cases x; cases y)
     (auto simp: object_isEqual_iff object_ok_def c_prefix_nul_free)

interpretation objects: containable object_hash object_isEqual object_ok
proof unfold_locales
  show "object_isEqual k k" for k by (cases k) (auto simp: object_isEqual_iff)
  show "object_isEqual k l \<Longrightarrow> object_isEqual l k" for k l
    by (cases k; cases l) (auto simp: object_isEqual_iff)
  show "object_isEqual k l \<Longrightarrow> object_isEqual l j \<Longrightarrow> object_isEqual k j" for k l j
    by (cases k; cases l; cases j) (auto simp: object_isEqual_iff)
qed (rule object_isEqual_hash)

section \<open>Properties\<close>

text \<open>The contract of \<open>hash\<close>: objects for which \<open>isEqual\<close> holds have the same hash code,
  whatever their classes, provided their strings have no embedded NUL.\<close>

theorem containable_equal_hash:
  assumes "object_ok x" and "object_ok y" and "object_isEqual x y"
  shows "object_hash x = object_hash y"
  using assms by (rule objects.eq_hash)

theorem containable_equal_hash_witness:
  "object_hash (IntObj 3) = object_hash (IntObj 0x700000003)"
proof -
  have "object_ok (IntObj 3)" "object_ok (IntObj 0x700000003)" "object_isEqual (IntObj 3) (IntObj 0x700000003)"
    by code_simp+
  then show ?thesis by (rule containable_equal_hash)
qed

text \<open>\<open>UtlInt::compareTo\<close> squeezes a 64-bit difference into an \<open>int\<close>: two integers compare
  equal exactly when their low 32 bits agree, so that different \<open>UtlInt\<close> objects can be one
  key of a table.\<close>

theorem utlint_equal_iff_low_bits:
  "object_isEqual (IntObj v) (IntObj w) \<longleftrightarrow> take_bit 32 v = take_bit 32 w"
proof -
  have "(ucast v :: 32 word) = ucast w \<longleftrightarrow> take_bit 32 v = take_bit 32 w" by transfer simp
  then show ?thesis by (simp add: object_isEqual_iff to_unsigned_def)
qed

text \<open>\<open>stringHash\<close> does not hash: it returns 0 for every string that is not empty, and its
  loop never ends for the empty string.\<close>

theorem stringHash_degenerate:
  assumes "nul_free s"
  shows "stringHash fuel (cstr s) = (if s = [] then None else Some 0)"
proof (cases s)
  case Nil
  have "stringHash_loop fuel (Some NUL # bs) r = None" for bs r by (induction fuel arbitrary: r) auto
  then show ?thesis by (simp add: Nil stringHash_def cstr_def)
next
  case (Cons c t)
  then show ?thesis using assms by (simp add: stringHash_def cstr_def)
qed

theorem stringHash_degenerate_witness:
  "stringHash 1000 (cstr ''bob'') = Some 0 \<and> stringHash 1000 (cstr []) = None"
proof -
  have "nul_free ''bob''" "nul_free []" by code_simp+
  then show ?thesis using stringHash_degenerate [of "''bob''" 1000] stringHash_degenerate [of "[]" 1000] by simp
qed

end
