(* ===== verification/UtlHashMap.thy ===== *)
theory UtlHashMap
  imports UtlContainable "HOL-Library.Multiset"
begin

unbundle bit_operations_syntax

text \<open>
  The hash table (\<^verbatim>\<open>sipXportLib/src/utl/UtlHashMap.cpp\<close>) and its iterators
  (\<^verbatim>\<open>UtlHashMapIterator.cpp\<close>): an array of \<open>2 ^ mBucketBits\<close> buckets, each a chain of
  pairs in descending order of their hash codes; the table is rebuilt with more buckets
  when the mean chain length reaches three and no iterator is attached.

  A bucket is the list of its pairs: theory \<open>UtlChain\<close> shows that the pointer operations
  implement the list operations used here. A pair object is identified by \<open>pid\<close>, so
  that an iterator can point to it; a pointer to a pair that is in no bucket any more is
  dangling, and using it is undefined. A key class is given by its \<open>hash\<close> and its
  \<open>isEqual\<close> (locale \<open>containable\<close>). A value pointer is NULL, the internal null object,
  or an object. \<open>1 << mBucketBits\<close> is computed by the source in an \<^verbatim>\<open>int\<close>, which is
  \<open>2 ^ mBucketBits\<close> up to 30 bits, that is below \<open>3 * 2 ^ 30\<close> elements. Locking is not
  modelled: each operation is one critical section of the container's lock.
\<close>

section \<open>Lists of lists\<close>

lemma mset_concat_update:
  "i < length bs \<Longrightarrow> mset (concat (bs[i := x])) + mset (bs ! i) = mset (concat bs) + mset x"
proof (induction bs arbitrary: i)
  case (Cons b bs)
  then show ?case by (cases i) (auto simp: ac_simps)
qed simp

lemma length_concat_update:
  assumes "i < length bs"
  shows "length (concat (bs[i := x])) + length (bs ! i) = length (concat bs) + length x"
  using arg_cong [OF mset_concat_update [OF assms, of x], of size] by (simp flip: size_mset)

section \<open>State\<close>

datatype 'v vptr = NULLV | INTERNAL_NULL | Obj 'v

record ('k, 'v) pair =
  pid :: nat
  pdata :: 'k
  phash :: "32 word"
  pvalue :: "'v vptr"

record hiter =
  mPosition :: nat
  mpCurrentPair :: "nat option"
  mPairIsValid :: bool

text \<open>\<open>pairPool\<close> is the next pair object that \<open>UtlPair::get\<close> hands out; an iterator is
  named by a number.\<close>

record ('k, 'v) hmap =
  mElements :: nat
  mBucketBits :: nat
  mpBucket :: "('k, 'v) pair list list"
  mIteratorList :: "(nat \<times> hiter) list"
  pairPool :: nat

definition HASHMAP_INITIAL_BUCKET_BITS :: nat where
  "HASHMAP_INITIAL_BUCKET_BITS = 4"

definition NUM_HASHMAP_BUCKETS :: "nat \<Rightarrow> nat" where
  "NUM_HASHMAP_BUCKETS bits = 2 ^ bits"

definition UtlHashMap_new :: "('k, 'v) hmap" where
  "UtlHashMap_new =
     \<lparr>mElements = 0, mBucketBits = HASHMAP_INITIAL_BUCKET_BITS,
      mpBucket = replicate (NUM_HASHMAP_BUCKETS HASHMAP_INITIAL_BUCKET_BITS) [],
      mIteratorList = [], pairPool = 0\<rparr>"

definition numberOfBuckets :: "('k, 'v) hmap \<Rightarrow> nat" where
  "numberOfBuckets m = NUM_HASHMAP_BUCKETS (mBucketBits m)"

section \<open>Finding the bucket and the pair\<close>

text \<open>
  The loop of \<open>bucketNumber\<close>: shift out the bits already used and fold the rest in. With
  no bucket bits it would shift by zero for ever.
\<close>

function fold_hash :: "nat \<Rightarrow> nat \<Rightarrow> nat \<Rightarrow> nat option" where
  "fold_hash bits highBits foldedHash =
     (let high = drop_bit bits highBits in
      if high = 0 then Some foldedHash
      else if bits = 0 then None
      else fold_hash bits high (foldedHash XOR (high AND (NUM_HASHMAP_BUCKETS bits - 1))))"
  by pat_completeness auto
termination
proof (relation "measure (\<lambda>(bits, highBits, f). highBits)", goal_cases)
  case (2 bits highBits foldedHash x)
  then have "highBits \<noteq> 0" and "0 < bits" by (auto intro: gr0I)
  moreover from this have "1 < (2::nat) ^ bits" by (intro one_less_power) simp_all
  ultimately
  have "highBits div 2 ^ bits < highBits" by (intro div_less_dividend) auto
  then show ?case using 2 by (simp add: drop_bit_eq_div)
qed simp

declare fold_hash.simps [simp del]

definition bucketNumber :: "nat \<Rightarrow> 32 word \<Rightarrow> nat option" where
  "bucketNumber bits h = fold_hash bits (unat h) (unat h AND (NUM_HASHMAP_BUCKETS bits - 1))"

definition bucket_at :: "('k, 'v) hmap \<Rightarrow> nat \<Rightarrow> ('k, 'v) pair list option" where
  "bucket_at m b = (if b < length (mpBucket m) then Some (mpBucket m ! b) else None)"

fun lookup_loop :: "('k \<Rightarrow> 'k \<Rightarrow> bool) \<Rightarrow> 'k \<Rightarrow> 32 word \<Rightarrow> ('k, 'v) pair list \<Rightarrow> nat \<Rightarrow> nat option" where
  "lookup_loop eq key keyHash [] i = None"
| "lookup_loop eq key keyHash (check # rest) i =
     (if keyHash \<le> phash check then
        if phash check = keyHash \<and> eq (pdata check) key then Some i
        else lookup_loop eq key keyHash rest (Suc i)
      else None)"

text \<open>The bucket of the key, and the position of its pair there if it has one.\<close>

definition lookup ::
  "('k \<Rightarrow> 32 word) \<Rightarrow> ('k \<Rightarrow> 'k \<Rightarrow> bool) \<Rightarrow> ('k, 'v) hmap \<Rightarrow> 'k \<Rightarrow> (nat \<times> nat option) option" where
  "lookup hsh eq m key = do {
     b \<leftarrow> bucketNumber (mBucketBits m) (hsh key);
     bucket \<leftarrow> bucket_at m b;
     Some (b, lookup_loop eq key (hsh key) bucket 0) }"

section \<open>Inserting and resizing\<close>

fun insert_ordered :: "('k, 'v) pair \<Rightarrow> ('k, 'v) pair list \<Rightarrow> ('k, 'v) pair list" where
  "insert_ordered p [] = [p]"
| "insert_ordered p (position # rest) =
     (if phash p \<le> phash position then position # insert_ordered p rest else p # position # rest)"

function grow_bits :: "nat \<Rightarrow> nat \<Rightarrow> nat" where
  "grow_bits elements newBucketBits =
     (if 3 \<le> elements div NUM_HASHMAP_BUCKETS newBucketBits
      then grow_bits elements (Suc newBucketBits) else newBucketBits)"
  by pat_completeness auto
termination
proof (relation "measure (\<lambda>(n, b). n - b)", goal_cases)
  case (2 n b)
  have "0 < n div 2 ^ b" using 2 by (simp add: NUM_HASHMAP_BUCKETS_def)
  then have "2 ^ b \<le> n" by (metis div_less less_irrefl not_le)
  moreover have "b < 2 ^ b" by simp
  ultimately have "b < n" by linarith
  then show ?case by simp
qed simp

declare grow_bits.simps [simp del]

type_synonym ('k, 'v) inserter = "('k, 'v) hmap \<Rightarrow> ('k, 'v) pair \<Rightarrow> nat \<Rightarrow> ('k, 'v) hmap option"

text \<open>\<open>resize\<close> empties the old buckets one by one; \<open>toBeMoved\<close> counts down to stop early.\<close>

fun move_bucket :: "('k, 'v) inserter \<Rightarrow> ('k, 'v) hmap \<Rightarrow> ('k, 'v) pair list \<Rightarrow> nat
    \<Rightarrow> (('k, 'v) hmap \<times> nat) option" where
  "move_bucket ins m [] toBeMoved = Some (m, toBeMoved)"
| "move_bucket ins m (p # ps) toBeMoved = do {
     b \<leftarrow> bucketNumber (mBucketBits m) (phash p);
     m1 \<leftarrow> ins m p b;
     move_bucket ins m1 ps (sz_sub toBeMoved 1) }"

fun move_buckets :: "('k, 'v) inserter \<Rightarrow> ('k, 'v) hmap \<Rightarrow> ('k, 'v) pair list list \<Rightarrow> nat
    \<Rightarrow> ('k, 'v) hmap option" where
  "move_buckets ins m [] toBeMoved = Some m"
| "move_buckets ins m (old # olds) toBeMoved =
     (if toBeMoved = 0 then Some m
      else do { (m1, left) \<leftarrow> move_bucket ins m old toBeMoved; move_buckets ins m1 olds left })"

definition HashMap_resize :: "('k, 'v) inserter \<Rightarrow> ('k, 'v) hmap \<Rightarrow> ('k, 'v) hmap option" where
  "HashMap_resize ins m =
     (let newBucketBits = grow_bits (mElements m) (Suc (mBucketBits m));
          m1 = m\<lparr>mBucketBits := newBucketBits,
                 mpBucket := replicate (NUM_HASHMAP_BUCKETS newBucketBits) []\<rparr>
      in move_buckets ins m1 (mpBucket m) (mElements m))"

definition resizeIfNeededAndSafe :: "('k, 'v) inserter \<Rightarrow> ('k, 'v) hmap \<Rightarrow> ('k, 'v) hmap option" where
  "resizeIfNeededAndSafe ins m =
     (if 3 \<le> mElements m div NUM_HASHMAP_BUCKETS (mBucketBits m) \<and> mIteratorList m = []
      then HashMap_resize ins m else Some m)"

text \<open>
  \<open>insert\<close> of a pair into a bucket may resize, which inserts again: the number bounds the
  depth of that recursion, and running out of it is \<open>None\<close>.
\<close>

fun insert_pair :: "nat \<Rightarrow> ('k, 'v) hmap \<Rightarrow> ('k, 'v) pair \<Rightarrow> nat \<Rightarrow> ('k, 'v) hmap option" where
  "insert_pair 0 m p b = None"
| "insert_pair (Suc depth) m p b = do {
     bucket \<leftarrow> bucket_at m b;
     resizeIfNeededAndSafe (insert_pair depth)
       (m\<lparr>mpBucket := (mpBucket m)[b := insert_ordered p bucket]\<rparr>) }"

declare insert_pair.simps [simp del]

definition INSERT_DEPTH :: nat where "INSERT_DEPTH = 2"

text \<open>The value pointer a caller passes in is stored with NULL replaced.\<close>

definition stored_value :: "'v vptr \<Rightarrow> 'v vptr" where
  "stored_value v = (if v = NULLV then INTERNAL_NULL else v)"

text \<open>The result is the table and the key, or NULL when the key was there already.\<close>

definition insertKeyAndValue ::
  "('k \<Rightarrow> 32 word) \<Rightarrow> ('k \<Rightarrow> 'k \<Rightarrow> bool) \<Rightarrow> ('k, 'v) hmap \<Rightarrow> 'k option \<Rightarrow> 'v vptr
    \<Rightarrow> (('k, 'v) hmap \<times> 'k option) option" where
  "insertKeyAndValue hsh eq m key value =
     (let value' = stored_value value in
      case key of
        None \<Rightarrow> Some (m, None)
      | Some k \<Rightarrow> do {
          (b, found) \<leftarrow> lookup hsh eq m k;
          if found = None then do {
            m1 \<leftarrow> insert_pair INSERT_DEPTH
                   (m\<lparr>mElements := sz_add (mElements m) 1, pairPool := Suc (pairPool m)\<rparr>)
                   \<lparr>pid = pairPool m, pdata = k, phash = hsh k, pvalue = value'\<rparr> b;
            Some (m1, Some k)
          } else Some (m, None) })"

definition insert_key ::
  "('k \<Rightarrow> 32 word) \<Rightarrow> ('k \<Rightarrow> 'k \<Rightarrow> bool) \<Rightarrow> ('k, 'v) hmap \<Rightarrow> 'k option \<Rightarrow> (('k, 'v) hmap \<times> 'k option) option" where
  "insert_key hsh eq m obj = insertKeyAndValue hsh eq m obj NULLV"

section \<open>Removing\<close>

definition remove_nth :: "nat \<Rightarrow> 'a list \<Rightarrow> 'a list" where
  "remove_nth i xs = take i xs @ drop (Suc i) xs"

text \<open>
  The \<open>next\<close> and \<open>prev\<close> pointers of a pair in a bucket; a pair in no bucket has none to
  follow.
\<close>

fun link_of :: "(('k, 'v) pair list \<Rightarrow> nat \<Rightarrow> nat option) \<Rightarrow> ('k, 'v) pair list list \<Rightarrow> nat \<Rightarrow> nat option option" where
  "link_of f [] i = None"
| "link_of f (b # bs) i =
     (if i \<in> set (map pid b) then Some (f b (length (takeWhile (\<lambda>p. pid p \<noteq> i) b))) else link_of f bs i)"

definition next_in :: "('k, 'v) pair list \<Rightarrow> nat \<Rightarrow> nat option" where
  "next_in b n = (if Suc n < length b then Some (pid (b ! Suc n)) else None)"

definition prev_in :: "('k, 'v) pair list \<Rightarrow> nat \<Rightarrow> nat option" where
  "prev_in b n = (if 0 < n then Some (pid (b ! (n - 1))) else None)"

text \<open>
  \<open>removing\<close> assigns where it means to compare (\<open>if ((key = mpCurrentPair))\<close>): whichever
  pair is removed, an iterator that has a current pair is moved to the pair before it.
\<close>

definition removing :: "('k, 'v) pair list list \<Rightarrow> hiter \<Rightarrow> hiter option" where
  "removing buckets it =
     (case mpCurrentPair it of
        None \<Rightarrow> Some it
      | Some i \<Rightarrow> do {
          p \<leftarrow> link_of prev_in buckets i;
          Some (it\<lparr>mPairIsValid := False, mpCurrentPair := p\<rparr>) })"

fun notifyIteratorsOfRemove ::
  "('k, 'v) pair list list \<Rightarrow> (nat \<times> hiter) list \<Rightarrow> (nat \<times> hiter) list option" where
  "notifyIteratorsOfRemove buckets [] = Some []"
| "notifyIteratorsOfRemove buckets ((n, it) # its) = do {
     it1 \<leftarrow> removing buckets it;
     its1 \<leftarrow> notifyIteratorsOfRemove buckets its;
     Some ((n, it1) # its1) }"

text \<open>
  The value is set twice: first with the internal null object turned into NULL, then,
  after the pair was detached, to the raw pointer.
\<close>

definition removeKeyAndValue ::
  "('k \<Rightarrow> 32 word) \<Rightarrow> ('k \<Rightarrow> 'k \<Rightarrow> bool) \<Rightarrow> ('k, 'v) hmap \<Rightarrow> 'k option
    \<Rightarrow> (('k, 'v) hmap \<times> 'k option \<times> 'v vptr) option" where
  "removeKeyAndValue hsh eq m key =
     (case key of
        None \<Rightarrow> Some (m, None, NULLV)
      | Some k \<Rightarrow> do {
          (b, found) \<leftarrow> lookup hsh eq m k;
          case found of
            None \<Rightarrow> Some (m, None, NULLV)
          | Some i \<Rightarrow> do {
              bucket \<leftarrow> bucket_at m b;
              let p = bucket ! i;
              its \<leftarrow> notifyIteratorsOfRemove (mpBucket m) (mIteratorList m);
              Some (m\<lparr>mpBucket := (mpBucket m)[b := remove_nth i bucket],
                      mIteratorList := its, mElements := sz_sub (mElements m) 1\<rparr>, Some (pdata p), pvalue p) } })"

definition remove_key ::
  "('k \<Rightarrow> 32 word) \<Rightarrow> ('k \<Rightarrow> 'k \<Rightarrow> bool) \<Rightarrow> ('k, 'v) hmap \<Rightarrow> 'k option \<Rightarrow> (('k, 'v) hmap \<times> 'k option) option" where
  "remove_key hsh eq m key = do { (m1, k, v) \<leftarrow> removeKeyAndValue hsh eq m key; Some (m1, k) }"

text \<open>The objects that \<open>destroy\<close> deletes are listed in the result.\<close>

definition destroy ::
  "('k \<Rightarrow> 32 word) \<Rightarrow> ('k \<Rightarrow> 'k \<Rightarrow> bool) \<Rightarrow> ('k, 'v) hmap \<Rightarrow> 'k option
    \<Rightarrow> (('k, 'v) hmap \<times> bool \<times> 'k list \<times> 'v list) option" where
  "destroy hsh eq m key = do {
     (m1, removedKey, value) \<leftarrow> removeKeyAndValue hsh eq m key;
     Some (case removedKey of
             None \<Rightarrow> (m1, False, [], [])
           | Some k \<Rightarrow> (m1, True, [k], (case value of Obj v \<Rightarrow> [v] | _ \<Rightarrow> []))) }"

text \<open>
  \<open>removeAll\<close> and \<open>destroyAll\<close> take the pairs off the buckets one at a time, notifying
  the iterators of each. The result lists the pairs taken off, in order: \<open>destroyAll\<close>
  deletes their keys and values.
\<close>

function clear_buckets ::
  "nat \<Rightarrow> nat \<Rightarrow> ('k, 'v) pair list list \<Rightarrow> (nat \<times> hiter) list
    \<Rightarrow> (('k, 'v) pair list list \<times> (nat \<times> hiter) list \<times> ('k, 'v) pair list) option" where
  "clear_buckets i toBeRemoved buckets its =
     (if i < length buckets then
        (case buckets ! i of
           [] \<Rightarrow> if toBeRemoved = 0 then Some (buckets, its, [])
                 else clear_buckets (Suc i) toBeRemoved buckets its
         | p # rest \<Rightarrow> do {
             its1 \<leftarrow> notifyIteratorsOfRemove buckets its;
             (bs, its2, ps) \<leftarrow> clear_buckets i (sz_sub toBeRemoved 1) (buckets[i := rest]) its1;
             Some (bs, its2, p # ps) })
      else Some (buckets, its, []))"
  by pat_completeness auto
termination
proof (relation "measures [\<lambda>(i, t, bs, its). length (concat bs), \<lambda>(i, t, bs, its). length bs - i]", goal_cases)
  case (3 i t bs its p rest its1)
  then have "length (concat bs) = Suc (length (concat (bs[i := rest])))"
    using length_concat_update [of i bs rest] by simp
  then show ?case by simp
qed auto

declare clear_buckets.simps [simp del]

text \<open>The outer loop tests \<open>toBeRemoved\<close> before each bucket.\<close>

definition clear_all ::
  "('k, 'v) hmap \<Rightarrow> (('k, 'v) hmap \<times> ('k, 'v) pair list) option" where
  "clear_all m = do {
     (bs, its, ps) \<leftarrow> (if mElements m = 0 then Some (mpBucket m, mIteratorList m, [])
                     else clear_buckets 0 (mElements m) (mpBucket m) (mIteratorList m));
     Some (m\<lparr>mpBucket := bs, mIteratorList := its, mElements := 0\<rparr>, ps) }"

section \<open>Accessors\<close>

definition find_pair ::
  "('k \<Rightarrow> 32 word) \<Rightarrow> ('k \<Rightarrow> 'k \<Rightarrow> bool) \<Rightarrow> ('k, 'v) hmap \<Rightarrow> 'k \<Rightarrow> ('k, 'v) pair option option" where
  "find_pair hsh eq m key = do {
     (b, found) \<leftarrow> lookup hsh eq m key;
     case found of
       None \<Rightarrow> Some None
     | Some i \<Rightarrow> do { bucket \<leftarrow> bucket_at m b; Some (Some (bucket ! i)) } }"

text \<open>The value pointer as the accessors return it: the internal null object is NULL.\<close>

definition public_value :: "'v vptr \<Rightarrow> 'v vptr" where
  "public_value v = (if v \<noteq> INTERNAL_NULL then v else NULLV)"

definition findValue ::
  "('k \<Rightarrow> 32 word) \<Rightarrow> ('k \<Rightarrow> 'k \<Rightarrow> bool) \<Rightarrow> ('k, 'v) hmap \<Rightarrow> 'k \<Rightarrow> 'v vptr option" where
  "findValue hsh eq m key =
     map_option (\<lambda>p. case p of None \<Rightarrow> NULLV
                    | Some p \<Rightarrow> public_value (pvalue p))
       (find_pair hsh eq m key)"

definition find_key ::
  "('k \<Rightarrow> 32 word) \<Rightarrow> ('k \<Rightarrow> 'k \<Rightarrow> bool) \<Rightarrow> ('k, 'v) hmap \<Rightarrow> 'k \<Rightarrow> 'k option option" where
  "find_key hsh eq m key = map_option (map_option pdata) (find_pair hsh eq m key)"

definition entries :: "('k, 'v) hmap \<Rightarrow> nat" where
  "entries m = mElements m"

definition isEmpty :: "('k, 'v) hmap \<Rightarrow> bool" where
  "isEmpty m \<longleftrightarrow> entries m = 0"

definition contains_key ::
  "('k \<Rightarrow> 32 word) \<Rightarrow> ('k \<Rightarrow> 'k \<Rightarrow> bool) \<Rightarrow> ('k, 'v) hmap \<Rightarrow> 'k \<Rightarrow> bool option" where
  "contains_key hsh eq m key = map_option (\<lambda>k. k \<noteq> None) (find_key hsh eq m key)"

text \<open>The pairs in the order in which an iterator visits them.\<close>

definition hm_pairs :: "('k, 'v) hmap \<Rightarrow> ('k, 'v) pair list" where
  "hm_pairs m = concat (mpBucket m)"

section \<open>Iterators\<close>

definition HashMapIterator_init :: hiter where
  "HashMapIterator_init = \<lparr>mPosition = 0, mpCurrentPair = None, mPairIsValid = True\<rparr>"

text \<open>The constructor attaches the new iterator at the end of the container's list; the
  destructor detaches it and makes up for a resize it has held back.\<close>

definition HashMapIterator_new :: "('k, 'v) hmap \<Rightarrow> nat \<Rightarrow> ('k, 'v) hmap" where
  "HashMapIterator_new m n = m\<lparr>mIteratorList := mIteratorList m @ [(n, HashMapIterator_init)]\<rparr>"

fun detach_iterator :: "nat \<Rightarrow> (nat \<times> hiter) list \<Rightarrow> (nat \<times> hiter) list" where
  "detach_iterator n [] = []"
| "detach_iterator n (x # xs) = (if fst x = n then xs else x # detach_iterator n xs)"

definition HashMapIterator_delete :: "('k, 'v) hmap \<Rightarrow> nat \<Rightarrow> ('k, 'v) hmap option" where
  "HashMapIterator_delete m n =
     resizeIfNeededAndSafe (insert_pair INSERT_DEPTH)
       (m\<lparr>mIteratorList := detach_iterator n (mIteratorList m)\<rparr>)"

text \<open>The pair with a given identity, if it is in the table.\<close>

definition pair_with :: "('k, 'v) hmap \<Rightarrow> nat \<Rightarrow> ('k, 'v) pair option" where
  "pair_with m i = find (\<lambda>p. pid p = i) (hm_pairs m)"

text \<open>The loop of \<open>operator()\<close>: from the bucket behind \<open>position\<close> on, the first that has a
  pair.\<close>

fun next_bucket :: "nat \<Rightarrow> ('k, 'v) pair list list \<Rightarrow> nat \<times> nat option" where
  "next_bucket position [] = (Suc position, None)"
| "next_bucket position (b # bs) =
     (case b of [] \<Rightarrow> next_bucket (Suc position) bs | p # _ \<Rightarrow> (Suc position, Some (pid p)))"

text \<open>The pair the loop of \<open>operator()\<close> starts from, if there is one: the first of those
  left in the bucket.\<close>

definition iterator_first :: "('k, 'v) hmap \<Rightarrow> hiter \<Rightarrow> nat option option" where
  "iterator_first m it =
     (case mpCurrentPair it of
        Some i \<Rightarrow> link_of next_in (mpBucket m) i
      | None \<Rightarrow> do { bucket \<leftarrow> bucket_at m (mPosition it);
                     Some (case bucket of [] \<Rightarrow> None | p # _ \<Rightarrow> Some (pid p)) })"

definition iterator_next :: "('k, 'v) hmap \<Rightarrow> hiter \<Rightarrow> (hiter \<times> 'k option) option" where
  "iterator_next m it =
     (if mPosition it < numberOfBuckets m then do {
        first \<leftarrow> iterator_first m it;
        let (position, found) =
          (case first of
             Some i \<Rightarrow> (mPosition it, Some i)
           | None \<Rightarrow> next_bucket (mPosition it) (drop (Suc (mPosition it)) (mpBucket m)));
        case found of
          None \<Rightarrow> Some (it\<lparr>mPosition := position, mPairIsValid := True\<rparr>, None)
        | Some i \<Rightarrow> do {
            p \<leftarrow> pair_with m i;
            Some (it\<lparr>mPosition := position, mpCurrentPair := Some i, mPairIsValid := True\<rparr>,
                  Some (pdata p)) } }
      else Some (it\<lparr>mpCurrentPair := None, mPairIsValid := True\<rparr>, None))"

definition iterator_reset :: "hiter \<Rightarrow> hiter" where
  "iterator_reset it = HashMapIterator_init"

definition iterator_current :: "('k, 'v) hmap \<Rightarrow> hiter \<Rightarrow> ('k, 'v) pair option option" where
  "iterator_current m it =
     (if mPosition it < numberOfBuckets m \<and> mPairIsValid it then
        (case mpCurrentPair it of None \<Rightarrow> Some None | Some i \<Rightarrow> map_option Some (pair_with m i))
      else Some None)"

definition iterator_key :: "('k, 'v) hmap \<Rightarrow> hiter \<Rightarrow> 'k option option" where
  "iterator_key m it = map_option (map_option pdata) (iterator_current m it)"

definition iterator_value :: "('k, 'v) hmap \<Rightarrow> hiter \<Rightarrow> 'v vptr option" where
  "iterator_value m it =
     map_option (\<lambda>p. case p of None \<Rightarrow> NULLV | Some p \<Rightarrow> public_value (pvalue p)) (iterator_current m it)"

text \<open>
  \<open>copyInto\<close> runs an iterator \<open>n\<close> of its own over the table; \<open>fuel\<close> bounds the number
  of rounds. Deleting the iterator may resize the table.
\<close>

fun copy_loop ::
  "('k \<Rightarrow> 32 word) \<Rightarrow> ('k \<Rightarrow> 'k \<Rightarrow> bool) \<Rightarrow> nat \<Rightarrow> ('k, 'v) hmap \<Rightarrow> hiter \<Rightarrow> ('k, 'v) hmap \<Rightarrow> ('k, 'v) hmap option" where
  "copy_loop hsh eq 0 m it into = None"
| "copy_loop hsh eq (Suc fuel) m it into = do {
     (it1, k) \<leftarrow> iterator_next m it;
     case k of
       None \<Rightarrow> Some into
     | Some _ \<Rightarrow> do {
         key \<leftarrow> iterator_key m it1;
         value \<leftarrow> iterator_value m it1;
         (into1, _) \<leftarrow> insertKeyAndValue hsh eq into key value;
         copy_loop hsh eq fuel m it1 into1 } }"

definition copyInto ::
  "('k \<Rightarrow> 32 word) \<Rightarrow> ('k \<Rightarrow> 'k \<Rightarrow> bool) \<Rightarrow> ('k, 'v) hmap \<Rightarrow> nat \<Rightarrow> ('k, 'v) hmap
    \<Rightarrow> (('k, 'v) hmap \<times> ('k, 'v) hmap) option" where
  "copyInto hsh eq m n into = do {
     let m1 = HashMapIterator_new m n;
     into1 \<leftarrow> copy_loop hsh eq (Suc (mElements m)) m1 HashMapIterator_init into;
     m2 \<leftarrow> HashMapIterator_delete m1 n;
     Some (m2, into1) }"

section \<open>Buckets\<close>

text \<open>
  The shape of the table: as many buckets as the bits say, each in the order \<open>r\<close> of the
  hash codes, each pair in the bucket of its hash code. The order of this table is descending.
\<close>

definition buckets_by :: "(32 word \<Rightarrow> 32 word \<Rightarrow> bool) \<Rightarrow> nat \<Rightarrow> ('k, 'v) pair list list \<Rightarrow> bool" where
  "buckets_by r bits bs \<longleftrightarrow> 0 < bits \<and> length bs = 2 ^ bits \<and>
     (\<forall>b < length bs. sorted_wrt (\<lambda>p q. r (phash p) (phash q)) (bs ! b) \<and>
        (\<forall>p \<in> set (bs ! b). bucketNumber bits (phash p) = Some b))"

abbreviation buckets_ok :: "nat \<Rightarrow> ('k, 'v) pair list list \<Rightarrow> bool" where
  "buckets_ok \<equiv> buckets_by (\<lambda>h k. k \<le> h)"

lemma and_mask_nat: "(x::nat) AND (2 ^ n - 1) = take_bit n x"
  by (simp add: take_bit_eq_mask mask_eq_exp_minus_1)

lemma fold_hash_bound:
  assumes "0 < bits" and "f < 2 ^ bits"
  shows "\<exists>b < 2 ^ bits. fold_hash bits h f = Some b"
  using assms
proof (induction bits h f rule: fold_hash.induct)
  case (1 bits h f)
  have "f XOR take_bit bits (drop_bit bits h) < 2 ^ bits"
    by (metis "1.prems"(2) take_bit_nat_eq_self_iff take_bit_xor take_bit_take_bit min.idem)
  then show ?case
    using 1 by (subst fold_hash.simps) (simp add: Let_def NUM_HASHMAP_BUCKETS_def and_mask_nat and_mask_nat [simplified])
qed

lemma bucketNumber_bound: "0 < bits \<Longrightarrow> \<exists>b < 2 ^ bits. bucketNumber bits h = Some b"
  unfolding bucketNumber_def NUM_HASHMAP_BUCKETS_def and_mask_nat
  by (rule fold_hash_bound) simp_all

lemma lookup_loop_Some:
  "lookup_loop eq k h ps i = Some j \<Longrightarrow>
     i \<le> j \<and> j - i < length ps \<and> phash (ps ! (j - i)) = h \<and> eq (pdata (ps ! (j - i))) k"
proof (induction ps arbitrary: i)
  case (Cons p ps)
  show ?case
  proof (cases "phash p = h \<and> eq (pdata p) k")
    case False
    then have "lookup_loop eq k h ps (Suc i) = Some j" using Cons.prems by (auto split: if_splits)
    from Cons.IH [OF this] have "Suc i \<le> j" "j - Suc i < length ps"
      "phash (ps ! (j - Suc i)) = h" "eq (pdata (ps ! (j - Suc i))) k" by auto
    moreover from this have "j - i = Suc (j - Suc i)" by simp
    ultimately show ?thesis by simp
  qed (use Cons.prems in auto)
qed simp

lemma lookup_loop_None:
  assumes "sorted_wrt (\<lambda>p q. phash q \<le> phash p) ps" and "lookup_loop eq k h ps i = None"
    and "p \<in> set ps"
  shows "\<not> (phash p = h \<and> eq (pdata p) k)"
  using assms
proof (induction ps arbitrary: i)
  case (Cons q ps)
  then show ?case by (cases "h \<le> phash q") (fastforce split: if_splits)+
qed simp

lemma set_insert_ordered [simp]: "set (insert_ordered p ps) = insert p (set ps)"
  by (induction ps) auto

lemma mset_insert_ordered [simp]: "mset (insert_ordered p ps) = add_mset p (mset ps)"
  by (induction ps) auto

lemma sorted_insert_ordered:
  "sorted_wrt (\<lambda>p q. phash q \<le> phash p) ps \<Longrightarrow>
     sorted_wrt (\<lambda>p q. phash q \<le> phash p) (insert_ordered p ps)"
  by (induction ps) (auto intro: order_trans less_imp_le simp: not_le)

lemma buckets_by_update:
  assumes "buckets_by r bits bs" and "b < length bs"
    and "sorted_wrt (\<lambda>p q. r (phash p) (phash q)) x" and "\<forall>p \<in> set x. bucketNumber bits (phash p) = Some b"
  shows "buckets_by r bits (bs[b := x])"
  using assms by (auto simp: buckets_by_def nth_list_update)

lemma buckets_by_empty: "0 < bits \<Longrightarrow> buckets_by r bits (replicate (2 ^ bits) [])"
  by (simp add: buckets_by_def)

section \<open>Resizing keeps the pairs\<close>

text \<open>\<open>rebuilt_by r m m' M\<close>: the table \<open>m'\<close> is \<open>m\<close> with well-formed buckets that hold the
  multiset \<open>M\<close> of pairs.\<close>

definition rebuilt_by :: "(32 word \<Rightarrow> 32 word \<Rightarrow> bool) \<Rightarrow> ('k, 'v) hmap \<Rightarrow> ('k, 'v) hmap \<Rightarrow> ('k, 'v) pair multiset \<Rightarrow> bool" where
  "rebuilt_by r m m' M \<longleftrightarrow> (\<exists>bits bs. m' = m\<lparr>mBucketBits := bits, mpBucket := bs\<rparr> \<and>
     buckets_by r bits bs \<and> mset (concat bs) = M)"

abbreviation rebuilt :: "('k, 'v) hmap \<Rightarrow> ('k, 'v) hmap \<Rightarrow> ('k, 'v) pair multiset \<Rightarrow> bool" where
  "rebuilt \<equiv> rebuilt_by (\<lambda>h k. k \<le> h)"

text \<open>
  What resizing needs of the insertion: \<open>place\<close> puts a pair into a bucket that is ordered by \<open>r\<close>, and
  \<open>ins\<close> does no more than that while the load is below three. The hash bag has the same algorithm
  with the order reversed.
\<close>

locale bucket_inserter =
  fixes r :: "32 word \<Rightarrow> 32 word \<Rightarrow> bool"
    and place :: "('k, 'v) pair \<Rightarrow> ('k, 'v) pair list \<Rightarrow> ('k, 'v) pair list"
    and ins :: "('k, 'v) inserter"
  assumes place_mset: "mset (place p ps) = add_mset p (mset ps)"
    and place_sorted: "sorted_wrt (\<lambda>p q. r (phash p) (phash q)) ps \<Longrightarrow> sorted_wrt (\<lambda>p q. r (phash p) (phash q)) (place p ps)"
    and ins_light: "b < length (mpBucket m) \<Longrightarrow> mElements m div 2 ^ mBucketBits m < 3 \<Longrightarrow>
          ins m p b = Some (m\<lparr>mpBucket := (mpBucket m)[b := place p (mpBucket m ! b)]\<rparr>)"
begin

lemma insert_bucket_ok:
  assumes "buckets_by r bits bs" and "bucketNumber bits (phash p) = Some b"
  shows "b < length bs" and "buckets_by r bits (bs[b := place p (bs ! b)])"
    and "mset (concat (bs[b := place p (bs ! b)])) = add_mset p (mset (concat bs))"
proof -
  show b: "b < length bs"
    using assms bucketNumber_bound [of bits "phash p"] by (auto simp: buckets_by_def)
  have "set (place p (bs ! b)) = insert p (set (bs ! b))" by (metis place_mset set_mset_add_mset_insert set_mset_mset)
  then show "buckets_by r bits (bs[b := place p (bs ! b)])"
    using assms b by (intro buckets_by_update place_sorted) (auto simp: buckets_by_def)
  show "mset (concat (bs[b := place p (bs ! b)])) = add_mset p (mset (concat bs))"
    using mset_concat_update [OF b, of "place p (bs ! b)"] by (simp add: place_mset)
qed

lemma move_bucket_ok:
  assumes "buckets_by r (mBucketBits m) (mpBucket m)" and "mElements m div 2 ^ mBucketBits m < 3"
    and "length ps \<le> n" and "n < SIZE_MOD"
  shows "returns (move_bucket ins m ps n) (\<lambda>(m', n'). n' = n - length ps \<and>
           (\<exists>bs. m' = m\<lparr>mpBucket := bs\<rparr> \<and> buckets_by r (mBucketBits m) bs \<and>
              mset (concat bs) = mset (concat (mpBucket m)) + mset ps))"
  using assms
proof (induction ps arbitrary: m n)
  case Nil
  then show ?case by (auto intro!: exI [of _ "mpBucket m"])
next
  case (Cons p ps)
  obtain b where b: "bucketNumber (mBucketBits m) (phash p) = Some b"
    using bucketNumber_bound [of "mBucketBits m" "phash p"] Cons.prems(1) by (auto simp: buckets_by_def)
  let ?m = "m\<lparr>mpBucket := (mpBucket m)[b := place p (mpBucket m ! b)]\<rparr>"
  note put = insert_bucket_ok [OF Cons.prems(1) b]
  have step: "move_bucket ins m (p # ps) n = move_bucket ins ?m ps (n - 1)"
    using Cons.prems put(1) by (simp add: b ins_light sz_sub_exact)
  show ?case unfolding step
    by (rule returns_mono [OF Cons.IH [of ?m "n - 1"]]) (use Cons.prems put in auto)
qed

lemma move_buckets_ok:
  assumes "buckets_by r (mBucketBits m) (mpBucket m)" and "mElements m div 2 ^ mBucketBits m < 3"
    and "length (concat olds) = n" and "n < SIZE_MOD"
  shows "returns (move_buckets ins m olds n)
           (\<lambda>m'. \<exists>bs. m' = m\<lparr>mpBucket := bs\<rparr> \<and> buckets_by r (mBucketBits m) bs \<and>
              mset (concat bs) = mset (concat (mpBucket m)) + mset (concat olds))"
  using assms
proof (induction olds arbitrary: m n)
  case Nil
  then show ?case by (auto intro!: exI [of _ "mpBucket m"])
next
  case (Cons old olds)
  show ?case
  proof (cases "n = 0")
    case True
    then have "old = []" and "concat olds = []" using Cons.prems(3) by auto
    then show ?thesis using True Cons.prems(1) by (auto intro!: exI [of _ "mpBucket m"])
  next
    case False
    have len: "length old \<le> n" using Cons.prems(3) by auto
    have "returns (move_bucket ins m old n \<bind> (\<lambda>(m1, left). move_buckets ins m1 olds left))
      (\<lambda>m'. \<exists>bs. m' = m\<lparr>mpBucket := bs\<rparr> \<and> buckets_by r (mBucketBits m) bs \<and>
              mset (concat bs) = mset (concat (mpBucket m)) + mset (concat (old # olds)))"
    proof (rule returns_bind [OF move_bucket_ok [OF Cons.prems(1,2) len Cons.prems(4)]], clarsimp)
      fix bs
      assume bs: "buckets_by r (mBucketBits m) bs" "mset (concat bs) = mset (concat (mpBucket m)) + mset old"
      show "returns (move_buckets ins (m\<lparr>mpBucket := bs\<rparr>) olds (n - length old))
        (\<lambda>m'. \<exists>bs. m' = m\<lparr>mpBucket := bs\<rparr> \<and> buckets_by r (mBucketBits m) bs \<and>
              mset (concat bs) = mset (concat (mpBucket m)) + (mset old + mset (concat olds)))"
        by (rule returns_mono [OF Cons.IH]) (use Cons.prems bs in auto)
    qed
    then show ?thesis using False by simp
  qed
qed

lemma grow_bits_ok: "b \<le> grow_bits n b \<and> n div 2 ^ grow_bits n b < 3"
proof (induction n b rule: grow_bits.induct)
  case (1 n b)
  then show ?case
    by (subst (1 2) grow_bits.simps) (auto simp: NUM_HASHMAP_BUCKETS_def)
qed

lemma buckets_resize_ok:
  assumes "mElements m = length (hm_pairs m)" and "mElements m < SIZE_MOD"
  shows "returns (HashMap_resize ins m) (\<lambda>m'. rebuilt_by r m m' (mset (hm_pairs m)))"
proof -
  let ?bits = "grow_bits (mElements m) (Suc (mBucketBits m))"
  have bits: "0 < ?bits" "mElements m div 2 ^ ?bits < 3"
    using grow_bits_ok [of "Suc (mBucketBits m)" "mElements m"] by auto
  show ?thesis
    unfolding HashMap_resize_def Let_def
    by (rule returns_mono [OF move_buckets_ok])
       (use assms bits buckets_by_empty [OF bits(1)] in
         \<open>auto simp: NUM_HASHMAP_BUCKETS_def hm_pairs_def rebuilt_by_def\<close>)
qed

lemma resizeIfNeededAndSafe_ok:
  assumes "buckets_by r (mBucketBits m) (mpBucket m)" and "mElements m = length (hm_pairs m)"
    and "mElements m < SIZE_MOD"
  shows "returns (resizeIfNeededAndSafe ins m) (\<lambda>m'. rebuilt_by r m m' (mset (hm_pairs m)))"
proof (cases "3 \<le> mElements m div NUM_HASHMAP_BUCKETS (mBucketBits m) \<and> mIteratorList m = []")
  case True
  then show ?thesis using buckets_resize_ok [OF assms(2,3)] by (simp add: resizeIfNeededAndSafe_def)
next
  case False
  have "rebuilt_by r m m (mset (hm_pairs m))"
    unfolding rebuilt_by_def hm_pairs_def using assms(1) by (intro exI [of _ "mBucketBits m"] exI [of _ "mpBucket m"]) simp
  then show ?thesis using False by (auto simp: resizeIfNeededAndSafe_def)
qed

text \<open>Inserting a pair and resizing if that is due.\<close>

lemma place_and_resize_ok:
  assumes "buckets_by r (mBucketBits m) (mpBucket m)" and "bucketNumber (mBucketBits m) (phash p) = Some b"
    and "mElements m = Suc (length (hm_pairs m))" and "mElements m < SIZE_MOD"
  shows "returns (resizeIfNeededAndSafe ins (m\<lparr>mpBucket := (mpBucket m)[b := place p (mpBucket m ! b)]\<rparr>))
           (\<lambda>m'. rebuilt_by r m m' (add_mset p (mset (hm_pairs m))))"
proof -
  note put = insert_bucket_ok [OF assms(1,2)]
  let ?m = "m\<lparr>mpBucket := (mpBucket m)[b := place p (mpBucket m ! b)]\<rparr>"
  have pairs: "mset (hm_pairs ?m) = add_mset p (mset (hm_pairs m))" using put(3) by (simp add: hm_pairs_def)
  then have len: "length (hm_pairs ?m) = Suc (length (hm_pairs m))" by (metis size_add_mset size_mset)
  have "returns (resizeIfNeededAndSafe ins ?m) (\<lambda>m'. rebuilt_by r ?m m' (mset (hm_pairs ?m)))"
    by (rule resizeIfNeededAndSafe_ok) (use put assms len in auto)
  then show ?thesis unfolding pairs by (auto elim!: returns_mono simp: rebuilt_by_def)
qed

end

interpretation hashmap: bucket_inserter "\<lambda>h k. k \<le> h" insert_ordered "insert_pair (Suc d)" for d
  by unfold_locales
     (auto intro: sorted_insert_ordered
           simp: insert_pair.simps bucket_at_def resizeIfNeededAndSafe_def NUM_HASHMAP_BUCKETS_def)

text \<open>Two levels are enough: after a resize the load is below three, so that moving the
  pairs never resizes again.\<close>

lemma insert_pair_ok:
  assumes "buckets_ok (mBucketBits m) (mpBucket m)" and "bucketNumber (mBucketBits m) (phash p) = Some b"
    and "mElements m = Suc (length (hm_pairs m))" and "mElements m < SIZE_MOD"
  shows "returns (insert_pair INSERT_DEPTH m p b) (\<lambda>m'. rebuilt m m' (add_mset p (mset (hm_pairs m))))"
  using hashmap.place_and_resize_ok [OF assms, of 0] hashmap.insert_bucket_ok(1) [OF assms(1,2)]
  by (simp add: INSERT_DEPTH_def numeral_2_eq_2 insert_pair.simps(2) [of "Suc 0"] bucket_at_def)

section \<open>The table as a map\<close>

text \<open>
  The pairs of a table: their keys are valid and pairwise different, each carries the hash
  code of its key, a value and an identity of its own. None of this depends on the order.
\<close>

definition pairs_ok ::
  "('k \<Rightarrow> 32 word) \<Rightarrow> ('k \<Rightarrow> 'k \<Rightarrow> bool) \<Rightarrow> ('k \<Rightarrow> bool) \<Rightarrow> nat \<Rightarrow> ('k, 'v) pair list \<Rightarrow> bool" where
  "pairs_ok hsh eq ok pool ps \<longleftrightarrow>
     (\<forall>p \<in> set ps. ok (pdata p) \<and> phash p = hsh (pdata p) \<and> pvalue p \<noteq> NULLV \<and> pid p < pool) \<and>
     distinct (map pid ps) \<and>
     (\<forall>p \<in> set ps. \<forall>q \<in> set ps. eq (pdata p) (pdata q) \<longrightarrow> p = q)"

definition hm_ok ::
  "('k \<Rightarrow> 32 word) \<Rightarrow> ('k \<Rightarrow> 'k \<Rightarrow> bool) \<Rightarrow> ('k \<Rightarrow> bool) \<Rightarrow> ('k, 'v) hmap \<Rightarrow> bool" where
  "hm_ok hsh eq ok m \<longleftrightarrow>
     buckets_ok (mBucketBits m) (mpBucket m) \<and> pairs_ok hsh eq ok (pairPool m) (hm_pairs m) \<and>
     mElements m = length (hm_pairs m) \<and> mElements m < SIZE_MOD"

text \<open>What the table maps a key to: the raw value pointer of the pair with an equal key.\<close>

definition hm_abs :: "('k \<Rightarrow> 'k \<Rightarrow> bool) \<Rightarrow> ('k, 'v) hmap \<Rightarrow> 'k \<Rightarrow> 'v vptr option" where
  "hm_abs eq m k = map_option pvalue (find (\<lambda>p. eq (pdata p) k) (hm_pairs m))"

lemma stored_value_not_NULL [simp]: "stored_value v \<noteq> NULLV"
  by (simp add: stored_value_def)

lemma pairs_ok_mset:
  assumes "mset ps = mset qs"
  shows "pairs_ok hsh eq ok pool ps \<longleftrightarrow> pairs_ok hsh eq ok pool qs"
proof -
  have "set ps = set qs" using assms by (metis set_mset_mset)
  moreover have "distinct (map pid ps) = distinct (map pid qs)"
    by (rule mset_eq_imp_distinct_iff) (simp add: assms)
  ultimately show ?thesis by (simp add: pairs_ok_def)
qed

lemma pairs_ok_distinct: "pairs_ok hsh eq ok pool ps \<Longrightarrow> distinct ps"
  by (auto simp: pairs_ok_def distinct_map)

lemma pairs_ok_sub:
  assumes "pairs_ok hsh eq ok pool ps" and "mset qs \<subseteq># mset ps"
  shows "pairs_ok hsh eq ok pool qs"
proof -
  obtain rs where rs: "mset ps = mset (qs @ rs)"
    using assms(2) by (metis ex_mset mset_append mset_subset_eq_exists_conv)
  then have "pairs_ok hsh eq ok pool (qs @ rs)" using assms(1) pairs_ok_mset by blast
  then show ?thesis by (auto simp: pairs_ok_def)
qed

lemma pairs_ok_Cons:
  assumes "pairs_ok hsh eq ok pool ps" and "ok (pdata p)" "phash p = hsh (pdata p)" "pvalue p \<noteq> NULLV" "pid p = pool"
    and "\<And>q. q \<in> set ps \<Longrightarrow> \<not> eq (pdata q) (pdata p) \<and> \<not> eq (pdata p) (pdata q)"
  shows "pairs_ok hsh eq ok (Suc pool) (p # ps)"
  using assms unfolding pairs_ok_def by fastforce

lemma removed_not_in: "mset xs = add_mset p (mset ys) \<Longrightarrow> distinct xs \<Longrightarrow> p \<notin> set ys"
  using mset_eq_imp_distinct_iff [of xs "p # ys"] by simp

lemma find_unique:
  assumes "p \<in> set ps" and "P p" and "\<And>q. q \<in> set ps \<Longrightarrow> P q \<Longrightarrow> q = p"
  shows "find P ps = Some p"
proof (cases "find P ps")
  case None
  then show ?thesis using assms(1,2) by (auto simp: find_None_iff)
next
  case (Some q)
  then have "q \<in> set ps \<and> P q" by (auto simp: find_Some_iff)
  then show ?thesis using Some assms(3) by simp
qed

lemma UtlHashMap_new_ok: "hm_ok hsh eq ok UtlHashMap_new" and UtlHashMap_new_abs: "hm_abs eq UtlHashMap_new = Map.empty"
  using buckets_by_empty [of 4]
  by (auto simp: hm_ok_def UtlHashMap_new_def HASHMAP_INITIAL_BUCKET_BITS_def NUM_HASHMAP_BUCKETS_def
        hm_pairs_def pairs_ok_def hm_abs_def)

lemma remove_nth_split:
  assumes "i < length xs"
  shows "xs = take i xs @ xs ! i # drop (Suc i) xs"
  using assms by (rule id_take_nth_drop)

lemma mset_remove_nth: "i < length xs \<Longrightarrow> add_mset (xs ! i) (mset (remove_nth i xs)) = mset xs"
  unfolding remove_nth_def by (subst (4) remove_nth_split) simp_all

lemma set_remove_nth_subset: "set (remove_nth i xs) \<subseteq> set xs"
  unfolding remove_nth_def by (auto dest: in_set_takeD in_set_dropD)

lemma sorted_remove_nth:
  assumes "sorted_wrt R xs" and "i < length xs"
  shows "sorted_wrt R (remove_nth i xs)"
proof -
  have "sorted_wrt R (take i xs @ xs ! i # drop (Suc i) xs)" using assms remove_nth_split by metis
  then show ?thesis by (simp add: remove_nth_def sorted_wrt_append)
qed

text \<open>No iterator of the table points to a pair that is in no bucket.\<close>

definition iters_live :: "('k, 'v) hmap \<Rightarrow> bool" where
  "iters_live m \<longleftrightarrow> (\<forall>(n, it) \<in> set (mIteratorList m).
     case mpCurrentPair it of None \<Rightarrow> True | Some i \<Rightarrow> i \<in> pid ` set (hm_pairs m))"

lemma link_of_live: "i \<in> pid ` set (concat bs) \<Longrightarrow> \<exists>x. link_of f bs i = Some x"
  by (induction bs) auto

lemma notify_live:
  assumes "\<forall>(n, it) \<in> set its. case mpCurrentPair it of None \<Rightarrow> True | Some i \<Rightarrow> i \<in> pid ` set (concat bs)"
  shows "\<exists>its'. notifyIteratorsOfRemove bs its = Some its'"
  using assms
proof (induction its)
  case (Cons x its)
  obtain n it where x: "x = (n, it)" by (cases x)
  have "\<exists>it'. removing bs it = Some it'"
  proof (cases "mpCurrentPair it")
    case (Some i)
    then have "i \<in> pid ` set (concat bs)" using Cons.prems x by auto
    then show ?thesis using link_of_live [of i bs prev_in] Some by (auto simp: removing_def)
  qed (simp add: removing_def)
  then show ?case using Cons x by auto
qed simp

lemma notify_length: "notifyIteratorsOfRemove bs its = Some its' \<Longrightarrow> length its' = length its"
  by (induction its arbitrary: its') (auto split: bind_splits)

context containable
begin

lemma hm_abs_Some:
  assumes "hm_ok hash eq ok m" and "ok k"
  shows "hm_abs eq m k = Some v \<longleftrightarrow> (\<exists>p \<in> set (hm_pairs m). eq (pdata p) k \<and> pvalue p = v)"
proof -
  have uniq: "q = p" if "p \<in> set (hm_pairs m)" "q \<in> set (hm_pairs m)" "eq (pdata p) k" "eq (pdata q) k" for p q
    using that assms eq_sym eq_trans unfolding hm_ok_def pairs_ok_def by metis
  show ?thesis
  proof
    assume "hm_abs eq m k = Some v"
    then show "\<exists>p \<in> set (hm_pairs m). eq (pdata p) k \<and> pvalue p = v"
      unfolding hm_abs_def by (auto simp: find_Some_iff)
  next
    assume "\<exists>p \<in> set (hm_pairs m). eq (pdata p) k \<and> pvalue p = v"
    then obtain p where "p \<in> set (hm_pairs m)" "eq (pdata p) k" "pvalue p = v" by blast
    moreover from this have "find (\<lambda>p. eq (pdata p) k) (hm_pairs m) = Some p"
      using uniq by (intro find_unique) blast+
    ultimately show "hm_abs eq m k = Some v" by (simp add: hm_abs_def)
  qed
qed

lemma hm_abs_None: "hm_abs eq m k = None \<longleftrightarrow> (\<forall>p \<in> set (hm_pairs m). \<not> eq (pdata p) k)"
  by (auto simp: hm_abs_def find_None_iff)

lemma hm_abs_mset:
  assumes "hm_ok hash eq ok m" "hm_ok hash eq ok m'" and "ok k" and "mset (hm_pairs m') = mset (hm_pairs m)"
  shows "hm_abs eq m' k = hm_abs eq m k"
proof -
  have "set (hm_pairs m') = set (hm_pairs m)" using assms(4) by (metis set_mset_mset)
  then show ?thesis
    by (intro option.expand) (metis assms hm_abs_None hm_abs_Some option.collapse option.sel)+
qed

text \<open>\<open>lookup\<close> finds the pair with an equal key exactly when the table has one: equal keys
  have equal hash codes, hence the same bucket, and the descending order makes the early
  exit of the loop safe.\<close>

lemma lookup_ok:
  assumes m: "hm_ok hash eq ok m" and k: "ok k"
  shows "returns (lookup hash eq m k) (\<lambda>(b, found).
           bucketNumber (mBucketBits m) (hash k) = Some b \<and> b < length (mpBucket m) \<and>
           (case found of
              None \<Rightarrow> hm_abs eq m k = None
            | Some i \<Rightarrow> i < length (mpBucket m ! b) \<and> eq (pdata (mpBucket m ! b ! i)) k))"
proof -
  have bs: "buckets_ok (mBucketBits m) (mpBucket m)" and ps: "pairs_ok hash eq ok (pairPool m) (hm_pairs m)"
    using m by (auto simp: hm_ok_def)
  obtain b where b: "bucketNumber (mBucketBits m) (hash k) = Some b" "b < length (mpBucket m)"
    using bucketNumber_bound [of "mBucketBits m" "hash k"] bs by (auto simp: buckets_by_def)
  have "hm_abs eq m k = None" if none: "lookup_loop eq k (hash k) (mpBucket m ! b) 0 = None"
    unfolding hm_abs_None
  proof (intro ballI notI)
    fix p assume p: "p \<in> set (hm_pairs m)" and e: "eq (pdata p) k"
    have h: "phash p = hash k" using p ps e k eq_hash by (auto simp: pairs_ok_def)
    obtain c where c: "c < length (mpBucket m)" "p \<in> set (mpBucket m ! c)"
      using p by (auto simp: hm_pairs_def) (metis in_set_conv_nth)
    then have "bucketNumber (mBucketBits m) (phash p) = Some c" using bs unfolding buckets_by_def by blast
    then have "c = b" using b h by simp
    then show False
      using lookup_loop_None [OF _ none] c bs h e by (auto simp: buckets_by_def)
  qed
  then show ?thesis
    using b lookup_loop_Some [of eq k "hash k" "mpBucket m ! b" 0]
    by (auto simp: lookup_def bucket_at_def split: option.splits)
qed

lemma find_pair_ok:
  assumes m: "hm_ok hash eq ok m" and k: "ok k"
  shows "returns (find_pair hash eq m k) (\<lambda>p. case p of
           None \<Rightarrow> hm_abs eq m k = None
         | Some p \<Rightarrow> p \<in> set (hm_pairs m) \<and> eq (pdata p) k \<and> hm_abs eq m k = Some (pvalue p))"
  unfolding find_pair_def
proof (rule returns_bind [OF lookup_ok [OF m k]], clarsimp)
  fix b found
  assume b: "b < length (mpBucket m)" and f: "case found of None \<Rightarrow> hm_abs eq m k = None
    | Some i \<Rightarrow> i < length (mpBucket m ! b) \<and> eq (pdata (mpBucket m ! b ! i)) k"
  have "mpBucket m ! b ! i \<in> set (hm_pairs m)" if "i < length (mpBucket m ! b)" for i
    using b that by (auto simp: hm_pairs_def intro!: bexI [of _ "mpBucket m ! b"])
  then show "returns (case found of None \<Rightarrow> Some None
     | Some i \<Rightarrow> bucket_at m b \<bind> (\<lambda>bucket. Some (Some (bucket ! i))))
     (\<lambda>p. case p of None \<Rightarrow> hm_abs eq m k = None
       | Some p \<Rightarrow> p \<in> set (hm_pairs m) \<and> eq (pdata p) k \<and> hm_abs eq m k = Some (pvalue p))"
    using f b hm_abs_Some [OF m k] by (auto simp: bucket_at_def split: option.splits)
qed

lemma findValue_ok:
  assumes "hm_ok hash eq ok m" and "ok k"
  shows "findValue hash eq m k =
           Some (case hm_abs eq m k of None \<Rightarrow> NULLV | Some v \<Rightarrow> public_value v)"
  using find_pair_ok [OF assms] by (auto simp: findValue_def returns_iff split: option.splits)

lemma hm_abs_add:
  assumes m: "hm_ok hash eq ok m" and m': "hm_ok hash eq ok m'" and "ok l"
    and ms: "mset (hm_pairs m') = add_mset p (mset (hm_pairs m))"
  shows "hm_abs eq m' l = (if eq (pdata p) l then Some (pvalue p) else hm_abs eq m l)"
proof -
  have set: "set (hm_pairs m') = insert p (set (hm_pairs m))"
    using arg_cong [OF ms, of set_mset] by simp
  show ?thesis
  proof (cases "eq (pdata p) l")
    case True
    then show ?thesis using hm_abs_Some [OF m' \<open>ok l\<close>] set by auto
  next
    case False
    then have "hm_abs eq m' l = Some v \<longleftrightarrow> hm_abs eq m l = Some v" for v
      using hm_abs_Some [OF m' \<open>ok l\<close>] hm_abs_Some [OF m \<open>ok l\<close>] set by auto
    then show ?thesis using False by (metis not_Some_eq)
  qed
qed

text \<open>
  Inserting: a key that is not in the table is added with its value (NULL stored as the
  internal null object); a key that is there leaves the table as it is and returns NULL.
\<close>

lemma insert_new_ok:
  assumes m: "hm_ok hash eq ok m" and k: "ok k" and room: "Suc (mElements m) < SIZE_MOD"
    and b: "bucketNumber (mBucketBits m) (hash k) = Some b" and none: "hm_abs eq m k = None"
    and v: "v \<noteq> NULLV"
  defines "p \<equiv> \<lparr>pid = pairPool m, pdata = k, phash = hash k, pvalue = v\<rparr>"
  shows "returns (insert_pair INSERT_DEPTH
           (m\<lparr>mElements := sz_add (mElements m) 1, pairPool := Suc (pairPool m)\<rparr>) p b)
           (\<lambda>m'. hm_ok hash eq ok m' \<and> mIteratorList m' = mIteratorList m \<and>
              mset (hm_pairs m') = add_mset p (mset (hm_pairs m)))"
proof -
  let ?m = "m\<lparr>mElements := sz_add (mElements m) 1, pairPool := Suc (pairPool m)\<rparr>"
  have n: "sz_add (mElements m) 1 = Suc (mElements m)" using room by (simp add: sz_add_exact)
  have len: "mElements m = length (hm_pairs m)" using m by (simp add: hm_ok_def)
  have nk: "\<not> eq (pdata q) k \<and> \<not> eq k (pdata q) \<and> pid q \<noteq> pairPool m" if "q \<in> set (hm_pairs m)" for q
  proof -
    have "\<not> eq (pdata q) k" "ok (pdata q)" "pid q < pairPool m"
      using that none m unfolding hm_abs_None hm_ok_def pairs_ok_def by blast+
    then show ?thesis using eq_sym k by auto
  qed
  have new: "pairs_ok hash eq ok (Suc (pairPool m)) (p # hm_pairs m)"
    using m k v nk by (intro pairs_ok_Cons) (auto simp: hm_ok_def p_def)
  have "returns (insert_pair INSERT_DEPTH ?m p b) (\<lambda>m'. rebuilt ?m m' (add_mset p (mset (hm_pairs ?m))))"
    by (rule insert_pair_ok) (use m b n room len in \<open>auto simp: hm_ok_def hm_pairs_def p_def\<close>)
  then show ?thesis
  proof (rule returns_mono, goal_cases)
    case (1 m')
    then have pairs: "mset (hm_pairs m') = mset (p # hm_pairs m)"
      by (auto simp: rebuilt_by_def hm_pairs_def)
    have "length (hm_pairs m') = Suc (mElements m)" using arg_cong [OF pairs, of size] len by simp
    moreover have "pairs_ok hash eq ok (Suc (pairPool m)) (hm_pairs m')"
      using new pairs_ok_mset [OF pairs] by simp
    ultimately show ?case using 1 room n pairs by (auto simp: rebuilt_by_def hm_ok_def)
  qed
qed

lemma insertKeyAndValue_ok:
  assumes m: "hm_ok hash eq ok m" and k: "ok k" and room: "Suc (mElements m) < SIZE_MOD"
  shows "returns (insertKeyAndValue hash eq m (Some k) v) (\<lambda>(m', r). hm_ok hash eq ok m' \<and>
           mIteratorList m' = mIteratorList m \<and>
           (if hm_abs eq m k = None then r = Some k \<and> mset (hm_pairs m') =
              add_mset \<lparr>pid = pairPool m, pdata = k, phash = hash k, pvalue = stored_value v\<rparr> (mset (hm_pairs m))
            else r = None \<and> m' = m))" (is "returns _ ?P")
  unfolding insertKeyAndValue_def Let_def option.case
proof (rule returns_bind [OF lookup_ok [OF m k]], goal_cases)
  case (1 x)
  obtain b found where x: "x = (b, found)" by (cases x)
  show ?case
  proof (cases found)
    case None
    have "hm_abs eq m k = None" "bucketNumber (mBucketBits m) (hash k) = Some b" using 1 x None by auto
    with insert_new_ok [OF m k room this(2,1), of "stored_value v"] show ?thesis
      by (simp add: x None) (erule returns_bind, simp)
  next
    case (Some i)
    have "mpBucket m ! b ! i \<in> set (hm_pairs m)" "eq (pdata (mpBucket m ! b ! i)) k"
      using 1 x Some by (auto simp: hm_pairs_def intro!: bexI [of _ "mpBucket m ! b"])
    then have "hm_abs eq m k \<noteq> None" unfolding hm_abs_None by blast
    then show ?thesis using m by (simp add: x Some)
  qed
qed

text \<open>
  Removing: the pair with the equal key is taken out, and its key and raw value pointer
  are returned; without such a key nothing changes.
\<close>

lemma removeKeyAndValue_ok:
  assumes m: "hm_ok hash eq ok m" and k: "ok k" and live: "iters_live m"
  shows "returns (removeKeyAndValue hash eq m (Some k)) (\<lambda>(m', r, v). hm_ok hash eq ok m' \<and>
           length (mIteratorList m') = length (mIteratorList m) \<and>
           (case hm_abs eq m k of
              None \<Rightarrow> m' = m \<and> r = None \<and> v = NULLV
            | Some w \<Rightarrow> \<exists>p \<in> set (hm_pairs m). eq (pdata p) k \<and> r = Some (pdata p) \<and> pvalue p = w \<and> v = w \<and>
                mset (hm_pairs m) = add_mset p (mset (hm_pairs m'))))"
  unfolding removeKeyAndValue_def option.case
proof (rule returns_bind [OF lookup_ok [OF m k]], goal_cases)
  case (1 x)
  obtain b found where x: "x = (b, found)" by (cases x)
  show ?case
  proof (cases found)
    case None
    then show ?thesis using 1 m x by simp
  next
    case (Some i)
    let ?b = "mpBucket m ! b"
    let ?bs = "(mpBucket m)[b := remove_nth i ?b]"
    have b: "b < length (mpBucket m)" and i: "i < length ?b" and e: "eq (pdata (?b ! i)) k"
      using 1 x Some by auto
    have p: "?b ! i \<in> set (hm_pairs m)"
      using b i by (auto simp: hm_pairs_def intro!: bexI [of _ ?b])
    then have abs: "hm_abs eq m k = Some (pvalue (?b ! i))" using e hm_abs_Some [OF m k] by blast
    obtain its where its: "notifyIteratorsOfRemove (mpBucket m) (mIteratorList m) = Some its"
      using notify_live [of "mIteratorList m" "mpBucket m"] live unfolding iters_live_def hm_pairs_def by blast
    have ms: "mset (hm_pairs m) = add_mset (?b ! i) (mset (concat ?bs))"
      using mset_concat_update [OF b, of "remove_nth i ?b"]
      by (simp add: hm_pairs_def flip: mset_remove_nth [OF i])
    have "buckets_ok (mBucketBits m) ?bs"
      using m b i set_remove_nth_subset [of i ?b] unfolding hm_ok_def
      by (intro buckets_by_update sorted_remove_nth) (auto simp: buckets_by_def)
    moreover have "pairs_ok hash eq ok (pairPool m) (concat ?bs)"
      using m unfolding hm_ok_def by (auto intro: pairs_ok_sub simp: ms)
    moreover have "mElements m = Suc (length (concat ?bs))"
      using arg_cong [OF ms, of size] m by (simp add: hm_ok_def)
    moreover have "length its = length (mIteratorList m)" using its notify_length by metis
    ultimately have "hm_ok hash eq ok (m\<lparr>mpBucket := ?bs, mIteratorList := its, mElements := sz_sub (mElements m) 1\<rparr>)"
      using m by (auto simp: hm_ok_def hm_pairs_def sz_sub_exact)
    moreover have "hm_pairs (m\<lparr>mpBucket := ?bs, mIteratorList := its, mElements := sz_sub (mElements m) 1\<rparr>) = concat ?bs"
      by (simp add: hm_pairs_def)
    ultimately show ?thesis
      using p e ms b by (auto simp: x Some bucket_at_def its abs Let_def notify_length [OF its] intro!: bexI [of _ "?b ! i"])
  qed
qed

lemma hm_abs_eq:
  assumes m: "hm_ok hash eq ok m" and k: "ok k" and l: "ok l" and e: "eq k l"
  shows "hm_abs eq m k = hm_abs eq m l"
proof -
  have "eq (pdata p) k \<longleftrightarrow> eq (pdata p) l" if "p \<in> set (hm_pairs m)" for p
    using that m k l e eq_sym eq_trans unfolding hm_ok_def pairs_ok_def by metis
  then have "hm_abs eq m k = Some v \<longleftrightarrow> hm_abs eq m l = Some v" for v
    unfolding hm_abs_Some [OF m k] hm_abs_Some [OF m l] by blast
  then show ?thesis by (metis not_Some_eq)
qed

text \<open>The effect of the two operations on the map that the table stands for.\<close>

lemma insertKeyAndValue_abs:
  assumes m: "hm_ok hash eq ok m" and k: "ok k" and room: "Suc (mElements m) < SIZE_MOD"
  shows "returns (insertKeyAndValue hash eq m (Some k) v) (\<lambda>(m', r). hm_ok hash eq ok m' \<and>
           mIteratorList m' = mIteratorList m \<and> r = (if hm_abs eq m k = None then Some k else None) \<and>
           mElements m' = (if hm_abs eq m k = None then Suc (mElements m) else mElements m) \<and>
           (\<forall>l. ok l \<longrightarrow> hm_abs eq m' l =
              (if hm_abs eq m k = None \<and> eq k l then Some (stored_value v) else hm_abs eq m l)))"
proof (rule returns_mono [OF insertKeyAndValue_ok [OF m k room]], goal_cases)
  case (1 x)
  obtain m' r where x: "x = (m', r)" by (cases x)
  show ?case
  proof (cases "hm_abs eq m k = None")
    case True
    then have m': "hm_ok hash eq ok m'" and ms: "mset (hm_pairs m') =
        add_mset \<lparr>pid = pairPool m, pdata = k, phash = hash k, pvalue = stored_value v\<rparr> (mset (hm_pairs m))"
      using 1 x by auto
    have "mElements m' = Suc (mElements m)"
      using arg_cong [OF ms, of size] m m' by (simp add: hm_ok_def)
    then show ?thesis using hm_abs_add [OF m m' _ ms] 1 True by (simp add: x)
  next
    case False
    then show ?thesis using 1 by (auto simp: x)
  qed
qed

lemma removeKeyAndValue_abs:
  assumes m: "hm_ok hash eq ok m" and k: "ok k" and live: "iters_live m"
  shows "returns (removeKeyAndValue hash eq m (Some k)) (\<lambda>(m', r, v). hm_ok hash eq ok m' \<and>
           length (mIteratorList m') = length (mIteratorList m) \<and> (r = None) = (hm_abs eq m k = None) \<and>
           v = (case hm_abs eq m k of None \<Rightarrow> NULLV | Some w \<Rightarrow> w) \<and>
           mElements m = (if r = None then mElements m' else Suc (mElements m')) \<and>
           (\<forall>l. ok l \<longrightarrow> hm_abs eq m' l = (if eq k l then None else hm_abs eq m l)))"
proof (rule returns_mono [OF removeKeyAndValue_ok [OF m k live]], clarsimp, goal_cases)
  case (1 m' r v)
  show ?case
  proof (cases "hm_abs eq m k")
    case None
    then have "hm_abs eq m l = None" if "ok l" "eq k l" for l using hm_abs_eq [OF m k that] by simp
    then show ?thesis using 1 None by auto
  next
    case (Some w)
    then obtain p where p: "p \<in> set (hm_pairs m)" "eq (pdata p) k" "r = Some (pdata p)" "v = w"
      and ms: "mset (hm_pairs m) = add_mset p (mset (hm_pairs m'))" using 1 by auto
    have "ok (pdata p)" using p m by (auto simp: hm_ok_def pairs_ok_def)
    then have eqs: "eq (pdata p) l \<longleftrightarrow> eq k l" if "ok l" for l using that p(2) k eq_sym eq_trans by blast
    have "hm_abs eq m' l = (if eq k l then None else hm_abs eq m l)" if l: "ok l" for l
    proof (cases "eq k l")
      case True
      have "\<not> eq (pdata q) l" if q: "q \<in> set (hm_pairs m')" for q
      proof
        assume "eq (pdata q) l"
        moreover have "q \<in> set (hm_pairs m)" "ok (pdata q)"
          using q arg_cong [OF ms, of set_mset] 1(1) by (auto simp: hm_ok_def pairs_ok_def)
        ultimately have "q = p"
          using m p l True eqs eq_sym eq_trans \<open>ok (pdata p)\<close> unfolding hm_ok_def pairs_ok_def by metis
        moreover have "distinct (hm_pairs m)" using m pairs_ok_distinct unfolding hm_ok_def by blast
        ultimately show False
          using q removed_not_in [OF ms] by simp
      qed
      then show ?thesis using True by (simp add: hm_abs_None)
    next
      case False
      then show ?thesis using hm_abs_add [OF 1(1) m l ms] eqs [OF l] by simp
    qed
    moreover have "mElements m = Suc (mElements m')" using arg_cong [OF ms, of size] m 1(1) by (simp add: hm_ok_def)
    ultimately show ?thesis using p Some 1(2) by simp
  qed
qed

end

section \<open>The interface for the clients of a table\<close>

text \<open>
  A store of values by key, as the clients of the tables use it when no iterator is
  attached: \<open>put\<close> adds a key that is not there, \<open>del\<close> takes a key out, \<open>get\<close> looks a key
  up. \<open>put\<close> and \<open>del\<close> also tell whether they did something; a value may be null.
\<close>

locale key_value_store = containable hash eq ok
  for hash :: "'k \<Rightarrow> 32 word" and eq :: "'k \<Rightarrow> 'k \<Rightarrow> bool" and ok :: "'k \<Rightarrow> bool" +
  fixes inv :: "'s \<Rightarrow> bool" and abs :: "'s \<Rightarrow> 'k \<Rightarrow> 'v option option" and sz :: "'s \<Rightarrow> nat"
    and put :: "'s \<Rightarrow> 'k \<Rightarrow> 'v option \<Rightarrow> ('s \<times> bool) option"
    and del :: "'s \<Rightarrow> 'k \<Rightarrow> ('s \<times> bool) option"
    and get :: "'s \<Rightarrow> 'k \<Rightarrow> 'v option option"
  assumes put_law: "inv s \<Longrightarrow> ok k \<Longrightarrow> Suc (sz s) < SIZE_MOD \<Longrightarrow>
      returns (put s k v) (\<lambda>(s', done). inv s' \<and> done = (abs s k = None) \<and>
        sz s' = (if done then Suc (sz s) else sz s) \<and>
        (\<forall>l. ok l \<longrightarrow> abs s' l = (if done \<and> eq k l then Some v else abs s l)))"
    and del_law: "inv s \<Longrightarrow> ok k \<Longrightarrow>
      returns (del s k) (\<lambda>(s', done). inv s' \<and> done = (abs s k \<noteq> None) \<and>
        sz s = (if done then Suc (sz s') else sz s') \<and>
        (\<forall>l. ok l \<longrightarrow> abs s' l = (if eq k l then None else abs s l)))"
    and get_law: "inv s \<Longrightarrow> ok k \<Longrightarrow>
      returns (get s k) (\<lambda>v. v = (case abs s k of None \<Rightarrow> None | Some v \<Rightarrow> v))"
    and abs_eq: "inv s \<Longrightarrow> ok k \<Longrightarrow> ok l \<Longrightarrow> eq k l \<Longrightarrow> abs s k = abs s l"
begin

text \<open>The way the sources overwrite a value: take the key out, then put it in again.\<close>

definition set_value :: "'s \<Rightarrow> 'k \<Rightarrow> 'v option \<Rightarrow> 's option" where
  "set_value s k v = do { (s1, _) \<leftarrow> del s k; (s2, _) \<leftarrow> put s1 k v; Some s2 }"

lemma set_value_ok:
  assumes "inv s" and "ok k" and "Suc (sz s) < SIZE_MOD"
  shows "returns (set_value s k v) (\<lambda>s'. inv s' \<and> sz s' = (if abs s k = None then Suc (sz s) else sz s) \<and>
           (\<forall>l. ok l \<longrightarrow> abs s' l = (if eq k l then Some v else abs s l)))"
  unfolding set_value_def
proof (rule returns_bind [OF del_law [OF assms(1,2)]], goal_cases)
  case (1 x)
  obtain s1 d where x: "x = (s1, d)" by (cases x)
  have s1: "inv s1" and a: "\<And>l. ok l \<Longrightarrow> abs s1 l = (if eq k l then None else abs s l)"
    and sz: "sz s = (if d then Suc (sz s1) else sz s1)" and d: "d = (abs s k \<noteq> None)" using 1 x by auto
  have none: "abs s1 k = None" using a assms(2) eq_refl by simp
  have room: "Suc (sz s1) < SIZE_MOD" using sz assms(3) by (auto split: if_splits)
  show ?case unfolding x prod.case
    by (rule returns_bind [OF put_law [OF s1 assms(2) room]]) (use a none sz d in auto)
qed

lemma get_after_put:
  assumes "inv s" and "ok k" and "Suc (sz s) < SIZE_MOD" and "abs s k = None" and "ok l"
  shows "returns (put s k v \<bind> (\<lambda>(s', _). get s' l))
           (\<lambda>w. w = (if eq k l then v else (case abs s l of None \<Rightarrow> None | Some w \<Rightarrow> w)))"
proof (rule returns_bind [OF put_law [OF assms(1-3)]], goal_cases)
  case (1 x)
  then show ?case
    using assms by (cases x) (auto intro!: returns_mono [OF get_law] split: option.splits)
qed

end

text \<open>The hash table as such a store.\<close>

fun vptr_of :: "'v option \<Rightarrow> 'v vptr" where
  "vptr_of None = NULLV"
| "vptr_of (Some v) = Obj v"

fun pointee :: "'v vptr \<Rightarrow> 'v option" where
  "pointee (Obj v) = Some v"
| "pointee NULLV = None"
| "pointee INTERNAL_NULL = None"

definition table_inv :: "('k \<Rightarrow> 32 word) \<Rightarrow> ('k \<Rightarrow> 'k \<Rightarrow> bool) \<Rightarrow> ('k \<Rightarrow> bool) \<Rightarrow> ('k, 'v) hmap \<Rightarrow> bool" where
  "table_inv hsh eq ok m \<longleftrightarrow> hm_ok hsh eq ok m \<and> mIteratorList m = []"

definition table_abs :: "('k \<Rightarrow> 'k \<Rightarrow> bool) \<Rightarrow> ('k, 'v) hmap \<Rightarrow> 'k \<Rightarrow> 'v option option" where
  "table_abs eq m k = map_option pointee (hm_abs eq m k)"

definition table_put ::
  "('k \<Rightarrow> 32 word) \<Rightarrow> ('k \<Rightarrow> 'k \<Rightarrow> bool) \<Rightarrow> ('k, 'v) hmap \<Rightarrow> 'k \<Rightarrow> 'v option \<Rightarrow> (('k, 'v) hmap \<times> bool) option" where
  "table_put hsh eq m k v =
     map_option (\<lambda>(m', r). (m', r \<noteq> None)) (insertKeyAndValue hsh eq m (Some k) (vptr_of v))"

definition table_del ::
  "('k \<Rightarrow> 32 word) \<Rightarrow> ('k \<Rightarrow> 'k \<Rightarrow> bool) \<Rightarrow> ('k, 'v) hmap \<Rightarrow> 'k \<Rightarrow> (('k, 'v) hmap \<times> bool) option" where
  "table_del hsh eq m k = map_option (\<lambda>(m', r, _). (m', r \<noteq> None)) (removeKeyAndValue hsh eq m (Some k))"

definition table_get ::
  "('k \<Rightarrow> 32 word) \<Rightarrow> ('k \<Rightarrow> 'k \<Rightarrow> bool) \<Rightarrow> ('k, 'v) hmap \<Rightarrow> 'k \<Rightarrow> 'v option option" where
  "table_get hsh eq m k = map_option pointee (findValue hsh eq m k)"

lemma pointee_stored [simp]: "pointee (stored_value (vptr_of v)) = v" "pointee (public_value w) = pointee w"
  by (cases v; simp add: stored_value_def) (cases w; simp add: public_value_def)

lemma returns_map_option: "returns (map_option f m) P = returns m (\<lambda>x. P (f x))"
  by (cases m) simp_all

sublocale containable \<subseteq> table: key_value_store hash eq ok "table_inv hash eq ok" "table_abs eq" mElements
  "table_put hash eq" "table_del hash eq" "table_get hash eq"
proof unfold_locales
  fix m :: "('k, 'v) hmap" and k l and v :: "'v option"
  assume m: "table_inv hash eq ok m" and k: "ok k"
  have hm: "hm_ok hash eq ok m" and live: "iters_live m" and noit: "mIteratorList m = []"
    using m by (auto simp: table_inv_def iters_live_def)
  show "returns (table_get hash eq m k) (\<lambda>v. v = (case table_abs eq m k of None \<Rightarrow> None | Some v \<Rightarrow> v))"
    by (auto simp: table_get_def findValue_ok [OF hm k] table_abs_def split: option.splits)
  show "table_abs eq m k = table_abs eq m l" if "ok l" "eq k l"
    using hm_abs_eq [OF hm k that(1,2)] by (simp add: table_abs_def)
  show "returns (table_del hash eq m k) (\<lambda>(s', done). table_inv hash eq ok s' \<and> done = (table_abs eq m k \<noteq> None) \<and>
        mElements m = (if done then Suc (mElements s') else mElements s') \<and>
        (\<forall>l. ok l \<longrightarrow> table_abs eq s' l = (if eq k l then None else table_abs eq m l)))"
    unfolding table_del_def returns_map_option
    by (rule returns_mono [OF removeKeyAndValue_abs [OF hm k live]])
       (auto simp: table_inv_def table_abs_def noit)
  assume room: "Suc (mElements m) < SIZE_MOD"
  show "returns (table_put hash eq m k v) (\<lambda>(s', done). table_inv hash eq ok s' \<and> done = (table_abs eq m k = None) \<and>
        mElements s' = (if done then Suc (mElements m) else mElements m) \<and>
        (\<forall>l. ok l \<longrightarrow> table_abs eq s' l = (if done \<and> eq k l then Some v else table_abs eq m l)))"
    unfolding table_put_def returns_map_option
    by (rule returns_mono [OF insertKeyAndValue_abs [OF hm k room]])
       (auto simp: table_inv_def table_abs_def noit split: if_splits)
qed

section \<open>Iterating\<close>

text \<open>
  The pairs an iterator has still to visit, and that its current pair is in the bucket of
  its position.
\<close>

definition behind :: "nat \<Rightarrow> ('k, 'v) pair list \<Rightarrow> ('k, 'v) pair list" where
  "behind i b = tl (dropWhile (\<lambda>p. pid p \<noteq> i) b)"

definition remaining :: "('k, 'v) hmap \<Rightarrow> hiter \<Rightarrow> ('k, 'v) pair list" where
  "remaining m it =
     (if mPosition it < length (mpBucket m) then
        (case mpCurrentPair it of None \<Rightarrow> mpBucket m ! mPosition it | Some i \<Rightarrow> behind i (mpBucket m ! mPosition it))
        @ concat (drop (Suc (mPosition it)) (mpBucket m))
      else [])"

definition it_at :: "('k, 'v) hmap \<Rightarrow> hiter \<Rightarrow> bool" where
  "it_at m it \<longleftrightarrow> (mPosition it < length (mpBucket m) \<longrightarrow>
     (case mpCurrentPair it of None \<Rightarrow> True | Some i \<Rightarrow> i \<in> pid ` set (mpBucket m ! mPosition it)))"

lemma behind_split:
  assumes "distinct (map pid (pre @ p # post))"
  shows "behind (pid p) (pre @ p # post) = post"
    and "length (takeWhile (\<lambda>q. pid q \<noteq> pid p) (pre @ p # post)) = length pre"
proof -
  have "\<forall>q \<in> set pre. pid q \<noteq> pid p" using assms by (auto simp: distinct_map) (metis imageI)
  then show "behind (pid p) (pre @ p # post) = post"
    and "length (takeWhile (\<lambda>q. pid q \<noteq> pid p) (pre @ p # post)) = length pre"
    by (simp_all add: behind_def dropWhile_append2 takeWhile_append2)
qed

lemma link_of_nth:
  assumes "distinct (map pid (concat bs))" and "b < length bs" and "bs ! b = pre @ p # post"
  shows "link_of f bs (pid p) = Some (f (bs ! b) (length pre))"
  using assms
proof (induction bs arbitrary: b)
  case (Cons c bs)
  show ?case
  proof (cases b)
    case 0
    then show ?thesis using Cons.prems behind_split(2) [of pre p post] by simp
  next
    case (Suc b')
    then have "bs ! b' \<in> set bs" and "p \<in> set (bs ! b')" using Cons.prems nth_mem [of b' bs] by auto
    then have "pid p \<notin> set (map pid c)" using Cons.prems(1) by (auto simp: disjoint_iff)
    then show ?thesis using Cons Suc by simp
  qed
qed simp

lemma next_bucket_None: "concat bs = [] \<Longrightarrow> next_bucket pos bs = (Suc (pos + length bs), None)"
  by (induction bs arbitrary: pos) auto

lemma next_bucket_Some:
  assumes "concat bs = p # ps"
  shows "\<exists>j < length bs. \<exists>post. next_bucket pos bs = (Suc (pos + j), Some (pid p)) \<and>
           bs ! j = p # post \<and> ps = post @ concat (drop (Suc j) bs)"
  using assms
proof (induction bs arbitrary: pos)
  case (Cons b bs)
  show ?case
  proof (cases b)
    case Nil
    then obtain j post where "j < length bs" "next_bucket (Suc pos) bs = (Suc (Suc pos + j), Some (pid p))"
      "bs ! j = p # post" "ps = post @ concat (drop (Suc j) bs)"
      using Cons.IH [of "Suc pos"] Cons.prems by auto
    then show ?thesis using Nil by (intro exI [of _ "Suc j"]) simp
  next
    case (Cons q post)
    then show ?thesis using Cons.prems by (intro exI [of _ 0]) simp
  qed
qed simp

lemma it_at_split:
  assumes "it_at m it" and "mPosition it < length (mpBucket m)" and "mpCurrentPair it = Some i"
  obtains pre p post where "mpBucket m ! mPosition it = pre @ p # post" and "pid p = i"
  using assms unfolding it_at_def by (metis (no_types, lifting) imageE option.simps(5) split_list)

lemma pair_with_ok:
  assumes "distinct (map pid (hm_pairs m))" and "p \<in> set (hm_pairs m)"
  shows "pair_with m (pid p) = Some p"
  unfolding pair_with_def using assms by (intro find_unique) (auto simp: distinct_map inj_on_def)

lemma bucket_in_pairs: "b < length (mpBucket m) \<Longrightarrow> set (mpBucket m ! b) \<subseteq> set (hm_pairs m)"
  using nth_mem by (fastforce simp: hm_pairs_def)

lemma bucket_distinct:
  assumes "distinct (map pid (concat bs))" and "b < length bs"
  shows "distinct (map pid (bs ! b))"
  using assms by (induction bs arbitrary: b) (auto simp: nth_Cons split: nat.splits)

text \<open>Where an iterator stands after it has found \<open>p\<close> in bucket \<open>b\<close>.\<close>

lemma found_at:
  assumes d: "distinct (map pid (hm_pairs m))" and b: "b < length (mpBucket m)"
    and split: "mpBucket m ! b = pre @ p # post"
  shows "pair_with m (pid p) = Some p"
    and "it_at m (it\<lparr>mPosition := b, mpCurrentPair := Some (pid p), mPairIsValid := True\<rparr>)"
    and "remaining m (it\<lparr>mPosition := b, mpCurrentPair := Some (pid p), mPairIsValid := True\<rparr>)
           = post @ concat (drop (Suc b) (mpBucket m))"
proof -
  show "pair_with m (pid p) = Some p"
    using bucket_in_pairs [OF b] split by (intro pair_with_ok [OF d]) auto
  show "it_at m (it\<lparr>mPosition := b, mpCurrentPair := Some (pid p), mPairIsValid := True\<rparr>)"
    by (simp add: it_at_def split)
  show "remaining m (it\<lparr>mPosition := b, mpCurrentPair := Some (pid p), mPairIsValid := True\<rparr>)
           = post @ concat (drop (Suc b) (mpBucket m))"
    using b split behind_split(1) [of pre p post] bucket_distinct [OF d [unfolded hm_pairs_def] b]
    by (simp add: remaining_def)
qed

definition front_of :: "('k, 'v) hmap \<Rightarrow> hiter \<Rightarrow> ('k, 'v) pair list" where
  "front_of m it = (case mpCurrentPair it of None \<Rightarrow> mpBucket m ! mPosition it
     | Some i \<Rightarrow> behind i (mpBucket m ! mPosition it))"

lemma iterator_first_ok:
  assumes d: "distinct (map pid (hm_pairs m))" and at: "it_at m it" and pos: "mPosition it < length (mpBucket m)"
  shows "\<exists>pre. mpBucket m ! mPosition it = pre @ front_of m it"
    and "iterator_first m it = Some (case front_of m it of [] \<Rightarrow> None | p # _ \<Rightarrow> Some (pid p))"
proof -
  let ?b = "mpBucket m ! mPosition it"
  have "\<exists>pre. ?b = pre @ front_of m it \<and>
      iterator_first m it = Some (case front_of m it of [] \<Rightarrow> None | p # _ \<Rightarrow> Some (pid p))"
  proof (cases "mpCurrentPair it")
    case None
    then show ?thesis using pos by (simp add: front_of_def iterator_first_def bucket_at_def)
  next
    case (Some i)
    obtain pre p post where b: "?b = pre @ p # post" and i: "pid p = i" using it_at_split [OF at pos Some] .
    have "front_of m it = post"
      using behind_split(1) [of pre p post] bucket_distinct [OF d [unfolded hm_pairs_def] pos] b i Some
      by (simp add: front_of_def)
    moreover have "link_of next_in (mpBucket m) i = Some (next_in ?b (length pre))"
      using link_of_nth [OF d [unfolded hm_pairs_def] pos b, of next_in] i by simp
    ultimately show ?thesis
      using Some b by (intro exI [of _ "pre @ [p]"])
        (auto simp: iterator_first_def next_in_def nth_append split: list.splits)
  qed
  then show "\<exists>pre. ?b = pre @ front_of m it"
    and "iterator_first m it = Some (case front_of m it of [] \<Rightarrow> None | p # _ \<Rightarrow> Some (pid p))" by blast+
qed

lemma iterator_next_ok:
  assumes d: "distinct (map pid (hm_pairs m))" and len: "length (mpBucket m) = numberOfBuckets m"
    and at: "it_at m it"
  shows "case remaining m it of
           [] \<Rightarrow> \<exists>it'. iterator_next m it = Some (it', None)
         | p # ps \<Rightarrow> \<exists>it'. iterator_next m it = Some (it', Some (pdata p)) \<and> it_at m it' \<and>
             remaining m it' = ps \<and> iterator_current m it' = Some (Some p)"
proof (cases "mPosition it < length (mpBucket m)")
  case False
  then show ?thesis by (simp add: remaining_def iterator_next_def len)
next
  case pos: True
  let ?rest = "drop (Suc (mPosition it)) (mpBucket m)"
  obtain pre where pre: "mpBucket m ! mPosition it = pre @ front_of m it"
    using iterator_first_ok(1) [OF d at pos] by blast
  note first = iterator_first_ok(2) [OF d at pos]
  have rem: "remaining m it = front_of m it @ concat ?rest" using pos by (simp add: remaining_def front_of_def)
  show ?thesis
  proof (cases "front_of m it")
    case (Cons p post)
    then have "mpBucket m ! mPosition it = pre @ p # post" using pre by simp
    note f = found_at [OF d pos this]
    show ?thesis using pos len pre Cons f(1) f(2) [of it, simplified] f(3) [of it, simplified]
      by (auto simp: rem iterator_next_def first iterator_current_def)
  next
    case Nil
    show ?thesis
    proof (cases "concat ?rest")
      case rest: Nil
      show ?thesis using pos len next_bucket_None [OF rest] by (simp add: rem iterator_next_def first rest Nil)
    next
      case rest: (Cons p ps)
      obtain j post where j: "j < length ?rest" "?rest ! j = p # post" "ps = post @ concat (drop (Suc j) ?rest)"
        and n: "next_bucket (mPosition it) ?rest = (Suc (mPosition it + j), Some (pid p))"
        using next_bucket_Some [OF rest, of "mPosition it"] by blast
      let ?c = "Suc (mPosition it + j)"
      have c: "?c < length (mpBucket m)" "mpBucket m ! ?c = [] @ p # post" "ps = post @ concat (drop (Suc ?c) (mpBucket m))"
        using j by (simp_all add: add.commute)
      show ?thesis using pos len c found_at [OF d c(1,2)]
        by (auto simp: rem rest Nil iterator_next_def first n iterator_current_def)
    qed
  qed
qed

text \<open>Calling \<open>operator()\<close> again and again: the keys returned before the first NULL.\<close>

fun iterate :: "nat \<Rightarrow> ('k, 'v) hmap \<Rightarrow> hiter \<Rightarrow> 'k list option" where
  "iterate 0 m it = None"
| "iterate (Suc fuel) m it = do {
     (it1, k) \<leftarrow> iterator_next m it;
     case k of None \<Rightarrow> Some [] | Some key \<Rightarrow> map_option (Cons key) (iterate fuel m it1) }"

lemma iterate_remaining:
  assumes d: "distinct (map pid (hm_pairs m))" and len: "length (mpBucket m) = numberOfBuckets m"
    and "it_at m it" and "length (remaining m it) < fuel"
  shows "iterate fuel m it = Some (map pdata (remaining m it))"
  using assms(3,4)
proof (induction fuel arbitrary: it)
  case (Suc fuel)
  show ?case
  proof (cases "remaining m it")
    case Nil
    then show ?thesis using iterator_next_ok [OF d len Suc.prems(1)] by auto
  next
    case (Cons p ps)
    then obtain it' where "iterator_next m it = Some (it', Some (pdata p))" "it_at m it'" "remaining m it' = ps"
      using iterator_next_ok [OF d len Suc.prems(1)] by auto
    then show ?thesis using Suc.IH [of it'] Suc.prems(2) Cons by simp
  qed
qed simp

lemma init_remaining:
  assumes "length (mpBucket m) = numberOfBuckets m"
  shows "it_at m HashMapIterator_init" and "remaining m HashMapIterator_init = hm_pairs m"
proof -
  show "it_at m HashMapIterator_init" by (simp add: it_at_def HashMapIterator_init_def)
  have "mpBucket m \<noteq> []" using assms by (auto simp: numberOfBuckets_def NUM_HASHMAP_BUCKETS_def)
  then show "remaining m HashMapIterator_init = hm_pairs m"
    by (cases "mpBucket m") (auto simp: remaining_def HashMapIterator_init_def hm_pairs_def)
qed

lemma hm_ok_iterable:
  assumes "hm_ok hsh eq ok m"
  shows "distinct (map pid (hm_pairs m))" and "length (mpBucket m) = numberOfBuckets m"
  using assms by (auto simp: hm_ok_def pairs_ok_def buckets_by_def numberOfBuckets_def NUM_HASHMAP_BUCKETS_def)

text \<open>\<open>copyInto\<close> adds the entries of the table under the keys the target does not have.\<close>

lemma pointer_roundtrip [simp]: "v \<noteq> NULLV \<Longrightarrow> stored_value (public_value v) = v"
  by (cases v) (simp_all add: stored_value_def public_value_def)

context containable
begin

lemma copy_loop_ok:
  assumes m: "hm_ok hash eq ok m" and "it_at m it" and "length (remaining m it) < fuel"
    and "set (remaining m it) \<subseteq> set (hm_pairs m)"
    and "hm_ok hash eq ok into" and "length (remaining m it) + mElements into < SIZE_MOD"
  shows "returns (copy_loop hash eq fuel m it into) (\<lambda>into'. hm_ok hash eq ok into' \<and>
           (\<forall>k. ok k \<longrightarrow> hm_abs eq into' k = (case hm_abs eq into k of
              None \<Rightarrow> map_option pvalue (find (\<lambda>p. eq (pdata p) k) (remaining m it)) | Some v \<Rightarrow> Some v)))"
  using assms(2-)
proof (induction fuel arbitrary: it into)
  case (Suc fuel)
  note step = iterator_next_ok [OF hm_ok_iterable [OF m] Suc.prems(1)]
  show ?case
  proof (cases "remaining m it")
    case Nil
    then show ?thesis using step Suc.prems by (auto split: option.splits)
  next
    case (Cons p ps)
    then obtain it' where n: "iterator_next m it = Some (it', Some (pdata p))" and it': "it_at m it'"
      "remaining m it' = ps" and c: "iterator_current m it' = Some (Some p)" using step by auto
    have p: "ok (pdata p)" "pvalue p \<noteq> NULLV"
      using Suc.prems(3) Cons m by (auto simp: hm_ok_def pairs_ok_def)
    have room: "Suc (mElements into) < SIZE_MOD" using Suc.prems(5) Cons by simp
    have eqs: "eq (pdata p) k \<Longrightarrow> ok k \<Longrightarrow> hm_abs eq into k = hm_abs eq into (pdata p)" for k
      using hm_abs_eq [OF Suc.prems(4) p(1)] by metis
    have "copy_loop hash eq (Suc fuel) m it into =
        insertKeyAndValue hash eq into (Some (pdata p)) (public_value (pvalue p)) \<bind>
        (\<lambda>(into1, _). copy_loop hash eq fuel m it' into1)"
      by (simp add: n iterator_key_def iterator_value_def c)
    also have "returns \<dots> (\<lambda>into'. hm_ok hash eq ok into' \<and>
           (\<forall>k. ok k \<longrightarrow> hm_abs eq into' k = (case hm_abs eq into k of
              None \<Rightarrow> map_option pvalue (find (\<lambda>p. eq (pdata p) k) (remaining m it)) | Some v \<Rightarrow> Some v)))"
    proof (rule returns_bind [OF insertKeyAndValue_abs [OF Suc.prems(4) p(1) room]], goal_cases)
      case (1 x)
      obtain into1 r where x: "x = (into1, r)" by (cases x)
      have sub: "set (remaining m it') \<subseteq> set (hm_pairs m)" "length (remaining m it') < fuel"
        using Suc.prems(2,3) Cons it' by auto
      have "length (remaining m it') + mElements into1 < SIZE_MOD"
        using 1 Suc.prems(5) Cons it' by (auto simp: x split: if_splits)
      then show ?case
        unfolding x prod.case using 1 it' sub p Cons
        by (intro returns_mono [OF Suc.IH]) (auto simp: x eqs split: option.splits if_splits)
    qed
    finally show ?thesis .
  qed
qed simp

end

lemma detach_new: "n \<notin> fst ` set its \<Longrightarrow> detach_iterator n (its @ [(n, it)]) = its"
  by (induction its) auto

lemma hm_ok_iterators: "hm_ok hsh eq ok (m\<lparr>mIteratorList := its\<rparr>) = hm_ok hsh eq ok m"
  "hm_pairs (m\<lparr>mIteratorList := its\<rparr>) = hm_pairs m"
  by (simp_all add: hm_ok_def hm_pairs_def)

lemma rebuilt_hm_ok:
  assumes "hm_ok hsh eq ok m" and "rebuilt m m' (mset (hm_pairs m))"
  shows "hm_ok hsh eq ok m'"
proof -
  have pairs: "mset (hm_pairs m') = mset (hm_pairs m)" using assms(2) by (auto simp: rebuilt_by_def hm_pairs_def)
  show ?thesis
    using assms mset_eq_length [OF pairs] pairs_ok_mset [OF pairs, of hsh eq ok "pairPool m"]
    by (auto simp: rebuilt_by_def hm_ok_def)
qed

lemma HashMapIterator_delete_ok:
  assumes "hm_ok hsh eq ok m"
  shows "returns (HashMapIterator_delete m n)
           (\<lambda>m'. hm_ok hsh eq ok m' \<and> mset (hm_pairs m') = mset (hm_pairs m) \<and>
              mIteratorList m' = detach_iterator n (mIteratorList m))"
proof -
  let ?m = "m\<lparr>mIteratorList := detach_iterator n (mIteratorList m)\<rparr>"
  have ok: "hm_ok hsh eq ok ?m" using assms by (simp add: hm_ok_iterators)
  have "returns (HashMapIterator_delete m n) (\<lambda>m'. rebuilt ?m m' (mset (hm_pairs ?m)))"
    unfolding HashMapIterator_delete_def INSERT_DEPTH_def numeral_2_eq_2
    by (rule hashmap.resizeIfNeededAndSafe_ok) (use ok in \<open>auto simp: hm_ok_def\<close>)
  then show ?thesis
    by (rule returns_mono) (use rebuilt_hm_ok [OF ok] in \<open>auto simp: rebuilt_by_def hm_ok_iterators hm_pairs_def\<close>)
qed

context containable
begin

lemma copyInto_ok:
  assumes m: "hm_ok hash eq ok m" and n: "n \<notin> fst ` set (mIteratorList m)"
    and into: "hm_ok hash eq ok into" and room: "mElements m + mElements into < SIZE_MOD"
  shows "returns (copyInto hash eq m n into) (\<lambda>(m', into').
           hm_ok hash eq ok m' \<and> mset (hm_pairs m') = mset (hm_pairs m) \<and> mIteratorList m' = mIteratorList m \<and>
           hm_ok hash eq ok into' \<and>
           (\<forall>k. ok k \<longrightarrow> hm_abs eq into' k = (case hm_abs eq into k of None \<Rightarrow> hm_abs eq m k | Some v \<Rightarrow> Some v)))"
proof -
  let ?m = "HashMapIterator_new m n"
  have ok: "hm_ok hash eq ok ?m" and pairs: "hm_pairs ?m = hm_pairs m"
    using m by (simp_all add: HashMapIterator_new_def hm_ok_iterators)
  note init = init_remaining [OF hm_ok_iterable(2) [OF ok]]
  have len: "length (hm_pairs m) = mElements m" using m by (simp add: hm_ok_def)
  have its: "detach_iterator n (mIteratorList ?m) = mIteratorList m"
    using n by (simp add: HashMapIterator_new_def detach_new)
  have absm: "map_option pvalue (find (\<lambda>p. eq (pdata p) k) (remaining ?m HashMapIterator_init)) = hm_abs eq m k" for k
    by (simp add: init(2) pairs hm_abs_def)
  show ?thesis
    unfolding copyInto_def Let_def
  proof (rule returns_bind [OF copy_loop_ok [OF ok init(1) _ _ into]], goal_cases)
    case (4 into')
    show ?case
      by (rule returns_bind [OF HashMapIterator_delete_ok [OF ok]])
         (use 4 in \<open>auto simp: pairs its absm split: option.splits\<close>)
  qed (use init(2) pairs len room in auto)
qed

end

section \<open>Emptying the table\<close>

lemma concat_Nil_replicate: "concat bs = [] \<Longrightarrow> bs = replicate (length bs) []"
  by (induction bs) auto

lemma clear_buckets_ok:
  assumes "its = []" and "t = length (concat (drop i bs))" and "t < SIZE_MOD" and "concat (take i bs) = []"
    and "i \<le> length bs"
  shows "clear_buckets i t bs its = Some (replicate (length bs) [], [], concat (drop i bs))"
  using assms
proof (induction i t bs its rule: clear_buckets.induct)
  case (1 i t bs its)
  show ?case
  proof (cases "i < length bs")
    case False
    then have "concat bs = []" using 1 by simp
    then show ?thesis using False 1 concat_Nil_replicate [of bs] by (simp add: clear_buckets.simps)
  next
    case True
    have drop: "drop i bs = bs ! i # drop (Suc i) bs" by (rule Cons_nth_drop_Suc [OF True, symmetric])
    have take: "take (Suc i) bs = take i bs @ [bs ! i]" by (rule take_Suc_conv_app_nth [OF True])
    show ?thesis
    proof (cases "bs ! i")
      case Nil
      have "concat bs = concat (take (Suc i) bs) @ concat (drop (Suc i) bs)"
        by (metis append_take_drop_id concat_append)
      then have "t = 0 \<Longrightarrow> concat bs = []" using "1.prems" by (simp add: take Nil drop)
      then show ?thesis
        using 1(1) [OF True Nil] "1.prems" True Nil take concat_Nil_replicate [of bs]
        by (subst clear_buckets.simps) (auto simp: drop)
    next
      case (Cons p rest)
      have upd: "drop i (bs[i := rest]) = rest # drop (Suc i) bs" "take i (bs[i := rest]) = take i bs"
        using True by (simp_all add: Cons_nth_drop_Suc [symmetric])
      have t: "sz_sub t (Suc 0) = length (concat (drop i (bs[i := rest])))" "Suc (length (concat (drop i (bs[i := rest])))) < SIZE_MOD"
        using "1.prems" Cons by (simp_all add: sz_sub_exact drop upd)
      then show ?thesis
        using 1(2) [OF True Cons, of "[]"] "1.prems" True Cons
        by (subst clear_buckets.simps) (simp add: upd drop)
    qed
  qed
qed

lemma clear_all_ok:
  assumes "hm_ok hsh eq ok m" and "mIteratorList m = []"
  shows "returns (clear_all m) (\<lambda>(m', ps). hm_ok hsh eq ok m' \<and> hm_pairs m' = [] \<and> ps = hm_pairs m)"
proof -
  have n: "mElements m = length (concat (mpBucket m))" "mElements m < SIZE_MOD"
    and bits: "0 < mBucketBits m" "length (mpBucket m) = 2 ^ mBucketBits m"
    using assms(1) by (auto simp: hm_ok_def hm_pairs_def buckets_by_def)
  have "concat (mpBucket m) = [] \<Longrightarrow> mpBucket m = replicate (2 ^ mBucketBits m) []"
    using concat_Nil_replicate bits(2) by metis
  then have "clear_all m = Some (m\<lparr>mpBucket := replicate (2 ^ mBucketBits m) [], mElements := 0\<rparr>, hm_pairs m)"
    using clear_buckets_ok [of "[]" "mElements m" 0 "mpBucket m"] n assms(2) bits
    by (cases m) (auto simp: clear_all_def hm_pairs_def)
  then show ?thesis
    using buckets_by_empty [OF bits(1)] by (auto simp: hm_ok_def hm_pairs_def pairs_ok_def)
qed

section \<open>Removing while iterating\<close>

text \<open>Taking out the pair an iterator stands on leaves what it has still to visit.\<close>

lemma removing_current:
  assumes d: "distinct (map pid (hm_pairs m))" and pos: "mPosition it < length (mpBucket m)"
    and cur: "mpCurrentPair it = Some (pid p)" and split: "mpBucket m ! mPosition it = pre @ p # post"
  shows "\<exists>it'. removing (mpBucket m) it = Some it' \<and>
           (\<forall>m'. mpBucket m' = (mpBucket m)[mPosition it := pre @ post] \<longrightarrow>
              it_at m' it' \<and> remaining m' it' = remaining m it)"
proof -
  have db: "distinct (map pid (pre @ p # post))"
    using bucket_distinct [OF d [unfolded hm_pairs_def] pos] split by simp
  have link: "link_of prev_in (mpBucket m) (pid p) = Some (prev_in (pre @ p # post) (length pre))"
    using link_of_nth [OF d [unfolded hm_pairs_def] pos split, of prev_in] split by simp
  have old: "remaining m it = post @ concat (drop (Suc (mPosition it)) (mpBucket m))"
    using pos cur split behind_split(1) [OF db] by (simp add: remaining_def)
  show ?thesis
  proof (cases pre rule: rev_cases)
    case Nil
    then show ?thesis
      unfolding old using cur pos by (simp add: removing_def link prev_in_def it_at_def remaining_def)
  next
    case (snoc pre' q)
    have "behind (pid q) (pre @ post) = post"
      using behind_split(1) [of pre' q post] db by (simp add: snoc)
    then show ?thesis
      unfolding old using cur pos by (simp add: removing_def link prev_in_def nth_append it_at_def remaining_def snoc)
  qed
qed

context containable
begin

lemma remove_current_ok:
  assumes m: "hm_ok hash eq ok m" and it: "mIteratorList m = [(n, it)]" and at: "it_at m it"
    and pos: "mPosition it < numberOfBuckets m" and cur: "mpCurrentPair it = Some (pid p)"
    and p: "p \<in> set (hm_pairs m)"
  shows "returns (removeKeyAndValue hash eq m (Some (pdata p))) (\<lambda>(m', r, v). r = Some (pdata p) \<and>
           (\<exists>it'. mIteratorList m' = [(n, it')] \<and> it_at m' it' \<and> remaining m' it' = remaining m it))"
proof -
  have pos': "mPosition it < length (mpBucket m)" using pos hm_ok_iterable [OF m] by simp
  have d: "distinct (map pid (hm_pairs m))" using m by (rule hm_ok_iterable)
  have k: "ok (pdata p)" "phash p = hash (pdata p)" using m p by (auto simp: hm_ok_def pairs_ok_def)
  obtain pre q post where split: "mpBucket m ! mPosition it = pre @ q # post" "pid q = pid p"
    using it_at_split [OF at pos' cur] .
  have "q \<in> set (hm_pairs m)" using bucket_in_pairs [OF pos'] split by auto
  then have [simp]: "q = p" using d p split(2) by (auto simp: distinct_map inj_on_def)
  have b: "bucketNumber (mBucketBits m) (hash (pdata p)) = Some (mPosition it)"
    using m pos' split k by (auto simp: hm_ok_def buckets_by_def)
  obtain it' where rm: "removing (mpBucket m) it = Some it'"
    and it': "\<And>m'. mpBucket m' = (mpBucket m)[mPosition it := pre @ post] \<Longrightarrow>
            it_at m' it' \<and> remaining m' it' = remaining m it"
    using removing_current [OF d pos' cur, of pre post] split by auto
  show ?thesis
    unfolding removeKeyAndValue_def option.case
  proof (rule returns_bind [OF lookup_ok [OF m k(1)]], goal_cases)
    case (1 x)
    obtain found where x: "x = (mPosition it, found)" using 1 b by (cases x) simp
    have "hm_abs eq m (pdata p) \<noteq> None" using p k eq_refl unfolding hm_abs_None by blast
    then obtain i where i: "found = Some i" "i < length (mpBucket m ! mPosition it)"
      "eq (pdata (mpBucket m ! mPosition it ! i)) (pdata p)" using 1 x by (auto split: option.splits)
    let ?q = "mpBucket m ! mPosition it ! i"
    have "?q \<in> set (hm_pairs m)" using i(2) bucket_in_pairs [OF pos'] by (auto simp: subset_iff)
    then have q: "?q = p" using i(3) m p unfolding hm_ok_def pairs_ok_def by blast
    have "i = length pre"
      using bucket_distinct [OF d [unfolded hm_pairs_def] pos'] i(2) q split
      by (intro nth_eq_iff_index_eq [of "mpBucket m ! mPosition it", THEN iffD1]) (auto simp: distinct_map)
    then have "remove_nth i (mpBucket m ! mPosition it) = pre @ post" using split by (simp add: remove_nth_def)
    then show ?case
      using it' q pos' by (auto simp: x i(1) bucket_at_def it rm Let_def)
  qed
qed

end

section \<open>Properties\<close>

abbreviation "obj_ok \<equiv> hm_ok object_hash object_isEqual object_ok"
abbreviation "obj_abs \<equiv> hm_abs object_isEqual"

text \<open>
  A table to state the examples on: three integer keys, of which 0 and 17 share a bucket
  of the sixteen.
\<close>

definition sample :: "(object, string) hmap" where
  "sample = UtlHashMap_new\<lparr>mElements := 3, pairPool := 3,
     mpBucket := [[\<lparr>pid = 1, pdata = IntObj 17, phash = 17, pvalue = Obj ''b''\<rparr>,
                   \<lparr>pid = 0, pdata = IntObj 0, phash = 0, pvalue = Obj ''a''\<rparr>], [],
                  [\<lparr>pid = 2, pdata = IntObj 2, phash = 2, pvalue = INTERNAL_NULL\<rparr>],
                  [], [], [], [], [], [], [], [], [], [], [], [], []]\<rparr>"

lemma sample_built:
  "do {
     (m1, _) \<leftarrow> insertKeyAndValue object_hash object_isEqual UtlHashMap_new (Some (IntObj 0)) (Obj ''a'');
     (m2, _) \<leftarrow> insertKeyAndValue object_hash object_isEqual m1 (Some (IntObj 17)) (Obj ''b'');
     (m3, _) \<leftarrow> insertKeyAndValue object_hash object_isEqual m2 (Some (IntObj 2)) NULLV;
     Some m3 } = Some sample"
  by code_simp

lemma sample_ok: "obj_ok sample"
proof -
  have "buckets_ok (mBucketBits sample) (mpBucket sample)"
    "pairs_ok object_hash object_isEqual object_ok (pairPool sample) (hm_pairs sample)"
    "mElements sample = length (hm_pairs sample)" "mElements sample < SIZE_MOD" by code_simp+
  then show ?thesis by (simp add: hm_ok_def)
qed

text \<open>C35. Inserting a key that is not in the table adds it, with its value, and returns the
  key; the table stays well formed and answers for every other key as before. A key that is
  in the table already leaves the table unchanged and NULL is returned. In particular the
  operation always returns: the recursion through \<open>resize\<close> ends.\<close>

theorem hashmap_insert:
  assumes "obj_ok m" and "object_ok k" and "Suc (mElements m) < SIZE_MOD"
  shows "returns (insertKeyAndValue object_hash object_isEqual m (Some k) v) (\<lambda>(m', r). obj_ok m' \<and>
           r = (if obj_abs m k = None then Some k else None) \<and>
           mElements m' = (if obj_abs m k = None then Suc (mElements m) else mElements m) \<and>
           (\<forall>l. object_ok l \<longrightarrow> obj_abs m' l =
              (if obj_abs m k = None \<and> object_isEqual k l then Some (stored_value v) else obj_abs m l)))"
  by (rule returns_mono [OF objects.insertKeyAndValue_abs [OF assms]]) auto

theorem hashmap_insert_witness:
  "returns (insertKeyAndValue object_hash object_isEqual sample (Some (IntObj 5)) (Obj ''c'')) (\<lambda>(m', r). obj_ok m' \<and>
     obj_abs m' (IntObj 5) = Some (Obj ''c'') \<and> obj_abs m' (IntObj 17) = Some (Obj ''b''))"
proof -
  have "object_ok (IntObj 5)" "Suc (mElements sample) < SIZE_MOD" "object_ok (IntObj 17)" by code_simp+
  moreover have "obj_abs sample (IntObj 5) = None" "obj_abs sample (IntObj 17) = Some (Obj ''b'')"
    "\<not> object_isEqual (IntObj 5) (IntObj 17)" "object_isEqual (IntObj 5) (IntObj 5)"
    "stored_value (Obj ''c'') = Obj ''c''" by code_simp+
  ultimately show ?thesis
    using hashmap_insert [OF sample_ok, of "IntObj 5" "Obj ''c''"] by (auto elim!: returns_mono)
qed

text \<open>Removing a key takes out the pair with an equal key and nothing else, and returns
  that pair's key and stored value pointer; with no such key, nothing changes and NULL is
  returned. The value of a key inserted with a null value comes back as the internal null
  object, not as NULL (\<open>findValue\<close> and the iterator return NULL for it).\<close>

theorem hashmap_remove:
  assumes "obj_ok m" and "object_ok k" and "iters_live m"
  shows "returns (removeKeyAndValue object_hash object_isEqual m (Some k)) (\<lambda>(m', r, v). obj_ok m' \<and>
           (r = None) = (obj_abs m k = None) \<and> v = (case obj_abs m k of None \<Rightarrow> NULLV | Some w \<Rightarrow> w) \<and>
           mElements m = (if r = None then mElements m' else Suc (mElements m')) \<and>
           (\<forall>l. object_ok l \<longrightarrow> obj_abs m' l = (if object_isEqual k l then None else obj_abs m l)))"
  by (rule returns_mono [OF objects.removeKeyAndValue_abs [OF assms]]) auto

theorem hashmap_remove_witness:
  "returns (removeKeyAndValue object_hash object_isEqual sample (Some (IntObj 2))) (\<lambda>(m', r, v).
     v = INTERNAL_NULL \<and> obj_abs m' (IntObj 2) = None \<and> obj_abs m' (IntObj 0) = Some (Obj ''a''))"
proof -
  have "object_ok (IntObj 2)" "iters_live sample" "object_ok (IntObj 0)" by code_simp+
  moreover have "obj_abs sample (IntObj 2) = Some INTERNAL_NULL" "obj_abs sample (IntObj 0) = Some (Obj ''a'')"
    "\<not> object_isEqual (IntObj 2) (IntObj 0)" "object_isEqual (IntObj 2) (IntObj 2)" by code_simp+
  ultimately show ?thesis
    using hashmap_remove [OF sample_ok, of "IntObj 2"] by (auto elim!: returns_mono)
qed

text \<open>\<open>findValue\<close> returns the value stored under an equal key, NULL when it is the internal
  null object or when there is no such key.\<close>

theorem hashmap_findValue:
  assumes "obj_ok m" and "object_ok k"
  shows "findValue object_hash object_isEqual m k =
           Some (case obj_abs m k of None \<Rightarrow> NULLV | Some v \<Rightarrow> public_value v)"
  using assms by (rule objects.findValue_ok)

theorem hashmap_findValue_witness:
  "findValue object_hash object_isEqual sample (IntObj 17) = Some (Obj ''b'')"
proof -
  have "object_ok (IntObj 17)" by code_simp
  moreover have "(case obj_abs sample (IntObj 17) of None \<Rightarrow> NULLV | Some v \<Rightarrow> public_value v) = Obj ''b''"
    by code_simp
  ultimately show ?thesis using hashmap_findValue [OF sample_ok, of "IntObj 17"] by simp
qed

text \<open>An iterator visits every pair of the table exactly once: the calls of \<open>operator()\<close>
  on a fresh iterator return the keys of all pairs, one each, and then NULL.\<close>

theorem hashmap_iterate:
  assumes "obj_ok m"
  shows "iterate (Suc (mElements m)) m HashMapIterator_init = Some (map pdata (hm_pairs m))
         \<and> distinct (map pid (hm_pairs m)) \<and> length (hm_pairs m) = mElements m"
proof -
  note it = hm_ok_iterable [OF assms]
  have "length (hm_pairs m) = mElements m" using assms by (simp add: hm_ok_def)
  then show ?thesis
    using iterate_remaining [OF it init_remaining(1) [OF it(2)], of "Suc (mElements m)"]
      init_remaining(2) [OF it(2)] it by simp
qed

theorem hashmap_iterate_witness:
  "iterate 4 sample HashMapIterator_init = Some [IntObj 17, IntObj 0, IntObj 2]"
proof -
  have "Suc (mElements sample) = 4" "map pdata (hm_pairs sample) = [IntObj 17, IntObj 0, IntObj 2]" by code_simp+
  then show ?thesis using hashmap_iterate [OF sample_ok] by metis
qed

text \<open>\<open>copyInto\<close> adds to the target every entry of the table whose key the target does not
  have; what the target had under its own keys stays, and so do the pairs of the table.\<close>

theorem hashmap_copyInto:
  assumes "obj_ok m" and "n \<notin> fst ` set (mIteratorList m)" and "obj_ok into"
    and "mElements m + mElements into < SIZE_MOD"
  shows "returns (copyInto object_hash object_isEqual m n into) (\<lambda>(m', into').
           obj_ok m' \<and> mset (hm_pairs m') = mset (hm_pairs m) \<and> obj_ok into' \<and>
           (\<forall>k. object_ok k \<longrightarrow> obj_abs into' k = (case obj_abs into k of None \<Rightarrow> obj_abs m k | Some v \<Rightarrow> Some v)))"
  by (rule returns_mono [OF objects.copyInto_ok [OF assms]]) auto

theorem hashmap_copyInto_witness:
  "returns (copyInto object_hash object_isEqual sample 7 UtlHashMap_new) (\<lambda>(m', into').
     obj_abs into' (IntObj 17) = Some (Obj ''b''))"
proof -
  have "(7::nat) \<notin> fst ` set (mIteratorList sample)"
    "mElements sample + mElements (UtlHashMap_new :: (object, string) hmap) < SIZE_MOD"
    "object_ok (IntObj 17)" by code_simp+
  moreover have "obj_abs (UtlHashMap_new :: (object, string) hmap) (IntObj 17) = None"
    "obj_abs sample (IntObj 17) = Some (Obj ''b'')" by code_simp+
  ultimately show ?thesis
    using hashmap_copyInto [OF sample_ok _ UtlHashMap_new_ok, of 7] by (auto elim!: returns_mono)
qed

text \<open>Removing the key an iterator stands on does not disturb the iteration: the pairs it
  has still to visit are the same as before.\<close>

theorem hashmap_remove_current:
  assumes "obj_ok m" and "mIteratorList m = [(n, it)]" and "it_at m it" and "mPosition it < numberOfBuckets m"
    and "mpCurrentPair it = Some (pid p)" and "p \<in> set (hm_pairs m)"
  shows "returns (removeKeyAndValue object_hash object_isEqual m (Some (pdata p))) (\<lambda>(m', r, v). r = Some (pdata p) \<and>
           (\<exists>it'. mIteratorList m' = [(n, it')] \<and> it_at m' it' \<and> remaining m' it' = remaining m it))"
  using assms by (rule objects.remove_current_ok)

definition sample_it :: "nat \<Rightarrow> hiter" where
  "sample_it i = \<lparr>mPosition = 0, mpCurrentPair = Some i, mPairIsValid = True\<rparr>"

theorem hashmap_remove_current_witness:
  "returns (removeKeyAndValue object_hash object_isEqual (sample\<lparr>mIteratorList := [(7, sample_it 1)]\<rparr>) (Some (IntObj 17)))
     (\<lambda>(m', r, v). \<exists>it'. mIteratorList m' = [(7, it')] \<and> map pdata (remaining m' it') = [IntObj 0, IntObj 2])"
proof -
  let ?m = "sample\<lparr>mIteratorList := [(7, sample_it 1)]\<rparr>"
  let ?p = "\<lparr>pid = 1, pdata = IntObj 17, phash = 17, pvalue = Obj ''b''\<rparr>"
  have "obj_ok ?m" using sample_ok by (simp add: hm_ok_iterators)
  moreover have "it_at ?m (sample_it 1)" "mPosition (sample_it 1) < numberOfBuckets ?m"
    "mpCurrentPair (sample_it 1) = Some (pid ?p)" "?p \<in> set (hm_pairs ?m)"
    "map pdata (remaining ?m (sample_it 1)) = [IntObj 0, IntObj 2]" by code_simp+
  ultimately show ?thesis
    using hashmap_remove_current [of ?m 7 "sample_it 1" ?p] by (auto elim!: returns_mono)
qed

text \<open>Removing another key than the one an iterator stands on can leave the iterator
  dangling: with the iterator on key 0, removing key 17, which is before it in the same
  bucket, moves the iterator onto the pair of 17, which is then released; the next call of
  \<open>operator()\<close> follows a pointer into a pair that is in no bucket any more.\<close>

theorem hashmap_iterator_dangles:
  "case removeKeyAndValue object_hash object_isEqual (sample\<lparr>mIteratorList := [(7, sample_it 0)]\<rparr>) (Some (IntObj 17)) of
     None \<Rightarrow> False
   | Some (m', _) \<Rightarrow> (case mIteratorList m' of
       [(_, it')] \<Rightarrow> mpCurrentPair it' = Some 1 \<and> 1 \<notin> pid ` set (hm_pairs m') \<and> iterator_next m' it' = None
     | _ \<Rightarrow> False)"
  by code_simp

text \<open>\<open>removeAll\<close> and \<open>destroyAll\<close> take every pair out, each once, and leave an empty
  table.\<close>

theorem hashmap_clear:
  assumes "obj_ok m" and "mIteratorList m = []"
  shows "returns (clear_all m) (\<lambda>(m', ps). obj_ok m' \<and> hm_pairs m' = [] \<and> ps = hm_pairs m)"
  using assms by (rule clear_all_ok)

theorem hashmap_clear_witness:
  "returns (clear_all sample) (\<lambda>(m', ps). hm_pairs m' = [] \<and> map pdata ps = [IntObj 17, IntObj 0, IntObj 2])"
proof -
  have "mIteratorList sample = []" "map pdata (hm_pairs sample) = [IntObj 17, IntObj 0, IntObj 2]" by code_simp+
  then show ?thesis using hashmap_clear [OF sample_ok] by (auto elim!: returns_mono)
qed

end
