(* ===== verification/UtlList.thy ===== *)
theory UtlList
  imports UtlContainable "HOL-Library.Multiset"
begin

text \<open>
  The list containers (\<^verbatim>\<open>sipXportLib/src/utl/UtlList.cpp\<close>, \<^verbatim>\<open>UtlSList.cpp\<close>,
  \<^verbatim>\<open>UtlSortedList.cpp\<close>) and their iterators (\<^verbatim>\<open>UtlListIterator.cpp\<close>,
  \<^verbatim>\<open>UtlSListIterator.cpp\<close>, \<^verbatim>\<open>UtlSortedListIterator.cpp\<close>).

  A container is the list of its link blocks, in order (theory \<open>UtlChain\<close> shows that the
  pointer operations are the list operations used here), and the positions of the iterators
  that are attached to it. A link block has its address, the pointer to the contained object,
  the object itself and the hash code it had when it was inserted. An iterator stands before
  the first element (NULL), at a link block, or off the end of the list; standing at a block
  that is not in the list is a dangling pointer, and following it is undefined (\<open>None\<close>).
  A class of objects is given by its \<open>compareTo\<close> and its \<open>hash\<close>. Each operation is one
  critical section of the container's lock, so locking is not modelled.
\<close>

section \<open>State\<close>

record 'a link =
  naddr :: nat
  nref :: nat
  nobj :: 'a
  nhash :: "32 word"

datatype position = BeforeFirst | At nat | OFF_LIST_END

text \<open>\<open>linkPool\<close> is the next block \<open>UtlLink::get\<close> hands out; iterators are numbered.\<close>

record 'a ulist =
  nodes :: "'a link list"
  iters :: "(nat \<times> position) list"
  linkPool :: nat

text \<open>A pointer to an object, with the object; NULL is \<open>None\<close> in the operations below.\<close>

type_synonym 'a oref = "nat \<times> 'a"

definition ref_of :: "'a link \<Rightarrow> 'a oref" where
  "ref_of n = (nref n, nobj n)"

definition UtlList_new :: "'a ulist" where
  "UtlList_new = \<lparr>nodes = [], iters = [], linkPool = 0\<rparr>"

text \<open>The blocks from \<open>mpCurrentNode == NULL ? head() : mpCurrentNode->next()\<close> on.\<close>

definition upcoming :: "'a link list \<Rightarrow> position \<Rightarrow> 'a link list option" where
  "upcoming ns pos =
     (case pos of
        BeforeFirst \<Rightarrow> Some ns
      | OFF_LIST_END \<Rightarrow> Some []
      | At a \<Rightarrow> if a \<in> naddr ` set ns then Some (tl (dropWhile (\<lambda>n. naddr n \<noteq> a) ns)) else None)"

text \<open>\<open>node->prev()\<close>, as the position of an iterator.\<close>

fun prev_position :: "position \<Rightarrow> 'a link list \<Rightarrow> nat \<Rightarrow> position" where
  "prev_position p [] a = BeforeFirst"
| "prev_position p (n # ns) a = (if naddr n = a then p else prev_position (At (naddr n)) ns a)"

section \<open>UtlList\<close>

text \<open>\<open>UtlListIterator::removing\<close> and \<open>UtlList::removeLink\<close>: every iterator is told
  first, then the block leaves the list.\<close>

definition list_removing :: "'a link list \<Rightarrow> nat \<Rightarrow> position \<Rightarrow> position" where
  "list_removing ns a mpCurrentNode =
     (if mpCurrentNode = At a then prev_position BeforeFirst ns a else mpCurrentNode)"

definition removeLink :: "'a ulist \<Rightarrow> nat \<Rightarrow> 'a ulist" where
  "removeLink l a =
     l\<lparr>iters := map (\<lambda>(i, pos). (i, list_removing (nodes l) a pos)) (iters l),
       nodes := filter (\<lambda>n. naddr n \<noteq> a) (nodes l)\<rparr>"

definition list_get :: "'a ulist \<Rightarrow> 'a ulist \<times> 'a oref option" where
  "list_get l =
     (case nodes l of
        [] \<Rightarrow> (l, None)
      | n # _ \<Rightarrow> (removeLink l (naddr n), Some (ref_of n)))"

definition removeReference :: "'a ulist \<Rightarrow> nat \<Rightarrow> 'a ulist \<times> 'a oref option" where
  "removeReference l r =
     (case find (\<lambda>n. nref n = r) (nodes l) of
        None \<Rightarrow> (l, None)
      | Some n \<Rightarrow> (removeLink l (naddr n), Some (ref_of n)))"

text \<open>\<open>removeAll\<close> and \<open>destroyAll\<close> take the head away until there is none; the fuel is the
  number of blocks. The second result is what was taken out, which \<open>destroyAll\<close> deletes.\<close>

fun remove_heads :: "nat \<Rightarrow> 'a ulist \<Rightarrow> 'a oref list \<Rightarrow> ('a ulist \<times> 'a oref list) option" where
  "remove_heads fuel l out =
     (case nodes l of
        [] \<Rightarrow> Some (l, out)
      | n # _ \<Rightarrow>
          (case fuel of
             0 \<Rightarrow> None
           | Suc f \<Rightarrow> remove_heads f (removeLink l (naddr n)) (out @ [ref_of n])))"

declare remove_heads.simps [simp del]

definition list_removeAll :: "'a ulist \<Rightarrow> 'a ulist option" where
  "list_removeAll l = map_option fst (remove_heads (length (nodes l)) l [])"

definition list_destroyAll :: "'a ulist \<Rightarrow> ('a ulist \<times> nat list) option" where
  "list_destroyAll l = map_option (\<lambda>(l', out). (l', map fst out)) (remove_heads (length (nodes l)) l [])"

text \<open>The destructor asserts that no iterator is left on the list.\<close>

definition UtlList_delete :: "'a ulist \<Rightarrow> 'a ulist option" where
  "UtlList_delete l = (if iters l = [] then list_removeAll l else None)"

definition list_first :: "'a ulist \<Rightarrow> 'a oref option" where
  "list_first l = (case nodes l of [] \<Rightarrow> None | n # _ \<Rightarrow> Some (ref_of n))"

definition list_last :: "'a ulist \<Rightarrow> 'a oref option" where
  "list_last l = (if nodes l = [] then None else Some (ref_of (last (nodes l))))"

fun skip_links :: "'a link list \<Rightarrow> nat \<Rightarrow> nat \<Rightarrow> 'a link list \<times> nat" where
  "skip_links [] N n = ([], n)"
| "skip_links (x # xs) N n = (if n < N then skip_links xs N (Suc n) else (x # xs, n))"

definition removeAt :: "'a ulist \<Rightarrow> nat \<Rightarrow> 'a ulist \<times> 'a oref option" where
  "removeAt l N =
     (case fst (skip_links (nodes l) N 0) of
        [] \<Rightarrow> (l, None)
      | n # _ \<Rightarrow> (removeLink l (naddr n), Some (ref_of n)))"

definition list_at_index :: "'a ulist \<Rightarrow> nat \<Rightarrow> 'a oref option" where
  "list_at_index l N = (case fst (skip_links (nodes l) N 0) of [] \<Rightarrow> None | n # _ \<Rightarrow> Some (ref_of n))"

definition list_entries :: "'a ulist \<Rightarrow> nat" where
  "list_entries l = length (nodes l)"

definition list_isEmpty :: "'a ulist \<Rightarrow> bool" where
  "list_isEmpty l \<longleftrightarrow> nodes l = []"

definition containsReference :: "'a ulist \<Rightarrow> nat \<Rightarrow> bool" where
  "containsReference l r \<longleftrightarrow> (\<exists>n \<in> set (nodes l). nref n = r)"

section \<open>UtlSList\<close>

text \<open>\<open>UtlLink::listBefore\<close> and \<open>listAfter\<close> of a new block: in front of the block \<open>a\<close>, or at
  the end for NULL; behind the block \<open>a\<close>, or at the front for NULL. The hash of the object
  is taken, so NULL cannot be inserted.\<close>

definition new_link :: "('a \<Rightarrow> 32 word) \<Rightarrow> 'a ulist \<Rightarrow> 'a oref \<Rightarrow> 'a link" where
  "new_link hsh l obj = \<lparr>naddr = linkPool l, nref = fst obj, nobj = snd obj, nhash = hsh (snd obj)\<rparr>"

definition before_link :: "'a link list \<Rightarrow> nat option \<Rightarrow> 'a link \<Rightarrow> 'a link list" where
  "before_link ns existing x =
     (case existing of
        None \<Rightarrow> ns @ [x]
      | Some a \<Rightarrow> takeWhile (\<lambda>n. naddr n \<noteq> a) ns @ x # dropWhile (\<lambda>n. naddr n \<noteq> a) ns)"

definition after_link :: "'a link list \<Rightarrow> nat option \<Rightarrow> 'a link \<Rightarrow> 'a link list" where
  "after_link ns existing x =
     (case existing of
        None \<Rightarrow> x # ns
      | Some a \<Rightarrow> (case dropWhile (\<lambda>n. naddr n \<noteq> a) ns of
                    [] \<Rightarrow> ns @ [x]
                  | n # rest \<Rightarrow> takeWhile (\<lambda>n. naddr n \<noteq> a) ns @ n # x # rest))"

definition insert_before :: "('a \<Rightarrow> 32 word) \<Rightarrow> 'a ulist \<Rightarrow> nat option \<Rightarrow> 'a oref \<Rightarrow> 'a ulist" where
  "insert_before hsh l existing obj =
     l\<lparr>nodes := before_link (nodes l) existing (new_link hsh l obj), linkPool := Suc (linkPool l)\<rparr>"

definition insert_after :: "('a \<Rightarrow> 32 word) \<Rightarrow> 'a ulist \<Rightarrow> nat option \<Rightarrow> 'a oref \<Rightarrow> 'a ulist" where
  "insert_after hsh l existing obj =
     l\<lparr>nodes := after_link (nodes l) existing (new_link hsh l obj), linkPool := Suc (linkPool l)\<rparr>"

definition slist_append :: "('a \<Rightarrow> 32 word) \<Rightarrow> 'a ulist \<Rightarrow> 'a oref option \<Rightarrow> 'a ulist \<times> 'a oref option" where
  "slist_append hsh l obj =
     (case obj of None \<Rightarrow> (l, None) | Some x \<Rightarrow> (insert_before hsh l None x, Some x))"

text \<open>\<open>insertAt\<close> refuses a position past the end; at a good position NULL is undefined.\<close>

definition slist_insertAt ::
  "('a \<Rightarrow> 32 word) \<Rightarrow> 'a ulist \<Rightarrow> nat \<Rightarrow> 'a oref option \<Rightarrow> ('a ulist \<times> 'a oref option) option" where
  "slist_insertAt hsh l N obj =
     (let (link, n) = skip_links (nodes l) N 0 in
      if n = N then do {
        x \<leftarrow> obj;
        Some (insert_before hsh l (case link of [] \<Rightarrow> None | y # _ \<Rightarrow> Some (naddr y)) x, Some x)
      } else Some (l, None))"

text \<open>\<open>insertAfter\<close> a block of the list, or at the front.\<close>

definition slist_insertAfter ::
  "('a \<Rightarrow> 32 word) \<Rightarrow> 'a ulist \<Rightarrow> nat option \<Rightarrow> 'a oref \<Rightarrow> ('a ulist \<times> 'a oref) option" where
  "slist_insertAfter hsh l afterNode obj =
     (if afterNode \<in> insert None (Some ` naddr ` set (nodes l))
      then Some (insert_after hsh l afterNode obj, obj) else None)"

text \<open>The first block whose object compares equal.\<close>

definition slist_remove ::
  "('a \<Rightarrow> 'a \<Rightarrow> int) \<Rightarrow> 'a ulist \<Rightarrow> 'a \<Rightarrow> 'a ulist \<times> 'a oref option" where
  "slist_remove cmp l x =
     (case find (\<lambda>n. cmp (nobj n) x = 0) (nodes l) of
        None \<Rightarrow> (l, None)
      | Some n \<Rightarrow> (removeLink l (naddr n), Some (ref_of n)))"

text \<open>\<open>destroy\<close>, of both classes, over the \<open>remove\<close> of the class: whether there was an object
  to remove, and the pointer it deletes.\<close>

definition destroy_with ::
  "('a ulist \<Rightarrow> 'a \<Rightarrow> 'a ulist \<times> 'a oref option) \<Rightarrow> 'a ulist \<Rightarrow> 'a \<Rightarrow> 'a ulist \<times> bool \<times> nat option" where
  "destroy_with rm l x =
     (case rm l x of
        (l1, None) \<Rightarrow> (l1, False, None)
      | (l1, Some removed) \<Rightarrow> (l1, True, Some (fst removed)))"

text \<open>\<open>findNextHash\<close>: the blocks from the first one with that hash code on.\<close>

fun findNextHash :: "'a link list \<Rightarrow> 32 word \<Rightarrow> 'a link list" where
  "findNextHash [] h = []"
| "findNextHash (n # ns) h = (if nhash n \<noteq> h then findNextHash ns h else n # ns)"

lemma length_findNextHash: "length (findNextHash ns h) \<le> length ns"
  by (induction ns h rule: findNextHash.induct) auto

function find_hashed :: "('a \<Rightarrow> 'a \<Rightarrow> int) \<Rightarrow> 'a \<Rightarrow> 32 word \<Rightarrow> 'a link list \<Rightarrow> 'a oref option" where
  "find_hashed cmp x h ns =
     (case findNextHash ns h of
        [] \<Rightarrow> None
      | n # rest \<Rightarrow> if cmp (nobj n) x = 0 then Some (ref_of n) else find_hashed cmp x h rest)"
  by pat_completeness auto
termination
proof (relation "measure (\<lambda>(cmp, x, h, ns). length ns)", goal_cases)
  case (2 cmp x h ns n rest)
  then show ?case using length_findNextHash [of ns h] by simp
qed simp

declare find_hashed.simps [simp del]

definition slist_find :: "('a \<Rightarrow> 'a \<Rightarrow> int) \<Rightarrow> ('a \<Rightarrow> 32 word) \<Rightarrow> 'a ulist \<Rightarrow> 'a \<Rightarrow> 'a oref option" where
  "slist_find cmp hsh l x = find_hashed cmp x (hsh x) (nodes l)"

fun count_equal :: "('a \<Rightarrow> 'a \<Rightarrow> int) \<Rightarrow> 'a \<Rightarrow> 'a link list \<Rightarrow> nat" where
  "count_equal cmp x [] = 0"
| "count_equal cmp x (n # ns) = (if cmp (nobj n) x = 0 then Suc (count_equal cmp x ns) else count_equal cmp x ns)"

definition slist_occurrencesOf :: "('a \<Rightarrow> 'a \<Rightarrow> int) \<Rightarrow> 'a ulist \<Rightarrow> 'a \<Rightarrow> nat" where
  "slist_occurrencesOf cmp l x = count_equal cmp x (nodes l)"

fun index_loop :: "('a link \<Rightarrow> bool) \<Rightarrow> 'a link list \<Rightarrow> nat \<Rightarrow> nat option" where
  "index_loop P [] i = None"
| "index_loop P (n # ns) i = (if P n then Some i else index_loop P ns (Suc i))"

text \<open>UTL_NOT_FOUND is \<open>None\<close>.\<close>

definition slist_index :: "('a \<Rightarrow> 'a \<Rightarrow> int) \<Rightarrow> 'a ulist \<Rightarrow> 'a \<Rightarrow> nat option" where
  "slist_index cmp l x = index_loop (\<lambda>n. cmp (nobj n) x = 0) (nodes l) 0"

section \<open>UtlSortedList\<close>

datatype MatchType = EXACTLY | POSITION

text \<open>The loop leaves the last comparison in a variable that is read after it.\<close>

fun findNode_loop :: "('a \<Rightarrow> 'a \<Rightarrow> int) \<Rightarrow> 'a \<Rightarrow> 'a link list \<Rightarrow> int \<Rightarrow> 'a link option \<times> int" where
  "findNode_loop cmp x [] comparison = (None, comparison)"
| "findNode_loop cmp x (n # ns) comparison =
     (let c = cmp (nobj n) x in if 0 \<le> c then (Some n, c) else findNode_loop cmp x ns c)"

definition findNode :: "('a \<Rightarrow> 'a \<Rightarrow> int) \<Rightarrow> 'a link list \<Rightarrow> MatchType \<Rightarrow> 'a \<Rightarrow> 'a link option" where
  "findNode cmp start match x =
     (let (foundNode, comparison) = findNode_loop cmp x start 0 in
      if foundNode \<noteq> None \<and> match = EXACTLY \<and> comparison \<noteq> 0 then None else foundNode)"

definition sorted_insert ::
  "('a \<Rightarrow> 'a \<Rightarrow> int) \<Rightarrow> ('a \<Rightarrow> 32 word) \<Rightarrow> 'a ulist \<Rightarrow> 'a oref \<Rightarrow> 'a ulist" where
  "sorted_insert cmp hsh l obj =
     insert_before hsh l (map_option naddr (findNode cmp (nodes l) POSITION (snd obj))) obj"

definition sorted_remove ::
  "('a \<Rightarrow> 'a \<Rightarrow> int) \<Rightarrow> 'a ulist \<Rightarrow> 'a \<Rightarrow> 'a ulist \<times> 'a oref option" where
  "sorted_remove cmp l x =
     (case findNode cmp (nodes l) EXACTLY x of
        None \<Rightarrow> (l, None)
      | Some n \<Rightarrow> (removeLink l (naddr n), Some (ref_of n)))"

definition sorted_find :: "('a \<Rightarrow> 'a \<Rightarrow> int) \<Rightarrow> 'a ulist \<Rightarrow> 'a \<Rightarrow> 'a oref option" where
  "sorted_find cmp l x = map_option ref_of (findNode cmp (nodes l) EXACTLY x)"

definition sorted_index :: "('a \<Rightarrow> 'a \<Rightarrow> int) \<Rightarrow> ('a \<Rightarrow> 32 word) \<Rightarrow> 'a ulist \<Rightarrow> 'a \<Rightarrow> nat option" where
  "sorted_index cmp hsh l x =
     index_loop (\<lambda>n. nhash n = hsh x \<and> cmp (nobj n) x = 0) (nodes l) 0"

text \<open>The \<open>comparison\<close> that should end the loop early is never assigned in it, so the loop
  visits every element.\<close>

definition sorted_occurrencesOf :: "('a \<Rightarrow> 'a \<Rightarrow> int) \<Rightarrow> 'a ulist \<Rightarrow> 'a \<Rightarrow> nat" where
  "sorted_occurrencesOf cmp l x = count_equal cmp x (nodes l)"

text \<open>\<open>UtlList::contains\<close>, with the \<open>find\<close> of the class.\<close>

definition slist_contains :: "('a \<Rightarrow> 'a \<Rightarrow> int) \<Rightarrow> ('a \<Rightarrow> 32 word) \<Rightarrow> 'a ulist \<Rightarrow> 'a \<Rightarrow> bool" where
  "slist_contains cmp hsh l x \<longleftrightarrow> slist_find cmp hsh l x \<noteq> None"

definition sorted_contains :: "('a \<Rightarrow> 'a \<Rightarrow> int) \<Rightarrow> 'a ulist \<Rightarrow> 'a \<Rightarrow> bool" where
  "sorted_contains cmp l x \<longleftrightarrow> sorted_find cmp l x \<noteq> None"

section \<open>Iterators\<close>

definition iter_pos :: "'a ulist \<Rightarrow> nat \<Rightarrow> position option" where
  "iter_pos l i = map_of (iters l) i"

definition set_pos :: "'a ulist \<Rightarrow> nat \<Rightarrow> position \<Rightarrow> 'a ulist" where
  "set_pos l i pos = l\<lparr>iters := map (\<lambda>(j, p). (j, if j = i then pos else p)) (iters l)\<rparr>"

definition iter_new :: "'a ulist \<Rightarrow> nat \<Rightarrow> 'a ulist" where
  "iter_new l i = l\<lparr>iters := iters l @ [(i, BeforeFirst)]\<rparr>"

definition iter_delete :: "'a ulist \<Rightarrow> nat \<Rightarrow> 'a ulist" where
  "iter_delete l i = l\<lparr>iters := filter (\<lambda>(j, p). j \<noteq> i) (iters l)\<rparr>"

definition iter_step :: "'a ulist \<Rightarrow> nat \<Rightarrow> ('a ulist \<times> 'a oref option) option" where
  "iter_step l i = do {
     pos \<leftarrow> iter_pos l i;
     up \<leftarrow> upcoming (nodes l) pos;
     Some (case up of
       [] \<Rightarrow> (set_pos l i OFF_LIST_END, None)
     | n # _ \<Rightarrow> (set_pos l i (At (naddr n)), Some (ref_of n))) }"

definition iter_reset :: "'a ulist \<Rightarrow> nat \<Rightarrow> 'a ulist" where
  "iter_reset l i = set_pos l i BeforeFirst"

definition iter_toLast :: "'a ulist \<Rightarrow> nat \<Rightarrow> 'a ulist \<times> 'a oref option" where
  "iter_toLast l i =
     (if nodes l = [] then (set_pos l i BeforeFirst, None)
      else (set_pos l i (At (naddr (last (nodes l)))), Some (ref_of (last (nodes l)))))"

text \<open>The stub block off the end of the list has no object.\<close>

definition iter_item :: "'a ulist \<Rightarrow> nat \<Rightarrow> 'a oref option option" where
  "iter_item l i = do {
     pos \<leftarrow> iter_pos l i;
     case pos of
       BeforeFirst \<Rightarrow> Some None
     | OFF_LIST_END \<Rightarrow> Some None
     | At a \<Rightarrow> do { n \<leftarrow> find (\<lambda>n. naddr n = a) (nodes l); Some (Some (ref_of n)) } }"

definition iter_atLast :: "'a ulist \<Rightarrow> nat \<Rightarrow> bool option" where
  "iter_atLast l i = do {
     pos \<leftarrow> iter_pos l i;
     Some (nodes l \<noteq> [] \<and> pos = At (naddr (last (nodes l)))) }"

definition peekAtNext :: "'a ulist \<Rightarrow> nat \<Rightarrow> 'a oref option option" where
  "peekAtNext l i = do {
     pos \<leftarrow> iter_pos l i;
     up \<leftarrow> upcoming (nodes l) pos;
     Some (case up of [] \<Rightarrow> None | n # _ \<Rightarrow> Some (ref_of n)) }"

definition siter_findNext ::
  "('a \<Rightarrow> 'a \<Rightarrow> int) \<Rightarrow> 'a ulist \<Rightarrow> nat \<Rightarrow> 'a \<Rightarrow> ('a ulist \<times> 'a oref option) option" where
  "siter_findNext cmp l i x = do {
     pos \<leftarrow> iter_pos l i;
     up \<leftarrow> upcoming (nodes l) pos;
     Some (case find (\<lambda>n. cmp (nobj n) x = 0) up of
       None \<Rightarrow> (l, None)
     | Some n \<Rightarrow> (set_pos l i (At (naddr n)), Some (ref_of n))) }"

definition insertAfterPoint ::
  "('a \<Rightarrow> 32 word) \<Rightarrow> 'a ulist \<Rightarrow> nat \<Rightarrow> 'a oref \<Rightarrow> ('a ulist \<times> 'a oref) option" where
  "insertAfterPoint hsh l i obj = do {
     pos \<leftarrow> iter_pos l i;
     up \<leftarrow> upcoming (nodes l) pos;
     Some (case pos of
       OFF_LIST_END \<Rightarrow> (set_pos (insert_before hsh l None obj) i (At (linkPool l)), obj)
     | BeforeFirst \<Rightarrow> (insert_after hsh l None obj, obj)
     | At a \<Rightarrow> (insert_after hsh l (Some a) obj, obj)) }"

text \<open>
  \<open>UtlSortedListIterator::findNext\<close> searches from the current element on, not from the one
  behind it; without a match it goes to the last element.
\<close>

definition sorted_iter_findNext ::
  "('a \<Rightarrow> 'a \<Rightarrow> int) \<Rightarrow> 'a ulist \<Rightarrow> nat \<Rightarrow> 'a \<Rightarrow> ('a ulist \<times> 'a oref option) option" where
  "sorted_iter_findNext cmp l i x = do {
     pos \<leftarrow> iter_pos l i;
     nextNode \<leftarrow> (case pos of
       OFF_LIST_END \<Rightarrow> Some None
     | BeforeFirst \<Rightarrow> Some (findNode cmp (nodes l) EXACTLY x)
     | At a \<Rightarrow> (if a \<in> naddr ` set (nodes l)
                then Some (findNode cmp (dropWhile (\<lambda>n. naddr n \<noteq> a) (nodes l)) EXACTLY x) else None));
     Some (case nextNode of
       Some n \<Rightarrow> (set_pos l i (At (naddr n)), Some (ref_of n))
     | None \<Rightarrow> (fst (iter_toLast l i), None)) }"

section \<open>The invariant: no iterator dangles\<close>

definition pos_ok :: "'a link list \<Rightarrow> position \<Rightarrow> bool" where
  "pos_ok ns pos \<longleftrightarrow> (case pos of At a \<Rightarrow> a \<in> naddr ` set ns | _ \<Rightarrow> True)"

definition list_inv :: "'a ulist \<Rightarrow> bool" where
  "list_inv l \<longleftrightarrow> distinct (map naddr (nodes l)) \<and> (\<forall>n\<in>set (nodes l). naddr n < linkPool l) \<and>
     distinct (map fst (iters l)) \<and> (\<forall>p\<in>set (iters l). pos_ok (nodes l) (snd p))"

lemma pos_ok_simps [simp]:
  "pos_ok ns BeforeFirst" "pos_ok ns OFF_LIST_END" "pos_ok ns (At a) \<longleftrightarrow> a \<in> naddr ` set ns"
  by (simp_all add: pos_ok_def)

lemma upcoming_defined: "pos_ok ns pos \<longleftrightarrow> upcoming ns pos \<noteq> None"
  by (cases pos) (simp_all add: upcoming_def)

lemma prev_position_in:
  assumes "p \<noteq> OFF_LIST_END" and "a \<in> naddr ` set ns"
  shows "prev_position p ns a = p \<or> (\<exists>b. prev_position p ns a = At b \<and> b \<in> naddr ` set ns)"
  using assms
proof (induction ns arbitrary: p)
  case (Cons n ns)
  then show ?case by (cases "naddr n = a") auto
qed simp

lemma prev_position_not:
  assumes "distinct (map naddr ns)" and "p \<noteq> At a"
  shows "prev_position p ns a \<noteq> At a"
  using assms
proof (induction ns arbitrary: p)
  case (Cons n ns)
  then show ?case by (cases "naddr n = a") auto
qed simp

lemma addr_split:
  assumes "distinct (map naddr (xs @ n # ys))"
  shows "x \<in> set xs \<Longrightarrow> naddr x \<noteq> naddr n" and "x \<in> set ys \<Longrightarrow> naddr x \<noteq> naddr n"
proof -
  have "naddr n \<notin> naddr ` set xs" and "naddr n \<notin> naddr ` set ys" using assms by simp_all
  then show "x \<in> set xs \<Longrightarrow> naddr x \<noteq> naddr n" and "x \<in> set ys \<Longrightarrow> naddr x \<noteq> naddr n"
    by (metis image_eqI)+
qed

text \<open>The block before \<open>a\<close> has \<open>a\<close> and what follows it still to come.\<close>

lemma upcoming_split:
  assumes "distinct (map naddr (xs @ n # ys))"
  shows "upcoming (xs @ n # ys) (At (naddr n)) = Some ys"
proof -
  have "dropWhile (\<lambda>m. naddr m \<noteq> naddr n) (xs @ n # ys) = n # ys"
    using addr_split(1) [OF assms] by (subst dropWhile_append2) auto
  then show ?thesis by (simp add: upcoming_def)
qed

lemma prev_position_split:
  assumes "distinct (map naddr (xs @ n # ys))"
  shows "prev_position p (xs @ n # ys) (naddr n) = (if xs = [] then p else At (naddr (last xs)))"
  using assms
proof (induction xs arbitrary: p)
  case (Cons x xs)
  then show ?case by auto
qed simp

lemma filter_addr_split:
  assumes "distinct (map naddr (xs @ n # ys))"
  shows "filter (\<lambda>m. naddr m \<noteq> naddr n) (xs @ n # ys) = xs @ ys"
proof -
  have "filter (\<lambda>m. naddr m \<noteq> naddr n) xs = xs" "filter (\<lambda>m. naddr m \<noteq> naddr n) ys = ys"
    using addr_split [OF assms] by (auto simp: filter_id_conv)
  then show ?thesis by simp
qed

lemma upcoming_remove_current:
  assumes "distinct (map naddr (xs @ n # ys))"
  shows "upcoming (xs @ ys) (prev_position BeforeFirst (xs @ n # ys) (naddr n)) = Some ys"
proof (cases xs rule: rev_cases)
  case Nil
  then show ?thesis by (simp add: upcoming_def)
next
  case (snoc us u)
  then show ?thesis
    using assms upcoming_split [of us u ys] by (subst prev_position_split [OF assms]) auto
qed

text \<open>Removing a block takes it out of what is left for every iterator, and nothing else.\<close>

lemma upcoming_removing:
  assumes d: "distinct (map naddr ns)" and a: "a \<in> naddr ` set ns" and p: "pos_ok ns pos"
  shows "upcoming (filter (\<lambda>n. naddr n \<noteq> a) ns) (list_removing ns a pos)
         = map_option (filter (\<lambda>n. naddr n \<noteq> a)) (upcoming ns pos)"
proof (cases "pos = At a")
  case True
  obtain n where n: "n \<in> set ns" "a = naddr n" using a by auto
  obtain xs ys where ns: "ns = xs @ n # ys" using split_list [OF n(1)] by blast
  have "filter (\<lambda>m. naddr m \<noteq> a) ys = ys" using addr_split(2) [of xs n ys] d unfolding ns n(2) by (auto simp: filter_id_conv)
  then show ?thesis
    using d True upcoming_remove_current [of xs n ys] filter_addr_split [of xs n ys] upcoming_split [of xs n ys]
    unfolding ns n(2) list_removing_def by simp
next
  case False
  show ?thesis
  proof (cases pos)
    case (At b)
    then obtain m where m: "m \<in> set ns" "b = naddr m" using p by auto
    obtain xs ys where ns: "ns = xs @ m # ys" using split_list [OF m(1)] by blast
    let ?f = "filter (\<lambda>n. naddr n \<noteq> a)"
    have b: "naddr m \<noteq> a" using False At m by simp
    then have f: "?f ns = ?f xs @ m # ?f ys" unfolding ns by simp
    have "distinct (map naddr (?f ns))" using d by (simp add: distinct_map_filter)
    then show ?thesis
      using d False upcoming_split [of "?f xs" m "?f ys"] upcoming_split [of xs m ys]
      unfolding list_removing_def At m(2) f ns by auto
  qed (use False in \<open>simp_all add: list_removing_def upcoming_def\<close>)
qed

lemma list_removing_ok:
  assumes "distinct (map naddr ns)" and "a \<in> naddr ` set ns" and "pos_ok ns pos"
  shows "pos_ok (filter (\<lambda>n. naddr n \<noteq> a) ns) (list_removing ns a pos)"
  using upcoming_removing [OF assms] assms(3) by (simp add: upcoming_defined)

lemma removeLink_inv:
  assumes "list_inv l" and "n \<in> set (nodes l)"
  shows "list_inv (removeLink l (naddr n))"
  using assms list_removing_ok [of "nodes l" "naddr n"]
  by (auto simp: list_inv_def removeLink_def distinct_map_filter comp_def case_prod_unfold)

lemma mset_before_link [simp]: "mset (before_link ns e x) = add_mset x (mset ns)"
proof (cases e)
  case (Some a)
  have "mset ns = mset (takeWhile (\<lambda>n. naddr n \<noteq> a) ns) + mset (dropWhile (\<lambda>n. naddr n \<noteq> a) ns)"
    by (metis mset_append takeWhile_dropWhile_id)
  then show ?thesis using Some unfolding before_link_def by simp
qed (simp add: before_link_def)

lemma mset_after_link [simp]: "mset (after_link ns e x) = add_mset x (mset ns)"
proof (cases e)
  case (Some a)
  have m: "mset ns = mset (takeWhile (\<lambda>n. naddr n \<noteq> a) ns) + mset (dropWhile (\<lambda>n. naddr n \<noteq> a) ns)"
    by (metis mset_append takeWhile_dropWhile_id)
  show ?thesis
  proof (cases "dropWhile (\<lambda>n. naddr n \<noteq> a) ns")
    case Nil
    then show ?thesis using Some unfolding after_link_def by (simp only: option.case list.case) simp
  next
    case (Cons n tail)
    then show ?thesis using Some m unfolding after_link_def by (simp only: option.case list.case) simp
  qed
qed (simp add: after_link_def)

lemma list_inv_add:
  assumes inv: "list_inv l" and m: "mset ns = add_mset x (mset (nodes l))" and x: "naddr x = linkPool l"
  shows "list_inv (l\<lparr>nodes := ns, linkPool := Suc (linkPool l)\<rparr>)"
proof -
  have set: "set ns = insert x (set (nodes l))" using arg_cong [OF m, of set_mset] by simp
  have "mset (map naddr ns) = mset (map naddr (x # nodes l))" by (simp add: m)
  moreover have "distinct (map naddr (x # nodes l))"
    using inv x by (auto simp: list_inv_def)
  ultimately have "distinct (map naddr ns)" by (rule mset_eq_imp_distinct_iff [THEN iffD2])
  moreover have "pos_ok ns pos" if "pos_ok (nodes l) pos" for pos
    using that set by (cases pos) auto
  ultimately show ?thesis using inv x by (auto simp: list_inv_def set less_Suc_eq)
qed

lemma new_link_simps [simp]:
  "naddr (new_link hsh l obj) = linkPool l" "nref (new_link hsh l obj) = fst obj"
  "nobj (new_link hsh l obj) = snd obj" "nhash (new_link hsh l obj) = hsh (snd obj)"
  by (simp_all add: new_link_def)

lemma insert_before_inv: "list_inv l \<Longrightarrow> list_inv (insert_before hsh l e obj)"
  unfolding insert_before_def by (erule list_inv_add [OF _ mset_before_link]) simp

lemma insert_after_inv: "list_inv l \<Longrightarrow> list_inv (insert_after hsh l e obj)"
  unfolding insert_after_def by (erule list_inv_add [OF _ mset_after_link]) simp

lemma set_pos_inv: "list_inv l \<Longrightarrow> pos_ok (nodes l) pos \<Longrightarrow> list_inv (set_pos l i pos)"
  by (auto simp: list_inv_def set_pos_def comp_def case_prod_unfold)

lemma iter_pos_ok: "list_inv l \<Longrightarrow> iter_pos l i = Some pos \<Longrightarrow> pos_ok (nodes l) pos"
  by (fastforce simp: list_inv_def iter_pos_def dest: map_of_SomeD)

lemma in_set_tlD: "x \<in> set (tl xs) \<Longrightarrow> x \<in> set xs"
  by (cases xs) auto

lemma set_upcoming: "upcoming ns pos = Some up \<Longrightarrow> set up \<subseteq> set ns"
  by (cases pos) (auto simp: upcoming_def split: if_splits dest!: in_set_tlD set_dropWhileD)

lemma find_in: "find P xs = Some x \<Longrightarrow> x \<in> set xs \<and> P x"
  by (auto simp: find_Some_iff)

lemma findNode_loop_in: "findNode_loop cmp x ns c = (Some n, d) \<Longrightarrow> n \<in> set ns"
  by (induction ns arbitrary: c) (auto simp: Let_def split: if_splits)

lemma findNode_in: "findNode cmp ns match x = Some n \<Longrightarrow> n \<in> set ns"
  by (cases "findNode_loop cmp x ns 0") (auto simp: findNode_def split: if_splits dest: findNode_loop_in)

lemma set_skip_links: "set (fst (skip_links ns N k)) \<subseteq> set ns"
  by (induction ns N k rule: skip_links.induct) auto

lemma remove_heads_ok:
  assumes "list_inv l"
  shows "\<exists>l'. remove_heads (length (nodes l)) l out = Some (l', out @ map ref_of (nodes l)) \<and> nodes l' = []
           \<and> list_inv l' \<and> map fst (iters l') = map fst (iters l)"
  using assms
proof (induction "nodes l" arbitrary: l out)
  case Nil
  then show ?case by (subst remove_heads.simps) (auto split: list.splits)
next
  case (Cons n ns)
  have n: "nodes l = [] @ n # ns" using Cons(2) by simp
  have d: "distinct (map naddr ([] @ n # ns))" using Cons(3) n by (simp add: list_inv_def)
  have nodes': "nodes (removeLink l (naddr n)) = ns"
    unfolding removeLink_def using filter_addr_split [OF d] n by simp
  have inv': "list_inv (removeLink l (naddr n))" using Cons(3) n by (intro removeLink_inv) simp_all
  have it: "map fst (iters (removeLink l (naddr n))) = map fst (iters l)"
    by (simp add: removeLink_def comp_def case_prod_unfold)
  show ?case
    using Cons(1) [OF nodes' [symmetric] inv', of "out @ [ref_of n]"]
    by (subst remove_heads.simps) (auto simp: n nodes' it)
qed

section \<open>Every sequence of operations\<close>

text \<open>One operation on a list or on one of its iterators, whatever its arguments.\<close>

inductive list_step :: "('a \<Rightarrow> 'a \<Rightarrow> int) \<Rightarrow> ('a \<Rightarrow> 32 word) \<Rightarrow> 'a ulist \<Rightarrow> 'a ulist \<Rightarrow> bool"
  for cmp :: "'a \<Rightarrow> 'a \<Rightarrow> int" and hsh :: "'a \<Rightarrow> 32 word" where
  append: "list_step cmp hsh l (fst (slist_append hsh l obj))"
| insertAt: "slist_insertAt hsh l N obj = Some (l', r) \<Longrightarrow> list_step cmp hsh l l'"
| insertAfter: "slist_insertAfter hsh l a obj = Some (l', r) \<Longrightarrow> list_step cmp hsh l l'"
| sortedInsert: "list_step cmp hsh l (sorted_insert cmp hsh l obj)"
| remove: "list_step cmp hsh l (fst (slist_remove cmp l x))"
| sortedRemove: "list_step cmp hsh l (fst (sorted_remove cmp l x))"
| removeReference: "list_step cmp hsh l (fst (removeReference l r))"
| removeAt: "list_step cmp hsh l (fst (removeAt l N))"
| get: "list_step cmp hsh l (fst (list_get l))"
| removeAll: "list_removeAll l = Some l' \<Longrightarrow> list_step cmp hsh l l'"
| iterNew: "i \<notin> fst ` set (iters l) \<Longrightarrow> list_step cmp hsh l (iter_new l i)"
| iterDelete: "list_step cmp hsh l (iter_delete l i)"
| iterStep: "iter_step l i = Some (l', r) \<Longrightarrow> list_step cmp hsh l l'"
| iterReset: "list_step cmp hsh l (iter_reset l i)"
| iterToLast: "list_step cmp hsh l (fst (iter_toLast l i))"
| findNext: "siter_findNext cmp l i x = Some (l', r) \<Longrightarrow> list_step cmp hsh l l'"
| insertAfterPoint: "insertAfterPoint hsh l i obj = Some (l', r) \<Longrightarrow> list_step cmp hsh l l'"
| sortedFindNext: "sorted_iter_findNext cmp l i x = Some (l', r) \<Longrightarrow> list_step cmp hsh l l'"

definition list_reachable :: "('a \<Rightarrow> 'a \<Rightarrow> int) \<Rightarrow> ('a \<Rightarrow> 32 word) \<Rightarrow> 'a ulist \<Rightarrow> bool" where
  "list_reachable cmp hsh l \<longleftrightarrow> (list_step cmp hsh)\<^sup>*\<^sup>* UtlList_new l"

lemma toLast_inv: "list_inv l \<Longrightarrow> list_inv (fst (iter_toLast l i))"
  unfolding iter_toLast_def by (auto intro: set_pos_inv)

lemma iter_step_inv:
  assumes "list_inv l" and "iter_step l i = Some (l', r)"
  shows "list_inv l'"
proof -
  obtain pos up where p: "iter_pos l i = Some pos" "upcoming (nodes l) pos = Some up"
    using assms(2) by (auto simp: iter_step_def split: bind_splits)
  then have "(l', r) = (case up of [] \<Rightarrow> (set_pos l i OFF_LIST_END, None)
      | n # _ \<Rightarrow> (set_pos l i (At (naddr n)), Some (ref_of n)))"
    using assms(2) by (simp add: iter_step_def)
  then show ?thesis
    using assms(1) set_upcoming [OF p(2)] by (cases up) (auto intro!: set_pos_inv)
qed

lemma siter_findNext_inv:
  assumes "list_inv l" and "siter_findNext cmp l i x = Some (l', r)"
  shows "list_inv l'"
proof -
  obtain pos up where p: "iter_pos l i = Some pos" "upcoming (nodes l) pos = Some up"
    using assms(2) by (auto simp: siter_findNext_def split: bind_splits)
  then show ?thesis
    using assms set_upcoming [OF p(2)]
    by (cases "find (\<lambda>n. cmp (nobj n) x = 0) up") (auto simp: siter_findNext_def intro!: set_pos_inv dest!: find_in)
qed

lemma insertAfterPoint_inv:
  assumes "list_inv l" and "insertAfterPoint hsh l i obj = Some (l', r)"
  shows "list_inv l'"
proof -
  obtain pos up where p: "iter_pos l i = Some pos" "upcoming (nodes l) pos = Some up"
    using assms(2) by (auto simp: insertAfterPoint_def split: bind_splits)
  have "pos_ok (nodes (insert_before hsh l None obj)) (At (linkPool l))"
    by (simp add: insert_before_def before_link_def)
  then have "list_inv (set_pos (insert_before hsh l None obj) i (At (linkPool l)))"
    by (rule set_pos_inv [OF insert_before_inv [OF assms(1)]])
  then show ?thesis
    using assms p by (cases pos) (auto simp: insertAfterPoint_def intro: insert_after_inv)
qed

lemma sorted_iter_findNext_search:
  assumes "sorted_iter_findNext cmp l i x = Some (l', r)"
  obtains ns where "set ns \<subseteq> set (nodes l)" and "(l', r) = (case findNode cmp ns EXACTLY x of
      Some n \<Rightarrow> (set_pos l i (At (naddr n)), Some (ref_of n)) | None \<Rightarrow> (fst (iter_toLast l i), None))"
proof -
  obtain pos where p: "iter_pos l i = Some pos"
    using assms by (auto simp: sorted_iter_findNext_def split: bind_splits)
  have none: "findNode cmp [] EXACTLY x = None" by (simp add: findNode_def)
  show thesis
  proof (cases pos)
    case BeforeFirst
    then show thesis using assms p by (intro that [of "nodes l"]) (simp_all add: sorted_iter_findNext_def)
  next
    case (At a)
    have "set (dropWhile (\<lambda>n. naddr n \<noteq> a) (nodes l)) \<subseteq> set (nodes l)" by (auto dest: set_dropWhileD)
    then show thesis
      by (rule that) (use assms p At in \<open>auto simp: sorted_iter_findNext_def split: if_splits\<close>)
  next
    case OFF_LIST_END
    then show thesis
      using assms p none by (intro that [of "[]"]) (simp_all add: sorted_iter_findNext_def)
  qed
qed

lemma sorted_iter_findNext_inv:
  assumes "list_inv l" and "sorted_iter_findNext cmp l i x = Some (l', r)"
  shows "list_inv l'"
proof -
  obtain ns where ns: "set ns \<subseteq> set (nodes l)" "(l', r) = (case findNode cmp ns EXACTLY x of
      Some n \<Rightarrow> (set_pos l i (At (naddr n)), Some (ref_of n)) | None \<Rightarrow> (fst (iter_toLast l i), None))"
    using assms(2) by (rule sorted_iter_findNext_search)
  then show ?thesis
    using assms(1) findNode_in [of cmp ns EXACTLY x]
    by (cases "findNode cmp ns EXACTLY x") (auto intro!: set_pos_inv toLast_inv)
qed

lemma list_step_inv:
  assumes "list_step cmp hsh l l'" and "list_inv l"
  shows "list_inv l'"
  using assms
proof (induction rule: list_step.induct)
  case (append l obj)
  then show ?case by (cases obj) (simp_all add: slist_append_def insert_before_inv)
next
  case (insertAt l N obj l' r)
  then show ?case
    by (auto simp: slist_insertAt_def case_prod_unfold Let_def insert_before_inv split: bind_splits if_splits)
next
  case (insertAfter l a obj l' r)
  then show ?case by (auto simp: slist_insertAfter_def insert_after_inv split: if_splits)
next
  case (sortedInsert l obj)
  then show ?case by (simp add: sorted_insert_def insert_before_inv)
next
  case (remove l x)
  then show ?case
    unfolding slist_remove_def
    by (cases "find (\<lambda>n. cmp (nobj n) x = 0) (nodes l)") (auto dest: find_in intro: removeLink_inv)
next
  case (sortedRemove l x)
  then show ?case
    unfolding sorted_remove_def by (cases "findNode cmp (nodes l) EXACTLY x") (auto dest: findNode_in intro: removeLink_inv)
next
  case (removeReference l r)
  then show ?case
    unfolding removeReference_def by (cases "find (\<lambda>n. nref n = r) (nodes l)") (auto dest: find_in intro: removeLink_inv)
next
  case (removeAt l N)
  then show ?case
    using set_skip_links [of "nodes l" N 0] unfolding removeAt_def by (auto intro: removeLink_inv split: list.splits)
next
  case (get l)
  then show ?case unfolding list_get_def by (auto intro: removeLink_inv split: list.splits)
next
  case (removeAll l l')
  then show ?case using remove_heads_ok [of l "[]"] by (auto simp: list_removeAll_def)
next
  case (iterNew i l)
  then show ?case by (auto simp: list_inv_def iter_new_def)
next
  case (iterDelete l i)
  then show ?case by (auto simp: list_inv_def iter_delete_def distinct_map_filter)
next
  case (iterReset l i)
  then show ?case by (simp add: iter_reset_def set_pos_inv)
qed (auto intro: toLast_inv iter_step_inv siter_findNext_inv insertAfterPoint_inv sorted_iter_findNext_inv)

lemma list_reachable_inv: "list_reachable cmp hsh l \<Longrightarrow> list_inv l"
  unfolding list_reachable_def
proof (induction rule: rtranclp_induct)
  case base
  show ?case by (simp add: list_inv_def UtlList_new_def)
qed (rule list_step_inv)

section \<open>Sorted lists of comparable objects\<close>

text \<open>
  What \<open>UtlSortedList\<close> needs of a class: its \<open>compareTo\<close> is a total preorder, given by the sign
  of the result. The interpretations are on the string objects, which include the name/value
  pairs, and on \<open>UtlLongLongInt\<close>.
\<close>

locale comparable =
  fixes cmp :: "'a \<Rightarrow> 'a \<Rightarrow> int" and valid :: "'a \<Rightarrow> bool"
  assumes cmp_flip: "valid x \<Longrightarrow> valid y \<Longrightarrow> cmp x y \<le> 0 \<longleftrightarrow> 0 \<le> cmp y x"
    and cmp_trans: "valid x \<Longrightarrow> valid y \<Longrightarrow> valid z \<Longrightarrow> cmp x y \<le> 0 \<Longrightarrow> cmp y z \<le> 0 \<Longrightarrow> cmp x z \<le> 0"

definition in_order :: "('a \<Rightarrow> 'a \<Rightarrow> int) \<Rightarrow> ('a \<Rightarrow> bool) \<Rightarrow> 'a link list \<Rightarrow> bool" where
  "in_order cmp valid ns \<longleftrightarrow> sorted_wrt (\<lambda>m n. cmp (nobj m) (nobj n) \<le> 0) ns \<and> (\<forall>n\<in>set ns. valid (nobj n))"

definition sorted_inv :: "('a \<Rightarrow> 'a \<Rightarrow> int) \<Rightarrow> ('a \<Rightarrow> bool) \<Rightarrow> 'a ulist \<Rightarrow> bool" where
  "sorted_inv cmp valid l \<longleftrightarrow> list_inv l \<and> in_order cmp valid (nodes l)"

lemma findNode_loop_split:
  "findNode_loop cmp x ns c =
     (case dropWhile (\<lambda>n. cmp (nobj n) x < 0) ns of
        [] \<Rightarrow> (None, if ns = [] then c else cmp (nobj (last ns)) x)
      | n # _ \<Rightarrow> (Some n, cmp (nobj n) x))"
  by (induction ns arbitrary: c)
    (auto simp: Let_def not_less simp del: dropWhile_eq_Nil_conv split: list.splits)

lemma findNode_position:
  "findNode cmp ns POSITION x =
     (case dropWhile (\<lambda>n. cmp (nobj n) x < 0) ns of [] \<Rightarrow> None | n # _ \<Rightarrow> Some n)"
  by (auto simp: findNode_def findNode_loop_split simp del: dropWhile_eq_Nil_conv split: list.splits)

lemma findNode_exactly:
  "findNode cmp ns EXACTLY x =
     (case dropWhile (\<lambda>n. cmp (nobj n) x < 0) ns of
        [] \<Rightarrow> None | n # _ \<Rightarrow> if cmp (nobj n) x = 0 then Some n else None)"
  by (auto simp: findNode_def findNode_loop_split simp del: dropWhile_eq_Nil_conv split: list.splits)

lemma before_first:
  assumes "distinct (map naddr (xs @ n # ys))"
  shows "before_link (xs @ n # ys) (Some (naddr n)) x = xs @ x # n # ys"
proof -
  have "takeWhile (\<lambda>m. naddr m \<noteq> naddr n) (xs @ n # ys) = xs"
    "dropWhile (\<lambda>m. naddr m \<noteq> naddr n) (xs @ n # ys) = n # ys"
    using addr_split(1) [OF assms] by (simp_all add: takeWhile_append2 dropWhile_append2)
  then show ?thesis by (simp add: before_link_def)
qed

text \<open>\<open>insert\<close> puts the object in front of the first element that is not smaller.\<close>

lemma nodes_sorted_insert:
  assumes "list_inv l"
  shows "nodes (sorted_insert cmp hsh l obj) =
     takeWhile (\<lambda>n. cmp (nobj n) (snd obj) < 0) (nodes l) @ new_link hsh l obj
     # dropWhile (\<lambda>n. cmp (nobj n) (snd obj) < 0) (nodes l)"
proof (cases "dropWhile (\<lambda>n. cmp (nobj n) (snd obj) < 0) (nodes l)")
  case Nil
  then have "takeWhile (\<lambda>n. cmp (nobj n) (snd obj) < 0) (nodes l) = nodes l"
    by (metis append_Nil2 takeWhile_dropWhile_id)
  then show ?thesis
    using Nil by (simp add: sorted_insert_def findNode_position insert_before_def before_link_def
        del: dropWhile_eq_Nil_conv takeWhile_eq_all_conv)
next
  case (Cons n ys)
  let ?xs = "takeWhile (\<lambda>n. cmp (nobj n) (snd obj) < 0) (nodes l)"
  have e: "nodes l = ?xs @ n # ys" using Cons by (metis takeWhile_dropWhile_id)
  have d: "distinct (map naddr (?xs @ n # ys))" using assms e by (simp add: list_inv_def)
  show ?thesis
    using before_first [OF d] Cons e [symmetric] by (simp add: sorted_insert_def findNode_position insert_before_def)
qed

context comparable
begin

lemma cmp_total: "valid x \<Longrightarrow> valid y \<Longrightarrow> \<not> cmp x y < 0 \<Longrightarrow> cmp y x \<le> 0"
  using cmp_flip [of y x] by linarith

lemma cmp_less_trans: "valid x \<Longrightarrow> valid y \<Longrightarrow> valid z \<Longrightarrow> cmp x y \<le> 0 \<Longrightarrow> cmp y z < 0 \<Longrightarrow> cmp x z < 0"
proof (rule ccontr)
  assume v: "valid x" "valid y" "valid z" and xy: "cmp x y \<le> 0" and yz: "cmp y z < 0" and "\<not> cmp x z < 0"
  then have "cmp z x \<le> 0" by (simp add: cmp_total)
  then have "cmp z y \<le> 0" using v xy cmp_trans by blast
  then show False using v yz cmp_flip [of z y] by linarith
qed

text \<open>In order, the smaller elements are exactly those before the first that is not smaller.\<close>

lemma in_order_drop:
  assumes "in_order cmp valid ns" and "valid x" and "m \<in> set (dropWhile (\<lambda>n. cmp (nobj n) x < 0) ns)"
  shows "0 \<le> cmp (nobj m) x"
  using assms
proof (induction ns)
  case (Cons n ns)
  show ?case
  proof (cases "cmp (nobj n) x < 0")
    case True
    then show ?thesis using Cons by (auto simp: in_order_def)
  next
    case False
    then have "m = n \<or> (m \<in> set ns \<and> cmp (nobj n) (nobj m) \<le> 0)" using Cons(2,4) by (auto simp: in_order_def)
    moreover have "valid (nobj n)" "m \<in> set ns \<longrightarrow> valid (nobj m)" using Cons(2) by (auto simp: in_order_def)
    ultimately show ?thesis
      using False cmp_less_trans [of "nobj n" "nobj m" x] Cons(3) by (auto simp: not_less [symmetric])
  qed
qed simp

lemma sorted_insert_order:
  assumes "in_order cmp valid ns" and "valid (nobj x)"
  shows "in_order cmp valid (takeWhile (\<lambda>n. cmp (nobj n) (nobj x) < 0) ns @ x #
           dropWhile (\<lambda>n. cmp (nobj n) (nobj x) < 0) ns)"
proof -
  let ?P = "\<lambda>n. cmp (nobj n) (nobj x) < 0"
  have "sorted_wrt (\<lambda>m n. cmp (nobj m) (nobj n) \<le> 0) (takeWhile ?P ns @ dropWhile ?P ns)"
    using assms(1) by (simp add: in_order_def)
  note this [unfolded sorted_wrt_append]
  moreover have "cmp (nobj x) (nobj m) \<le> 0" if "m \<in> set (dropWhile ?P ns)" for m
    using in_order_drop [OF assms that] assms that cmp_flip [of "nobj x" "nobj m"]
    by (auto simp: in_order_def dest: set_dropWhileD)
  moreover have "cmp (nobj m) (nobj x) \<le> 0" if "m \<in> set (takeWhile ?P ns)" for m
    using set_takeWhileD [OF that] by simp
  ultimately show ?thesis
    using assms by (auto simp: in_order_def sorted_wrt_append dest: set_takeWhileD set_dropWhileD)
qed

lemma sorted_insert_inv:
  "sorted_inv cmp valid l \<Longrightarrow> valid (snd obj) \<Longrightarrow> sorted_inv cmp valid (sorted_insert cmp hsh l obj)"
  using sorted_insert_order [of "nodes l" "new_link hsh l obj"]
  by (simp add: sorted_inv_def nodes_sorted_insert) (simp add: sorted_insert_def insert_before_inv)

lemma in_order_filter: "in_order cmp valid ns \<Longrightarrow> in_order cmp valid (filter P ns)"
  by (auto simp: in_order_def sorted_wrt_filter)

lemma sorted_remove_inv:
  "sorted_inv cmp valid l \<Longrightarrow> sorted_inv cmp valid (fst (sorted_remove cmp l x))"
  unfolding sorted_inv_def sorted_remove_def
  by (cases "findNode cmp (nodes l) EXACTLY x")
    (auto simp: removeLink_inv in_order_filter dest: findNode_in, simp add: removeLink_def in_order_filter)

text \<open>The search by order finds the first equal element whenever there is one.\<close>

lemma findNode_exactly_find:
  assumes "in_order cmp valid ns" and "valid x"
  shows "findNode cmp ns EXACTLY x = find (\<lambda>n. cmp (nobj n) x = 0) ns"
  using assms
proof (induction ns)
  case (Cons n ns)
  show ?case
  proof (cases "cmp (nobj n) x < 0")
    case True
    then show ?thesis using Cons by (simp add: findNode_exactly in_order_def)
  next
    case False
    have "cmp (nobj m) x \<noteq> 0" if "m \<in> set ns" and "cmp (nobj n) x \<noteq> 0" for m
    proof
      assume "cmp (nobj m) x = 0"
      then have "cmp (nobj n) x \<le> 0"
        using that Cons(2,3) cmp_trans [of "nobj n" "nobj m" x] by (auto simp: in_order_def)
      then show False using False that by simp
    qed
    then have "cmp (nobj n) x \<noteq> 0 \<Longrightarrow> find (\<lambda>n. cmp (nobj n) x = 0) ns = None"
      by (auto simp: find_None_iff)
    then show ?thesis using False by (simp add: findNode_exactly)
  qed
qed (simp add: findNode_exactly)

end

interpretation strings: comparable str_cmp "\<lambda>_. True"
proof unfold_locales
  show "str_cmp x y \<le> 0 \<longleftrightarrow> 0 \<le> str_cmp y x" for x y
    using seq_cmp_swap [of "codes id (c_prefix y)" "codes id (c_prefix x)"] by (simp add: str_cmp_def)
  show "str_cmp x y \<le> 0 \<Longrightarrow> str_cmp y z \<le> 0 \<Longrightarrow> str_cmp x z \<le> 0" for x y z
    unfolding str_cmp_def by (rule seq_cmp_trans)
qed

interpretation longs: comparable "\<lambda>v w. UtlLongLongInt_compareTo v (Some w)" "\<lambda>_. True"
  by unfold_locales (auto simp: UtlLongLongInt_compareTo_def split: if_splits intro: signed_word_eqI)

section \<open>Walking a list\<close>

fun iter_calls :: "nat \<Rightarrow> 'a ulist \<Rightarrow> nat \<Rightarrow> ('a ulist \<times> 'a oref option list) option" where
  "iter_calls 0 l i = Some (l, [])"
| "iter_calls (Suc k) l i = do {
     (l1, r) \<leftarrow> iter_step l i;
     (l2, rs) \<leftarrow> iter_calls k l1 i;
     Some (l2, r # rs) }"

lemma iter_pos_set [simp]: "iter_pos l i \<noteq> None \<Longrightarrow> iter_pos (set_pos l i pos) i = Some pos"
proof -
  have "map_of xs i \<noteq> None \<Longrightarrow> map_of (map (\<lambda>(j, p). (j, if j = i then pos else p)) xs) i = Some pos" for xs
    by (induction xs) auto
  then show "iter_pos l i \<noteq> None \<Longrightarrow> ?thesis" by (simp add: iter_pos_def set_pos_def)
qed

lemma nodes_set_pos [simp]: "nodes (set_pos l i pos) = nodes l"
  by (simp add: set_pos_def)

lemma upcoming_next:
  assumes "list_inv l" and "upcoming (nodes l) pos = Some (n # up)"
  shows "upcoming (nodes l) (At (naddr n)) = Some up"
proof -
  have "\<exists>xs. nodes l = xs @ n # up"
  proof (cases pos)
    case (At a)
    then have e: "tl (dropWhile (\<lambda>m. naddr m \<noteq> a) (nodes l)) = n # up"
      using assms(2) by (auto simp: upcoming_def split: if_splits)
    then obtain m where "dropWhile (\<lambda>m. naddr m \<noteq> a) (nodes l) = m # n # up"
      by (cases "dropWhile (\<lambda>m. naddr m \<noteq> a) (nodes l)") auto
    then have "nodes l = (takeWhile (\<lambda>m. naddr m \<noteq> a) (nodes l) @ [m]) @ n # up"
      by (metis append.assoc append_Cons append_Nil takeWhile_dropWhile_id)
    then show ?thesis by blast
  qed (use assms(2) in \<open>auto simp: upcoming_def\<close>)
  then obtain xs where "nodes l = xs @ n # up" by blast
  then show ?thesis using assms(1) upcoming_split [of xs n up] by (simp add: list_inv_def)
qed

lemma iter_calls_ok:
  assumes "list_inv l" and "iter_pos l i = Some pos" and "upcoming (nodes l) pos = Some up"
  shows "\<exists>l'. iter_calls k l i = Some (l', take k (map (Some \<circ> ref_of) up) @ replicate (k - length up) None)
           \<and> nodes l' = nodes l \<and> list_inv l'"
  using assms
proof (induction k arbitrary: l pos up)
  case (Suc k)
  show ?case
  proof (cases up)
    case Nil
    let ?l = "set_pos l i OFF_LIST_END"
    have s: "iter_step l i = Some (?l, None)" using Suc(3,4) Nil by (simp add: iter_step_def)
    show ?thesis
      using Suc(1) [of ?l OFF_LIST_END "[]"] iter_step_inv [OF Suc(2) s] Suc(3) s Nil
      by (auto simp: upcoming_def)
  next
    case (Cons n ns)
    let ?l = "set_pos l i (At (naddr n))"
    have s: "iter_step l i = Some (?l, Some (ref_of n))" using Suc(3,4) Cons by (simp add: iter_step_def)
    have u: "upcoming (nodes ?l) (At (naddr n)) = Some ns"
      using upcoming_next [OF Suc(2)] Suc(4) Cons by simp
    show ?thesis
      using Suc(1) [OF iter_step_inv [OF Suc(2) s] _ u] Suc(3) s Cons by auto
  qed
qed simp

section \<open>Properties\<close>

text \<open>C36. Whatever operations are made on a list and its iterators, in whatever order, no iterator
  ever points to a block that has left the list: stepping, peeking, reading the current
  element and searching are defined for every attached iterator.\<close>

theorem list_iterators_never_dangle:
  assumes "list_reachable cmp hsh l" and "i \<in> fst ` set (iters l)"
  shows "iter_step l i \<noteq> None \<and> peekAtNext l i \<noteq> None \<and> iter_item l i \<noteq> None
         \<and> siter_findNext cmp l i x \<noteq> None \<and> sorted_iter_findNext cmp l i x \<noteq> None
         \<and> insertAfterPoint hsh l i obj \<noteq> None"
proof -
  have inv: "list_inv l" by (rule list_reachable_inv [OF assms(1)])
  obtain pos where p: "iter_pos l i = Some pos"
    using assms(2) unfolding iter_pos_def by (metis map_of_eq_None_iff not_None_eq)
  have ok: "pos_ok (nodes l) pos" by (rule iter_pos_ok [OF inv p])
  then obtain up where up: "upcoming (nodes l) pos = Some up" by (auto simp: upcoming_defined)
  have "iter_item l i \<noteq> None"
    using p ok by (cases pos) (auto simp: iter_item_def find_None_iff Option.bind_eq_None_conv)
  moreover have "sorted_iter_findNext cmp l i x \<noteq> None"
    using p ok by (cases pos) (auto simp: sorted_iter_findNext_def)
  ultimately show ?thesis
    using p up by (simp add: iter_step_def peekAtNext_def siter_findNext_def insertAfterPoint_def)
qed

theorem list_iterators_never_dangle_witness:
  "let l0 = fst (slist_append (\<lambda>_. 0) UtlList_new (Some (7, ''a'')));
       l1 = iter_new l0 0; l2 = fst (iter_toLast l1 0); l3 = fst (list_get l2)
   in peekAtNext l3 0 \<noteq> None"
proof -
  let ?l0 = "fst (slist_append (\<lambda>_. 0) UtlList_new (Some (7, ''a'')))"
  let ?l1 = "iter_new ?l0 0"
  let ?l2 = "fst (iter_toLast ?l1 0)"
  let ?l3 = "fst (list_get ?l2)"
  have e: "0 \<notin> fst ` set (iters ?l0)" "0 \<in> fst ` set (iters ?l3)" by code_simp+
  have "(list_step str_cmp (\<lambda>_. 0))\<^sup>*\<^sup>* UtlList_new ?l0" by (blast intro: list_step.append)
  then have "(list_step str_cmp (\<lambda>_. 0))\<^sup>*\<^sup>* UtlList_new ?l1"
    by (rule rtranclp.rtrancl_into_rtrancl) (rule list_step.iterNew [OF e(1)])
  then have "(list_step str_cmp (\<lambda>_. 0))\<^sup>*\<^sup>* UtlList_new ?l2"
    by (rule rtranclp.rtrancl_into_rtrancl) (rule list_step.iterToLast)
  then have "(list_step str_cmp (\<lambda>_. 0))\<^sup>*\<^sup>* UtlList_new ?l3"
    by (rule rtranclp.rtrancl_into_rtrancl) (rule list_step.get)
  then have "list_reachable str_cmp (\<lambda>_. 0) ?l3" unfolding list_reachable_def .
  from list_iterators_never_dangle [OF this e(2)] show ?thesis by (simp add: Let_def)
qed

text \<open>Removing an element while iterators are on the list takes exactly that element out of what
  each of them has still to return: an iterator that stands on it goes one back, so nothing
  is skipped and nothing is returned twice.\<close>

theorem list_remove_under_iterators:
  assumes "list_inv l" and "n \<in> set (nodes l)" and "iter_pos l i = Some pos"
  shows "\<exists>pos' up. iter_pos (removeLink l (naddr n)) i = Some pos' \<and> upcoming (nodes l) pos = Some up \<and>
           upcoming (nodes (removeLink l (naddr n))) pos' = Some (filter (\<lambda>m. naddr m \<noteq> naddr n) up)"
proof -
  have "map_of (map (\<lambda>(i, pos). (i, f pos)) xs) i = map_option f (map_of xs i)"
    for f :: "position \<Rightarrow> position" and xs by (induction xs) auto
  then have p: "iter_pos (removeLink l (naddr n)) i = Some (list_removing (nodes l) (naddr n) pos)"
    using assms(3) by (simp add: iter_pos_def removeLink_def)
  have ok: "pos_ok (nodes l) pos" by (rule iter_pos_ok [OF assms(1,3)])
  then obtain up where up: "upcoming (nodes l) pos = Some up" by (auto simp: upcoming_defined)
  have "upcoming (nodes (removeLink l (naddr n))) (list_removing (nodes l) (naddr n) pos)
      = Some (filter (\<lambda>m. naddr m \<noteq> naddr n) up)"
    using upcoming_removing [of "nodes l" "naddr n" pos] assms(1,2) ok up
    by (simp add: removeLink_def list_inv_def)
  then show ?thesis using p up by blast
qed

text \<open>A list with an iterator on its second element, for the witnesses.\<close>

definition sample_list :: "string ulist" where
  "sample_list =
     \<lparr>nodes = [\<lparr>naddr = 0, nref = 70, nobj = ''a'', nhash = 0\<rparr>, \<lparr>naddr = 1, nref = 71, nobj = ''b'', nhash = 0\<rparr>,
               \<lparr>naddr = 2, nref = 72, nobj = ''b'', nhash = 0\<rparr>],
      iters = [(5, At 1)], linkPool = 3\<rparr>"

lemma sample_list_inv: "list_inv sample_list"
  by (simp add: list_inv_def sample_list_def)

theorem list_remove_under_iterators_witness:
  "\<exists>pos'. iter_pos (removeLink sample_list 1) 5 = Some pos' \<and>
     map_option (map nobj) (upcoming (nodes (removeLink sample_list 1)) pos') = Some [''b'']"
proof -
  let ?n = "\<lparr>naddr = 1, nref = 71, nobj = ''b'', nhash = 0\<rparr>"
  have "?n \<in> set (nodes sample_list)" and "iter_pos sample_list 5 = Some (At 1)"
    by (simp_all add: sample_list_def iter_pos_def)
  from list_remove_under_iterators [OF sample_list_inv this] obtain pos' up where
    "iter_pos (removeLink sample_list 1) 5 = Some pos'" "upcoming (nodes sample_list) (At 1) = Some up"
    "upcoming (nodes (removeLink sample_list 1)) pos' = Some (filter (\<lambda>m. naddr m \<noteq> 1) up)" by auto
  moreover have "upcoming (nodes sample_list) (At 1) = Some [\<lparr>naddr = 2, nref = 72, nobj = ''b'', nhash = 0\<rparr>]"
    by (simp add: sample_list_def upcoming_def)
  ultimately show ?thesis by simp
qed

text \<open>Calling an iterator again and again returns the elements it has not passed, in order,
  and from then on NULL.\<close>

theorem list_iterate:
  assumes "list_inv l" and "iter_pos l i = Some BeforeFirst"
  shows "map_option snd (iter_calls k l i)
         = Some (take k (map (Some \<circ> ref_of) (nodes l)) @ replicate (k - length (nodes l)) None)"
  using iter_calls_ok [OF assms, of "nodes l" k] by (auto simp: upcoming_def)

theorem list_iterate_witness:
  "map_option snd (iter_calls 4 (iter_reset sample_list 5) 5)
   = Some [Some (70, ''a''), Some (71, ''b''), Some (72, ''b''), None]"
proof -
  have "list_inv (iter_reset sample_list 5)" "iter_pos (iter_reset sample_list 5) 5 = Some BeforeFirst"
    by (simp_all add: iter_reset_def set_pos_inv sample_list_inv) (simp add: sample_list_def iter_pos_def set_pos_def)
  from list_iterate [OF this, of 4] show ?thesis
    by (simp add: iter_reset_def sample_list_def ref_of_def)
qed

text \<open>A sorted list of string objects stays sorted under insertion and removal; insertion adds
  the one object, and a search finds an equal object exactly when there is one: the first
  of them. Removal takes that same object out.\<close>

theorem sortedlist_strings:
  assumes "sorted_inv str_cmp (\<lambda>_. True) l"
  shows "sorted_inv str_cmp (\<lambda>_. True) (sorted_insert str_cmp hsh l obj)
         \<and> mset (map ref_of (nodes (sorted_insert str_cmp hsh l obj))) = add_mset obj (mset (map ref_of (nodes l)))
         \<and> sorted_find str_cmp l x = map_option ref_of (find (\<lambda>n. str_cmp (nobj n) x = 0) (nodes l))
         \<and> sorted_inv str_cmp (\<lambda>_. True) (fst (sorted_remove str_cmp l x))
         \<and> snd (sorted_remove str_cmp l x) = sorted_find str_cmp l x"
proof -
  have "mset (map ref_of (nodes (sorted_insert str_cmp hsh l obj))) = add_mset obj (mset (map ref_of (nodes l)))"
    by (simp add: sorted_insert_def insert_before_def ref_of_def)
  moreover have "findNode str_cmp (nodes l) EXACTLY x = find (\<lambda>n. str_cmp (nobj n) x = 0) (nodes l)"
    using assms by (intro strings.findNode_exactly_find) (simp_all add: sorted_inv_def)
  ultimately show ?thesis
    using strings.sorted_insert_inv [OF assms, of hsh obj] strings.sorted_remove_inv [OF assms, of x]
    by (auto simp: sorted_find_def sorted_remove_def split: option.splits)
qed

lemma sample_list_sorted: "sorted_inv str_cmp (\<lambda>_. True) sample_list"
proof -
  have "str_cmp ''a'' ''b'' \<le> 0" "str_cmp ''b'' ''b'' \<le> 0" by code_simp+
  then show ?thesis using sample_list_inv by (simp add: sorted_inv_def in_order_def sample_list_def)
qed

theorem sortedlist_strings_witness:
  "sorted_find str_cmp sample_list ''b'' = Some (71, ''b'')"
proof -
  have e: "str_cmp ''a'' ''b'' \<noteq> 0" "str_cmp ''b'' ''b'' = 0" by code_simp+
  have "sorted_find str_cmp sample_list ''b''
      = map_option ref_of (find (\<lambda>n. str_cmp (nobj n) ''b'' = 0) (nodes sample_list))"
    using sortedlist_strings [OF sample_list_sorted, of _ _ "''b''"] by blast
  then show ?thesis using e by (simp add: sample_list_def ref_of_def)
qed

text \<open>\<open>UtlSortedListIterator::findNext\<close> never gets past an element it has found: called again
  for the same object it returns the same element, although there may be another equal one
  behind it.\<close>

theorem sorted_findNext_repeats:
  assumes "list_inv l" and "iter_pos l i \<noteq> None" and "sorted_iter_findNext cmp l i x = Some (l', Some r)"
  shows "sorted_iter_findNext cmp l' i x = Some (l', Some r)"
proof -
  obtain ns where ns: "set ns \<subseteq> set (nodes l)" "(l', Some r) = (case findNode cmp ns EXACTLY x of
      Some n \<Rightarrow> (set_pos l i (At (naddr n)), Some (ref_of n)) | None \<Rightarrow> (fst (iter_toLast l i), None))"
    using assms(3) by (rule sorted_iter_findNext_search)
  then obtain n where n: "findNode cmp ns EXACTLY x = Some n" "l' = set_pos l i (At (naddr n))" "r = ref_of n"
    by (auto split: option.splits)
  have c: "cmp (nobj n) x = 0" using n(1) by (auto simp: findNode_exactly split: list.splits if_splits)
  have "n \<in> set (nodes l)" using findNode_in [OF n(1)] ns(1) by blast
  then obtain xs ys where e: "nodes l = xs @ n # ys" by (meson split_list)
  have d: "distinct (map naddr (xs @ n # ys))" using assms(1) e by (simp add: list_inv_def)
  have "dropWhile (\<lambda>m. naddr m \<noteq> naddr n) (nodes l) = n # ys"
    using addr_split(1) [OF d] by (simp add: e dropWhile_append2)
  moreover have "set_pos l' i (At (naddr n)) = l'"
    by (simp add: n(2) set_pos_def comp_def case_prod_unfold)
  ultimately show ?thesis
    using c assms(2) e n(2,3) by (simp add: sorted_iter_findNext_def findNode_exactly)
qed

theorem sorted_findNext_repeats_witness:
  "\<exists>l'. sorted_iter_findNext str_cmp sample_list 5 ''b'' = Some (l', Some (71, ''b''))
       \<and> sorted_iter_findNext str_cmp l' 5 ''b'' = Some (l', Some (71, ''b''))"
proof -
  have e: "str_cmp ''b'' ''b'' = 0" by code_simp
  have "iter_pos sample_list 5 \<noteq> None" by (simp add: sample_list_def iter_pos_def)
  moreover have "sorted_iter_findNext str_cmp sample_list 5 ''b'' = Some (set_pos sample_list 5 (At 1), Some (71, ''b''))"
    using e by (simp add: sorted_iter_findNext_def iter_pos_def sample_list_def findNode_exactly ref_of_def)
  ultimately show ?thesis using sorted_findNext_repeats [OF sample_list_inv] by blast
qed

end
