(* ===== verification/SipMessage.thy ===== *)
theory SipMessage
  imports UtlList
begin

text \<open>
  What the applications see of a message (\<^verbatim>\<open>sipXtackLib/src/net/HttpMessage.cpp\<close>,
  \<^verbatim>\<open>SipMessage.cpp\<close>, \<^verbatim>\<open>NameValuePair.cpp\<close>, \<^verbatim>\<open>NameValueTokenizer.cpp\<close>): its first line
  and its header fields, a list of name/value pairs with the names in upper case. The
  theory has the accessors of the first line, the operations on header fields, the fields
  that identify a session and a transaction, and the fields the redirect server writes.

  Strings are modelled by their contents; theory \<open>UtlString\<close> shows what the operations of
  the string class do to contents. Every name and value of a header comes through a C
  string, so it ends at a NUL. Only the warning text is written at the level of the buffer,
  because the code prints into the buffer of a string object directly.
  The values are never NULL: all writers of this theory pass one. The parts of a From or To
  field are what class \<open>Url\<close> parses out of it: a parameter.
\<close>

section \<open>Name/value pairs\<close>

datatype nv = NV (nv_name: string) (nv_value: string)

text \<open>\<open>NameValuePair(name, value)\<close> takes C strings; comparison is that of the names.\<close>

definition NameValuePair :: "string \<Rightarrow> string \<Rightarrow> nv" where
  "NameValuePair name value = NV (c_prefix name) (c_prefix value)"

definition nv_cmp :: "nv \<Rightarrow> nv \<Rightarrow> int" where
  "nv_cmp p q = str_cmp (nv_name p) (nv_name q)"

definition nv_hash :: "nv \<Rightarrow> 32 word" where
  "nv_hash p = str_hash (nv_name p)"

definition nv_put :: "nv \<Rightarrow> string \<Rightarrow> nv" where
  "nv_put p newValue = NV (nv_name p) (c_prefix newValue)"

section \<open>Numbers in decimal\<close>

text \<open>\<open>printf_d\<close> is what the conversion \<^verbatim>\<open>%d\<close> prints; \<open>strtol\<close> reads a number in base ten:
  its value, whether it was out of the range of \<open>long\<close>, and what follows it.\<close>

definition digit_char :: "nat \<Rightarrow> char" where
  "digit_char d = char_of (48 + d)"

definition isdigit :: "char \<Rightarrow> bool" where
  "isdigit c \<longleftrightarrow> 48 \<le> (of_char c :: nat) \<and> (of_char c :: nat) \<le> 57"

definition isspace :: "char \<Rightarrow> bool" where
  "isspace c \<longleftrightarrow> c = CHR '' '' \<or> 9 \<le> (of_char c :: nat) \<and> (of_char c :: nat) \<le> 13"

fun dec_digits :: "nat \<Rightarrow> string" where
  "dec_digits n = (if n < 10 then [digit_char n] else dec_digits (n div 10) @ [digit_char (n mod 10)])"

declare dec_digits.simps [simp del]

definition printf_d :: "int \<Rightarrow> string" where
  "printf_d i = (if i < 0 then ''-'' @ dec_digits (nat (- i)) else dec_digits (nat i))"

definition dec_value :: "string \<Rightarrow> nat" where
  "dec_value ds = fold (\<lambda>c v. 10 * v + (of_char c - 48)) ds 0"

definition strtol :: "string \<Rightarrow> int \<times> bool \<times> string" where
  "strtol s =
     (let s1 = dropWhile isspace s;
          (neg, s2) = (case s1 of c # r \<Rightarrow> if c = CHR ''-'' then (True, r) else if c = CHR ''+'' then (False, r) else (False, s1)
                       | [] \<Rightarrow> (False, s1));
          ds = takeWhile isdigit s2;
          v = (if neg then - int (dec_value ds) else int (dec_value ds)) in
      if ds = [] then (0, False, s)
      else if v < - (2 ^ 63) then (- (2 ^ 63), True, dropWhile isdigit s2)
      else if 2 ^ 63 \<le> v then (2 ^ 63 - 1, True, dropWhile isdigit s2)
      else (v, False, dropWhile isdigit s2))"

text \<open>The result of \<open>atoi\<close> is undefined for a number that no \<open>int\<close> holds.\<close>

definition int_ok :: "int \<Rightarrow> bool" where
  "int_ok i \<longleftrightarrow> - (2 ^ 31) \<le> i \<and> i < 2 ^ 31"

definition atoi :: "string \<Rightarrow> int option" where
  "atoi s = (let (v, range, rest) = strtol s in if \<not> range \<and> int_ok v then Some v else None)"

section \<open>The first line\<close>

record http_message =
  mFirstHeaderLine :: string
  mNameValues :: "nv list"

definition HEADER_LINE_PART_DELIMITER :: char where
  "HEADER_LINE_PART_DELIMITER = CHR '' ''"

definition setFirstHeaderLine :: "http_message \<Rightarrow> string \<Rightarrow> string \<Rightarrow> string \<Rightarrow> http_message" where
  "setFirstHeaderLine m subfield0 subfield1 subfield2 =
     m\<lparr>mFirstHeaderLine := c_prefix subfield0 @ [HEADER_LINE_PART_DELIMITER] @ c_prefix subfield1
        @ [HEADER_LINE_PART_DELIMITER] @ c_prefix subfield2\<rparr>"

text \<open>Where part \<open>n\<close> begins: behind the \<open>n\<close>-th run of separators.\<close>

fun part_start :: "char \<Rightarrow> nat \<Rightarrow> string \<Rightarrow> string option" where
  "part_start separator 0 s = Some s"
| "part_start separator (Suc n) s =
     (case dropWhile (\<lambda>c. c \<noteq> separator) s of
        [] \<Rightarrow> None
      | c # rest \<Rightarrow> part_start separator n (dropWhile (\<lambda>c. c = separator) rest))"

definition getFirstHeaderLinePart :: "http_message \<Rightarrow> nat \<Rightarrow> char \<Rightarrow> string" where
  "getFirstHeaderLinePart m partIndex separator =
     (case part_start separator partIndex (dropWhile (\<lambda>c. c = separator) (c_prefix (mFirstHeaderLine m))) of
        None \<Rightarrow> []
      | Some partStart \<Rightarrow> if partIndex < 2 then takeWhile (\<lambda>c. c \<noteq> separator) partStart else partStart)"

definition line_part :: "http_message \<Rightarrow> nat \<Rightarrow> string" where
  "line_part m i = getFirstHeaderLinePart m i HEADER_LINE_PART_DELIMITER"

definition getRequestMethod :: "http_message \<Rightarrow> string" where
  "getRequestMethod m = strip_spec is_strip_ws both (line_part m 0)"

definition getRequestUri :: "http_message \<Rightarrow> string" where
  "getRequestUri m = line_part m 1"

definition getRequestProtocol :: "http_message \<Rightarrow> string" where
  "getRequestProtocol m = strip_spec is_strip_ws both (line_part m 2)"

definition setRequestFirstHeaderLine :: "http_message \<Rightarrow> string \<Rightarrow> string \<Rightarrow> string \<Rightarrow> http_message" where
  "setRequestFirstHeaderLine m method uri protocol = setFirstHeaderLine m method uri protocol"

definition changeRequestUri :: "http_message \<Rightarrow> string \<Rightarrow> http_message" where
  "changeRequestUri m newUri = setRequestFirstHeaderLine m (line_part m 0) newUri (line_part m 2)"

definition setResponseFirstHeaderLine :: "http_message \<Rightarrow> string \<Rightarrow> int \<Rightarrow> string \<Rightarrow> http_message" where
  "setResponseFirstHeaderLine m protocol statusCode statusText =
     setFirstHeaderLine m protocol (printf_d statusCode) statusText"

definition getResponseStatusCode :: "http_message \<Rightarrow> int option" where
  "getResponseStatusCode m = atoi (line_part m 1)"

definition getResponseStatusText :: "http_message \<Rightarrow> string" where
  "getResponseStatusText m = strip_spec is_strip_ws both (line_part m 2)"

definition SIP_PROTOCOL_VERSION :: string where
  "SIP_PROTOCOL_VERSION = ''SIP/2.0''"

definition isResponse :: "http_message \<Rightarrow> bool" where
  "isResponse m \<longleftrightarrow> take (length SIP_PROTOCOL_VERSION) (c_prefix (mFirstHeaderLine m)) = SIP_PROTOCOL_VERSION"

section \<open>Header fields\<close>

text \<open>
  A search for a name goes through the list with \<open>findNext\<close>, which compares the names; no
  name finds every field. \<open>match_at p i hs\<close> is the position of the \<open>i\<close>-th field that
  satisfies \<open>p\<close>. The index of the callers is never negative.
\<close>

definition header_is :: "string option \<Rightarrow> nv \<Rightarrow> bool" where
  "header_is name h \<longleftrightarrow> (case name of None \<Rightarrow> True | Some n \<Rightarrow> str_cmp (nv_name h) (map toupper (c_prefix n)) = 0)"

fun match_at :: "('a \<Rightarrow> bool) \<Rightarrow> nat \<Rightarrow> 'a list \<Rightarrow> nat option" where
  "match_at p i [] = None"
| "match_at p i (h # hs) =
     (if p h then (case i of 0 \<Rightarrow> Some 0 | Suc j \<Rightarrow> map_option Suc (match_at p j hs))
      else map_option Suc (match_at p i hs))"

definition getHeaderField :: "http_message \<Rightarrow> nat \<Rightarrow> string option \<Rightarrow> nat option" where
  "getHeaderField m index name = match_at (header_is name) index (mNameValues m)"

definition getHeaderValue :: "http_message \<Rightarrow> nat \<Rightarrow> string \<Rightarrow> string option" where
  "getHeaderValue m index name =
     (case getHeaderField m index (Some name) of
        None \<Rightarrow> None
      | Some i \<Rightarrow> (let v = nv_value (mNameValues m ! i) in if v = [] then None else Some v))"

definition addHeaderField :: "http_message \<Rightarrow> string \<Rightarrow> string \<Rightarrow> http_message" where
  "addHeaderField m name value =
     m\<lparr>mNameValues := mNameValues m @ [NV (map toupper (c_prefix name)) (c_prefix value)]\<rparr>"

text \<open>\<open>insertHeaderField\<close> goes through \<open>insertAt\<close>, which does nothing behind the end.\<close>

definition insertHeaderField :: "http_message \<Rightarrow> string \<Rightarrow> string \<Rightarrow> nat \<Rightarrow> http_message" where
  "insertHeaderField m name value index =
     (if index \<le> length (mNameValues m) then
        m\<lparr>mNameValues := take index (mNameValues m) @ NV (map toupper (c_prefix name)) (c_prefix value) # drop index (mNameValues m)\<rparr>
      else m)"

definition setHeaderValue :: "http_message \<Rightarrow> string \<Rightarrow> string \<Rightarrow> nat \<Rightarrow> http_message" where
  "setHeaderValue m name newValue index =
     (case getHeaderField m index (Some name) of
        Some i \<Rightarrow> m\<lparr>mNameValues := (mNameValues m)[i := nv_put (mNameValues m ! i) newValue]\<rparr>
      | None \<Rightarrow> addHeaderField m name newValue)"

definition removeHeader :: "http_message \<Rightarrow> string \<Rightarrow> nat \<Rightarrow> http_message \<times> bool" where
  "removeHeader m name index =
     (case getHeaderField m index (Some name) of
        Some i \<Rightarrow> (m\<lparr>mNameValues := take i (mNameValues m) @ drop (Suc i) (mNameValues m)\<rparr>, True)
      | None \<Rightarrow> (m, False))"

definition getCountHeaderFields :: "http_message \<Rightarrow> string option \<Rightarrow> nat" where
  "getCountHeaderFields m name = length (filter (header_is name) (mNameValues m))"

section \<open>The fields of a request\<close>

definition SIP_CALLID_FIELD :: string where "SIP_CALLID_FIELD = ''CALL-ID''"
definition SIP_CSEQ_FIELD :: string where "SIP_CSEQ_FIELD = ''CSEQ''"
definition SIP_FROM_FIELD :: string where "SIP_FROM_FIELD = ''FROM''"
definition SIP_TO_FIELD :: string where "SIP_TO_FIELD = ''TO''"
definition SIP_ROUTE_FIELD :: string where "SIP_ROUTE_FIELD = ''ROUTE''"
definition SIP_CONTACT_FIELD :: string where "SIP_CONTACT_FIELD = ''CONTACT''"
definition SIP_MAX_FORWARDS_FIELD :: string where "SIP_MAX_FORWARDS_FIELD = ''MAX-FORWARDS''"
definition SIP_WARNING_FIELD :: string where "SIP_WARNING_FIELD = ''WARNING''"
definition SIP_INVITE_METHOD :: string where "SIP_INVITE_METHOD = ''INVITE''"
definition SIP_DEFAULT_MAX_FORWARDS :: int where "SIP_DEFAULT_MAX_FORWARDS = 20"

definition field_value :: "http_message \<Rightarrow> string \<Rightarrow> string" where
  "field_value m name = (case getHeaderValue m 0 name of None \<Rightarrow> [] | Some v \<Rightarrow> v)"

definition getCallIdField :: "http_message \<Rightarrow> string" where
  "getCallIdField m = field_value m SIP_CALLID_FIELD"

text \<open>\<open>frontBackTrim\<close> of the tokenizer; the characters that separate the parts of a field.\<close>

definition frontBackTrim :: "(char \<Rightarrow> bool) \<Rightarrow> string \<Rightarrow> string" where
  "frontBackTrim white s = drop_back white (dropWhile white s)"

definition is_separator :: "char \<Rightarrow> bool" where
  "is_separator c \<longleftrightarrow> c = CHR 0x09 \<or> c = CHR '' ''"

text \<open>
  \<open>getCSeqField\<close>: whether both parts were found, the number (-1 if there is none) and the
  method. The length of the number is taken to be the number of characters up to the next
  separator less the number of leading separators, and the method to start at the sum of
  the two.
\<close>

definition getCSeqField :: "http_message \<Rightarrow> bool \<times> int \<times> string" where
  "getCSeqField m =
     (case getHeaderValue m 0 SIP_CSEQ_FIELD of
        None \<Rightarrow> (False, -1, [])
      | Some value \<Rightarrow>
          (let valueStart = int (length (takeWhile is_separator value));
               numStringLen = int (length (takeWhile (\<lambda>c. \<not> is_separator c) (drop (nat valueStart) value))) - valueStart;
               sequenceMethod = frontBackTrim is_separator (drop (nat (numStringLen + valueStart)) value);
               (result, errno, endptr) = strtol (drop (nat valueStart) value) in
           if \<not> errno \<and> 0 \<le> result \<and> result < 2 ^ 31
              \<and> (case endptr of [] \<Rightarrow> False | c # _ \<Rightarrow> is_separator c \<or> c = CHR 0x0D)
           then (sequenceMethod \<noteq> [], result, sequenceMethod)
           else (False, -1, sequenceMethod)))"

definition setCSeqField :: "http_message \<Rightarrow> int \<Rightarrow> string \<Rightarrow> http_message" where
  "setCSeqField m sequenceNumber method =
     setHeaderValue m SIP_CSEQ_FIELD (printf_d sequenceNumber @ '' '' @ c_prefix method) 0"

text \<open>What class \<open>Url\<close> finds in a From or To field.\<close>

record url_fields =
  url_tag :: string
  url_user :: string
  url_host :: string
  url_port :: int
  url_transport :: string

definition PORT_NONE :: int where "PORT_NONE = -1"
definition SIP_PORT :: int where "SIP_PORT = 5060"

definition sameSession_urls :: "url_fields \<Rightarrow> url_fields \<Rightarrow> bool \<Rightarrow> bool" where
  "sameSession_urls first second comparingToUrl =
     (if comparingToUrl then
        url_tag first = [] \<or> url_tag second = [] \<or> str_cmp (url_tag first) (url_tag second) = 0
      else if url_tag first = [] \<and> url_tag second = [] then
        str_cmp (url_host first) (url_host second) = 0
        \<and> (url_port first = url_port second
           \<or> url_port first = PORT_NONE \<and> url_port second = SIP_PORT
           \<or> url_port first = SIP_PORT \<and> url_port second = PORT_NONE)
        \<and> str_cmp (url_transport first) (url_transport second) = 0
        \<and> str_cmp (url_user first) (url_user second) = 0
      else str_cmp (url_tag first) (url_tag second) = 0)"

definition isSameSession :: "(string \<Rightarrow> url_fields) \<Rightarrow> http_message \<Rightarrow> http_message \<Rightarrow> bool" where
  "isSameSession url m message \<longleftrightarrow>
     str_cmp (getCallIdField m) (getCallIdField message) = 0
     \<and> sameSession_urls (url (field_value m SIP_FROM_FIELD)) (url (field_value message SIP_FROM_FIELD)) False
     \<and> sameSession_urls (url (field_value m SIP_TO_FIELD)) (url (field_value message SIP_TO_FIELD)) True"

definition isSameTransaction :: "(string \<Rightarrow> url_fields) \<Rightarrow> http_message \<Rightarrow> http_message \<Rightarrow> bool" where
  "isSameTransaction url m message \<longleftrightarrow>
     isSameSession url m message \<and> fst (snd (getCSeqField m)) = fst (snd (getCSeqField message))"

definition isInviteFor :: "(string \<Rightarrow> url_fields) \<Rightarrow> http_message \<Rightarrow> http_message \<Rightarrow> bool" where
  "isInviteFor url m cancelRequest \<longleftrightarrow>
     \<not> isResponse m \<and> str_cmp (getRequestMethod m) SIP_INVITE_METHOD = 0 \<and> isSameTransaction url m cancelRequest"

definition isResponseTo :: "(string \<Rightarrow> url_fields) \<Rightarrow> http_message \<Rightarrow> http_message \<Rightarrow> bool" where
  "isResponseTo url m request \<longleftrightarrow>
     \<not> isResponse request \<and> isResponse m \<and> isSameSession url m request
     \<and> fst (snd (getCSeqField m)) = fst (snd (getCSeqField request))
     \<and> str_cmp (snd (snd (getCSeqField m))) (snd (snd (getCSeqField request))) = 0"

definition getMaxForwards :: "http_message \<Rightarrow> int option option" where
  "getMaxForwards m =
     (case getHeaderValue m 0 SIP_MAX_FORWARDS_FIELD of
        None \<Rightarrow> Some None
      | Some v \<Rightarrow> map_option Some (atoi v))"

definition setMaxForwards :: "http_message \<Rightarrow> int \<Rightarrow> http_message" where
  "setMaxForwards m maxForwards = setHeaderValue m SIP_MAX_FORWARDS_FIELD (printf_d maxForwards) 0"

text \<open>Decrementing the smallest \<open>int\<close> is undefined.\<close>

definition decrementMaxForwards :: "http_message \<Rightarrow> http_message option" where
  "decrementMaxForwards m = do {
     old \<leftarrow> getMaxForwards m;
     let n = (case old of None \<Rightarrow> SIP_DEFAULT_MAX_FORWARDS | Some n \<Rightarrow> n) - 1;
     if int_ok n then Some (setMaxForwards m n) else None }"

text \<open>The loop that takes every Route field out.\<close>

lemma match_at_bound: "match_at p i xs = Some k \<Longrightarrow> k < length xs \<and> p (xs ! k)"
  by (induction p i xs arbitrary: k rule: match_at.induct) (auto split: if_splits nat.splits)

function removeRoutes :: "http_message \<Rightarrow> http_message" where
  "removeRoutes m = (let (m1, found) = removeHeader m SIP_ROUTE_FIELD 0 in if found then removeRoutes m1 else m1)"
  by pat_completeness auto
termination
  by (relation "measure (\<lambda>m. length (mNameValues m))")
     (auto simp: removeHeader_def getHeaderField_def split: option.splits dest: match_at_bound)

declare removeRoutes.simps [simp del]

definition addRouteUri :: "http_message \<Rightarrow> string \<Rightarrow> http_message" where
  "addRouteUri m routeUri =
     (let uri = c_prefix routeUri;
          routeParameter = (if CHR ''<'' \<in> set uri then [] else ''<'') @ uri @ (if CHR ''>'' \<in> set uri then [] else ''>'') in
      case getHeaderValue m 0 SIP_ROUTE_FIELD of
        Some routeField \<Rightarrow>
          insertHeaderField (fst (removeHeader m SIP_ROUTE_FIELD 0)) SIP_ROUTE_FIELD (routeParameter @ '','' @ routeField) 0
      | None \<Rightarrow> insertHeaderField m SIP_ROUTE_FIELD routeParameter 0)"

definition setContactField :: "http_message \<Rightarrow> string \<Rightarrow> nat \<Rightarrow> http_message" where
  "setContactField m contactField index = setHeaderValue m SIP_CONTACT_FIELD contactField index"

text \<open>
  \<open>setWarningField\<close> prints the warning into the buffer of a fresh string object, after
  asking for a capacity of six bytes more than the host name and the text have.
\<close>

definition warning_text :: "int \<Rightarrow> string \<Rightarrow> string \<Rightarrow> string" where
  "warning_text code hostname text =
     (let d = printf_d code in replicate (3 - length d) (CHR '' '') @ d) @ '' '' @ hostname @ '' '' @ [CHR 0x22] @ text @ [CHR 0x22]"

definition setWarningField :: "http_message \<Rightarrow> int \<Rightarrow> string \<Rightarrow> string \<Rightarrow> http_message option" where
  "setWarningField m code hostname text = do {
     let sizeNeeded = sz_add (sz_add (sz_add 3 (length (c_prefix hostname))) (length (c_prefix text))) 3;
     warningContent \<leftarrow> capacity UtlString_new sizeNeeded;
     if sizeNeeded \<le> mCapacity warningContent then do {
       d \<leftarrow> mem_write (mpData warningContent) 0 (cstr (warning_text code (c_prefix hostname) (c_prefix text)));
       value \<leftarrow> cstring d;
       Some (setHeaderValue m SIP_WARNING_FIELD value 0)
     } else Some m }"

section \<open>Printing and reading numbers\<close>

lemma of_digit_char [simp]: "d < 10 \<Longrightarrow> of_char (digit_char d) = 48 + d"
  by (simp add: digit_char_def of_char_of)

lemma isdigit_digit_char [simp]: "d < 10 \<Longrightarrow> isdigit (digit_char d)"
  by (simp add: isdigit_def)

lemma dec_value_snoc [simp]: "dec_value (ds @ [c]) = 10 * dec_value ds + (of_char c - 48)"
  by (simp add: dec_value_def)

lemma dec_digits_ok: "dec_value (dec_digits n) = n \<and> list_all isdigit (dec_digits n) \<and> dec_digits n \<noteq> []"
proof (induction n rule: dec_digits.induct)
  case (1 n)
  show ?case
  proof (cases "n < 10")
    case True
    then show ?thesis by (simp add: dec_digits.simps [of n] dec_value_def)
  next
    case False
    then show ?thesis using 1 [OF False] by (subst (1 2 3) dec_digits.simps) simp
  qed
qed

lemma isdigit_not [simp]:
  assumes "isdigit c"
  shows "\<not> isspace c" "c \<noteq> CHR ''-''" "c \<noteq> CHR ''+''" "\<not> is_separator c" "c \<noteq> NUL" "c \<noteq> CHR 0x0D"
  using assms by (auto simp: isdigit_def isspace_def is_separator_def NUL_def)

lemma takeWhile_digits: 
  assumes "list_all isdigit ds" and "rest = [] \<or> \<not> isdigit (hd rest)"
  shows "takeWhile isdigit (ds @ rest) = ds" and "dropWhile isdigit (ds @ rest) = rest"
  using assms by (induction ds) (auto, (cases rest; simp)+)

lemma strtol_digits:
  assumes "rest = [] \<or> \<not> isdigit (hd rest)" and "n < 2 ^ 63"
  shows "strtol (dec_digits n @ rest) = (int n, False, rest)"
proof -
  obtain c ds where ds: "dec_digits n = c # ds" "isdigit c"
    using dec_digits_ok [of n] by (cases "dec_digits n") auto
  have sp: "dropWhile isspace (dec_digits n @ rest) = dec_digits n @ rest" using ds by simp
  have "int n < 2 ^ 63" using assms(2) by (metis of_nat_less_numeral_power_cancel_iff)
  then show ?thesis
    using takeWhile_digits [OF _ assms(1), of "dec_digits n"] dec_digits_ok [of n] ds
    by (auto simp: strtol_def sp Let_def split: if_splits)
qed

lemma strtol_negative:
  assumes "rest = [] \<or> \<not> isdigit (hd rest)" and "n \<le> 2 ^ 63"
  shows "strtol (CHR ''-'' # dec_digits n @ rest) = (- int n, False, rest)"
proof -
  have "int n \<le> 2 ^ 63" using assms(2) by (metis of_nat_le_numeral_power_cancel_iff)
  then show ?thesis
    using takeWhile_digits [OF _ assms(1), of "dec_digits n"] dec_digits_ok [of n]
    by (auto simp: strtol_def isspace_def Let_def split: if_splits)
qed

lemma atoi_printf_d: "int_ok i \<Longrightarrow> atoi (printf_d i) = Some i"
  using strtol_digits [of "[]" "nat i"] strtol_negative [of "[]" "nat (- i)"]
  by (auto simp: atoi_def printf_d_def int_ok_def Let_def nat_less_iff nat_le_iff)

lemma minus_char [simp]: "CHR ''-'' \<noteq> NUL" "CHR '' '' \<noteq> NUL" "CHR 0x22 \<noteq> NUL" "NUL \<noteq> CHR ''-''" "NUL \<noteq> CHR '' ''" "NUL \<noteq> CHR 0x22" "\<not> isdigit NUL" "\<not> is_separator (CHR ''-'')"
  by code_simp+

lemma printf_d_ok: "printf_d i \<noteq> [] \<and> nul_free (printf_d i) \<and> list_all (\<lambda>c. \<not> is_separator c) (printf_d i)"
  using dec_digits_ok [of "nat i"] dec_digits_ok [of "nat (- i)"]
  by (auto simp: printf_d_def nul_free_def list_all_iff)

section \<open>Header fields as lists of values\<close>

definition header_key :: "string \<Rightarrow> string" where
  "header_key name = map toupper (c_prefix name)"

definition header_values :: "http_message \<Rightarrow> string \<Rightarrow> string list" where
  "header_values m name = map nv_value (filter (header_is (Some name)) (mNameValues m))"

lemma str_cmp_0: "str_cmp s t = 0 \<longleftrightarrow> c_prefix s = c_prefix t"
  by (simp add: str_cmp_def seq_cmp_0 codes_id_inj)

lemma nul_free_header_key [simp]: "nul_free (header_key name)"
proof -
  have "toupper c \<noteq> NUL" if "c \<noteq> NUL" for c
    using that of_char_pos [OF that] by (auto simp: toupper_def NUL_def Let_def of_char_of)
  moreover have "NUL \<notin> set (c_prefix name)" using nul_free_c_prefix unfolding nul_free_def .
  ultimately show ?thesis by (auto simp: header_key_def nul_free_def) metis
qed

lemma header_is_key: "header_is (Some name) h \<longleftrightarrow> c_prefix (nv_name h) = header_key name"
  using nul_free_header_key [of name] by (simp add: header_is_def str_cmp_0 flip: header_key_def)

lemma header_is_NV [simp]: "header_is (Some name) (NV (map toupper (c_prefix n)) v) \<longleftrightarrow> header_key n = header_key name"
  by (simp add: header_is_key flip: header_key_def)

lemma header_is_nv_put [simp]: "header_is name (nv_put h v) = header_is name h"
  by (simp add: header_is_def nv_put_def split: option.splits)

lemma nv_value_nv_put [simp]: "nv_value (nv_put h v) = c_prefix v"
  by (simp add: nv_put_def)

lemma match_at_None: "match_at p i xs = None \<longleftrightarrow> length (filter p xs) \<le> i"
  by (induction p i xs rule: match_at.induct) (auto split: nat.splits)

lemma match_at_split:
  "match_at p i xs = Some k \<Longrightarrow>
     \<exists>pre x post. xs = pre @ x # post \<and> length pre = k \<and> p x \<and> length (filter p pre) = i"
proof (induction p i xs arbitrary: k rule: match_at.induct)
  case (2 p i h hs)
  show ?case
  proof (cases "p h \<and> i = 0")
    case True
    then show ?thesis using 2(3) by (intro exI [of _ "[]"]) auto
  next
    case False
    then obtain k' where k: "k = Suc k'" "match_at p (if p h then i - 1 else i) hs = Some k'"
      using 2(3) by (auto split: if_splits nat.splits)
    then obtain pre x post where "hs = pre @ x # post" "length pre = k'" "p x"
      "length (filter p pre) = (if p h then i - 1 else i)"
      using 2(1) [of "i - 1" k'] 2(2) [of k'] False by (cases "p h"; cases i) auto
    then show ?thesis using k False by (intro exI [of _ "h # pre"] exI [of _ x] exI [of _ post]) auto
  qed
qed simp

lemma header_values_split:
  "mNameValues m = pre @ h # post \<Longrightarrow> header_values m name =
     map nv_value (filter (header_is (Some name)) pre) @ (if header_is (Some name) h then [nv_value h] else [])
     @ map nv_value (filter (header_is (Some name)) post)"
  by (simp add: header_values_def)

lemma header_is_cong: "header_key n = header_key name \<Longrightarrow> header_is (Some n) = header_is (Some name)"
  by (rule ext) (simp add: header_is_key)

lemma getHeaderValue_values:
  "getHeaderValue m i name = (if i < length (header_values m name) \<and> header_values m name ! i \<noteq> []
     then Some (header_values m name ! i) else None)"
proof (cases "match_at (header_is (Some name)) i (mNameValues m)")
  case None
  then show ?thesis
    using match_at_None [THEN iffD1, OF None] by (simp add: getHeaderValue_def getHeaderField_def header_values_def)
next
  case (Some k)
  obtain pre h post where sp: "mNameValues m = pre @ h # post" "length pre = k" "header_is (Some name) h"
    "length (filter (header_is (Some name)) pre) = i" using match_at_split [OF Some] by blast
  have "header_values m name ! i = nv_value h" "i < length (header_values m name)" "mNameValues m ! k = h"
    using sp by (auto simp: header_values_split nth_append)
  then show ?thesis using Some by (simp add: getHeaderValue_def getHeaderField_def Let_def)
qed

lemma header_values_add [simp]:
  "header_values (addHeaderField m n v) name = header_values m name @ (if header_key n = header_key name then [c_prefix v] else [])"
  by (simp add: header_values_def addHeaderField_def)

lemma header_values_set:
  "header_values (setHeaderValue m n v i) name =
     (if header_key n = header_key name then
        (if i < length (header_values m name) then (header_values m name)[i := c_prefix v] else header_values m name @ [c_prefix v])
      else header_values m name)"
proof (cases "match_at (header_is (Some n)) i (mNameValues m)")
  case None
  then show ?thesis
    using match_at_None [THEN iffD1, OF None] header_is_cong [of n name]
    by (auto simp: setHeaderValue_def getHeaderField_def addHeaderField_def header_values_def)
next
  case (Some k)
  obtain pre h post where sp: "mNameValues m = pre @ h # post" "length pre = k" "header_is (Some n) h"
    "length (filter (header_is (Some n)) pre) = i" using match_at_split [OF Some] by blast
  have new: "mNameValues (setHeaderValue m n v i) = pre @ nv_put h v # post"
    using Some sp(1) by (simp add: setHeaderValue_def getHeaderField_def flip: sp(2))
  have "header_is (Some name) h \<longleftrightarrow> header_key n = header_key name"
    using sp(3) by (auto simp: header_is_key)
  then show ?thesis
    using sp header_is_cong [of n name]
    by (auto simp: header_values_split [OF new] header_values_split [OF sp(1)] list_update_append)
qed

lemma header_values_remove:
  "header_values (fst (removeHeader m n i)) name =
     (if header_key n = header_key name then
        take i (header_values m name) @ drop (Suc i) (header_values m name) else header_values m name)"
  and removeHeader_found: "snd (removeHeader m n i) \<longleftrightarrow> i < length (header_values m n)"
proof -
  show "header_values (fst (removeHeader m n i)) name = (if header_key n = header_key name then
        take i (header_values m name) @ drop (Suc i) (header_values m name) else header_values m name)"
  proof (cases "match_at (header_is (Some n)) i (mNameValues m)")
    case None
    then show ?thesis
      using match_at_None [THEN iffD1, OF None] header_is_cong [of n name]
      by (auto simp: removeHeader_def getHeaderField_def header_values_def)
  next
    case (Some k)
    obtain pre h post where sp: "mNameValues m = pre @ h # post" "length pre = k" "header_is (Some n) h"
      "length (filter (header_is (Some n)) pre) = i" using match_at_split [OF Some] by blast
    have new: "mNameValues (fst (removeHeader m n i)) = pre @ post"
      using Some sp by (simp add: removeHeader_def getHeaderField_def)
    have "header_is (Some name) h \<longleftrightarrow> header_key n = header_key name"
      using sp(3) by (auto simp: header_is_key)
    then show ?thesis
      using sp header_is_cong [of n name]
      by (auto simp: header_values_def new)
  qed
  show "snd (removeHeader m n i) \<longleftrightarrow> i < length (header_values m n)"
    using match_at_None [of "header_is (Some n)" i "mNameValues m"]
    by (auto simp: removeHeader_def getHeaderField_def header_values_def not_le split: option.splits)
qed

text \<open>
  The header fields as the clients use them: \<open>fields m name\<close> are the values of the fields
  with that name, whatever its case.
\<close>

locale header_fields =
  fixes fields :: "'m \<Rightarrow> string \<Rightarrow> string list"
    and put :: "'m \<Rightarrow> string \<Rightarrow> string \<Rightarrow> nat \<Rightarrow> 'm"
    and del :: "'m \<Rightarrow> string \<Rightarrow> nat \<Rightarrow> 'm \<times> bool"
  assumes put_law: "fields (put m n v i) name =
      (if header_key n = header_key name then
         (if i < length (fields m name) then (fields m name)[i := c_prefix v] else fields m name @ [c_prefix v])
       else fields m name)"
    and del_law: "fields (fst (del m n i)) name =
      (if header_key n = header_key name then take i (fields m name) @ drop (Suc i) (fields m name) else fields m name)"
    and del_found: "snd (del m n i) \<longleftrightarrow> i < length (fields m n)"
begin

text \<open>Writing the values of a list one after the other to a message that has no such field.\<close>

lemma put_from:
  assumes "length (fields m n) = k"
  shows "fields (fold (\<lambda>(i, v) m. put m n v i) (enumerate k vs) m) n = fields m n @ map c_prefix vs"
  using assms
proof (induction vs arbitrary: m k)
  case (Cons v vs)
  have "fields (put m n v k) n = fields m n @ [c_prefix v]" using Cons.prems by (simp add: put_law)
  then show ?case using Cons.IH [of "put m n v k" "Suc k"] Cons.prems by simp
qed simp

lemma put_other:
  assumes "header_key n \<noteq> header_key name"
  shows "fields (fold (\<lambda>(i, v) m. put m n v i) ivs m) name = fields m name"
  using assms by (induction ivs arbitrary: m) (auto simp: put_law)

lemma put_list:
  assumes "fields m n = []"
  shows "fields (fold (\<lambda>(i, v) m. put m n v i) (enumerate 0 vs) m) n = map c_prefix vs"
  using put_from [of m n 0 vs] assms by simp

lemma put_first: "\<exists>vs. fields (put m n v 0) n = c_prefix v # vs"
  by (cases "fields m n") (simp_all add: put_law)

end

interpretation http: header_fields header_values setHeaderValue removeHeader
  by unfold_locales (simp_all add: header_values_set header_values_remove removeHeader_found)

lemma getHeaderValue_set:
  assumes "c_prefix v \<noteq> []"
  shows "getHeaderValue (setHeaderValue m n v 0) 0 n = Some (c_prefix v)"
proof -
  obtain vs where "header_values (setHeaderValue m n v 0) n = c_prefix v # vs" using http.put_first by blast
  then show ?thesis using assms by (simp add: getHeaderValue_values)
qed

lemma header_values_insert [simp]:
  "header_values (insertHeaderField m n v 0) name = (if header_key n = header_key name then [c_prefix v] else []) @ header_values m name"
  by (simp add: header_values_def insertHeaderField_def)

lemma removeRoutes_values:
  "header_values (removeRoutes m) name = (if header_key SIP_ROUTE_FIELD = header_key name then [] else header_values m name)"
proof (induction m rule: removeRoutes.induct)
  case (1 m)
  obtain m1 found where r: "removeHeader m SIP_ROUTE_FIELD 0 = (m1, found)" by (cases "removeHeader m SIP_ROUTE_FIELD 0")
  have f: "found \<longleftrightarrow> header_values m SIP_ROUTE_FIELD \<noteq> []" using http.del_found [of m SIP_ROUTE_FIELD 0] r by simp
  have v: "header_values m1 name = (if header_key SIP_ROUTE_FIELD = header_key name then tl (header_values m name) else header_values m name)"
    using http.del_law [of m SIP_ROUTE_FIELD 0 name] r by (simp add: drop_Suc)
  have same: "header_key SIP_ROUTE_FIELD = header_key name \<Longrightarrow> header_values m name = header_values m SIP_ROUTE_FIELD"
    by (simp add: header_values_def header_is_cong [of SIP_ROUTE_FIELD name])
  show ?case
  proof (cases found)
    case True
    then show ?thesis using 1 [of "(m1, found)" m1 found] r v by (simp add: removeRoutes.simps [of m])
  next
    case False
    then show ?thesis using f v same r by (auto simp: removeRoutes.simps [of m])
  qed
qed

section \<open>The warning field\<close>

lemma dec_digits_3:
  assumes "100 \<le> n" and "n < 1000"
  shows "length (dec_digits n) = 3"
proof -
  have "10 \<le> n div 10" using div_le_mono [OF assms(1), of 10] by simp
  moreover have "n div 10 div 10 < 10" using assms(2) less_mult_imp_div_less [of n 10 100] by (simp flip: div_mult2_eq)
  ultimately show ?thesis
    using assms by (simp add: dec_digits.simps [of n] dec_digits.simps [of "n div 10"] dec_digits.simps [of "n div 10 div 10"])
qed

text \<open>The lengths of host name and text for which what is printed fits into the buffer.\<close>

definition warning_fits :: "nat \<Rightarrow> bool" where
  "warning_fits n \<longleftrightarrow> n \<le> 92 \<or> 95 \<le> n \<and> n \<le> 192"

lemma capacity_new:
  assumes "N < SIZE_MOD"
  shows "\<exists>u. capacity UtlString_new N = Some u \<and> length (mpData u) = mCapacity u
           \<and> mCapacity u = (if N \<le> 100 then 100 else if N < 200 then 200 else N)"
  using assms
  by (auto simp: capacity_def UtlString_new_def DEFAULT_UTLSTRING_CAPACITY_def UTLSTRING_MIN_INCREMENT_def
      sz_add_def SIZE_MOD_def mem_set_def Let_def)

lemma setWarningField_cases:
  assumes "nul_free host" and "nul_free text" and "100 \<le> code" and "code < 1000" and "length host + length text + 6 < SIZE_MOD"
  shows "setWarningField m code host text =
           (if warning_fits (length host + length text)
            then Some (setHeaderValue m SIP_WARNING_FIELD (warning_text code host text) 0) else None)"
proof -
  let ?n = "length host + length text"
  have needed: "sz_add (sz_add (sz_add 3 (length host)) (length text)) 3 = ?n + 6"
    using assms(5) by (simp add: sz_add_exact)
  obtain u where u: "capacity UtlString_new (?n + 6) = Some u" "length (mpData u) = mCapacity u"
    "mCapacity u = (if ?n + 6 \<le> 100 then 100 else if ?n + 6 < 200 then 200 else ?n + 6)"
    using capacity_new [OF assms(5)] by blast
  have len: "length (warning_text code host text) = ?n + 7"
    using dec_digits_3 [of "nat code"] assms(3,4) by (simp add: warning_text_def printf_d_def Let_def)
  have nf: "nul_free (warning_text code host text)"
    using printf_d_ok [of code] assms(1,2) by (auto simp: warning_text_def Let_def nul_free_def)
  have "mem_write (mpData u) 0 (cstr (warning_text code host text)) =
      (if ?n + 8 \<le> mCapacity u then Some (cstr (warning_text code host text) @ drop (?n + 8) (mpData u)) else None)"
    using u(2) by (simp add: mem_write_def cstr_def len add.commute)
  moreover have "?n + 8 \<le> mCapacity u \<longleftrightarrow> warning_fits ?n" using u(3) by (auto simp: warning_fits_def)
  moreover have "cstring (cstr (warning_text code host text) @ bs) = Some (warning_text code host text)" for bs
    using nf by (simp add: cstr_def cstring_map_Some)
  moreover have "?n + 6 \<le> mCapacity u" using u(3) by simp
  ultimately show ?thesis
    using assms(1,2) u(1) needed by (simp add: setWarningField_def Let_def)
qed

section \<open>Properties\<close>

lemma takeWhile_until: "list_all (\<lambda>c. \<not> p c) xs \<Longrightarrow> p y \<Longrightarrow>
    takeWhile (\<lambda>c. \<not> p c) (xs @ y # ys) = xs \<and> dropWhile (\<lambda>c. \<not> p c) (xs @ y # ys) = y # ys"
  by (induction xs) auto

lemma dropWhile_none: "list_all (\<lambda>c. \<not> p c) xs \<Longrightarrow> dropWhile p xs = xs"
  by (cases xs) auto

lemma drop_back_none: "list_all (\<lambda>c. \<not> p c) xs \<Longrightarrow> drop_back p xs = xs"
  by (simp add: drop_back_def dropWhile_none list_all_rev)

text \<open>A word of the first line: not empty, without blanks and line ends.\<close>

definition line_word :: "string \<Rightarrow> bool" where
  "line_word s \<longleftrightarrow> s \<noteq> [] \<and> nul_free s \<and> list_all (\<lambda>c. \<not> is_strip_ws c) s"

lemma line_word_sep:
  assumes "line_word s"
  shows "list_all (\<lambda>c. \<not> c = HEADER_LINE_PART_DELIMITER) s" "list_all (\<lambda>c. \<not> is_separator c) s"
    "strip_spec is_strip_ws both s = s" "c_prefix s = s" "nul_free s"
  using assms by (auto simp: line_word_def list_all_iff is_strip_ws_def is_separator_def HEADER_LINE_PART_DELIMITER_def
      dropWhile_none drop_back_none)

text \<open>The rest of the line: anything that neither begins nor ends with white space.\<close>

definition line_text :: "string \<Rightarrow> bool" where
  "line_text s \<longleftrightarrow> nul_free s \<and> strip_spec is_strip_ws both s = s"

lemma line_word_text: "line_word s \<Longrightarrow> line_text s"
  using line_word_sep by (simp add: line_text_def)

lemma line_text_front: 
  assumes "line_text s"
  shows "dropWhile (\<lambda>c. c = HEADER_LINE_PART_DELIMITER) s = s"
proof (cases s)
  case (Cons c t)
  have len: "length (drop_back p r) \<le> length r" for p r
    using length_dropWhile_le [of p "rev r"] by (simp add: drop_back_def)
  have "c \<noteq> HEADER_LINE_PART_DELIMITER"
  proof
    assume "c = HEADER_LINE_PART_DELIMITER"
    then have "is_strip_ws c" by (simp add: HEADER_LINE_PART_DELIMITER_def is_strip_ws_def)
    then have "length (drop_back is_strip_ws (dropWhile is_strip_ws s)) \<le> length t"
      using Cons len [of is_strip_ws "dropWhile is_strip_ws t"] length_dropWhile_le [of is_strip_ws t] by simp
    then show False using assms Cons by (simp add: line_text_def)
  qed
  then show ?thesis using Cons by simp
qed simp

lemma delimiter_not_NUL [simp]: "HEADER_LINE_PART_DELIMITER \<noteq> NUL"
  by code_simp

lemma first_line:
  assumes "nul_free a" and "nul_free b" and "nul_free c"
  shows "c_prefix (mFirstHeaderLine (setFirstHeaderLine m a b c)) = a @ HEADER_LINE_PART_DELIMITER # b @ HEADER_LINE_PART_DELIMITER # c"
  using assms by (simp add: setFirstHeaderLine_def)

lemma first_line_parts:
  assumes "line_word a" and "line_word b" and "line_text c"
  shows "line_part (setFirstHeaderLine m a b c) 0 = a" "line_part (setFirstHeaderLine m a b c) 1 = b"
    "line_part (setFirstHeaderLine m a b c) 2 = c"
proof -
  let ?d = HEADER_LINE_PART_DELIMITER
  note a = line_word_sep [OF assms(1)] and b = line_word_sep [OF assms(2)]
  have c: "nul_free c" using assms(3) by (simp add: line_text_def)
  have d: "dropWhile (\<lambda>x. x = ?d) (a @ ?d # b @ ?d # c) = a @ ?d # b @ ?d # c"
    "dropWhile (\<lambda>x. x = ?d) (b @ ?d # c) = b @ ?d # c"
    using assms a(1) b(1) by (cases a; cases b; simp add: line_word_def)+
  note t = takeWhile_until [of "\<lambda>x. x = ?d", OF a(1) refl, of "b @ ?d # c"] takeWhile_until [of "\<lambda>x. x = ?d", OF b(1) refl, of c]
  show "line_part (setFirstHeaderLine m a b c) 0 = a" "line_part (setFirstHeaderLine m a b c) 1 = b"
    "line_part (setFirstHeaderLine m a b c) 2 = c"
    using t by (simp_all add: line_part_def getFirstHeaderLinePart_def first_line [OF a(5) b(5) c] d
        line_text_front [OF assms(3)] numeral_2_eq_2)
qed

lemma isResponse_first_line:
  assumes "line_word a" and "nul_free b" and "nul_free c"
  shows "isResponse (setFirstHeaderLine m a b c) \<longleftrightarrow> take 7 a = SIP_PROTOCOL_VERSION"
proof -
  let ?d = HEADER_LINE_PART_DELIMITER
  have len: "length SIP_PROTOCOL_VERSION = 7" and nod: "?d \<notin> set SIP_PROTOCOL_VERSION" by code_simp+
  have "take 7 (a @ ?d # r) = SIP_PROTOCOL_VERSION \<longleftrightarrow> take 7 a = SIP_PROTOCOL_VERSION" for r
  proof (cases "7 \<le> length a")
    case False
    then have "?d \<in> set (take 7 (a @ ?d # r))" by (simp add: take_Cons')
    moreover have "length (take 7 a) < 7" using False by simp
    moreover have "s \<noteq> SIP_PROTOCOL_VERSION" if "?d \<in> set s \<or> length s < 7" for s using that nod len by auto
    ultimately show ?thesis by blast
  qed simp
  then show ?thesis
    using first_line [OF line_word_sep(5) [OF assms(1)] assms(2,3), of m] by (simp add: isResponse_def len)
qed

lemma getCSeqField_set:
  assumes "0 \<le> n" and "n < 2 ^ 31" and "line_word method"
  shows "getCSeqField (setCSeqField m n method) = (True, n, method)"
proof -
  note w = line_word_sep [OF assms(3)]
  let ?d = "dec_digits (nat n)"
  have blank: "CHR '' '' \<noteq> NUL" "is_separator (CHR '' '')" "\<not> isdigit (CHR '' '')" by code_simp+
  have dd: "nul_free ?d" "list_all (\<lambda>c. \<not> is_separator c) ?d" "?d \<noteq> []"
    using printf_d_ok [of n] assms(1) by (auto simp: printf_d_def)
  have v: "getHeaderValue (setCSeqField m n method) 0 SIP_CSEQ_FIELD = Some (?d @ CHR '' '' # method)"
    using getHeaderValue_set [of "?d @ CHR '' '' # method" m SIP_CSEQ_FIELD] dd w(4,5) blank assms(1)
    by (simp add: setCSeqField_def printf_d_def)
  have start: "takeWhile is_separator (?d @ CHR '' '' # method) = []" using dd by (cases ?d) auto
  have num: "takeWhile (\<lambda>c. \<not> is_separator c) (?d @ CHR '' '' # method) = ?d"
    using takeWhile_until [OF dd(2) blank(2)] by blast
  have meth: "frontBackTrim is_separator (CHR '' '' # method) = method"
    using w(2) blank by (simp add: frontBackTrim_def dropWhile_none drop_back_none)
  have "strtol (?d @ CHR '' '' # method) = (n, False, CHR '' '' # method)"
    using strtol_digits [of "CHR '' '' # method" "nat n"] blank assms(1,2) by (simp add: nat_less_iff)
  then show ?thesis
    using assms(1-3) blank meth by (simp add: getCSeqField_def v start num line_word_def)
qed

text \<open>What is written to the first line of a request or response is what the accessors read
  from it, and a request is taken for a response only if its method starts with the version.\<close>

theorem sip_first_line:
  assumes "line_word method" and "line_word uri" and "line_text protocol" and "line_text reason" and "int_ok code"
  shows "getRequestMethod (setRequestFirstHeaderLine m method uri protocol) = method
         \<and> getRequestUri (setRequestFirstHeaderLine m method uri protocol) = uri
         \<and> getRequestProtocol (setRequestFirstHeaderLine m method uri protocol) = protocol
         \<and> isResponse (setRequestFirstHeaderLine m method uri protocol) = (take 7 method = SIP_PROTOCOL_VERSION)
         \<and> getResponseStatusCode (setResponseFirstHeaderLine m SIP_PROTOCOL_VERSION code reason) = Some code
         \<and> getResponseStatusText (setResponseFirstHeaderLine m SIP_PROTOCOL_VERSION code reason) = reason
         \<and> isResponse (setResponseFirstHeaderLine m SIP_PROTOCOL_VERSION code reason)"
proof -
  have v: "line_word SIP_PROTOCOL_VERSION" "take 7 SIP_PROTOCOL_VERSION = SIP_PROTOCOL_VERSION" by code_simp+
  have n: "line_word (printf_d code)"
    using printf_d_ok [of code] dec_digits_ok [of "nat code"] dec_digits_ok [of "nat (- code)"]
    by (auto simp: line_word_def printf_d_def list_all_iff is_strip_ws_def isdigit_def)
  have nf: "nul_free protocol" "nul_free reason" "strip_spec is_strip_ws both protocol = protocol"
    "strip_spec is_strip_ws both reason = reason" using assms(3,4) unfolding line_text_def by blast+
  show ?thesis
    using first_line_parts [OF assms(1-3), of m] first_line_parts [OF v(1) n assms(4), of m] atoi_printf_d [OF assms(5)]
      line_word_sep [OF assms(1)] nf isResponse_first_line [OF assms(1) line_word_sep(5) [OF assms(2)] nf(1), of m]
      isResponse_first_line [OF v(1) line_word_sep(5) [OF n] nf(2), of m] v(2)
    by (simp add: getRequestMethod_def getRequestUri_def getRequestProtocol_def setRequestFirstHeaderLine_def
        setResponseFirstHeaderLine_def getResponseStatusCode_def getResponseStatusText_def)
qed

definition blank_message :: http_message where
  "blank_message = \<lparr>mFirstHeaderLine = [], mNameValues = []\<rparr>"

theorem sip_first_line_witness:
  "getRequestMethod (setRequestFirstHeaderLine blank_message ''INVITE'' ''sip:bob@example.com'' ''SIP/2.0'') = ''INVITE''
   \<and> getResponseStatusText (setResponseFirstHeaderLine blank_message SIP_PROTOCOL_VERSION 302 ''Moved Temporarily'') = ''Moved Temporarily''"
proof -
  have "line_word ''INVITE''" "line_word ''sip:bob@example.com''" "line_text ''SIP/2.0''" "line_text ''Moved Temporarily''" "int_ok 302"
    by code_simp+
  from sip_first_line [OF this, of blank_message] show ?thesis by simp
qed

text \<open>C20. The warning printed into the string's buffer fits for some lengths only: six bytes more than
  the host name and the text are asked for, eight are written. Beyond 192 characters the two
  bytes behind the buffer are always overwritten, which is undefined.\<close>

theorem sip_warning_bounds:
  assumes "nul_free host" and "nul_free text" and "100 \<le> code" and "code < 1000" and "length host + length text + 6 < SIZE_MOD"
  shows "(setWarningField m code host text = None) = (\<not> warning_fits (length host + length text))
         \<and> (warning_fits (length host + length text) \<longrightarrow>
             returns (setWarningField m code host text)
               (\<lambda>m'. getHeaderValue m' 0 SIP_WARNING_FIELD = Some (warning_text code host text)))"
proof -
  have "nul_free (warning_text code host text)" "warning_text code host text \<noteq> []"
    using printf_d_ok [of code] assms(1,2) by (auto simp: warning_text_def Let_def nul_free_def)
  then have "getHeaderValue (setHeaderValue m SIP_WARNING_FIELD (warning_text code host text) 0) 0 SIP_WARNING_FIELD
      = Some (warning_text code host text)" using getHeaderValue_set [of "warning_text code host text"] by simp
  then show ?thesis using setWarningField_cases [OF assms, of m] by simp
qed

theorem sip_warning_bounds_witness:
  "setWarningField blank_message 399 ''example.com'' (replicate 82 (CHR ''x'')) = None
   \<and> returns (setWarningField blank_message 399 ''example.com'' ''No luck'')
       (\<lambda>m'. getHeaderValue m' 0 SIP_WARNING_FIELD = Some (''399 example.com '' @ [CHR 0x22] @ ''No luck'' @ [CHR 0x22]))"
proof -
  have h: "nul_free ''example.com''" "nul_free (replicate 82 (CHR ''x''))" "nul_free ''No luck''"
    "length ''example.com'' + length (replicate 82 (CHR ''x'')) + 6 < SIZE_MOD" "length ''example.com'' + length ''No luck'' + 6 < SIZE_MOD"
    "\<not> warning_fits (length ''example.com'' + length (replicate 82 (CHR ''x'')))" "warning_fits (length ''example.com'' + length ''No luck'')"
    by code_simp+
  have w: "warning_text 399 ''example.com'' ''No luck'' = ''399 example.com '' @ [CHR 0x22] @ ''No luck'' @ [CHR 0x22]" by code_simp
  show ?thesis
    using sip_warning_bounds [OF h(1,2) _ _ h(4), of 399 blank_message] sip_warning_bounds [OF h(1,3) _ _ h(5), of 399 blank_message] h(6,7) w
    by simp
qed

lemma max_forwards_set: "int_ok i \<Longrightarrow> getMaxForwards (setMaxForwards m i) = Some (Some i)"
  using getHeaderValue_set [of "printf_d i" m SIP_MAX_FORWARDS_FIELD] printf_d_ok [of i] atoi_printf_d [of i]
  by (simp add: getMaxForwards_def setMaxForwards_def)

text \<open>The number and the method written to the CSeq field are read back, and so is a Max-Forwards
  value; decrementing it gives one less, or 19 when there was none.\<close>

theorem sip_cseq_roundtrip:
  assumes "0 \<le> n" and "n < 2 ^ 31" and "line_word method" and "int_ok k"
  shows "getCSeqField (setCSeqField m n method) = (True, n, method)
         \<and> getMaxForwards (setMaxForwards m k) = Some (Some k)
         \<and> (k \<noteq> - (2 ^ 31) \<longrightarrow> returns (decrementMaxForwards (setMaxForwards m k)) (\<lambda>m'. getMaxForwards m' = Some (Some (k - 1))))"
proof -
  have one: "getCSeqField (setCSeqField m n method) = (True, n, method)" by (rule getCSeqField_set) (use assms in simp_all)
  have "int_ok (k - 1)" if "k \<noteq> - (2 ^ 31)" using that assms(4) by (auto simp: int_ok_def)
  then show ?thesis using one max_forwards_set assms(4) by (simp add: decrementMaxForwards_def Let_def)
qed

theorem sip_cseq_roundtrip_witness:
  "getCSeqField (setCSeqField blank_message 42 ''INVITE'') = (True, 42, ''INVITE'')"
proof -
  have "line_word ''INVITE''" "int_ok 70" by code_simp+
  then show ?thesis using sip_cseq_roundtrip [of 42 "''INVITE''" 70 blank_message] by simp
qed

text \<open>With white space in front of the number the CSeq field is misread: the number is found, but
  the method starts inside or before it.\<close>

theorem sip_cseq_leading_blank:
  "getCSeqField (setHeaderValue blank_message SIP_CSEQ_FIELD ''  1 INVITE'' 0) = (True, 1, ''1 INVITE'')"
  by code_simp

end
