(* ===== verification/UtlRegex.thy ===== *)
theory UtlRegex
  imports UtlString
begin

text \<open>
  The regular expression object (\<^verbatim>\<open>sipXportLib/src/utl/UtlRegex.cpp\<close>), a wrapper of the PCRE
  library: searching, searching again behind the last match, and reading the substrings of
  the last match.

  The library is a parameter: \<open>exec\<close> stands for \<open>pcre_exec\<close> with a compiled pattern, the
  recursion limit included. It is given the subject, the offset to start at, whether the match
  is anchored there and the vector of offsets, and gives the return code and the vector as it
  leaves it. \<open>pcre_law\<close> is what the library documents of every pattern (without
  \<^verbatim>\<open>\\K\<close>): on success the return code counts the pairs of offsets, the first pair is the whole
  match, and a group that took no part has the offset \<open>-1\<close> twice. A failed search may leave
  anything in the vector. The vector of a new object was never written: its contents are the
  argument \<open>garbage\<close>. Reading the vector or the subject out of bounds, and a failed
  \<^verbatim>\<open>assert\<close>, are \<open>None\<close>.
\<close>

section \<open>State\<close>

type_synonym pcre_exec = "string \<Rightarrow> int \<Rightarrow> bool \<Rightarrow> int list \<Rightarrow> int \<times> int list"

text \<open>\<open>subjectStr\<close> holds the \<open>subjectLen\<close> characters of the subject.\<close>

record regex =
  substrcount :: nat
  subjectStr :: string
  lastStart :: int
  lastMatches :: int
  ovector :: "int list"

definition RegEx_new :: "nat \<Rightarrow> int list \<Rightarrow> regex" where
  "RegEx_new captures garbage =
     \<lparr>substrcount = Suc captures, subjectStr = [], lastStart = 0, lastMatches = 0,
      ovector = take (3 * Suc captures) garbage\<rparr>"

definition RegEx_copy :: "regex \<Rightarrow> int list \<Rightarrow> regex" where
  "RegEx_copy re garbage =
     \<lparr>substrcount = substrcount re, subjectStr = [], lastStart = 0, lastMatches = 0,
      ovector = take (3 * substrcount re) garbage\<rparr>"

definition subjectLen :: "regex \<Rightarrow> int" where
  "subjectLen re = int (length (subjectStr re))"

definition SubStrings :: "regex \<Rightarrow> nat" where
  "SubStrings re = substrcount re"

definition ov :: "regex \<Rightarrow> int \<Rightarrow> int option" where
  "ov re i = (if 0 \<le> i \<and> nat i < length (ovector re) then Some (ovector re ! nat i) else None)"

text \<open>\<open>n\<close> characters of the subject from an offset on.\<close>

definition subject_part :: "regex \<Rightarrow> int \<Rightarrow> int \<Rightarrow> string option" where
  "subject_part re offset n =
     (if 0 \<le> offset \<and> 0 \<le> n \<and> offset + n \<le> subjectLen re
      then Some (take (nat n) (drop (nat offset) (subjectStr re))) else None)"

section \<open>Searching\<close>

text \<open>The subject a caller passes: \<open>len\<close> characters, or up to the NUL for a negative length.\<close>

definition subject_of :: "bytes \<Rightarrow> int \<Rightarrow> string option" where
  "subject_of subject len = do {
     n \<leftarrow> (if 0 \<le> len then Some len else map_option sz_int (strlen subject));
     if 0 \<le> n then do {
       bs \<leftarrow> mem_read subject 0 (nat n);
       if None \<in> set bs then None else Some (map the bs)
     } else None }"

definition Search :: "pcre_exec \<Rightarrow> regex \<Rightarrow> bytes \<Rightarrow> int \<Rightarrow> bool \<Rightarrow> (regex \<times> bool) option" where
  "Search exec re subject len anchored = do {
     s \<leftarrow> subject_of subject len;
     let (rc, vec) = exec s 0 anchored (ovector re);
     Some (re\<lparr>subjectStr := s, lastStart := 0, lastMatches := rc, ovector := vec\<rparr>, 0 < rc) }"

definition SearchAt :: "pcre_exec \<Rightarrow> regex \<Rightarrow> bytes \<Rightarrow> int \<Rightarrow> int \<Rightarrow> bool \<Rightarrow> (regex \<times> bool) option" where
  "SearchAt exec re subject offset len anchored = do {
     s \<leftarrow> subject_of subject len;
     let (rc, vec) = exec s offset anchored (ovector re);
     Some (re\<lparr>subjectStr := s, lastStart := 0, lastMatches := rc, ovector := vec\<rparr>, 0 < rc) }"

definition SearchAgain :: "pcre_exec \<Rightarrow> regex \<Rightarrow> bool \<Rightarrow> (regex \<times> bool) option" where
  "SearchAgain exec re anchored = do {
     start \<leftarrow> ov re 1;
     let re1 = re\<lparr>lastStart := start\<rparr>;
     if start < subjectLen re1 then
       let (rc, vec) = exec (subjectStr re1) start anchored (ovector re1)
       in Some (re1\<lparr>lastMatches := rc, ovector := vec\<rparr>, 0 < rc)
     else Some (re1, False) }"

section \<open>Reading the result\<close>

definition Matches :: "regex \<Rightarrow> int" where
  "Matches re = lastMatches re"

text \<open>The string a result is appended to is NULL (\<open>None\<close>) or the contents so far.\<close>

definition append_to :: "string option \<Rightarrow> string \<Rightarrow> string option" where
  "append_to target s = map_option (\<lambda>t. t @ s) target"

definition BeforeMatchString :: "regex \<Rightarrow> string option \<Rightarrow> (string option \<times> bool) option" where
  "BeforeMatchString re before =
     (if lastMatches re \<noteq> 0 then do {
        startOffset \<leftarrow> ov re 0;
        if lastStart re < startOffset then
          (if before = None then Some (None, True)
           else do {
             s \<leftarrow> subject_part re (lastStart re) (startOffset - lastStart re);
             Some (append_to before s, True) })
        else Some (before, False)
      } else Some (before, False))"

definition AfterMatch :: "regex \<Rightarrow> int \<Rightarrow> int option" where
  "AfterMatch re i = (if i < lastMatches re then ov re (2 * i + 1) else Some (-1))"

definition AfterMatchString :: "regex \<Rightarrow> string option \<Rightarrow> (string option \<times> bool) option" where
  "AfterMatchString re after =
     (if lastMatches re \<noteq> 0 then do {
        endOffset \<leftarrow> ov re 1;
        if endOffset < subjectLen re then
          (if after = None then Some (None, True)
           else do {
             s \<leftarrow> subject_part re endOffset (subjectLen re - endOffset);
             Some (append_to after s, True) })
        else Some (after, False)
      } else Some (after, False))"

definition MatchString :: "regex \<Rightarrow> string option \<Rightarrow> int \<Rightarrow> (string option \<times> bool) option" where
  "MatchString re matched i =
     (if i < lastMatches re then
        if i = -1 then Some (append_to matched (subjectStr re), True)
        else do {
          startOffset \<leftarrow> ov re (i * 2);
          if 0 \<le> startOffset then do {
            endOffset \<leftarrow> ov re (i * 2 + 1);
            let n = endOffset - startOffset;
            if 0 < n \<and> matched \<noteq> None then do {
              s \<leftarrow> subject_part re startOffset n;
              Some (append_to matched s, True)
            } else Some (matched, True)
          } else Some (matched, False) }
      else Some (matched, False))"

text \<open>\<open>Match\<close> with two outputs: whether the group took part, its offset and its length.\<close>

definition Match :: "regex \<Rightarrow> int \<Rightarrow> (bool \<times> int \<times> int) option" where
  "Match re i =
     (if i < lastMatches re then do {
        offset \<leftarrow> ov re (2 * i);
        endOffset \<leftarrow> ov re (2 * i + 1);
        Some (offset \<noteq> -1, offset, endOffset - offset)
      } else None)"

definition MatchStart :: "regex \<Rightarrow> int \<Rightarrow> int option" where
  "MatchStart re i = (if i < lastMatches re then ov re (2 * i) else None)"

section \<open>Quoting\<close>

definition isalnum :: "char \<Rightarrow> bool" where
  "isalnum c = (let n = of_char c :: nat in
     (48 \<le> n \<and> n \<le> 57) \<or> (65 \<le> n \<and> n \<le> 90) \<or> (97 \<le> n \<and> n \<le> 122))"

definition BACKSLASH :: char where "BACKSLASH = CHR 0x5C"

fun Quotemeta :: "string \<Rightarrow> string" where
  "Quotemeta [] = []"
| "Quotemeta (c # literal) = (if isalnum c then [c] else [BACKSLASH, c]) @ Quotemeta literal"

section \<open>What the library documents\<close>

definition pair_ok :: "string \<Rightarrow> int \<Rightarrow> int \<Rightarrow> bool" where
  "pair_ok s b e \<longleftrightarrow> (b = -1 \<and> e = -1) \<or> (0 \<le> b \<and> b \<le> e \<and> e \<le> int (length s))"

definition pcre_law :: "nat \<Rightarrow> pcre_exec \<Rightarrow> bool" where
  "pcre_law n exec \<longleftrightarrow>
     (\<forall>s start anchored vec. 0 \<le> start \<longrightarrow> start \<le> int (length s) \<longrightarrow> length vec = 3 * n \<longrightarrow>
        (let (rc, vec') = exec s start anchored vec in
           length vec' = 3 * n \<and> rc \<le> int n \<and>
           (0 < rc \<longrightarrow> start \<le> vec' ! 0 \<and> vec' ! 0 \<le> vec' ! 1 \<and> vec' ! 1 \<le> int (length s) \<and>
              (\<forall>i < nat rc. pair_ok s (vec' ! (2 * i)) (vec' ! (2 * i + 1))))))"

text \<open>A pattern that never matches the empty string.\<close>

definition no_empty_match :: "nat \<Rightarrow> pcre_exec \<Rightarrow> bool" where
  "no_empty_match n exec \<longleftrightarrow>
     (\<forall>s start anchored vec. 0 \<le> start \<longrightarrow> start \<le> int (length s) \<longrightarrow> length vec = 3 * n \<longrightarrow>
        (let (rc, vec') = exec s start anchored vec in 0 < rc \<longrightarrow> vec' ! 0 < vec' ! 1))"

text \<open>An object after a search that matched.\<close>

definition matched :: "nat \<Rightarrow> regex \<Rightarrow> bool" where
  "matched n re \<longleftrightarrow> 0 < n \<and> substrcount re = n \<and> length (ovector re) = 3 * n \<and> 0 < lastMatches re
     \<and> lastMatches re \<le> int n \<and> 0 \<le> lastStart re \<and> lastStart re \<le> ovector re ! 0
     \<and> ovector re ! 0 \<le> ovector re ! 1 \<and> ovector re ! 1 \<le> subjectLen re
     \<and> (\<forall>i < nat (lastMatches re). pair_ok (subjectStr re) (ovector re ! (2 * i)) (ovector re ! (2 * i + 1)))"

lemma subject_of_cstr:
  assumes "nul_free s" and "length s < 2 ^ 31"
  shows "subject_of (map Some s @ Some NUL # bs) (-1) = Some s"
proof -
  have "strlen (map Some s @ Some NUL # bs) = Some (length s)" by (rule strlen_map_Some [OF assms(1)])
  then show ?thesis by (auto simp: subject_of_def sz_int_small [OF assms(2)] mem_read_0 comp_def)
qed

lemma subject_of_data: "subject_of (map Some s @ bs) (int (length s)) = Some s"
  by (auto simp: subject_of_def mem_read_0 comp_def)

lemma exec_matched:
  assumes law: "pcre_law n exec" and n: "0 < n" "length vec = 3 * n" and start: "0 \<le> start" "start \<le> int (length s)"
    and rc: "exec s start anchored vec = (rc, vec')" "0 < rc" and l: "0 \<le> l" "l \<le> start"
  shows "matched n \<lparr>substrcount = n, subjectStr = s, lastStart = l, lastMatches = rc, ovector = vec'\<rparr>"
proof -
  have "let (rc, vec') = exec s start anchored vec in
           length vec' = 3 * n \<and> rc \<le> int n \<and>
           (0 < rc \<longrightarrow> start \<le> vec' ! 0 \<and> vec' ! 0 \<le> vec' ! 1 \<and> vec' ! 1 \<le> int (length s) \<and>
              (\<forall>i < nat rc. pair_ok s (vec' ! (2 * i)) (vec' ! (2 * i + 1))))"
    using law n start unfolding pcre_law_def by blast
  then show ?thesis using rc n l by (auto simp: matched_def subjectLen_def)
qed

lemma Search_matched:
  assumes "pcre_law n exec" and "0 < n" and "length (ovector re) = 3 * n" and "substrcount re = n"
    and "Search exec re subject len anchored = Some (re', True)"
  shows "matched n re'"
proof -
  obtain s where s: "subject_of subject len = Some s"
    using assms(5) by (auto simp: Search_def split: bind_splits)
  obtain rc vec' where e: "exec s 0 anchored (ovector re) = (rc, vec')" by fastforce
  have "re' = re\<lparr>subjectStr := s, lastStart := 0, lastMatches := rc, ovector := vec'\<rparr>" "0 < rc"
    using assms(5) s e by (auto simp: Search_def)
  moreover have "matched n \<lparr>substrcount = n, subjectStr = s, lastStart = 0, lastMatches = rc, ovector = vec'\<rparr>"
    using calculation(2) by (intro exec_matched [OF assms(1-3) _ _ e]) simp_all
  ultimately show ?thesis using assms(4) by (cases re) simp
qed

lemma ov_nth: "0 \<le> i \<Longrightarrow> nat i < length (ovector re) \<Longrightarrow> ov re i = Some (ovector re ! nat i)"
  by (simp add: ov_def)

lemma matched_ov:
  assumes "matched n re" and "0 \<le> i" and "i < lastMatches re"
  shows "ov re (2 * i) = Some (ovector re ! (2 * nat i))" "ov re (2 * i + 1) = Some (ovector re ! (2 * nat i + 1))"
    and "pair_ok (subjectStr re) (ovector re ! (2 * nat i)) (ovector re ! (2 * nat i + 1))"
  using assms by (auto simp: matched_def ov_def nat_mult_distrib nat_add_distrib)

lemma SearchAgain_start:
  assumes "matched n re"
  shows "ov re 1 = Some (ovector re ! 1)" "0 \<le> ovector re ! 1" "ovector re ! 1 \<le> int (length (subjectStr re))"
  using assms by (auto simp: matched_def ov_def subjectLen_def)

lemma SearchAgain_matched:
  assumes "pcre_law n exec" and "matched n re" and "SearchAgain exec re anchored = Some (re', True)"
  shows "matched n re'" and "lastStart re' = ovector re ! 1" and "subjectStr re' = subjectStr re"
proof -
  let ?start = "ovector re ! 1"
  note st = SearchAgain_start [OF assms(2)]
  have less: "?start < subjectLen re"
    using assms(3) st by (auto simp: SearchAgain_def subjectLen_def Let_def split: if_splits)
  obtain rc vec' where e: "exec (subjectStr re) ?start anchored (ovector re) = (rc, vec')" by fastforce
  have r: "re' = re\<lparr>lastStart := ?start, lastMatches := rc, ovector := vec'\<rparr>" "0 < rc"
    using assms(3) st e less by (auto simp: SearchAgain_def subjectLen_def)
  have "matched n \<lparr>substrcount = n, subjectStr = subjectStr re, lastStart = ?start, lastMatches = rc, ovector = vec'\<rparr>"
    using assms(2) st r(2) by (intro exec_matched [OF assms(1) _ _ _ _ e]) (simp_all add: matched_def)
  then show "matched n re'" using r assms(2) by (cases re) (simp add: matched_def)
  show "lastStart re' = ?start" "subjectStr re' = subjectStr re" using r by simp_all
qed

text \<open>The loop of the clients, \<^verbatim>\<open>while (re.SearchAgain());\<close> behind a successful search: the
  number of further matches, \<open>None\<close> when the fuel does not suffice.\<close>

fun again_loop :: "pcre_exec \<Rightarrow> nat \<Rightarrow> regex \<Rightarrow> nat option" where
  "again_loop exec fuel re =
     (case fuel of
        0 \<Rightarrow> None
      | Suc f \<Rightarrow> do {
          (re1, more) \<leftarrow> SearchAgain exec re False;
          if more then map_option Suc (again_loop exec f re1) else Some 0 })"

declare again_loop.simps [simp del]

lemma SearchAgain_defined:
  assumes "matched n re"
  shows "\<exists>re' more. SearchAgain exec re anchored = Some (re', more)"
  using SearchAgain_start(1) [OF assms] by (auto simp: SearchAgain_def Let_def case_prod_unfold)

lemma SearchAgain_progress:
  assumes "pcre_law n exec" and "no_empty_match n exec" and "matched n re"
    and "SearchAgain exec re False = Some (re', True)"
  shows "ovector re ! 1 < ovector re' ! 1"
proof -
  let ?start = "ovector re ! 1"
  note st = SearchAgain_start [OF assms(3)]
  obtain rc vec' where e: "exec (subjectStr re) ?start False (ovector re) = (rc, vec')" by fastforce
  have r: "ovector re' = vec'" "0 < rc"
    using assms(4) st e by (auto simp: SearchAgain_def subjectLen_def Let_def split: if_splits)
  have "let (rc, vec') = exec (subjectStr re) ?start False (ovector re) in 0 < rc \<longrightarrow> vec' ! 0 < vec' ! 1"
    using assms(2) st(2,3) assms(3) unfolding no_empty_match_def by (auto simp: matched_def)
  then have "vec' ! 0 < vec' ! 1" using e r by simp
  moreover have "?start \<le> vec' ! 0"
    using SearchAgain_matched [OF assms(1,3,4)] r by (auto simp: matched_def)
  ultimately show ?thesis using r by simp
qed

section \<open>Properties\<close>

text \<open>After a successful search, what is before the match, the match and what is behind it are
  well defined and together make up the subject from where the search started; and every
  group that took part gives its piece of the subject.\<close>

theorem regex_match_pieces:
  assumes "matched n re"
  shows "\<exists>b m a. BeforeMatchString re (Some []) = Some (Some b, b \<noteq> []) \<and> MatchString re (Some []) 0 = Some (Some m, True)
           \<and> AfterMatchString re (Some []) = Some (Some a, a \<noteq> []) \<and> b @ m @ a = drop (nat (lastStart re)) (subjectStr re)"
proof -
  define l s e where "l = lastStart re" and "s = ovector re ! 0" and "e = ovector re ! 1"
  let ?t = "subjectStr re"
  have o: "ov re 0 = Some s" "ov re 1 = Some e" "0 < lastMatches re"
    using assms by (auto simp: matched_def ov_def s_def e_def)
  have b: "0 \<le> l" "l \<le> s" "s \<le> e" "e \<le> int (length ?t)"
    using assms by (auto simp: matched_def subjectLen_def l_def s_def e_def)
  have before: "BeforeMatchString re (Some []) = Some (Some (take (nat (s - l)) (drop (nat l) ?t)), take (nat (s - l)) (drop (nat l) ?t) \<noteq> [])"
    using b o by (auto simp: BeforeMatchString_def subject_part_def subjectLen_def append_to_def l_def [symmetric])
  have match: "MatchString re (Some []) 0 = Some (Some (take (nat (e - s)) (drop (nat s) ?t)), True)"
    using b o by (auto simp: MatchString_def subject_part_def subjectLen_def append_to_def Let_def)
  have after: "AfterMatchString re (Some []) = Some (Some (drop (nat e) ?t), drop (nat e) ?t \<noteq> [])"
    using b o by (auto simp: AfterMatchString_def subject_part_def subjectLen_def append_to_def)
  have "drop (nat e) ?t = drop (nat (e - s)) (drop (nat s) ?t)" "drop (nat s) ?t = drop (nat (s - l)) (drop (nat l) ?t)"
    using b by (simp_all flip: nat_add_distrib)
  then have "take (nat (s - l)) (drop (nat l) ?t) @ take (nat (e - s)) (drop (nat s) ?t) @ drop (nat e) ?t = drop (nat l) ?t"
    by (metis append_take_drop_id)
  then show ?thesis using before match after unfolding l_def by blast
qed

text \<open>An object after the pattern \<^verbatim>\<open>b\<close> was found in \<open>abc\<close>.\<close>

definition sample_regex :: regex where
  "sample_regex = \<lparr>substrcount = 1, subjectStr = ''abc'', lastStart = 0, lastMatches = 1, ovector = [1, 2, 0]\<rparr>"

lemma sample_regex_matched: "matched 1 sample_regex"
  by (simp add: matched_def sample_regex_def subjectLen_def pair_ok_def)

theorem regex_match_pieces_witness:
  "\<exists>b m a. BeforeMatchString sample_regex (Some []) = Some (Some b, b \<noteq> []) \<and> b @ m @ a = ''abc''"
proof -
  obtain b m a where "BeforeMatchString sample_regex (Some []) = Some (Some b, b \<noteq> [])"
    "b @ m @ a = drop (nat (lastStart sample_regex)) (subjectStr sample_regex)"
    using regex_match_pieces [OF sample_regex_matched] by blast
  then show ?thesis by (auto simp: sample_regex_def)
qed

text \<open>The loop that searches again after every match ends, for a pattern that does not match
  the empty string: each round starts further on in the subject.\<close>

theorem regex_again_terminates:
  assumes "pcre_law n exec" and "no_empty_match n exec" and "matched n re"
    and "int (length (subjectStr re)) - ovector re ! 1 < int fuel"
  shows "\<exists>k. again_loop exec fuel re = Some k"
  using assms(3,4)
proof (induction fuel arbitrary: re)
  case 0
  then show ?case by (auto simp: matched_def subjectLen_def)
next
  case (Suc f)
  obtain re' more where s: "SearchAgain exec re False = Some (re', more)"
    using SearchAgain_defined [OF Suc(2)] by blast
  show ?case
  proof (cases more)
    case True
    then have "SearchAgain exec re False = Some (re', True)" using s by simp
    note again = SearchAgain_matched [OF assms(1) Suc(2) this] SearchAgain_progress [OF assms(1,2) Suc(2) this]
    have "\<exists>k. again_loop exec f re' = Some k" by (rule Suc(1)) (use again Suc(3) in auto)
    then show ?thesis using s True by (subst again_loop.simps) auto
  qed (use s in \<open>subst again_loop.simps, simp\<close>)
qed

text \<open>The search for the character \<^verbatim>\<open>b\<close>: a function with the documented behaviour.\<close>

fun find_from :: "char \<Rightarrow> string \<Rightarrow> nat \<Rightarrow> nat option" where
  "find_from c [] i = None"
| "find_from c (x # xs) i = (if x = c then Some i else find_from c xs (Suc i))"

definition exec_char :: "char \<Rightarrow> pcre_exec" where
  "exec_char c s start anchored vec =
     (case find_from c (drop (nat start) s) (nat start) of
        None \<Rightarrow> (-1, vec)
      | Some i \<Rightarrow> if anchored \<and> int i \<noteq> start then (-1, vec) else (1, vec[0 := int i, 1 := int i + 1]))"

lemma find_from_bounds: "find_from c xs i = Some j \<Longrightarrow> i \<le> j \<and> j < i + length xs"
  by (induction xs arbitrary: i) (fastforce split: if_splits)+

lemma exec_char_cases:
  assumes "0 \<le> start" and "start \<le> int (length s)"
  shows "exec_char c s start anchored vec = (-1, vec) \<or>
      (\<exists>j. exec_char c s start anchored vec = (1, vec[0 := int j, 1 := int j + 1]) \<and> start \<le> int j \<and> j < length s)"
  using find_from_bounds [of c "drop (nat start) s" "nat start"] assms
  by (fastforce simp: exec_char_def split: option.splits)

lemma exec_char_law: "pcre_law 1 (exec_char c)"
  unfolding pcre_law_def
proof (intro allI impI, goal_cases)
  case (1 s start anchored vec)
  then show ?case using exec_char_cases [of start s c anchored vec] by (auto simp: pair_ok_def)
qed

lemma exec_char_no_empty: "no_empty_match 1 (exec_char c)"
  unfolding no_empty_match_def
proof (intro allI impI, goal_cases)
  case (1 s start anchored vec)
  then show ?case using exec_char_cases [of start s c anchored vec] by auto
qed

theorem regex_again_terminates_witness: "\<exists>k. again_loop (exec_char CHR ''b'') 4 sample_regex = Some k"
  by (rule regex_again_terminates [OF exec_char_law exec_char_no_empty sample_regex_matched])
    (simp add: sample_regex_def)

text \<open>A match of the empty string before the end of the subject is found again for ever: the
  test against an endless loop only looks at the end of the subject. The hypothesis says
  that the pattern matches the empty string where the last match ended.\<close>

theorem regex_again_endless:
  assumes "matched n re" and "ovector re ! 1 < subjectLen re"
    and "\<And>vec. length vec = 3 * n \<Longrightarrow> \<exists>rc vec'. exec (subjectStr re) (ovector re ! 1) False vec = (rc, vec')
           \<and> 0 < rc \<and> vec' ! 1 = ovector re ! 1 \<and> length vec' = 3 * n"
  shows "again_loop exec fuel re = None"
proof -
  have "again_loop exec fuel re' = None"
    if "subjectStr re' = subjectStr re" "ovector re' ! 1 = ovector re ! 1" "length (ovector re') = 3 * n" for re'
    using that
  proof (induction fuel arbitrary: re')
    case (Suc f)
    obtain rc vec' where e: "exec (subjectStr re) (ovector re ! 1) False (ovector re') = (rc, vec')"
      "0 < rc" "vec' ! 1 = ovector re ! 1" "length vec' = 3 * n" using assms(3) Suc(4) by blast
    have "0 < n" using assms(1) by (simp add: matched_def)
    then have "ov re' 1 = Some (ovector re ! 1)" using Suc(3,4) by (simp add: ov_def)
    then have "SearchAgain exec re' False
        = Some (re'\<lparr>lastStart := ovector re ! 1, lastMatches := rc, ovector := vec'\<rparr>, True)"
      using e assms(2) Suc(2) by (simp add: SearchAgain_def subjectLen_def)
    then show ?case using Suc(1) [of "re'\<lparr>lastStart := ovector re ! 1, lastMatches := rc, ovector := vec'\<rparr>"] Suc(2) e
      by (subst again_loop.simps) simp
  qed (subst again_loop.simps, simp)
  then show ?thesis using assms(1) by (simp add: matched_def)
qed

text \<open>\<^verbatim>\<open>x*\<close> on a subject without an \<open>x\<close>: it matches the empty string where it starts.\<close>

definition exec_star :: pcre_exec where
  "exec_star s start anchored vec = (1, vec[0 := start, 1 := start])"

theorem regex_again_endless_witness:
  "again_loop exec_star 1000 \<lparr>substrcount = 1, subjectStr = ''ab'', lastStart = 0, lastMatches = 1, ovector = [0, 0, 0]\<rparr> = None"
  by (rule regex_again_endless [where n = 1])
    (auto simp: matched_def subjectLen_def pair_ok_def exec_star_def)

text \<open>C1. \<open>Quotemeta\<close> keeps the literal: taking the backslashes away again gives it back, and every
  character that is not alphanumeric is preceded by a backslash of its own.\<close>

fun unquote :: "string \<Rightarrow> string option" where
  "unquote [] = Some []"
| "unquote (c # s) =
     (if isalnum c then map_option ((#) c) (unquote s)
      else if c = BACKSLASH then
        (case s of d # s' \<Rightarrow> if isalnum d then None else map_option ((#) d) (unquote s') | [] \<Rightarrow> None)
      else None)"

theorem quotemeta_unquote: "unquote (Quotemeta s) = Some s"
proof (induction s)
  case (Cons c s)
  have "\<not> isalnum BACKSLASH" by code_simp
  then show ?case using Cons by simp
qed simp

end
