(* ===== verification/NetMd5Codec.thy ===== *)
theory NetMd5Codec
  imports UtlString
begin

text \<open>
  The MD5 digest (\<^verbatim>\<open>sipXtackLib/src/net/NetMd5Codec.cpp\<close>): the block transformation, the
  streaming context that \<open>MD5Init\<close>, \<open>MD5Update\<close> and \<open>MD5Final\<close> work on, and the class
  around them. Bytes are 8-bit words, \<open>UINT4\<close> is a 32-bit word. An input block is the list
  of its bytes, so that \<open>inputLen\<close> is its length. The buffer of a new context is not
  initialised; its contents are a parameter of \<open>MD5Init\<close>. A string output is the list of
  its characters (theory \<open>UtlString\<close> shows what the string operations do). A failed
  \<^verbatim>\<open>assert\<close> is \<open>None\<close>.

  The reference is \<open>md5\<close>: pad the whole message, cut it into blocks of 64 bytes, fold the
  transformation over them. The main result is that feeding a message in any pieces gives
  the digest of the whole.
\<close>

section \<open>The transformation of a block\<close>

type_synonym byte = "8 word"
type_synonym md5_state = "32 word \<times> 32 word \<times> 32 word \<times> 32 word"

definition S11 :: nat where "S11 = 7"
definition S12 :: nat where "S12 = 12"
definition S13 :: nat where "S13 = 17"
definition S14 :: nat where "S14 = 22"
definition S21 :: nat where "S21 = 5"
definition S22 :: nat where "S22 = 9"
definition S23 :: nat where "S23 = 14"
definition S24 :: nat where "S24 = 20"
definition S31 :: nat where "S31 = 4"
definition S32 :: nat where "S32 = 11"
definition S33 :: nat where "S33 = 16"
definition S34 :: nat where "S34 = 23"
definition S41 :: nat where "S41 = 6"
definition S42 :: nat where "S42 = 10"
definition S43 :: nat where "S43 = 15"
definition S44 :: nat where "S44 = 21"

lemmas shifts = S11_def S12_def S13_def S14_def S21_def S22_def S23_def S24_def S31_def S32_def S33_def S34_def S41_def S42_def S43_def S44_def

definition MD5_F :: "32 word \<Rightarrow> 32 word \<Rightarrow> 32 word \<Rightarrow> 32 word" where
  "MD5_F x y z = ((x AND y) OR (NOT x AND z))"

definition MD5_G :: "32 word \<Rightarrow> 32 word \<Rightarrow> 32 word \<Rightarrow> 32 word" where
  "MD5_G x y z = ((x AND z) OR (y AND NOT z))"

definition MD5_H :: "32 word \<Rightarrow> 32 word \<Rightarrow> 32 word \<Rightarrow> 32 word" where
  "MD5_H x y z = (x XOR y XOR z)"

definition MD5_I :: "32 word \<Rightarrow> 32 word \<Rightarrow> 32 word \<Rightarrow> 32 word" where
  "MD5_I x y z = (y XOR (x OR NOT z))"

definition ROTATE_LEFT :: "32 word \<Rightarrow> nat \<Rightarrow> 32 word" where
  "ROTATE_LEFT x n = (push_bit n x OR drop_bit (32 - n) x)"

text \<open>The four step macros assign to their first argument.\<close>

definition FF :: "32 word \<Rightarrow> 32 word \<Rightarrow> 32 word \<Rightarrow> 32 word \<Rightarrow> 32 word \<Rightarrow> nat \<Rightarrow> 32 word \<Rightarrow> 32 word" where
  "FF a b c d x s ac = ROTATE_LEFT (a + (MD5_F b c d + x + ac)) s + b"

definition GG :: "32 word \<Rightarrow> 32 word \<Rightarrow> 32 word \<Rightarrow> 32 word \<Rightarrow> 32 word \<Rightarrow> nat \<Rightarrow> 32 word \<Rightarrow> 32 word" where
  "GG a b c d x s ac = ROTATE_LEFT (a + (MD5_G b c d + x + ac)) s + b"

definition HH :: "32 word \<Rightarrow> 32 word \<Rightarrow> 32 word \<Rightarrow> 32 word \<Rightarrow> 32 word \<Rightarrow> nat \<Rightarrow> 32 word \<Rightarrow> 32 word" where
  "HH a b c d x s ac = ROTATE_LEFT (a + (MD5_H b c d + x + ac)) s + b"

definition II :: "32 word \<Rightarrow> 32 word \<Rightarrow> 32 word \<Rightarrow> 32 word \<Rightarrow> 32 word \<Rightarrow> nat \<Rightarrow> 32 word \<Rightarrow> 32 word" where
  "II a b c d x s ac = ROTATE_LEFT (a + (MD5_I b c d + x + ac)) s + b"

fun Decode :: "byte list \<Rightarrow> 32 word list" where
  "Decode (b0 # b1 # b2 # b3 # input) =
     (ucast b0 OR push_bit 8 (ucast b1) OR push_bit 16 (ucast b2) OR push_bit 24 (ucast b3)) # Decode input"
| "Decode _ = []"

fun Encode :: "32 word list \<Rightarrow> byte list" where
  "Encode [] = []"
| "Encode (w # input) =
     ucast (w AND 0xff) # ucast (drop_bit 8 w AND 0xff) # ucast (drop_bit 16 w AND 0xff)
     # ucast (drop_bit 24 w AND 0xff) # Encode input"

definition round1 :: "32 word list \<Rightarrow> md5_state \<Rightarrow> md5_state" where
  "round1 x = (\<lambda>(a, b, c, d).
     let a = FF a b c d (x ! 0) S11 0xd76aa478;
         d = FF d a b c (x ! 1) S12 0xe8c7b756;
         c = FF c d a b (x ! 2) S13 0x242070db;
         b = FF b c d a (x ! 3) S14 0xc1bdceee;
         a = FF a b c d (x ! 4) S11 0xf57c0faf;
         d = FF d a b c (x ! 5) S12 0x4787c62a;
         c = FF c d a b (x ! 6) S13 0xa8304613;
         b = FF b c d a (x ! 7) S14 0xfd469501;
         a = FF a b c d (x ! 8) S11 0x698098d8;
         d = FF d a b c (x ! 9) S12 0x8b44f7af;
         c = FF c d a b (x ! 10) S13 0xffff5bb1;
         b = FF b c d a (x ! 11) S14 0x895cd7be;
         a = FF a b c d (x ! 12) S11 0x6b901122;
         d = FF d a b c (x ! 13) S12 0xfd987193;
         c = FF c d a b (x ! 14) S13 0xa679438e;
         b = FF b c d a (x ! 15) S14 0x49b40821
     in (a, b, c, d))"

definition round2 :: "32 word list \<Rightarrow> md5_state \<Rightarrow> md5_state" where
  "round2 x = (\<lambda>(a, b, c, d).
     let a = GG a b c d (x ! 1) S21 0xf61e2562;
         d = GG d a b c (x ! 6) S22 0xc040b340;
         c = GG c d a b (x ! 11) S23 0x265e5a51;
         b = GG b c d a (x ! 0) S24 0xe9b6c7aa;
         a = GG a b c d (x ! 5) S21 0xd62f105d;
         d = GG d a b c (x ! 10) S22 0x2441453;
         c = GG c d a b (x ! 15) S23 0xd8a1e681;
         b = GG b c d a (x ! 4) S24 0xe7d3fbc8;
         a = GG a b c d (x ! 9) S21 0x21e1cde6;
         d = GG d a b c (x ! 14) S22 0xc33707d6;
         c = GG c d a b (x ! 3) S23 0xf4d50d87;
         b = GG b c d a (x ! 8) S24 0x455a14ed;
         a = GG a b c d (x ! 13) S21 0xa9e3e905;
         d = GG d a b c (x ! 2) S22 0xfcefa3f8;
         c = GG c d a b (x ! 7) S23 0x676f02d9;
         b = GG b c d a (x ! 12) S24 0x8d2a4c8a
     in (a, b, c, d))"

definition round3 :: "32 word list \<Rightarrow> md5_state \<Rightarrow> md5_state" where
  "round3 x = (\<lambda>(a, b, c, d).
     let a = HH a b c d (x ! 5) S31 0xfffa3942;
         d = HH d a b c (x ! 8) S32 0x8771f681;
         c = HH c d a b (x ! 11) S33 0x6d9d6122;
         b = HH b c d a (x ! 14) S34 0xfde5380c;
         a = HH a b c d (x ! 1) S31 0xa4beea44;
         d = HH d a b c (x ! 4) S32 0x4bdecfa9;
         c = HH c d a b (x ! 7) S33 0xf6bb4b60;
         b = HH b c d a (x ! 10) S34 0xbebfbc70;
         a = HH a b c d (x ! 13) S31 0x289b7ec6;
         d = HH d a b c (x ! 0) S32 0xeaa127fa;
         c = HH c d a b (x ! 3) S33 0xd4ef3085;
         b = HH b c d a (x ! 6) S34 0x4881d05;
         a = HH a b c d (x ! 9) S31 0xd9d4d039;
         d = HH d a b c (x ! 12) S32 0xe6db99e5;
         c = HH c d a b (x ! 15) S33 0x1fa27cf8;
         b = HH b c d a (x ! 2) S34 0xc4ac5665
     in (a, b, c, d))"

definition round4 :: "32 word list \<Rightarrow> md5_state \<Rightarrow> md5_state" where
  "round4 x = (\<lambda>(a, b, c, d).
     let a = II a b c d (x ! 0) S41 0xf4292244;
         d = II d a b c (x ! 7) S42 0x432aff97;
         c = II c d a b (x ! 14) S43 0xab9423a7;
         b = II b c d a (x ! 5) S44 0xfc93a039;
         a = II a b c d (x ! 12) S41 0x655b59c3;
         d = II d a b c (x ! 3) S42 0x8f0ccc92;
         c = II c d a b (x ! 10) S43 0xffeff47d;
         b = II b c d a (x ! 1) S44 0x85845dd1;
         a = II a b c d (x ! 8) S41 0x6fa87e4f;
         d = II d a b c (x ! 15) S42 0xfe2ce6e0;
         c = II c d a b (x ! 6) S43 0xa3014314;
         b = II b c d a (x ! 13) S44 0x4e0811a1;
         a = II a b c d (x ! 4) S41 0xf7537e82;
         d = II d a b c (x ! 11) S42 0xbd3af235;
         c = II c d a b (x ! 2) S43 0x2ad7d2bb;
         b = II b c d a (x ! 9) S44 0xeb86d391
     in (a, b, c, d))"

definition MD5Transform :: "md5_state \<Rightarrow> byte list \<Rightarrow> md5_state" where
  "MD5Transform = (\<lambda>(s0, s1, s2, s3) block.
     let x = Decode block;
         (a, b, c, d) = round4 x (round3 x (round2 x (round1 x (s0, s1, s2, s3))))
     in (s0 + a, s1 + b, s2 + c, s3 + d))"

section \<open>The streaming context\<close>

record MD5_CTX =
  mstate :: md5_state
  count0 :: "32 word"
  count1 :: "32 word"
  buffer :: "byte list"

definition MD5_IV :: md5_state where
  "MD5_IV = (0x67452301, 0xefcdab89, 0x98badcfe, 0x10325476)"

definition MD5Init :: "byte list \<Rightarrow> MD5_CTX" where
  "MD5Init garbage = \<lparr>mstate = MD5_IV, count0 = 0, count1 = 0, buffer = garbage\<rparr>"

text \<open>\<open>MD5_memcpy\<close> into the buffer, from \<open>index\<close> on.\<close>

definition overwrite :: "byte list \<Rightarrow> nat \<Rightarrow> byte list \<Rightarrow> byte list" where
  "overwrite buf index bs = take index buf @ bs @ drop (index + length bs) buf"

function transform_loop :: "md5_state \<Rightarrow> byte list \<Rightarrow> nat \<Rightarrow> md5_state \<times> nat" where
  "transform_loop st input i =
     (if i + 63 < length input then transform_loop (MD5Transform st (take 64 (drop i input))) input (i + 64)
      else (st, i))"
  by pat_completeness auto
termination by (relation "measure (\<lambda>(st, input, i). length input - i)") auto

declare transform_loop.simps [simp del]

definition MD5Update :: "MD5_CTX \<Rightarrow> byte list \<Rightarrow> MD5_CTX" where
  "MD5Update context input =
     (let inputLen = length input;
          index = unat (drop_bit 3 (count0 context) AND 0x3F);
          bits = push_bit 3 (word_of_nat inputLen);
          c0 = count0 context + bits;
          c1 = (if c0 < bits then count1 context + 1 else count1 context) + drop_bit 29 (word_of_nat inputLen);
          partLen = 64 - index
      in if partLen \<le> inputLen then
           let buf = overwrite (buffer context) index (take partLen input);
               st = MD5Transform (mstate context) buf;
               (st, i) = transform_loop st input partLen
           in \<lparr>mstate = st, count0 = c0, count1 = c1, buffer = overwrite buf 0 (drop i input)\<rparr>
         else context\<lparr>count0 := c0, count1 := c1, buffer := overwrite (buffer context) index input\<rparr>)"

definition PADDING :: "byte list" where
  "PADDING = 0x80 # replicate 63 0"

text \<open>The digest, and the context after it was overwritten with zeros.\<close>

definition MD5Final :: "MD5_CTX \<Rightarrow> byte list \<times> MD5_CTX" where
  "MD5Final context =
     (let bits = Encode [count0 context, count1 context];
          index = unat (drop_bit 3 (count0 context) AND 0x3f);
          padLen = (if index < 56 then 56 - index else 120 - index);
          c1 = MD5Update context (take padLen PADDING);
          c2 = MD5Update c1 bits;
          (s0, s1, s2, s3) = mstate c2
      in (Encode [s0, s1, s2, s3],
          \<lparr>mstate = (0, 0, 0, 0), count0 = 0, count1 = 0, buffer = replicate 64 0\<rparr>))"

section \<open>The class\<close>

record md5_codec =
  mContext :: MD5_CTX
  mDigest :: "byte list"
  mFinalized :: bool

definition NetMd5Codec_new :: "byte list \<Rightarrow> md5_codec" where
  "NetMd5Codec_new garbage = \<lparr>mContext = MD5Init garbage, mDigest = replicate 16 0, mFinalized = False\<rparr>"

definition md5_hash :: "md5_codec \<Rightarrow> byte list \<Rightarrow> md5_codec option" where
  "md5_hash c input =
     (if \<not> mFinalized c then Some (c\<lparr>mContext := MD5Update (mContext c) input\<rparr>) else None)"

text \<open>\<^verbatim>\<open>sprintf("%02x")\<close> of a byte.\<close>

definition hex_digit :: "nat \<Rightarrow> char" where
  "hex_digit n = ''0123456789abcdef'' ! n"

definition hex_byte :: "byte \<Rightarrow> string" where
  "hex_byte b = [hex_digit (unat b div 16), hex_digit (unat b mod 16)]"

definition appendHashValue :: "md5_codec \<Rightarrow> string \<Rightarrow> (md5_codec \<times> string) option" where
  "appendHashValue c output =
     (if \<not> mFinalized c then
        let (digest, context) = MD5Final (mContext c) in
        Some (c\<lparr>mFinalized := True, mDigest := digest, mContext := context\<rparr>, output @ concat (map hex_byte digest))
      else None)"

text \<open>The bytes of a C string.\<close>

definition bytes_of :: "string \<Rightarrow> byte list" where
  "bytes_of s = map (\<lambda>c. word_of_nat (of_char c)) s"

definition md5_encode :: "byte list \<Rightarrow> string \<Rightarrow> string" where
  "md5_encode garbage text =
     (let (digest, _) = MD5Final (MD5Update (MD5Init garbage) (bytes_of text)) in concat (map hex_byte digest))"

section \<open>The reference\<close>

text \<open>Fold the transformation over the whole blocks of 64 bytes; a rest is left out.\<close>

function md5_blocks :: "md5_state \<Rightarrow> byte list \<Rightarrow> md5_state" where
  "md5_blocks st m = (if length m < 64 then st else md5_blocks (MD5Transform st (take 64 m)) (drop 64 m))"
  by pat_completeness auto
termination by (relation "measure (\<lambda>(st, m). length m)") auto

declare md5_blocks.simps [simp del]

text \<open>The padding: a one bit, zeros up to 56 modulo 64 bytes, and the length in bits,
  modulo \<open>2 ^ 64\<close>, least significant byte first.\<close>

definition md5_pad :: "nat \<Rightarrow> byte list" where
  "md5_pad n = 0x80 # replicate ((119 - n mod 64) mod 64) 0 @ Encode [word_of_nat (8 * n), word_of_nat (8 * n div 2 ^ 32)]"

definition md5 :: "byte list \<Rightarrow> byte list" where
  "md5 m = (let (a, b, c, d) = md5_blocks MD5_IV (m @ md5_pad (length m)) in Encode [a, b, c, d])"

section \<open>Streaming\<close>

lemma md5_blocks_append:
  "64 dvd length a \<Longrightarrow> md5_blocks st (a @ b) = md5_blocks (md5_blocks st a) b"
proof (induction st a rule: md5_blocks.induct)
  case (1 st a)
  show ?case
  proof (cases "length a < 64")
    case True
    then have "a = []" using 1(2) nat_dvd_not_less [of "length a" 64] by fastforce
    then show ?thesis by (simp add: md5_blocks.simps [of st "[]"])
  next
    case False
    moreover have "64 dvd length (drop 64 a)" using 1(2) by (simp add: dvd_diff_nat)
    ultimately show ?thesis
      using 1(1) by (simp add: md5_blocks.simps [of st "a @ b"] md5_blocks.simps [of st a])
  qed
qed

lemma md5_blocks_short [simp]: "length m < 64 \<Longrightarrow> md5_blocks st m = st"
  by (simp add: md5_blocks.simps)

text \<open>A message ends in a rest that is shorter than a block.\<close>

definition whole :: "byte list \<Rightarrow> byte list" where
  "whole m = take (64 * (length m div 64)) m"

definition rest :: "byte list \<Rightarrow> byte list" where
  "rest m = drop (64 * (length m div 64)) m"

lemma whole_rest: "m = whole m @ rest m" "64 dvd length (whole m)" "length (rest m) = length m mod 64"
  "length (rest m) < 64"
  by (simp_all add: whole_def rest_def minus_div_mult_eq_mod [symmetric] mult.commute min_absorb2)

lemma md5_blocks_whole: "md5_blocks st (m @ x) = md5_blocks (md5_blocks st m) (rest m @ x)"
proof -
  have "md5_blocks st (m @ x) = md5_blocks st (whole m @ rest m @ x)"
    using whole_rest(1) [of m] by (metis append_assoc)
  moreover have "md5_blocks st m = md5_blocks st (whole m @ rest m)" using whole_rest(1) [of m] by simp
  ultimately show ?thesis using whole_rest(2,4) [of m] by (simp add: md5_blocks_append)
qed

lemma transform_loop_ok:
  "i \<le> length input \<Longrightarrow>
     transform_loop st input i = (md5_blocks st (drop i input), i + 64 * ((length input - i) div 64))"
proof (induction st input i rule: transform_loop.induct)
  case (1 st input i)
  show ?case
  proof (cases "i + 63 < length input")
    case True
    then have "(length input - i) div 64 = Suc ((length input - (i + 64)) div 64)"
      using le_div_geq [of 64 "length input - i"] by simp
    then show ?thesis
      using 1 True by (subst transform_loop.simps) (simp add: md5_blocks.simps [of st "drop i input"] add.commute, linarith)
  next
    case False
    then show ?thesis by (subst transform_loop.simps) simp
  qed
qed

text \<open>The context that stands for the bytes of a message fed so far.\<close>

definition ctx_ok :: "MD5_CTX \<Rightarrow> byte list \<Rightarrow> bool" where
  "ctx_ok c m \<longleftrightarrow> mstate c = md5_blocks MD5_IV m \<and> length (buffer c) = 64 \<and>
     take (length m mod 64) (buffer c) = rest m \<and>
     unat (count1 c) * 2 ^ 32 + unat (count0 c) = 8 * length m mod 2 ^ 64"

lemma bytes_mod_64: "(8 * n mod 2 ^ 32) div 8 mod 64 = n mod (64 :: nat)"
proof -
  have "8 * n mod 2 ^ 32 = 8 * (n mod 2 ^ 29)" using mult_mod_right [of 8 n "2 ^ 29"] by simp
  then show ?thesis by (simp add: mod_mod_cancel)
qed

lemma ctx_index:
  assumes "ctx_ok c m"
  shows "unat (drop_bit 3 (count0 c) AND 0x3F) = length m mod 64"
proof -
  have "unat (count0 c) = 8 * length m mod 2 ^ 32"
  proof -
    have "unat (count0 c) = (unat (count1 c) * 2 ^ 32 + unat (count0 c)) mod 2 ^ 32"
      using unsigned_less [of "count0 c", where ?'a = nat] by simp
    also have "\<dots> = 8 * length m mod 2 ^ 32" using assms by (simp add: ctx_ok_def mod_mod_cancel)
    finally show ?thesis .
  qed
  moreover have "drop_bit 3 (count0 c) AND 0x3F = take_bit 6 (drop_bit 3 (count0 c))"
    by (simp add: take_bit_eq_mask mask_eq_exp_minus_1)
  ultimately have "unat (drop_bit 3 (count0 c) AND 0x3F) = (8 * length m mod 2 ^ 32) div 8 mod 64"
    by (simp add: take_bit_eq_mod drop_bit_eq_div unat_div unat_mod)
  also have "\<dots> = length m mod 64" by (rule bytes_mod_64)
  finally show ?thesis .
qed

text \<open>The bit count is a 64-bit addition in two halves.\<close>

lemma two_halves:
  fixes M :: nat
  assumes "0 < M"
  shows "((c + (a + x mod M) div M + x div M) mod M) * M + (a + x mod M) mod M = (c * M + a + x) mod (M * M)"
proof -
  have x: "a + x = (a + x mod M) + M * (x div M)" by simp
  have "((a + x mod M) + M * (x div M)) div M = x div M + (a + x mod M) div M"
    using assms by (intro div_mult_self2) simp
  then have "(a + x) div M = (a + x mod M) div M + x div M" by (simp only: x [symmetric] add.commute)
  then have "(c * M + a + x) div M = c + (a + x mod M) div M + x div M" using assms by (simp add: add.assoc)
  moreover have "(c * M + a + x) mod M = (a + x mod M) mod M" by (simp add: add.assoc mod_simps)
  ultimately show ?thesis by (simp add: mod_mult2_eq)
qed

lemma carry_iff:
  fixes M :: nat
  assumes "a < M" and "x < M"
  shows "(a + x) mod M < x \<longleftrightarrow> (a + x) div M = 1" and "(a + x) div M = 0 \<or> (a + x) div M = 1"
proof (atomize (full), cases "a + x < M")
  case False
  then have "(a + x) div M = 1" "(a + x) mod M = a + x - M"
    using assms by (simp_all add: le_div_geq le_mod_geq)
  then show "((a + x) mod M < x \<longleftrightarrow> (a + x) div M = 1) \<and> ((a + x) div M = 0 \<or> (a + x) div M = 1)"
    using assms False by auto
qed simp

lemma count_add:
  fixes c0 c1 :: "32 word"
  assumes "n < 2 ^ 32"
  defines "b \<equiv> push_bit 3 (word_of_nat n) :: 32 word"
  defines "d1 \<equiv> (if c0 + b < b then c1 + 1 else c1) + drop_bit 29 (word_of_nat n)"
  shows "unat d1 * 2 ^ 32 + unat (c0 + b) = (unat c1 * 2 ^ 32 + unat c0 + 8 * n) mod 2 ^ 64"
proof -
  have n: "unat (word_of_nat n :: 32 word) = n" using assms(1) by (simp add: unsigned_of_nat take_bit_nat_eq_self)
  have b: "unat b = 8 * n mod 2 ^ 32"
    unfolding b_def by (simp add: push_bit_eq_mult unat_word_ariths n mult.commute)
  have h: "unat (drop_bit 29 (word_of_nat n :: 32 word)) = 8 * n div 2 ^ 32"
    by (simp add: drop_bit_eq_div unat_div n)
  have s: "unat (c0 + b) = (unat c0 + 8 * n mod 2 ^ 32) mod 2 ^ 32" by (simp add: unat_word_ariths b)
  have l0: "unat c0 < 2 ^ 32" and l1: "unat c1 < 2 ^ 32"
    using unsigned_less [of c0, where ?'a = nat] unsigned_less [of c1, where ?'a = nat] by simp_all
  let ?k = "(unat c0 + 8 * n mod 2 ^ 32) div 2 ^ 32"
  have carry: "c0 + b < b \<longleftrightarrow> ?k = 1" and k: "?k = 0 \<or> ?k = 1"
    unfolding word_less_nat_alt s b using l0 carry_iff [of "unat c0" "2 ^ 32" "8 * n mod 2 ^ 32"] by auto
  have d1: "unat d1 = (unat c1 + ?k + 8 * n div 2 ^ 32) mod 2 ^ 32"
    unfolding d1_def using k by (auto simp: carry unat_word_ariths h mod_simps)
  show ?thesis unfolding d1 s using two_halves [of "2 ^ 32" "unat c1" "unat c0" "8 * n"] by simp
qed

text \<open>
  Feeding the next piece: the buffer is filled up and transformed, then the whole blocks of
  the piece, and what is left is buffered.
\<close>

lemma md5_blocks_step: "length a = 64 \<Longrightarrow> md5_blocks st (a @ b) = md5_blocks (MD5Transform st a) b"
  by (subst md5_blocks.simps) simp

lemma length_overwrite: "k + length x \<le> length b \<Longrightarrow> length (overwrite b k x) = length b"
  by (simp add: overwrite_def)

lemma drop_past: "drop (length m + z) (m @ x) = drop z x"
  by simp

lemma fill_arith:
  fixes n l :: nat
  assumes "64 - n mod 64 \<le> l"
  shows "64 * ((n + l) div 64) = n + ((64 - n mod 64) + 64 * ((l - (64 - n mod 64)) div 64))"
proof -
  define q r where "q = n div 64" and "r = n mod 64"
  then have n: "n = 64 * q + r" "r < 64" by simp_all
  obtain y where l: "l = (64 - r) + y" using assms le_Suc_ex r_def by blast
  have "n + l = 64 * Suc q + y" using n l by simp
  then have "(n + l) div 64 = Suc q + y div 64" by simp
  moreover have "l - (64 - r) = y" using l by simp
  ultimately have "64 * ((n + l) div 64) = n + ((64 - r) + 64 * ((l - (64 - r)) div 64))" using n by simp
  then show ?thesis by (simp only: r_def)
qed

lemma short_arith:
  fixes n l :: nat
  assumes "n mod 64 + l < 64"
  shows "(n + l) div 64 = n div 64" and "(n + l) mod 64 = n mod 64 + l"
proof -
  have l: "l < 64" using assms by simp
  show "(n + l) div 64 = n div 64" using assms l by (simp add: div_add1_eq [of n l 64])
  show "(n + l) mod 64 = n mod 64 + l" using assms l mod_add_eq [of n 64 l] by simp
qed

lemma rest_append_fill:
  assumes "64 - length m mod 64 \<le> length x"
  defines "p \<equiv> 64 - length m mod 64"
  shows "md5_blocks st (m @ x) = md5_blocks (MD5Transform (md5_blocks st m) (rest m @ take p x)) (drop p x)"
    and "rest (m @ x) = drop (p + 64 * ((length x - p) div 64)) x"
proof -
  have p: "length m mod 64 < 64" "p \<le> length x" "length (rest m) = length m mod 64" "length (rest m) + p = 64"
    using assms whole_rest(3) [of m] by (auto simp: less_imp_le)
  then have x: "rest m @ x = (rest m @ take p x) @ drop p x" by simp
  have "length (rest m @ take p x) = 64" using p by simp
  then show "md5_blocks st (m @ x) = md5_blocks (MD5Transform (md5_blocks st m) (rest m @ take p x)) (drop p x)"
    by (subst md5_blocks_whole, subst x, intro md5_blocks_step)
  show "rest (m @ x) = drop (p + 64 * ((length x - p) div 64)) x"
    by (simp only: rest_def length_append fill_arith [OF assms(1)] drop_past p_def)
qed

lemma rest_append_short:
  assumes "length m mod 64 + length x < 64"
  shows "md5_blocks st (m @ x) = md5_blocks st m" and "rest (m @ x) = rest m @ x"
    and "(length m + length x) mod 64 = length m mod 64 + length x"
proof -
  show "md5_blocks st (m @ x) = md5_blocks st m"
    by (subst md5_blocks_whole, rule md5_blocks_short) (simp add: whole_rest(3) assms)
  show "rest (m @ x) = rest m @ x" by (simp add: rest_def short_arith [OF assms])
  show "(length m + length x) mod 64 = length m mod 64 + length x" by (rule short_arith [OF assms])
qed

lemma MD5Update_ok:
  assumes c: "ctx_ok c m" and n: "length x < 2 ^ 32"
  shows "ctx_ok (MD5Update c x) (m @ x)"
proof -
  let ?k = "length m mod 64"
  let ?b = "push_bit 3 (word_of_nat (length x)) :: 32 word"
  let ?c1 = "(if count0 c + ?b < ?b then count1 c + 1 else count1 c) + drop_bit 29 (word_of_nat (length x))"
  have cnt: "unat ?c1 * 2 ^ 32 + unat (count0 c + ?b) = 8 * length (m @ x) mod 2 ^ 64"
  proof -
    have "unat ?c1 * 2 ^ 32 + unat (count0 c + ?b) = (unat (count1 c) * 2 ^ 32 + unat (count0 c) + 8 * length x) mod 2 ^ 64"
      by (rule count_add [OF n])
    also have "\<dots> = (8 * length m mod 2 ^ 64 + 8 * length x) mod 2 ^ 64" using c by (simp only: ctx_ok_def)
    finally show ?thesis by (simp only: mod_add_left_eq length_append distrib_left)
  qed
  have st: "mstate c = md5_blocks MD5_IV m" and len: "length (buffer c) = 64" and buf: "take ?k (buffer c) = rest m"
    using c by (auto simp: ctx_ok_def)
  note idx = ctx_index [OF c]
  have ok: "ctx_ok \<lparr>mstate = md5_blocks MD5_IV (m @ x), count0 = count0 c + ?b, count1 = ?c1, buffer = bf\<rparr> (m @ x)"
    if "length bf = 64" "take (length (m @ x) mod 64) bf = rest (m @ x)" for bf
    unfolding ctx_ok_def MD5_CTX.simps using that cnt by blast
  show ?thesis
  proof (cases "64 - ?k \<le> length x")
    case True
    let ?full = "rest m @ take (64 - ?k) x"
    have full: "overwrite (buffer c) ?k (take (64 - ?k) x) = ?full"
      using True len by (simp add: overwrite_def buf)
    note fill = rest_append_fill [OF True]
    have len64: "length ?full = 64" using whole_rest(3) [of m] True by simp
    have upd: "MD5Update c x = \<lparr>mstate = md5_blocks MD5_IV (m @ x), count0 = count0 c + ?b, count1 = ?c1,
        buffer = overwrite ?full 0 (rest (m @ x))\<rparr>"
      by (simp only: MD5Update_def Let_def idx True if_True full st transform_loop_ok [OF True] prod.case fill)
    show ?thesis
      unfolding upd
    proof (rule ok)
      show "length (overwrite ?full 0 (rest (m @ x))) = 64"
        using len64 whole_rest(4) [of "m @ x"] length_overwrite [of 0 "rest (m @ x)" ?full] by linarith
      show "take (length (m @ x) mod 64) (overwrite ?full 0 (rest (m @ x))) = rest (m @ x)"
        using whole_rest(3) [of "m @ x"] by (simp add: overwrite_def)
    qed
  next
    case False
    then have s: "?k + length x < 64" by simp
    note short = rest_append_short [OF s]
    have update: "c\<lparr>count0 := d0, count1 := d1, buffer := bf\<rparr> =
        \<lparr>mstate = mstate c, count0 = d0, count1 = d1, buffer = bf\<rparr>" for d0 d1 bf by (cases c) simp
    have upd: "MD5Update c x = \<lparr>mstate = md5_blocks MD5_IV (m @ x), count0 = count0 c + ?b, count1 = ?c1,
        buffer = overwrite (buffer c) ?k x\<rparr>"
      by (simp only: MD5Update_def Let_def idx False if_False short st update)
    show ?thesis
      unfolding upd
    proof (rule ok)
      show "length (overwrite (buffer c) ?k x) = 64" using s len by (simp add: overwrite_def)
      show "take (length (m @ x) mod 64) (overwrite (buffer c) ?k x) = rest (m @ x)"
        using s len whole_rest(3) [of m] by (simp add: overwrite_def short buf)
    qed
  qed
qed

lemma MD5Init_ok: "length g = 64 \<Longrightarrow> ctx_ok (MD5Init g) []"
  by (simp add: ctx_ok_def MD5Init_def rest_def)

lemma ctx_counts:
  assumes "ctx_ok c m"
  shows "count0 c = word_of_nat (8 * length m)" and "count1 c = word_of_nat (8 * length m div 2 ^ 32)"
proof -
  define M :: nat where "M = 2 ^ 32"
  define X where "X = 8 * length m"
  have l0: "unat (count0 c) < M" and l1: "unat (count1 c) < M"
    using unsigned_less [of "count0 c", where ?'a = nat] unsigned_less [of "count1 c", where ?'a = nat]
    by (simp_all add: M_def)
  have "unat (count1 c) * M + unat (count0 c) = X mod (M * M)" using assms by (simp add: ctx_ok_def M_def X_def)
  then have e: "unat (count1 c) * M + unat (count0 c) = M * (X div M mod M) + X mod M" by (simp only: mod_mult2_eq)
  have "unat (count0 c) = (unat (count1 c) * M + unat (count0 c)) mod M" using l0 by simp
  also have "\<dots> = X mod M" unfolding e by simp
  finally have u0: "unat (count0 c) = X mod M" .
  then have u1: "unat (count1 c) = X div M mod M" using e l0 by (simp add: M_def)
  have w: "v = word_of_nat n" if "unat (v :: 32 word) = n mod M" for v n
    using that by (intro word_unat_eq_iff [THEN iffD2]) (simp add: unsigned_of_nat take_bit_eq_mod M_def)
  show "count0 c = word_of_nat (8 * length m)" using w [OF u0] by (simp add: X_def)
  show "count1 c = word_of_nat (8 * length m div 2 ^ 32)" using w [OF u1] by (simp only: X_def M_def)
qed

lemma padding_ok:
  fixes n :: nat
  defines "k \<equiv> n mod 64"
  shows "take (if k < 56 then 56 - k else 120 - k) PADDING = 0x80 # replicate ((119 - k) mod 64) 0"
proof -
  have k: "k < 64" by (simp add: k_def)
  show ?thesis
  proof (cases "k < 56")
    case True
    then have "(119 - k) mod 64 = 55 - k" "56 - k = Suc (55 - k)" by (simp_all add: le_mod_geq)
    then show ?thesis using True by (simp add: PADDING_def)
  next
    case False
    then have "(119 - k) mod 64 = 119 - k" "120 - k = Suc (119 - k)" using k by simp_all
    then show ?thesis using False by (simp add: PADDING_def)
  qed
qed

lemma length_Encode [simp]: "length (Encode ws) = 4 * length ws"
  by (induction ws) simp_all

lemma MD5Final_ok:
  assumes c: "ctx_ok c m"
  shows "fst (MD5Final c) = md5 m"
proof -
  let ?k = "length m mod 64"
  let ?pad = "0x80 # replicate ((119 - ?k) mod 64) 0 :: byte list"
  let ?bits = "Encode [count0 c, count1 c]"
  have "length ?pad \<le> 64" by simp
  then have "ctx_ok (MD5Update c ?pad) (m @ ?pad)" by (intro MD5Update_ok [OF c]) simp
  then have "ctx_ok (MD5Update (MD5Update c ?pad) ?bits) ((m @ ?pad) @ ?bits)" by (rule MD5Update_ok) simp
  then have st: "mstate (MD5Update (MD5Update c ?pad) ?bits) = md5_blocks MD5_IV (m @ md5_pad (length m))"
    by (simp add: ctx_ok_def md5_pad_def ctx_counts [OF c])
  show ?thesis
    unfolding MD5Final_def Let_def ctx_index [OF c] padding_ok st md5_def by (simp split: prod.split)
qed

lemma length_md5: "length (md5 m) = 16"
  by (simp add: md5_def split: prod.split)

text \<open>Feeding the pieces of a message to a codec, one call of \<open>hash\<close> each.\<close>

fun hash_pieces :: "md5_codec \<Rightarrow> byte list list \<Rightarrow> md5_codec option" where
  "hash_pieces c [] = Some c"
| "hash_pieces c (x # xs) = do { c1 \<leftarrow> md5_hash c x; hash_pieces c1 xs }"

lemma hash_pieces_ok:
  assumes "\<not> mFinalized c" and "ctx_ok (mContext c) m" and "\<forall>x \<in> set xs. length x < 2 ^ 32"
  shows "returns (hash_pieces c xs) (\<lambda>c'. \<not> mFinalized c' \<and> ctx_ok (mContext c') (m @ concat xs))"
  using assms
proof (induction xs arbitrary: c m)
  case (Cons x xs)
  let ?c = "c\<lparr>mContext := MD5Update (mContext c) x\<rparr>"
  have "ctx_ok (mContext ?c) (m @ x)" using Cons.prems by (simp add: MD5Update_ok)
  then show ?case using Cons.IH [of ?c "m @ x"] Cons.prems by (simp add: md5_hash_def)
qed simp

text \<open>The digest of the pieces is that of the whole, and it is printed in 32 digits.\<close>

lemma hash_pieces_digest:
  assumes "length g = 64" and "\<forall>x \<in> set xs. length x < 2 ^ 32"
  shows "returns (do { c \<leftarrow> hash_pieces (NetMd5Codec_new g) xs; appendHashValue c out })
           (\<lambda>(c, s). s = out @ concat (map hex_byte (md5 (concat xs))) \<and> mFinalized c)"
proof (rule returns_bind [OF hash_pieces_ok [of "NetMd5Codec_new g" "[]"]])
  fix c :: md5_codec
  assume c: "\<not> mFinalized c \<and> ctx_ok (mContext c) ([] @ concat xs)"
  then have "fst (MD5Final (mContext c)) = md5 (concat xs)" by (simp add: MD5Final_ok)
  then show "returns (appendHashValue c out)
      (\<lambda>(c, s). s = out @ concat (map hex_byte (md5 (concat xs))) \<and> mFinalized c)"
    using c by (auto simp: appendHashValue_def split: prod.split)
qed (use assms in \<open>auto simp: NetMd5Codec_new_def MD5Init_ok\<close>)

lemma hex_byte_digits: "set (hex_byte b) \<subseteq> set ''0123456789abcdef''"
proof -
  have "unat b < 256" using unsigned_less [of b, where ?'a = nat] by simp
  then have "unat b div 16 < 16" "unat b mod 16 < 16" by auto
  moreover have "hex_digit n \<in> set ''0123456789abcdef''" if "n < 16" for n
    using that unfolding hex_digit_def by (intro nth_mem) simp
  ultimately show ?thesis by (simp add: hex_byte_def)
qed

lemma md5_hex_digits:
  "length (concat (map hex_byte (md5 m))) = 32" "set (concat (map hex_byte (md5 m))) \<subseteq> set ''0123456789abcdef''"
proof -
  have "length (concat (map hex_byte bs)) = 2 * length bs" for bs
    by (induction bs) (simp_all add: hex_byte_def)
  then show "length (concat (map hex_byte (md5 m))) = 32" by (simp only: length_md5)
  show "set (concat (map hex_byte (md5 m))) \<subseteq> set ''0123456789abcdef''"
    using hex_byte_digits by (simp only: set_concat set_map) blast
qed

section \<open>Properties\<close>

text \<open>C37. Streaming MD5: however a message is cut into pieces (each below 4 GB), feeding them to
  \<open>hash\<close> and calling \<open>appendHashValue\<close> appends the hexadecimal form of the MD5 digest of the
  whole message, whatever the uninitialised buffer held.\<close>

theorem md5_streaming:
  assumes "length g = 64" and "\<forall>x \<in> set xs. length x < 2 ^ 32"
  shows "returns (do { c \<leftarrow> hash_pieces (NetMd5Codec_new g) xs; appendHashValue c out })
           (\<lambda>(c, s). s = out @ concat (map hex_byte (md5 (concat xs))) \<and> mFinalized c)"
  using assms by (rule hash_pieces_digest)

theorem md5_streaming_witness:
  "returns (do { c \<leftarrow> hash_pieces (NetMd5Codec_new (replicate 64 0)) [[97], [], [98, 99]]; appendHashValue c [] })
     (\<lambda>(c, s). s = concat (map hex_byte (md5 [97, 98, 99])))"
  using md5_streaming [of "replicate 64 0" "[[97], [], [98, 99]]" "[]"] by (auto elim!: returns_mono)

text \<open>\<open>NetMd5Codec::encode\<close> gives 32 lower-case hexadecimal digits, those of the MD5 digest of
  the text.\<close>

theorem md5_encode_ok:
  assumes "length g = 64" and "length text < 2 ^ 32"
  shows "md5_encode g text = concat (map hex_byte (md5 (bytes_of text))) \<and> length (md5_encode g text) = 32
           \<and> set (md5_encode g text) \<subseteq> set ''0123456789abcdef''"
proof -
  have "ctx_ok (MD5Update (MD5Init g) (bytes_of text)) ([] @ bytes_of text)"
    using assms by (intro MD5Update_ok MD5Init_ok) (simp_all add: bytes_of_def)
  then have e: "md5_encode g text = concat (map hex_byte (md5 (bytes_of text)))"
    by (simp add: md5_encode_def case_prod_unfold MD5Final_ok)
  show ?thesis unfolding e using md5_hex_digits by blast
qed

theorem md5_encode_ok_witness: "length (md5_encode (replicate 64 0) ''sip:bob'') = 32"
  using md5_encode_ok [of "replicate 64 0" "''sip:bob''"] by force

text \<open>The operations of a codec after its digest was taken are refused: each of them runs into
  its \<open>assert\<close>.\<close>

theorem md5_used_once:
  assumes "appendHashValue c out = Some (c', s)"
  shows "md5_hash c' input = None \<and> appendHashValue c' out' = None"
  using assms by (auto simp: appendHashValue_def md5_hash_def split: if_splits prod.splits)

theorem md5_used_once_witness:
  "\<exists>c' s. appendHashValue (NetMd5Codec_new (replicate 64 0)) [] = Some (c', s) \<and> md5_hash c' [1] = None"
proof -
  obtain c' s where "appendHashValue (NetMd5Codec_new (replicate 64 0)) [] = Some (c', s)"
    by (simp add: appendHashValue_def NetMd5Codec_new_def case_prod_unfold Let_def)
  with md5_used_once [OF this, of "[1]"] show ?thesis by blast
qed

end
