(* ===== verification/NetBase64Codec.thy ===== *)
theory NetBase64Codec
  imports NetMd5Codec
begin

text \<open>
  Base64 (\<^verbatim>\<open>sipXtackLib/src/net/NetBase64Codec.cpp\<close>): encoding, the validity check and
  decoding, for the three alphabets. Data are 8-bit words, encoded data are characters; the
  sizes are the lengths of the lists (an \<open>int\<close> in the source, so below \<open>2 ^ 31\<close>). A block
  that is decoded into is a list of bytes that is written in place; reading or writing
  outside a block is \<open>None\<close>.

  The regular expressions are matched by the PCRE library: \<open>search\<close>, a parameter, gives for
  an alphabet and a subject the lengths of the two groups of the match, and
  \<open>b64_search_law\<close> is what the library documents for the three patterns: a non-empty run of
  characters of the alphabet, then at most two padding characters, up to the end of the
  subject or to a newline that ends it.
\<close>

section \<open>Alphabets\<close>

type_synonym alphabet = string

definition PAD_CHAR :: nat where "PAD_CHAR = 64"

definition RFC4648MimeAlphabet :: alphabet where
  "RFC4648MimeAlphabet = ''ABCDEFGHIJKLMNOPQRSTUVWXYZabcdefghijklmnopqrstuvwxyz0123456789+/=''"

definition RFC4648UrlSafeAlphabet :: alphabet where
  "RFC4648UrlSafeAlphabet = ''ABCDEFGHIJKLMNOPQRSTUVWXYZabcdefghijklmnopqrstuvwxyz0123456789-_=''"

definition SipTokenSafeAlphabet :: alphabet where
  "SipTokenSafeAlphabet =
     ''ABCDEFGHIJKLMNOPQRSTUVWXYZabcdefghijklmnopqrstuvwxyz0123456789_'' @ [CHR 0x60, CHR 0x27]"

section \<open>Encoding\<close>

definition encodedSize :: "nat \<Rightarrow> nat" where
  "encodedSize dataSize = (dataSize div 3 + (if dataSize mod 3 \<noteq> 0 then 1 else 0)) * 4"

definition code_char :: "alphabet \<Rightarrow> byte \<Rightarrow> char" where
  "code_char a w = a ! unat w"

text \<open>The four groups of six bits of three bytes, and the second and third when the data end
  before the next byte.\<close>

definition sextet0 :: "byte \<Rightarrow> byte" where "sextet0 x = drop_bit 2 (x AND 0xfc)"
definition sextet1 :: "byte \<Rightarrow> byte \<Rightarrow> byte" where
  "sextet1 x y = (push_bit 4 (x AND 0x03) OR drop_bit 4 (y AND 0xf0))"
definition sextet2 :: "byte \<Rightarrow> byte \<Rightarrow> byte" where
  "sextet2 y z = (push_bit 2 (y AND 0x0f) OR drop_bit 6 (z AND 0xc0))"
definition sextet3 :: "byte \<Rightarrow> byte" where "sextet3 z = (z AND 0x3f)"
definition sextet1_last :: "byte \<Rightarrow> byte" where "sextet1_last x = push_bit 4 (x AND 0x03)"
definition sextet2_last :: "byte \<Rightarrow> byte" where "sextet2_last y = push_bit 2 (y AND 0x0f)"

lemmas sextet_defs = sextet0_def sextet1_def sextet2_def sextet3_def sextet1_last_def sextet2_last_def

fun b64_encode :: "byte list \<Rightarrow> alphabet \<Rightarrow> string" where
  "b64_encode (x # y # z # data) a =
     code_char a (sextet0 x) # code_char a (sextet1 x y) # code_char a (sextet2 y z) # code_char a (sextet3 z)
     # b64_encode data a"
| "b64_encode [x, y] a =
     [code_char a (sextet0 x), code_char a (sextet1 x y), code_char a (sextet2_last y), a ! PAD_CHAR]"
| "b64_encode [x] a = [code_char a (sextet0 x), code_char a (sextet1_last x), a ! PAD_CHAR, a ! PAD_CHAR]"
| "b64_encode [] a = []"

section \<open>Validity\<close>

type_synonym b64_search = "alphabet \<Rightarrow> string \<Rightarrow> (nat \<times> nat) option"

text \<open>An alphabet is one of the three constants, else the \<open>assert\<close> fails.\<close>

definition validEncodingBytes :: "b64_search \<Rightarrow> string \<Rightarrow> alphabet \<Rightarrow> nat option" where
  "validEncodingBytes search encodedData a =
     (if a = RFC4648MimeAlphabet \<or> a = RFC4648UrlSafeAlphabet \<or> a = SipTokenSafeAlphabet then
        (case search a encodedData of
           None \<Rightarrow> Some 0
         | Some (encodingBytes, paddingBytes) \<Rightarrow>
             let syntaxIsValid =
               (if paddingBytes = 0 then encodingBytes mod 4 = 0
                else if paddingBytes = 1 then encodingBytes mod 4 = 3
                else if paddingBytes = 2 then encodingBytes mod 4 = 2 else False)
             in Some (if syntaxIsValid then encodingBytes else 0))
      else None)"

definition b64_isValid :: "b64_search \<Rightarrow> string \<Rightarrow> alphabet \<Rightarrow> bool option" where
  "b64_isValid search encodedData a = map_option (\<lambda>n. n \<noteq> 0) (validEncodingBytes search encodedData a)"

definition decodedSize :: "b64_search \<Rightarrow> string \<Rightarrow> alphabet \<Rightarrow> nat option" where
  "decodedSize search encodedData a =
     map_option (\<lambda>nonPadBytes. if nonPadBytes \<noteq> 0 then nonPadBytes * 3 div 4 else 0)
       (validEncodingBytes search encodedData a)"

section \<open>Decoding\<close>

text \<open>\<open>strchr\<close> in the alphabet, as an offset; a character that is not there has none.\<close>

fun strchr_offset :: "string \<Rightarrow> char \<Rightarrow> nat option" where
  "strchr_offset [] c = None"
| "strchr_offset (x # xs) c = (if x = c then Some 0 else map_option Suc (strchr_offset xs c))"

definition decodeChar :: "char \<Rightarrow> alphabet \<Rightarrow> byte option" where
  "decodeChar encoded a =
     (if encoded = a ! PAD_CHAR then Some 0 else map_option word_of_nat (strchr_offset a encoded))"

definition put_byte :: "byte list \<Rightarrow> nat \<Rightarrow> byte \<Rightarrow> byte list option" where
  "put_byte udata j v = (if j < length udata then Some (udata[j := v]) else None)"

definition char_in :: "string \<Rightarrow> nat \<Rightarrow> char option" where
  "char_in s i = (if i < length s then Some (s ! i) else None)"

definition decode_char_at :: "string \<Rightarrow> alphabet \<Rightarrow> nat \<Rightarrow> byte option" where
  "decode_char_at encodedData a i = do { c \<leftarrow> char_in encodedData i; decodeChar c a }"

text \<open>The three bytes of four decoded characters.\<close>

definition octet0 :: "byte \<Rightarrow> byte \<Rightarrow> byte" where
  "octet0 c0 c1 = (push_bit 2 c0 OR drop_bit 4 (c1 AND 0x30))"
definition octet1 :: "byte \<Rightarrow> byte \<Rightarrow> byte" where
  "octet1 c1 c2 = (push_bit 4 (c1 AND 0x0f) OR drop_bit 2 (c2 AND 0x3c))"
definition octet2 :: "byte \<Rightarrow> byte \<Rightarrow> byte" where
  "octet2 c2 c3 = (push_bit 6 (c2 AND 0x03) OR (c3 AND 0x3f))"

lemmas octet_defs = octet0_def octet1_def octet2_def

function decode_loop :: "string \<Rightarrow> alphabet \<Rightarrow> nat \<Rightarrow> byte list \<Rightarrow> nat \<Rightarrow> nat \<Rightarrow> byte list option" where
  "decode_loop encodedData a dataSize udata i j =
     (if i < length encodedData then do {
        c0 \<leftarrow> decode_char_at encodedData a i;
        c1 \<leftarrow> decode_char_at encodedData a (i + 1);
        u1 \<leftarrow> put_byte udata j (octet0 c0 c1);
        u2 \<leftarrow> (if j + 1 < dataSize then do {
                 c2 \<leftarrow> decode_char_at encodedData a (i + 2);
                 u2 \<leftarrow> put_byte u1 (j + 1) (octet1 c1 c2);
                 if j + 2 < dataSize then do {
                   c3 \<leftarrow> decode_char_at encodedData a (i + 3);
                   put_byte u2 (j + 2) (octet2 c2 c3)
                 } else Some u2
               } else Some u1);
        decode_loop encodedData a dataSize u2 (i + 4) (j + 3)
      } else Some udata)"
  by pat_completeness auto
termination by (relation "measure (\<lambda>(e, a, n, u, i, j). length e - i)") auto

declare decode_loop.simps [simp del]

text \<open>The result: whether the data were valid, the size, and the block decoded into.\<close>

definition b64_decode ::
  "b64_search \<Rightarrow> string \<Rightarrow> byte list \<Rightarrow> alphabet \<Rightarrow> (bool \<times> nat \<times> byte list) option" where
  "b64_decode search encodedData data a = do {
     valid \<leftarrow> b64_isValid search encodedData a;
     if valid then do {
       dataSize \<leftarrow> decodedSize search encodedData a;
       udata \<leftarrow> decode_loop encodedData a dataSize data 0 0;
       Some (True, dataSize, udata)
     } else Some (False, 0, data) }"

text \<open>
  Decoding from a string object into another: the target's buffer has room for
  \<open>sizeNeeded + 1\<close> bytes, of contents not known (\<open>garbage\<close>), and its length is set to the
  size decoded. The result is the new contents.
\<close>

definition b64_decode_str ::
  "b64_search \<Rightarrow> (nat \<Rightarrow> byte list) \<Rightarrow> string \<Rightarrow> alphabet \<Rightarrow> (bool \<times> byte list) option" where
  "b64_decode_str search garbage encodedData a = do {
     valid \<leftarrow> b64_isValid search encodedData a;
     if valid then do {
       size \<leftarrow> decodedSize search encodedData a;
       let sizeNeeded = size + 1;
       (valid1, size1, udata) \<leftarrow> b64_decode search encodedData (garbage (sizeNeeded + 1)) a;
       Some (valid1, if valid1 then take size1 udata else [])
     } else Some (False, []) }"

section \<open>The signature form of an MD5 digest\<close>

definition BASE64_ENCODED_SIZE :: nat where "BASE64_ENCODED_SIZE = 22"

definition encodeBase64Sig :: "byte list \<Rightarrow> string \<Rightarrow> alphabet \<Rightarrow> string" where
  "encodeBase64Sig garbage text a =
     (let (digest, _) = MD5Final (MD5Update (MD5Init garbage) (bytes_of text))
      in take BASE64_ENCODED_SIZE (b64_encode digest a))"

definition appendBase64Sig :: "md5_codec \<Rightarrow> string \<Rightarrow> alphabet \<Rightarrow> (md5_codec \<times> string) option" where
  "appendBase64Sig c output a =
     (if \<not> mFinalized c then
        let (digest, context) = MD5Final (mContext c) in
        Some (c\<lparr>mFinalized := True, mDigest := digest, mContext := context\<rparr>,
              output @ take BASE64_ENCODED_SIZE (b64_encode digest a))
      else None)"

section \<open>What the regular expressions match\<close>

definition b64_alphabet :: "alphabet \<Rightarrow> bool" where
  "b64_alphabet a \<longleftrightarrow> a = RFC4648MimeAlphabet \<or> a = RFC4648UrlSafeAlphabet \<or> a = SipTokenSafeAlphabet"

definition b64_matches :: "alphabet \<Rightarrow> string \<Rightarrow> nat \<Rightarrow> nat \<Rightarrow> bool" where
  "b64_matches a s n p \<longleftrightarrow> 1 \<le> n \<and> p \<le> 2 \<and> n + p \<le> length s \<and>
     set (take n s) \<subseteq> set (take PAD_CHAR a) \<and> take p (drop n s) = replicate p (a ! PAD_CHAR) \<and>
     (drop (n + p) s = [] \<or> drop (n + p) s = [CHR 0x0A])"

definition b64_search_law :: "b64_search \<Rightarrow> bool" where
  "b64_search_law search \<longleftrightarrow> (\<forall>a s. b64_alphabet a \<longrightarrow>
     (case search a s of
        Some (n, p) \<Rightarrow> b64_matches a s n p
      | None \<Rightarrow> \<forall>n p. \<not> b64_matches a s n p))"

text \<open>A search that behaves so: the longest run of alphabet characters, then the padding.\<close>

definition b64_search_run :: b64_search where
  "b64_search_run a s =
     (let n = length (takeWhile (\<lambda>c. c \<in> set (take PAD_CHAR a)) s);
          p = length (takeWhile (\<lambda>c. c = a ! PAD_CHAR) (drop n s))
      in if b64_matches a s n p then Some (n, p) else None)"

lemma alphabet_facts:
  assumes "b64_alphabet a"
  shows "length a = 65" and "distinct a" and "CHR 0x0A \<notin> set a" and "a ! PAD_CHAR \<notin> set (take PAD_CHAR a)"
proof -
  have "length RFC4648MimeAlphabet = 65 \<and> distinct RFC4648MimeAlphabet \<and> CHR 0x0A \<notin> set RFC4648MimeAlphabet"
    "length RFC4648UrlSafeAlphabet = 65 \<and> distinct RFC4648UrlSafeAlphabet \<and> CHR 0x0A \<notin> set RFC4648UrlSafeAlphabet"
    "length SipTokenSafeAlphabet = 65 \<and> distinct SipTokenSafeAlphabet \<and> CHR 0x0A \<notin> set SipTokenSafeAlphabet"
    by code_simp+
  then show len: "length a = 65" and d: "distinct a" and "CHR 0x0A \<notin> set a"
    using assms unfolding b64_alphabet_def by auto
  show "a ! PAD_CHAR \<notin> set (take PAD_CHAR a)"
    using d len by (auto simp: PAD_CHAR_def in_set_conv_nth nth_eq_iff_index_eq)
qed

lemma takeWhile_run: "set xs \<subseteq> {c. P c} \<Longrightarrow> (ys = [] \<or> \<not> P (hd ys)) \<Longrightarrow> takeWhile P (xs @ ys) = xs"
  by (induction xs) (auto simp: takeWhile_eq_Nil_iff)

lemma b64_matches_run:
  assumes a: "b64_alphabet a" and m: "b64_matches a s n p"
  shows "length (takeWhile (\<lambda>c. c \<in> set (take PAD_CHAR a)) s) = n"
    and "length (takeWhile (\<lambda>c. c = a ! PAD_CHAR) (drop n s)) = p"
proof -
  let ?pad = "a ! PAD_CHAR"
  define tail where "tail = drop (n + p) s"
  have tail: "tail = [] \<or> tail = [CHR 0x0A]" and len: "n + p \<le> length s"
    using m by (auto simp: b64_matches_def tail_def)
  have drop_n: "drop n s = replicate p ?pad @ tail"
    using m append_take_drop_id [of p "drop n s"] by (simp add: b64_matches_def tail_def add.commute)
  have "?pad \<in> set a" using alphabet_facts(1) [OF a] by (simp add: PAD_CHAR_def)
  then have nl: "CHR 0x0A \<notin> set (take PAD_CHAR a)" "?pad \<noteq> CHR 0x0A"
    using alphabet_facts(3) [OF a] by (auto dest: in_set_takeD)
  have "drop n s = [] \<or> hd (drop n s) \<notin> set (take PAD_CHAR a)"
    using tail nl alphabet_facts(4) [OF a] by (cases p) (auto simp: drop_n)
  then have "takeWhile (\<lambda>c. c \<in> set (take PAD_CHAR a)) (take n s @ drop n s) = take n s"
    by (intro takeWhile_run) (use m in \<open>auto simp: b64_matches_def\<close>)
  then show "length (takeWhile (\<lambda>c. c \<in> set (take PAD_CHAR a)) s) = n" using len by simp
  have "takeWhile (\<lambda>c. c = ?pad) (replicate p ?pad @ tail) = replicate p ?pad"
    by (rule takeWhile_run) (use tail nl in auto)
  then show "length (takeWhile (\<lambda>c. c = ?pad) (drop n s)) = p" by (simp add: drop_n)
qed

lemma b64_search_run_law: "b64_search_law b64_search_run"
proof -
  have "b64_search_run a s = Some (n, p)" if "b64_alphabet a" "b64_matches a s n p" for a s n p
    using that b64_matches_run [OF that] by (simp add: b64_search_run_def)
  then show ?thesis
    unfolding b64_search_law_def by (fastforce simp: b64_search_run_def Let_def split: option.splits if_splits)
qed

lemma b64_search_unique:
  assumes "b64_search_law search" and "b64_alphabet a" and "b64_matches a s n p"
  shows "search a s = Some (n, p)"
proof (cases "search a s")
  case None
  have "case search a s of Some (n, p) \<Rightarrow> b64_matches a s n p | None \<Rightarrow> \<forall>n p. \<not> b64_matches a s n p"
    using assms unfolding b64_search_law_def by blast
  then show ?thesis using None assms(3) by simp
next
  case (Some r)
  then have "b64_matches a s (fst r) (snd r)"
    using assms by (auto simp: b64_search_law_def split: option.splits prod.splits)
  then show ?thesis
    using Some b64_matches_run [OF assms(2)] assms(3) by (metis prod.collapse)
qed

section \<open>Decoding inverts encoding\<close>

lemma all_less_8: "(\<forall>n<8. P n) \<longleftrightarrow> P 0 \<and> P 1 \<and> P 2 \<and> P 3 \<and> P 4 \<and> P 5 \<and> P 6 \<and> P (7::nat)"
proof -
  have "[0..<8] = [0, 1, 2, 3, 4, 5, 6, 7::nat]" by code_simp
  moreover have "(\<forall>n<8. P n) \<longleftrightarrow> (\<forall>n \<in> set [0..<8]. P n)" by auto
  ultimately show ?thesis by simp
qed

lemma byte_eq_iff: "(v::byte) = w \<longleftrightarrow> (\<forall>n<8. bit v n = bit w n)"
  by (metis bit_word_eqI len_bit0 len_num1 mult_2 nat_mult_1_right numeral_Bit0)

lemma octet_sextet [simp]:
  "octet0 (sextet0 x) (sextet1 x y) = x" "octet0 (sextet0 x) (sextet1_last x) = x"
  "octet1 (sextet1 x y) (sextet2 y z) = y" "octet1 (sextet1 x y) (sextet2_last y) = y"
  "octet2 (sextet2 y z) (sextet3 z) = z"
  unfolding byte_eq_iff all_less_8 sextet_defs octet_defs by (simp_all add: bit_simps)

definition sextet :: "byte \<Rightarrow> bool" where
  "sextet w \<longleftrightarrow> take_bit 6 w = w"

lemma sextets_small [simp]:
  "sextet (sextet0 x)" "sextet (sextet1 x y)" "sextet (sextet2 y z)" "sextet (sextet3 z)"
  "sextet (sextet1_last x)" "sextet (sextet2_last y)"
  unfolding sextet_def byte_eq_iff all_less_8 sextet_defs by (simp_all add: bit_simps)

lemma sextet_less: "sextet w \<Longrightarrow> unat w < 64"
proof -
  assume "sextet w"
  then have "unat w = take_bit 6 (unat w)" unfolding sextet_def by (metis unsigned_take_bit_eq)
  then show ?thesis using take_bit_nat_less_exp [of 6 "unat w"] by simp
qed

lemma strchr_offset_nth: "distinct a \<Longrightarrow> n < length a \<Longrightarrow> strchr_offset a (a ! n) = Some n"
proof (induction a arbitrary: n)
  case (Cons x a)
  then show ?case by (cases n) auto
qed simp

lemma decode_code_char:
  assumes a: "b64_alphabet a" and w: "sextet w"
  shows "decodeChar (code_char a w) a = Some w" and "code_char a w \<in> set (take PAD_CHAR a)"
proof -
  have n: "unat w < 64" by (rule sextet_less [OF w])
  then show "code_char a w \<in> set (take PAD_CHAR a)"
    using alphabet_facts(1) [OF a] by (auto simp: code_char_def PAD_CHAR_def in_set_conv_nth)
  have "code_char a w \<noteq> a ! PAD_CHAR"
    using n alphabet_facts(1,2) [OF a] by (simp add: code_char_def PAD_CHAR_def nth_eq_iff_index_eq)
  then show "decodeChar (code_char a w) a = Some w"
    using n alphabet_facts(1,2) [OF a] strchr_offset_nth [of a "unat w"]
    by (simp add: decodeChar_def code_char_def)
qed

text \<open>The shape of an encoding: so many alphabet characters, and padding up to a multiple of
  four.\<close>

definition pads :: "nat \<Rightarrow> nat" where
  "pads n = (if n mod 3 = 0 then 0 else 3 - n mod 3)"

lemma pads_Suc3 [simp]: "pads (Suc (Suc (Suc n))) = pads n"
  and encodedSize_Suc3 [simp]: "encodedSize (Suc (Suc (Suc n))) = 4 + encodedSize n"
proof -
  have n: "Suc (Suc (Suc n)) = n + 3" by simp
  have d: "(n + 3) div 3 = n div 3 + 1" by (rule div_add_self2) simp
  have m: "(n + 3) mod 3 = n mod 3" by (rule mod_add_self2)
  show "pads (Suc (Suc (Suc n))) = pads n" unfolding n pads_def m ..
  show "encodedSize (Suc (Suc (Suc n))) = 4 + encodedSize n" unfolding n encodedSize_def m d by simp
qed

lemma b64_encode_shape:
  assumes "b64_alphabet a"
  shows "\<exists>xs. b64_encode data a = xs @ replicate (pads (length data)) (a ! PAD_CHAR) \<and>
           set xs \<subseteq> set (take PAD_CHAR a) \<and> length xs + pads (length data) = encodedSize (length data)"
  using assms
proof (induction data a rule: b64_encode.induct)
  case (1 x y z data a)
  then obtain xs where xs: "b64_encode data a = xs @ replicate (pads (length data)) (a ! PAD_CHAR)"
    "set xs \<subseteq> set (take PAD_CHAR a)" "length xs + pads (length data) = encodedSize (length data)" by auto
  show ?case
    using xs decode_code_char(2) [OF 1(2)]
    by (intro exI [of _ "code_char a (sextet0 x) # code_char a (sextet1 x y) # code_char a (sextet2 y z)
        # code_char a (sextet3 z) # xs"]) simp
qed (use decode_code_char(2) in \<open>auto simp: pads_def encodedSize_def numeral_2_eq_2\<close>)

lemma b64_encode_matches:
  assumes a: "b64_alphabet a" and "data \<noteq> []"
  shows "b64_matches a (b64_encode data a) (encodedSize (length data) - pads (length data)) (pads (length data))"
    and "length (b64_encode data a) = encodedSize (length data)"
proof -
  obtain xs where xs: "b64_encode data a = xs @ replicate (pads (length data)) (a ! PAD_CHAR)"
    "set xs \<subseteq> set (take PAD_CHAR a)" "length xs + pads (length data) = encodedSize (length data)"
    using b64_encode_shape [OF a] by blast
  have p: "pads (length data) \<le> 2" by (auto simp: pads_def)
  have "4 \<le> encodedSize (length data)" using assms(2) by (cases data) (auto simp: encodedSize_def)
  then have "1 \<le> length xs" using xs(3) p by linarith
  moreover have n: "encodedSize (length data) - pads (length data) = length xs" using xs(3) by simp
  ultimately show "b64_matches a (b64_encode data a) (encodedSize (length data) - pads (length data)) (pads (length data))"
    using xs p by (simp add: b64_matches_def)
  show "length (b64_encode data a) = encodedSize (length data)" using xs by simp
qed

text \<open>The validity check accepts every encoding of at least one byte, and computes the size.\<close>

lemma b64_valid_encoding:
  assumes law: "b64_search_law search" and a: "b64_alphabet a" and "data \<noteq> []"
  shows "b64_isValid search (b64_encode data a) a = Some True"
    and "decodedSize search (b64_encode data a) a = Some (length data)"
proof -
  let ?n = "encodedSize (length data) - pads (length data)"
  note found = b64_search_unique [OF law a b64_encode_matches(1) [OF a assms(3)]]
  obtain q r where l: "length data = 3 * q + r" "r < 3"
    by (metis mod_less_divisor mult_div_mod_eq zero_less_numeral)
  have r: "r = 0 \<or> r = 1 \<or> r = 2" using l by linarith
  have pos: "0 < length data" using assms(3) by simp
  have m: "?n mod 4 = (if pads (length data) = 0 then 0 else if pads (length data) = 1 then 3 else 2)"
    and p: "pads (length data) \<le> 2" and n: "?n \<noteq> 0" "?n * 3 div 4 = length data"
    using r pos unfolding l(1) by (auto simp: encodedSize_def pads_def mod_Suc)
  have v: "validEncodingBytes search (b64_encode data a) a = Some ?n"
    using a m p unfolding validEncodingBytes_def b64_alphabet_def found by (auto simp: Let_def le_Suc_eq numeral_2_eq_2)
  show "b64_isValid search (b64_encode data a) a = Some True"
    unfolding b64_isValid_def v using n(1) by simp
  show "decodedSize search (b64_encode data a) a = Some (length data)"
    unfolding decodedSize_def v using n by (simp only: option.map if_True refl simp_thms)
qed

lemma decode_char_at_drop:
  assumes "drop i e = xs" and "k < length xs"
  shows "decode_char_at e a (i + k) = decodeChar (xs ! k) a"
proof -
  have "i + k < length e" using assms by (metis length_drop less_diff_conv add.commute)
  moreover have "e ! (i + k) = xs ! k" using assms by (metis add_leD1 calculation less_imp_le nth_drop)
  ultimately show ?thesis by (simp add: decode_char_at_def char_in_def)
qed

lemma put_three:
  assumes "Suc (Suc j) < length u"
  shows "take (j + 3) (u[j := x, Suc j := y, Suc (Suc j) := z]) = take j u @ [x, y, z]"
proof -
  have "take (Suc (Suc (Suc j))) (u[j := x, Suc j := y, Suc (Suc j) := z]) = take j u @ [x, y, z]"
    using assms by (simp add: take_Suc_conv_app_nth take_update_swap list_update_append)
  then show ?thesis by (simp add: eval_nat_numeral)
qed

text \<open>One loop over the encoding of what is left of the data puts it in its place.\<close>

lemma decode_loop_ok:
  assumes "b64_alphabet a" and "drop i e = b64_encode todo a" and "n = j + length todo" and "n \<le> length u"
  shows "decode_loop e a n u i j = Some (take j u @ todo @ drop n u)"
  using assms
proof (induction todo a arbitrary: i j u rule: b64_encode.induct)
  case (1 x y z todo a)
  let ?xs = "b64_encode (x # y # z # todo) a"
  let ?u = "u[j := x, j + 1 := y, j + 2 := z]"
  have i: "i < length e" using 1(3) by (metis drop_eq_Nil list.distinct(1) not_le b64_encode.simps(1))
  have c: "decode_char_at e a (i + k) = decodeChar (?xs ! k) a" if "k < 4" for k
    using decode_char_at_drop [OF 1(3), of k] that by simp
  note d = decode_code_char(1) [OF 1(2)]
  have "drop (i + 4) e = b64_encode todo a" using 1(3) by (simp flip: drop_drop add: add.commute [of i])
  then have "decode_loop e a n ?u (i + 4) (j + 3) = Some (take (j + 3) ?u @ todo @ drop n ?u)"
    using 1(2,4,5) by (intro 1(1)) simp_all
  moreover have "j + 2 < length u" "j + 1 < n" "j + 2 < n" "j < length u" using 1(4,5) by simp_all
  ultimately show ?case
    using i c [of 0] c [of 1] c [of 2] c [of 3] 1(4,5)
    by (subst decode_loop.simps) (simp add: put_byte_def d put_three nth_Cons_numeral)
next
  case (2 x y a)
  let ?xs = "b64_encode [x, y] a"
  have i: "i < length e" using 2(2) by (metis drop_eq_Nil list.distinct(1) not_le b64_encode.simps(2))
  have c: "decode_char_at e a (i + k) = decodeChar (?xs ! k) a" if "k < 4" for k
    using decode_char_at_drop [OF 2(2), of k] that by simp
  note d = decode_code_char(1) [OF 2(1)]
  have "length e \<le> i + 4" using arg_cong [OF 2(2), of length] by simp
  then have "decode_loop e a n v (i + 4) (j + 3) = Some v" for v by (subst decode_loop.simps) simp
  moreover have "u[j := x, Suc j := y] = take j u @ [x, y] @ drop (Suc (Suc j)) u"
    using 2(3,4) by (simp add: list_update_append1 upd_conv_take_nth_drop take_update_swap
        take_Suc_conv_app_nth)
  ultimately show ?case
    using i c [of 0] c [of 1] c [of 2] 2(3,4)
    by (subst decode_loop.simps) (simp add: put_byte_def d nth_Cons_numeral)
next
  case (3 x a)
  let ?xs = "b64_encode [x] a"
  have i: "i < length e" using 3(2) by (metis drop_eq_Nil list.distinct(1) not_le b64_encode.simps(3))
  have c: "decode_char_at e a (i + k) = decodeChar (?xs ! k) a" if "k < 4" for k
    using decode_char_at_drop [OF 3(2), of k] that by simp
  note d = decode_code_char(1) [OF 3(1)]
  have "length e \<le> i + 4" using arg_cong [OF 3(2), of length] by simp
  then have "decode_loop e a n v (i + 4) (j + 3) = Some v" for v by (subst decode_loop.simps) simp
  then show ?case
    using i c [of 0] c [of 1] 3(3,4)
    by (subst decode_loop.simps) (simp add: put_byte_def d upd_conv_take_nth_drop)
next
  case (4 a)
  then have "length e \<le> i" by simp
  then show ?case using 4 by (subst decode_loop.simps) simp
qed

lemma b64_decode_ok:
  assumes "b64_search_law search" and "b64_alphabet a" and "data \<noteq> []" and "length data \<le> length buf"
  shows "b64_decode search (b64_encode data a) buf a = Some (True, length data, data @ drop (length data) buf)"
  using b64_valid_encoding [OF assms(1-3)] decode_loop_ok [OF assms(2), of 0 _ data "length data" 0 buf] assms(4)
  by (simp add: b64_decode_def)

lemma b64_decode_str_ok:
  assumes "b64_search_law search" and "b64_alphabet a" and "data \<noteq> []" and "\<And>n. length (garbage n) = n"
  shows "b64_decode_str search garbage (b64_encode data a) a = Some (True, data)"
  using b64_valid_encoding [OF assms(1-3)] b64_decode_ok [OF assms(1-3), of "garbage (length data + 2)"] assms(4)
  by (simp add: b64_decode_str_def)

text \<open>Decoding is defined for every text of alphabet characters, whatever they encode.\<close>

lemma decodeChar_defined:
  assumes "b64_alphabet a" and "c \<in> set a"
  shows "\<exists>v. decodeChar c a = Some v"
proof -
  obtain k where k: "k < length a" "a ! k = c" using assms(2) by (auto simp: in_set_conv_nth)
  then show ?thesis using strchr_offset_nth [OF alphabet_facts(2) [OF assms(1)] k(1)] by (auto simp: decodeChar_def)
qed

lemma decode_loop_defined:
  assumes "b64_alphabet a" and "set e \<subseteq> set a" and "length e = 4 * B" and "3 * B \<le> length u + 2"
    and "n \<le> length u"
  shows "\<exists>u'. decode_loop e a n u (4 * k) (3 * k) = Some u' \<and> length u' = length u"
  using assms(4,5)
proof (induction "B - k" arbitrary: k u)
  case 0
  then show ?case using assms(3) by (subst decode_loop.simps) simp
next
  case (Suc d)
  have c: "\<exists>v. decode_char_at e a (4 * k + i) = Some v" if "i < 4" for i
  proof -
    have "4 * k + i < length e" using Suc(2) that assms(3) by simp
    then have "e ! (4 * k + i) \<in> set a" using assms(2) nth_mem by blast
    then show ?thesis
      using decodeChar_defined [OF assms(1)] \<open>4 * k + i < length e\<close> by (simp add: decode_char_at_def char_in_def)
  qed
  obtain c0 c1 c2 c3 where v: "decode_char_at e a (4 * k) = Some c0" "decode_char_at e a (4 * k + 1) = Some c1"
    "decode_char_at e a (4 * k + 2) = Some c2" "decode_char_at e a (4 * k + 3) = Some c3"
    using c [of 0] c [of 1] c [of 2] c [of 3] by auto
  have IH: "\<exists>u'. decode_loop e a n w (4 * k + 4) (3 * k + 3) = Some u' \<and> length u' = length u" if "length w = length u" for w
    using Suc(1) [of "Suc k" w] Suc(2-4) that by (simp add: algebra_simps)
  have less: "4 * k < length e" "3 * k < length u" using Suc(2,3) assms(3) by linarith+
  show ?case
    using IH less Suc(4) v
    by (subst decode_loop.simps) (auto simp: put_byte_def)
qed

lemma b64_decode_str_defined:
  assumes law: "b64_search_law search" and a: "b64_alphabet a" and g: "\<And>n. length (garbage n) = n"
    and nl: "CHR 0x0A \<notin> set e"
  shows "\<exists>r. b64_decode_str search garbage e a = Some r"
proof (cases "search a e")
  case None
  then show ?thesis
    using a by (auto simp: b64_decode_str_def b64_isValid_def validEncodingBytes_def b64_alphabet_def)
next
  case (Some m)
  obtain n p where m: "m = (n, p)" by fastforce
  have "case search a e of Some (n, p) \<Rightarrow> b64_matches a e n p | None \<Rightarrow> \<forall>n p. \<not> b64_matches a e n p"
    using law a unfolding b64_search_law_def by blast
  then have "b64_matches a e n p" using Some m by simp
  then have b: "p \<le> 2" "n + p \<le> length e" "set (take n e) \<subseteq> set (take PAD_CHAR a)"
    "take p (drop n e) = replicate p (a ! PAD_CHAR)" "drop (n + p) e = [] \<or> drop (n + p) e = [CHR 0x0A]"
    by (auto simp: b64_matches_def)
  have "drop (n + p) e = []" using b(5) nl by (metis in_set_dropD list.set_intros(1))
  then have len: "length e = n + p" using b(2) by simp
  have "e = take n e @ take p (drop n e)" using len by simp
  moreover have "a ! PAD_CHAR \<in> set a" using alphabet_facts(1) [OF a] by (simp add: PAD_CHAR_def)
  ultimately have sub: "set e \<subseteq> set a"
    using b(3,4) set_take_subset [of PAD_CHAR a] by (metis (no_types, lifting) set_append set_replicate_conv_if
        Un_least subset_trans empty_subsetI singletonD subsetI)
  show ?thesis
  proof (cases "(p = 0 \<and> n mod 4 = 0 \<or> p = 1 \<and> n mod 4 = 3 \<or> p = 2 \<and> n mod 4 = 2) \<and> n \<noteq> 0")
    case False
    then have "b64_isValid search e a = Some False"
      using Some m a by (auto simp: b64_isValid_def validEncodingBytes_def b64_alphabet_def Let_def)
    then show ?thesis by (auto simp: b64_decode_str_def)
  next
    case True
    obtain q r where q: "n = 4 * q + r" "r = n mod 4" by (metis mult_div_mod_eq)
    define B where "B = q + (if p = 0 then 0 else 1)"
    have "(4 * q + 3) * 3 div 4 = 3 * q + 2" "(4 * q + 2) * 3 div 4 = 3 * q + 1" "(4 * q + 0) * 3 div 4 = 3 * q"
      by simp_all
    moreover have "p = 0 \<and> r = 0 \<or> p = 1 \<and> r = 3 \<or> p = 2 \<and> r = 2" using True q(2) by metis
    ultimately have B: "length e = 4 * B" "3 * B \<le> n * 3 div 4 + 2"
      unfolding len q(1) B_def by (elim disjE conjE; simp only:; simp)+
    have v: "validEncodingBytes search e a = Some n"
      using Some m a True by (auto simp: validEncodingBytes_def b64_alphabet_def Let_def)
    define d where "d = n * 3 div 4"
    have "3 * B \<le> length (garbage (d + 2)) + 2" "d \<le> length (garbage (d + 2))"
      using B(2) unfolding d_def g by linarith+
    then obtain u' where "decode_loop e a d (garbage (d + 2)) (4 * 0) (3 * 0) = Some u'"
      using decode_loop_defined [OF a sub B(1)] by blast
    then show ?thesis
      using True v by (auto simp: b64_decode_str_def b64_isValid_def decodedSize_def b64_decode_def d_def)
  qed
qed

section \<open>Properties\<close>

text \<open>C38. Decoding the encoding of any data of at least one byte is valid and gives the data back,
  in each of the three alphabets.\<close>

theorem base64_roundtrip:
  assumes "b64_search_law search" and "b64_alphabet a" and "data \<noteq> []" and "\<And>n. length (garbage n) = n"
  shows "b64_decode_str search garbage (b64_encode data a) a = Some (True, data)"
  using assms by (rule b64_decode_str_ok)

theorem base64_roundtrip_witness:
  "b64_decode_str b64_search_run (\<lambda>n. replicate n 0) (b64_encode [104, 105] SipTokenSafeAlphabet) SipTokenSafeAlphabet
     = Some (True, [104, 105])"
  by (rule base64_roundtrip [OF b64_search_run_law]) (simp_all add: b64_alphabet_def)

text \<open>The empty string is not a valid encoding, although it is what encoding no data gives.\<close>

theorem base64_empty_invalid:
  assumes "b64_search_law search" and "b64_alphabet a"
  shows "b64_encode [] a = [] \<and> b64_decode_str search garbage [] a = Some (False, [])"
proof -
  have "\<not> b64_matches a [] n p" for n p by (auto simp: b64_matches_def)
  moreover have "case search a [] of Some (n, p) \<Rightarrow> b64_matches a [] n p | None \<Rightarrow> \<forall>n p. \<not> b64_matches a [] n p"
    using assms unfolding b64_search_law_def by blast
  ultimately have "search a [] = None" by (cases "search a []") auto
  then show ?thesis
    using assms(2) by (auto simp: b64_decode_str_def b64_isValid_def validEncodingBytes_def b64_alphabet_def)
qed

theorem base64_empty_invalid_witness:
  "b64_decode_str b64_search_run (\<lambda>n. replicate n 0) [] RFC4648MimeAlphabet = Some (False, [])"
  using base64_empty_invalid [OF b64_search_run_law, of RFC4648MimeAlphabet] by (simp add: b64_alphabet_def)

text \<open>A valid encoding with a newline behind it is also taken for valid, since the dollar of
  the patterns matches before a final newline; the decoding loop then goes on to the
  newline, which has no place in the alphabet, and past the end of the encoded data.\<close>

theorem base64_newline_undefined:
  assumes "b64_search_law search" and "b64_alphabet a" and "length data = 3" and "length buf = 5"
  shows "b64_isValid search (b64_encode data a @ [CHR 0x0A]) a = Some True
         \<and> b64_decode search (b64_encode data a @ [CHR 0x0A]) buf a = None"
proof -
  let ?e = "b64_encode data a @ [CHR 0x0A]"
  obtain x y z where data: "data = [x, y, z]" using assms(3) by (auto simp: numeral_3_eq_3 length_Suc_conv)
  have m: "b64_matches a ?e 4 0"
    using decode_code_char(2) [OF assms(2)] by (simp add: data b64_matches_def)
  have v: "validEncodingBytes search ?e a = Some 4"
    using b64_search_unique [OF assms(1,2) m] assms(2) by (auto simp: validEncodingBytes_def b64_alphabet_def)
  have nl: "strchr_offset xs (CHR 0x0A) = None" if "CHR 0x0A \<notin> set xs" for xs using that by (induction xs) auto
  have "decodeChar (CHR 0x0A) a = None"
    using alphabet_facts(1,3) [OF assms(2)] nth_mem [of 64 a] nl [of a] by (auto simp: decodeChar_def PAD_CHAR_def)
  then have at4: "decode_char_at ?e a 4 = None" by (simp add: decode_char_at_def char_in_def data)
  then have "decode_loop ?e a 3 u 4 j = None" for u j by (subst decode_loop.simps) (simp add: data)
  then have "decode_loop ?e a 3 buf 0 0 = None"
    by (subst decode_loop.simps) (auto simp: Option.bind_eq_None_conv)
  then show ?thesis by (simp add: b64_decode_def b64_isValid_def decodedSize_def v)
qed

theorem base64_newline_undefined_witness:
  "b64_isValid b64_search_run (b64_encode [1, 2, 3] RFC4648MimeAlphabet @ [CHR 0x0A]) RFC4648MimeAlphabet = Some True
   \<and> b64_decode b64_search_run (b64_encode [1, 2, 3] RFC4648MimeAlphabet @ [CHR 0x0A]) (replicate 5 0) RFC4648MimeAlphabet = None"
  by (rule base64_newline_undefined [OF b64_search_run_law]) (simp_all add: b64_alphabet_def)

text \<open>The base64 signature of a text is 22 characters of the alphabet proper: what the padding
  of the full encoding of the sixteen digest bytes adds is cut off.\<close>

theorem md5_signature_shape:
  assumes "b64_alphabet a" and "length g = 64" and "length text < 2 ^ 32"
  shows "length (encodeBase64Sig g text a) = 22 \<and> set (encodeBase64Sig g text a) \<subseteq> set (take 64 a)
         \<and> encodeBase64Sig g text a = take 22 (b64_encode (md5 (bytes_of text)) a)"
proof -
  have "ctx_ok (MD5Update (MD5Init g) (bytes_of text)) ([] @ bytes_of text)"
    using assms(2,3) by (intro MD5Update_ok MD5Init_ok) (simp_all add: bytes_of_def)
  then have e: "encodeBase64Sig g text a = take 22 (b64_encode (md5 (bytes_of text)) a)"
    by (simp add: encodeBase64Sig_def case_prod_unfold MD5Final_ok BASE64_ENCODED_SIZE_def)
  obtain xs where xs: "b64_encode (md5 (bytes_of text)) a = xs @ replicate (pads 16) (a ! PAD_CHAR)"
    "set xs \<subseteq> set (take PAD_CHAR a)" "length xs + pads 16 = encodedSize 16"
    using b64_encode_shape [OF assms(1), of "md5 (bytes_of text)"] by (auto simp: length_md5)
  have "length xs = 22" using xs(3) by (simp add: pads_def encodedSize_def)
  then show ?thesis unfolding e using xs(1,2) by (simp add: PAD_CHAR_def)
qed

theorem md5_signature_shape_witness:
  "length (encodeBase64Sig (replicate 64 0) ''secret'' SipTokenSafeAlphabet) = 22"
  by (rule md5_signature_shape [THEN conjunct1]) (simp_all add: b64_alphabet_def)

end

