(* ===== verification/RouteState.thy ===== *)
theory RouteState
  imports SipMessage UtlRegex NetBase64Codec
begin

text \<open>
  The signed state a proxy keeps in its Record-Route header
  (\<^verbatim>\<open>sipXproxy/src/RouteState.cpp\<close>): plugins set named parameters while the dialog-forming
  request passes, \<open>update\<close> puts them into the header as one token with an MD5 signature, and
  every later request of the dialog brings the token back in a Route header, where the
  constructor checks the signature and decodes it.

  The parameters are kept in a sorted list (theory \<open>UtlList\<close>) of name/value pairs. The three
  regular expressions are matched by PCRE (theory \<open>UtlRegex\<close>); what the documentation of the
  library says of these patterns is stated by \<open>pn_law\<close>, \<open>ss_law\<close> and \<open>nv_law\<close>. A search may
  also give up at the recursion limit of the object: \<open>fits\<close> holds of the subjects for which it
  does not.

  A message is seen through the accessors the class uses: Call-Id, the tags, the method and
  the Record-Route headers, each a list of URIs. Parsing and printing of a URI is the work of
  class \<open>Url\<close>, whose methods are the parameters in \<open>url_ops\<close>.
\<close>

section \<open>The environment and the state\<close>

record route_env =
  pn_exec :: pcre_exec
  ss_exec :: pcre_exec
  nv_exec :: pcre_exec
  b64s :: b64_search
  mem_garbage :: "nat \<Rightarrow> byte list"
  vec_garbage :: "int list"

record url_ops =
  url_getParam :: "string \<Rightarrow> string option"
  url_hostPort :: "string \<Rightarrow> string"
  url_make :: "string \<Rightarrow> string \<Rightarrow> string"
  url_setParam :: "string \<Rightarrow> string \<Rightarrow> string"

record sip_message =
  callIdField :: string
  fromTag :: "string option"
  toTag :: "string option"
  isResponse :: bool
  requestMethod :: string
  recordRoutes :: "string list list"

record route_state =
  mRouteHostPort :: string
  mMayBeMutable :: bool
  mRecordRouteIndices :: "nat list"
  mModified :: bool
  mFoundRouteState :: bool
  mAddCopyRequested :: bool
  mValues :: "nv ulist"
  mCallId :: string
  mFromTag :: string

definition UrlParameterName :: string where
  "UrlParameterName = ''sipXecs-rs''"

definition AUTHORIZED_DIALOG_PARAM :: string where
  "AUTHORIZED_DIALOG_PARAM = ''auth''"

section \<open>Parameter names\<close>

text \<open>The full name of a parameter; the empty string marks an invalid one.\<close>

definition RouteParameterName :: "route_env \<Rightarrow> string \<Rightarrow> string \<Rightarrow> string option" where
  "RouteParameterName env pluginInstance parameterName = do {
     (valid, ok1) \<leftarrow> Search (pn_exec env) (RegEx_new 0 (vec_garbage env)) (cstr pluginInstance) (-1) False;
     if ok1 then do {
       (valid, ok2) \<leftarrow> Search (pn_exec env) valid (cstr parameterName) (-1) False;
       Some (if ok2 then c_prefix pluginInstance @ ''*'' @ c_prefix parameterName else [])
     } else Some [] }"

definition name_isValid :: "string \<Rightarrow> bool" where
  "name_isValid name \<longleftrightarrow> name \<noteq> []"

section \<open>Encoding\<close>

definition token_esc :: "string \<Rightarrow> string" where
  "token_esc s = map (\<lambda>c. if c = CHR ''='' then CHR 0x60 else c) (map (\<lambda>c. if c = CHR ''+'' then CHR 0x27 else c) s)"

definition token_unesc :: "string \<Rightarrow> string" where
  "token_unesc s = map (\<lambda>c. if c = CHR 0x60 then CHR ''='' else c) (map (\<lambda>c. if c = CHR 0x27 then CHR ''+'' else c) s)"

definition encode_item :: "bool \<Rightarrow> nv \<Rightarrow> string \<Rightarrow> string" where
  "encode_item firstParam nvpair stateToken =
     stateToken @ (if firstParam then [] else ''.'') @ c_prefix (nv_name nvpair) @ ''~'' @
     token_esc (b64_encode (bytes_of (nv_value nvpair)) RFC4648MimeAlphabet)"

text \<open>The loop over the iterator \<open>i\<close>; the fuel bounds its rounds.\<close>

fun encode_loop :: "nat \<Rightarrow> nv ulist \<Rightarrow> nat \<Rightarrow> bool \<Rightarrow> string \<Rightarrow> (nv ulist \<times> string) option" where
  "encode_loop fuel l i firstParam stateToken =
     (case fuel of
        0 \<Rightarrow> None
      | Suc f \<Rightarrow> do {
          (l1, r) \<leftarrow> iter_step l i;
          case r of
            None \<Rightarrow> Some (l1, stateToken)
          | Some nvpair \<Rightarrow> encode_loop f l1 i False (encode_item firstParam (snd nvpair) stateToken) })"

declare encode_loop.simps [simp del]

definition signature_of :: "route_env \<Rightarrow> string \<Rightarrow> string \<Rightarrow> string \<Rightarrow> string \<Rightarrow> string option" where
  "signature_of env secret callId nvpairs output = do {
     c \<leftarrow> hash_pieces (NetMd5Codec_new (mem_garbage env 64)) [bytes_of secret, bytes_of callId, bytes_of nvpairs];
     (c1, s) \<leftarrow> appendHashValue c output;
     Some s }"

definition RouteState_encode ::
  "route_env \<Rightarrow> string \<Rightarrow> route_state \<Rightarrow> string \<Rightarrow> (route_state \<times> string) option" where
  "RouteState_encode env secret rs stateToken = do {
     (l1, token) \<leftarrow> encode_loop (Suc (length (nodes (mValues rs)))) (iter_new (mValues rs) 0) 0 True stateToken;
     token' \<leftarrow> signature_of env secret (mCallId rs) token (token @ ''!'');
     Some (rs\<lparr>mValues := iter_delete l1 0\<rparr>, token') }"

section \<open>Decoding\<close>

definition one_star :: "string \<Rightarrow> bool" where
  "one_star names \<longleftrightarrow>
     (let star = length (takeWhile (\<lambda>c. c \<noteq> CHR ''*'') names) in
      star < length names \<and> CHR ''*'' \<notin> set (drop (Suc star) names))"

definition chars_of :: "byte list \<Rightarrow> string" where
  "chars_of bs = map (\<lambda>b. char_of (unat b)) bs"

text \<open>The object \<open>new NameValuePair\<close> gives; its address is one that no object has.\<close>

definition nv_insert :: "nv ulist \<Rightarrow> nv \<Rightarrow> nv ulist" where
  "nv_insert l p = sorted_insert nv_cmp nv_hash l (linkPool l, p)"

text \<open>One pair of the token: the list with the pair inserted, and \<open>decodedOk\<close>.\<close>

definition decode_item :: "route_env \<Rightarrow> regex \<Rightarrow> nv ulist \<Rightarrow> (nv ulist \<times> bool) option" where
  "decode_item env re values = do {
     (m1, had1) \<leftarrow> MatchString re (Some []) 1;
     names \<leftarrow> m1;
     if one_star names then do {
       (m2, had2) \<leftarrow> MatchString re (Some []) 2;
       encodedValue \<leftarrow> m2;
       (decodedOk, decodedValue) \<leftarrow>
         (if had2 \<and> encodedValue \<noteq> [] then
            b64_decode_str (b64s env) (mem_garbage env) (token_unesc encodedValue) RFC4648MimeAlphabet
          else Some (True, []));
       Some (if decodedOk then (nv_insert values (NameValuePair names (chars_of decodedValue)), True)
             else (values, False))
     } else Some (values, False) }"

fun nv_loop :: "route_env \<Rightarrow> nat \<Rightarrow> regex \<Rightarrow> nv ulist \<Rightarrow> (nv ulist \<times> bool) option" where
  "nv_loop env fuel re values =
     (case fuel of
        0 \<Rightarrow> None
      | Suc f \<Rightarrow> do {
          (values1, decodedOk) \<leftarrow> decode_item env re values;
          if decodedOk then do {
            (re1, more) \<leftarrow> SearchAgain (nv_exec env) re False;
            if more then nv_loop env f re1 values1 else Some (values1, True)
          } else Some (values1, False) })"

declare nv_loop.simps [simp del]

definition token_block :: "string \<Rightarrow> bytes" where
  "token_block token = map Some token @ [Some NUL]"

text \<open>
  The state and whether the token was accepted. The fuel of the loop over the pairs is more
  than the number of characters, of which every match takes some.
\<close>

definition RouteState_decode ::
  "route_env \<Rightarrow> string \<Rightarrow> route_state \<Rightarrow> string \<Rightarrow> (route_state \<times> bool) option" where
  "RouteState_decode env secret rs stateToken = do {
     (values0, deleted) \<leftarrow> list_destroyAll (mValues rs);
     let rs0 = rs\<lparr>mValues := values0\<rparr>;
     (re, found) \<leftarrow> Search (ss_exec env) (RegEx_new 2 (vec_garbage env)) (token_block stateToken) (-1) False;
     if found then do {
       (had, nvpairsOffset, nvpairsLength) \<leftarrow> Match re 1;
       validSignature \<leftarrow> signature_of env secret (mCallId rs) (take (nat nvpairsLength) stateToken) [];
       (m2, had2) \<leftarrow> MatchString re (Some []) 2;
       actualSignature \<leftarrow> m2;
       if str_cmp actualSignature validSignature = 0 then do {
         (re1, found1) \<leftarrow> Search (nv_exec env) (RegEx_new 2 (vec_garbage env)) (token_block stateToken)
                            (int (length stateToken)) True;
         (values1, decodedOk) \<leftarrow> nv_loop env (Suc (length stateToken)) re1 values0;
         if decodedOk then Some (rs\<lparr>mValues := values1\<rparr>, True)
         else do { (values2, deleted2) \<leftarrow> list_destroyAll values1; Some (rs\<lparr>mValues := values2\<rparr>, False) }
       } else Some (rs0, False)
     } else Some (rs0, False) }"

section \<open>Parameters\<close>

text \<open>Whether the parameter was found, and its value.\<close>

definition getParameter :: "route_env \<Rightarrow> route_state \<Rightarrow> string \<Rightarrow> string \<Rightarrow> (bool \<times> string) option" where
  "getParameter env rs pluginInstance parameterName = do {
     name \<leftarrow> RouteParameterName env pluginInstance parameterName;
     Some (if name_isValid name then
             (case sorted_find nv_cmp (mValues rs) (NV name []) of
                Some parameter \<Rightarrow> (True, nv_value (snd parameter))
              | None \<Rightarrow> (False, []))
           else (False, [])) }"

definition nv_setValue :: "nv ulist \<Rightarrow> nat \<Rightarrow> string \<Rightarrow> nv ulist" where
  "nv_setValue l r newValue =
     l\<lparr>nodes := map (\<lambda>n. if nref n = r then n\<lparr>nobj := nv_put (nobj n) newValue\<rparr> else n) (nodes l)\<rparr>"

definition setParameter ::
  "route_env \<Rightarrow> route_state \<Rightarrow> string \<Rightarrow> string \<Rightarrow> string \<Rightarrow> route_state option" where
  "setParameter env rs pluginInstance parameterName parameterValue =
     (if mMayBeMutable rs then do {
        name \<leftarrow> RouteParameterName env pluginInstance parameterName;
        if name_isValid name then
          (case sorted_find nv_cmp (mValues rs) (NV name []) of
             Some parameter \<Rightarrow>
               Some (rs\<lparr>mValues := nv_setValue (mValues rs) (fst parameter) parameterValue, mModified := True\<rparr>)
           | None \<Rightarrow>
               Some (rs\<lparr>mValues := nv_insert (mValues rs) (NameValuePair name parameterValue), mModified := True\<rparr>))
        else Some rs
      } else Some rs)"

definition unsetParameter :: "route_env \<Rightarrow> route_state \<Rightarrow> string \<Rightarrow> string \<Rightarrow> route_state option" where
  "unsetParameter env rs pluginInstance parameterName =
     (if mMayBeMutable rs then do {
        name \<leftarrow> RouteParameterName env pluginInstance parameterName;
        Some (if name_isValid name
              then rs\<lparr>mValues := fst (destroy_with (sorted_remove nv_cmp) (mValues rs) (NV name []))\<rparr> else rs)
      } else Some rs)"

definition addCopy :: "route_state \<Rightarrow> route_state" where
  "addCopy rs = rs\<lparr>mAddCopyRequested := True\<rparr>"

definition markDialogAsAuthorized :: "route_env \<Rightarrow> route_state \<Rightarrow> route_state option" where
  "markDialogAsAuthorized env rs =
     (if mMayBeMutable rs then setParameter env rs [] AUTHORIZED_DIALOG_PARAM [] else Some rs)"

definition isDialogAuthorized :: "route_env \<Rightarrow> route_state \<Rightarrow> bool option" where
  "isDialogAuthorized env rs = map_option fst (getParameter env rs [] AUTHORIZED_DIALOG_PARAM)"

text \<open>The \<open>assert\<close> on the instance name; the new state, whether the tag was found, and the
  tag.\<close>

definition originalCallerFromTagValue ::
  "route_env \<Rightarrow> route_state \<Rightarrow> string \<Rightarrow> (route_state \<times> bool \<times> string) option" where
  "originalCallerFromTagValue env rs instanceName =
     (if instanceName = [] then None
      else do {
        (originalFromTagFound, fromTagValue) \<leftarrow> getParameter env rs [] ''from'';
        if \<not> originalFromTagFound then
          if mMayBeMutable rs then do {
            rs1 \<leftarrow> setParameter env rs [] ''from'' (mFromTag rs);
            Some (rs1, True, fromTagValue @ mFromTag rs)
          } else Some (rs, False, fromTagValue)
        else Some (rs, True, fromTagValue) })"

definition directionIsCallerToCalled :: "route_env \<Rightarrow> route_state \<Rightarrow> string \<Rightarrow> (route_state \<times> bool) option" where
  "directionIsCallerToCalled env rs instanceName =
     (if instanceName = [] then None
      else do {
        (rs1, found, originalFromTag) \<leftarrow> originalCallerFromTagValue env rs instanceName;
        Some (rs1, found \<and> str_casecmp originalFromTag (mFromTag rs) = 0) })"

section \<open>Reading a message and updating it\<close>

definition contains_sub :: "string \<Rightarrow> string \<Rightarrow> bool" where
  "contains_sub s p \<longleftrightarrow> list_ex (\<lambda>i. take (length p) (drop i s) = p) [0..<Suc (length s)]"

fun scan_routes :: "route_env \<Rightarrow> url_ops \<Rightarrow> string \<Rightarrow> route_state \<Rightarrow> string list \<Rightarrow> route_state option" where
  "scan_routes env url secret rs [] = Some rs"
| "scan_routes env url secret rs (route # routes) =
     (if mFoundRouteState rs then Some rs
      else if contains_sub route UrlParameterName then
        (case url_getParam url route of
           Some routeStateValue \<Rightarrow> do {
             (rs1, ok) \<leftarrow> RouteState_decode env secret rs routeStateValue;
             scan_routes env url secret (rs1\<lparr>mFoundRouteState := ok\<rparr>) routes }
         | None \<Rightarrow> scan_routes env url secret rs routes)
      else scan_routes env url secret rs routes)"

fun scan_record_routes ::
  "route_env \<Rightarrow> url_ops \<Rightarrow> string \<Rightarrow> route_state \<Rightarrow> string list \<Rightarrow> nat \<Rightarrow> route_state option" where
  "scan_record_routes env url secret rs [] rrNum = Some rs"
| "scan_record_routes env url secret rs (recordRoute # rrs) rrNum =
     (if contains_sub recordRoute UrlParameterName then
        (case url_getParam url recordRoute of
           Some routeStateValue \<Rightarrow> do {
             (rs1, found) \<leftarrow> RouteState_decode env secret rs routeStateValue;
             scan_record_routes env url secret
               (rs1\<lparr>mRecordRouteIndices := mRecordRouteIndices rs1 @ (if found then [rrNum] else []),
                    mFoundRouteState := mFoundRouteState rs1 \<or> found\<rparr>) rrs (Suc rrNum) }
         | None \<Rightarrow> scan_record_routes env url secret rs rrs (Suc rrNum))
      else scan_record_routes env url secret
             (if str_cmp (url_hostPort url recordRoute) (mRouteHostPort rs) = 0
              then rs\<lparr>mRecordRouteIndices := mRecordRouteIndices rs @ [rrNum]\<rparr> else rs) rrs (Suc rrNum))"

definition SIP_ACK_METHOD :: string where "SIP_ACK_METHOD = ''ACK''"

definition RouteState_new ::
  "route_env \<Rightarrow> url_ops \<Rightarrow> string \<Rightarrow> sip_message \<Rightarrow> string list \<Rightarrow> string \<Rightarrow> route_state option" where
  "RouteState_new env url secret message removedRoutes routeHostPort = do {
     let rs0 = \<lparr>mRouteHostPort = routeHostPort, mMayBeMutable = False, mRecordRouteIndices = [],
                mModified = False, mFoundRouteState = False, mAddCopyRequested = False,
                mValues = UtlList_new, mCallId = callIdField message,
                mFromTag = (case fromTag message of Some t \<Rightarrow> t | None \<Rightarrow> [])\<rparr>;
     rs1 \<leftarrow> scan_routes env url secret rs0 removedRoutes;
     if \<not> mFoundRouteState rs1 then do {
       rs2 \<leftarrow> scan_record_routes env url secret rs1 (concat (recordRoutes message)) 0;
       Some (if \<not> isResponse message then
               if mFoundRouteState rs2 then rs2\<lparr>mMayBeMutable := True\<rparr>
               else if str_casecmp (requestMethod message) SIP_ACK_METHOD \<noteq> 0 \<and> toTag message = None
               then rs2\<lparr>mMayBeMutable := True\<rparr> else rs2
             else rs2)
     } else Some rs1 }"

text \<open>
  The accessors of the message: a Record-Route URI is numbered across the headers, but
  \<open>setRecordRouteField\<close> replaces the header of that number, or adds one at the end.
\<close>

definition getRecordRouteUri :: "sip_message \<Rightarrow> nat \<Rightarrow> string" where
  "getRecordRouteUri request i =
     (let rrs = concat (recordRoutes request) in if i < length rrs then rrs ! i else [])"

definition setRecordRouteField :: "sip_message \<Rightarrow> string \<Rightarrow> nat \<Rightarrow> sip_message" where
  "setRecordRouteField request value i =
     request\<lparr>recordRoutes := (if i < length (recordRoutes request) then (recordRoutes request)[i := [value]]
                             else recordRoutes request @ [[value]])\<rparr>"

definition addRecordRouteUri :: "sip_message \<Rightarrow> string \<Rightarrow> sip_message" where
  "addRecordRouteUri request uri =
     request\<lparr>recordRoutes := [if CHR ''<'' \<in> set uri then uri else ''<'' @ uri @ ''>''] # recordRoutes request\<rparr>"

text \<open>Rewriting the recorded headers; the URI written last stays in \<open>routeValue\<close>.\<close>

fun rewrite_routes :: "url_ops \<Rightarrow> string \<Rightarrow> sip_message \<Rightarrow> string \<Rightarrow> nat list \<Rightarrow> sip_message \<times> string" where
  "rewrite_routes url token request routeValue [] = (request, routeValue)"
| "rewrite_routes url token request routeValue (pos # ps) =
     (let routeValue1 = url_setParam url (getRecordRouteUri request pos) token
      in rewrite_routes url token (setRecordRouteField request routeValue1 pos) routeValue1 ps)"

definition RouteState_update ::
  "route_env \<Rightarrow> url_ops \<Rightarrow> string \<Rightarrow> route_state \<Rightarrow> sip_message \<Rightarrow> (route_state \<times> sip_message) option" where
  "RouteState_update env url secret rs request =
     (if mMayBeMutable rs then
        if mModified rs \<or> mAddCopyRequested rs then do {
          (rs1, token) \<leftarrow> RouteState_encode env secret rs [];
          let routeValue = url_make url (mRouteHostPort rs1) token;
          let (request1, routeValue1) =
            (if mRecordRouteIndices rs1 = [] then (addRecordRouteUri request routeValue, routeValue)
             else rewrite_routes url token request routeValue (mRecordRouteIndices rs1));
          let request2 =
            (if mAddCopyRequested rs1 \<and> (mRecordRouteIndices rs1 = [] \<or> hd (mRecordRouteIndices rs1) \<noteq> 0)
             then addRecordRouteUri request1 routeValue1 else request1);
          Some (rs1, request2)
        } else Some (rs, request)
      else Some (rs, request))"

text \<open>\<open>setSecret\<close> replaces the signing secret of the class.\<close>

definition setSecret :: "string \<Rightarrow> string \<Rightarrow> string" where
  "setSecret old secret = c_prefix secret"

end
