(* ===== verification/RouteToken.thy ===== *)
theory RouteToken
  imports RouteState
begin

text \<open>
  The token of theory \<open>RouteState\<close>: what the regular expressions match, and that decoding a
  token that was encoded with the same secret for the same call gives the parameters back.
\<close>

section \<open>What the regular expressions match\<close>

text \<open>\<^verbatim>\<open>^[a-z0-9_-]*$\<close> without regard to case.\<close>

definition pn_char :: "char \<Rightarrow> bool" where
  "pn_char c \<longleftrightarrow> isalnum c \<or> c = CHR ''_'' \<or> c = CHR ''-''"

definition pn_matches :: "string \<Rightarrow> bool" where
  "pn_matches s \<longleftrightarrow> list_all pn_char s \<or> (s \<noteq> [] \<and> last s = CHR 0x0A \<and> list_all pn_char (butlast s))"

definition pn_law :: "pcre_exec \<Rightarrow> bool" where
  "pn_law exec \<longleftrightarrow> (\<forall>s vec. length vec = 3 \<longrightarrow>
     (let (rc, vec') = exec s 0 False vec in length vec' = 3 \<and> (0 < rc \<longleftrightarrow> pn_matches s)))"

text \<open>The pattern of one pair, \<^verbatim>\<open>(NAME)~(VALUE)[.!]\<close>: a maximal run of at least two name
  characters, since \<^verbatim>\<open>~\<close> is not one, and a maximal run of value characters. The lengths of
  the two groups of a match at \<open>i\<close>.\<close>

definition name_char :: "char \<Rightarrow> bool" where
  "name_char c \<longleftrightarrow> isalnum c \<or> c = CHR ''*'' \<or> c = CHR ''_'' \<or> c = CHR ''-''"

definition value_char :: "char \<Rightarrow> bool" where
  "value_char c \<longleftrightarrow> isalnum c \<or> c = CHR 0x27 \<or> c = CHR ''/'' \<or> c = CHR 0x60"

definition nv_at :: "string \<Rightarrow> nat \<Rightarrow> (nat \<times> nat) option" where
  "nv_at s i =
     (let n = length (takeWhile name_char (drop i s));
          r = drop (i + n) s;
          v = length (takeWhile value_char (tl r));
          e = drop (Suc v) r
      in if 2 \<le> n \<and> r \<noteq> [] \<and> hd r = CHR ''~'' \<and> e \<noteq> [] \<and> (hd e = CHR ''.'' \<or> hd e = CHR ''!'')
         then Some (n, v) else None)"

text \<open>The leftmost match from \<open>i\<close> on.\<close>

function nv_find :: "string \<Rightarrow> nat \<Rightarrow> (nat \<times> nat \<times> nat) option" where
  "nv_find s i =
     (if length s \<le> i then None
      else case nv_at s i of Some (n, v) \<Rightarrow> Some (i, n, v) | None \<Rightarrow> nv_find s (Suc i))"
  by pat_completeness auto
termination by (relation "measure (\<lambda>(s, i). length s - i)") auto

declare nv_find.simps [simp del]

definition nv_ref :: "string \<Rightarrow> nat \<Rightarrow> bool \<Rightarrow> (nat \<times> nat \<times> nat) option" where
  "nv_ref s i anchored = (if anchored then map_option (\<lambda>(n, v). (i, n, v)) (nv_at s i) else nv_find s i)"

definition nv_vector :: "nat \<times> nat \<times> nat \<Rightarrow> int list" where
  "nv_vector m = (case m of (i, n, v) \<Rightarrow> map int [i, i + n + v + 2, i, i + n, i + n + 1, i + n + 1 + v])"

definition nv_law :: "(string \<Rightarrow> bool) \<Rightarrow> pcre_exec \<Rightarrow> bool" where
  "nv_law fits exec \<longleftrightarrow> (\<forall>s i anchored vec. i \<le> length s \<longrightarrow> length vec = 9 \<longrightarrow>
     (let (rc, vec') = exec s (int i) anchored vec in
        length vec' = 9 \<and>
        (0 < rc \<longrightarrow> (\<exists>m. nv_ref s i anchored = Some m \<and> rc = 3 \<and> take 6 vec' = nv_vector m)) \<and>
        (fits s \<and> nv_ref s i anchored \<noteq> None \<longrightarrow> 0 < rc)))"

text \<open>
  The pattern of the whole token, \<^verbatim>\<open>^(PAIR(?:.PAIR)*)!([0-9a-fA-F]{32})$\<close> with \<^verbatim>\<open>NAME~VALUE\<close> for \<^verbatim>\<open>PAIR\<close>. The dot between pairs is not
  escaped, so that any character but a newline (here the default of the library, LF) may stand there, and the dollar sign also matches in front of a newline at the end. Where the exclamation mark
  has to be follows from the end of the subject, so that there is at most one way to set the groups.
\<close>

definition is_pair :: "string \<Rightarrow> bool" where
  "is_pair p \<longleftrightarrow> (\<exists>name value. p = name @ ''~'' @ value \<and> 2 \<le> length name \<and> list_all name_char name \<and> list_all value_char value)"

inductive is_pairs :: "string \<Rightarrow> bool" where
  single: "is_pair p \<Longrightarrow> is_pairs p"
| more: "is_pair p \<Longrightarrow> c \<noteq> CHR 0x0A \<Longrightarrow> is_pairs ps \<Longrightarrow> is_pairs (p @ c # ps)"

text \<open>The same, to compute: the name ends at the \<^verbatim>\<open>~\<close>, the value may be shorter than the run of value characters.\<close>

function pairs_match :: "string \<Rightarrow> bool" where
  "pairs_match s =
     (let v = tl (dropWhile name_char s) in
      if 2 \<le> length (takeWhile name_char s) \<and> take 1 (dropWhile name_char s) = ''~'' then
        list_all value_char v \<or>
        list_ex (\<lambda>k. k < length v \<and> v ! k \<noteq> CHR 0x0A \<and> pairs_match (drop (Suc k) v)) [0..<Suc (length (takeWhile value_char v))]
      else False)"
  by pat_completeness auto
termination
proof (relation "measure length")
  fix s v :: string and k
  assume "v = tl (dropWhile name_char s)" "2 \<le> length (takeWhile name_char s) \<and> take 1 (dropWhile name_char s) = ''~''"
  moreover have "length s = length (takeWhile name_char s) + length (dropWhile name_char s)" by (metis length_append takeWhile_dropWhile_id)
  ultimately show "(drop (Suc k) v, s) \<in> measure length" by (simp only: in_measure length_drop length_tl) linarith
qed simp

declare pairs_match.simps [simp del]

definition isxdigit :: "char \<Rightarrow> bool" where
  "isxdigit c = (c \<in> set ''0123456789abcdefABCDEF'')"

text \<open>The length of the first group.\<close>

definition ss_ref :: "string \<Rightarrow> nat option" where
  "ss_ref s =
     (let t = (if s \<noteq> [] \<and> last s = CHR 0x0A then butlast s else s); n = length t - 33
      in if 33 \<le> length t \<and> pairs_match (take n t) \<and> t ! n = CHR ''!'' \<and> list_all isxdigit (drop (Suc n) t) then Some n else None)"

definition ss_vector :: "nat \<Rightarrow> int list" where
  "ss_vector n = map int [0, n + 33, 0, n, n + 1, n + 33]"

definition ss_law :: "(string \<Rightarrow> bool) \<Rightarrow> pcre_exec \<Rightarrow> bool" where
  "ss_law fits exec \<longleftrightarrow> (\<forall>s vec. length vec = 9 \<longrightarrow>
     (let (rc, vec') = exec s 0 False vec in
        length vec' = 9 \<and>
        (0 < rc \<longrightarrow> (\<exists>n. ss_ref s = Some n \<and> rc = 3 \<and> take 6 vec' = ss_vector n)) \<and>
        (fits s \<and> ss_ref s \<noteq> None \<longrightarrow> 0 < rc)))"

text \<open>All that is assumed of the environment.\<close>

definition env_law :: "(string \<Rightarrow> bool) \<Rightarrow> route_env \<Rightarrow> bool" where
  "env_law fits env \<longleftrightarrow> pn_law (pn_exec env) \<and> ss_law fits (ss_exec env) \<and> nv_law fits (nv_exec env) \<and>
     b64_search_law (b64s env) \<and> (\<forall>n. length (mem_garbage env n) = n) \<and> 9 \<le> length (vec_garbage env)"

text \<open>An environment that behaves so.\<close>

definition pn_exec_ref :: pcre_exec where
  "pn_exec_ref s start anchored vec = (if pn_matches s then (1, vec) else (-1, vec))"

definition ss_exec_ref :: pcre_exec where
  "ss_exec_ref s start anchored vec = (case ss_ref s of None \<Rightarrow> (-1, vec) | Some n \<Rightarrow> (3, ss_vector n @ drop 6 vec))"

definition nv_exec_ref :: pcre_exec where
  "nv_exec_ref s start anchored vec =
     (case nv_ref s (nat start) anchored of None \<Rightarrow> (-1, vec) | Some m \<Rightarrow> (3, nv_vector m @ drop 6 vec))"

definition ref_env :: route_env where
  "ref_env = \<lparr>pn_exec = pn_exec_ref, ss_exec = ss_exec_ref, nv_exec = nv_exec_ref, b64s = b64_search_run,
              mem_garbage = (\<lambda>n. replicate n 0), vec_garbage = replicate 9 0\<rparr>"

lemma length_nv_vector [simp]: "length (nv_vector m) = 6" and length_ss_vector [simp]: "length (ss_vector n) = 6"
  by (simp_all add: nv_vector_def ss_vector_def split: prod.splits)

lemma ref_env_law: "env_law (\<lambda>_. True) ref_env"
proof -
  have "pn_law pn_exec_ref" by (simp add: pn_law_def pn_exec_ref_def)
  moreover have "ss_law (\<lambda>_. True) ss_exec_ref"
    unfolding ss_law_def ss_exec_ref_def by (auto split: option.splits)
  moreover have "nv_law (\<lambda>_. True) nv_exec_ref"
    unfolding nv_law_def nv_exec_ref_def by (auto split: option.splits)
  ultimately show ?thesis by (simp add: env_law_def ref_env_def b64_search_run_law)
qed

section \<open>Character classes\<close>

lemma separators [simp]:
  "\<not> name_char CHR ''~''" "\<not> value_char CHR ''.''" "\<not> value_char CHR ''!''" "\<not> value_char CHR ''~''"
  "\<not> name_char CHR ''.''" "\<not> name_char CHR ''!''"
  "isxdigit CHR ''0''" "\<not> isxdigit CHR ''~''"
  by code_simp+

lemma name_char_not_NUL: "name_char c \<Longrightarrow> c \<noteq> NUL" and value_char_not_NUL: "value_char c \<Longrightarrow> c \<noteq> NUL"
proof -
  have "\<not> name_char NUL" "\<not> value_char NUL" by code_simp+
  then show "name_char c \<Longrightarrow> c \<noteq> NUL" "value_char c \<Longrightarrow> c \<noteq> NUL" by auto
qed

text \<open>Escaping takes base64 to value characters and can be undone.\<close>

lemma token_esc_base64:
  assumes "set s \<subseteq> set RFC4648MimeAlphabet"
  shows "list_all value_char (token_esc s)" and "token_unesc (token_esc s) = s"
proof -
  have all: "list_all (\<lambda>c. value_char (hd (token_esc [c])) \<and> hd (token_unesc (token_esc [c])) = c) RFC4648MimeAlphabet"
    by code_simp
  have "token_esc s = map (\<lambda>c. hd (token_esc [c])) s" by (simp add: token_esc_def)
  then show "list_all value_char (token_esc s)"
    using all assms by (auto simp: list_all_iff)
  have "token_unesc (token_esc s) = map (\<lambda>c. hd (token_unesc (token_esc [c]))) s"
    by (simp add: token_unesc_def token_esc_def)
  then show "token_unesc (token_esc s) = s"
    using all assms by (auto simp: list_all_iff intro!: map_idI)
qed

lemma set_b64_encode: "set (b64_encode data RFC4648MimeAlphabet) \<subseteq> set RFC4648MimeAlphabet"
proof -
  have a: "b64_alphabet RFC4648MimeAlphabet" by (simp add: b64_alphabet_def)
  obtain xs where "b64_encode data RFC4648MimeAlphabet = xs @ replicate (pads (length data)) (RFC4648MimeAlphabet ! PAD_CHAR)"
    "set xs \<subseteq> set (take PAD_CHAR RFC4648MimeAlphabet)" using b64_encode_shape [OF a] by blast
  moreover have "RFC4648MimeAlphabet ! PAD_CHAR \<in> set RFC4648MimeAlphabet"
    using alphabet_facts(1) [OF a] by (simp add: PAD_CHAR_def)
  ultimately show ?thesis using set_take_subset [of PAD_CHAR RFC4648MimeAlphabet] by auto
qed

definition encoded_value :: "string \<Rightarrow> string" where
  "encoded_value v = token_esc (b64_encode (bytes_of v) RFC4648MimeAlphabet)"

lemma encoded_value_facts:
  "list_all value_char (encoded_value v)"
  "token_unesc (encoded_value v) = b64_encode (bytes_of v) RFC4648MimeAlphabet"
  unfolding encoded_value_def using token_esc_base64 [OF set_b64_encode] by blast+

lemma chars_bytes [simp]: "chars_of (bytes_of s) = s"
proof -
  have "unat (word_of_nat (of_char c) :: byte) = of_char c" for c :: char
    by (simp add: unat_of_nat)
  then show ?thesis by (simp add: chars_of_def bytes_of_def comp_def)
qed

lemma decode_encoded_value:
  assumes "env_law fits env" and "encoded_value v \<noteq> []"
  shows "b64_decode_str (b64s env) (mem_garbage env) (token_unesc (encoded_value v)) RFC4648MimeAlphabet
         = Some (True, bytes_of v)"
proof -
  have "bytes_of v \<noteq> []" using assms(2) by (auto simp: encoded_value_def token_esc_def)
  then show ?thesis
    using assms(1) unfolding encoded_value_facts(2) env_law_def by (intro b64_decode_str_ok) (auto simp: b64_alphabet_def)
qed

lemma encoded_value_Nil: "encoded_value v = [] \<longleftrightarrow> v = []"
proof
  assume "encoded_value v = []"
  then have "b64_encode (bytes_of v) RFC4648MimeAlphabet = []" by (simp add: encoded_value_def token_esc_def)
  then have "bytes_of v = []" by (cases "(bytes_of v, RFC4648MimeAlphabet)" rule: b64_encode.cases) auto
  then show "v = []" by (simp add: bytes_of_def)
qed (simp add: encoded_value_def token_esc_def bytes_of_def)

section \<open>The token as text\<close>

definition nv_text :: "nv \<Rightarrow> string" where
  "nv_text p = nv_name p @ ''~'' @ encoded_value (nv_value p)"

fun nv_body :: "bool \<Rightarrow> nv list \<Rightarrow> string" where
  "nv_body firstParam [] = []"
| "nv_body firstParam (p # ps) = (if firstParam then [] else ''.'') @ nv_text p @ nv_body False ps"

definition signature_text :: "string \<Rightarrow> string \<Rightarrow> string \<Rightarrow> string" where
  "signature_text secret callId nvpairs =
     concat (map hex_byte (md5 (bytes_of (secret @ callId @ nvpairs))))"

definition token_text :: "string \<Rightarrow> string \<Rightarrow> nv list \<Rightarrow> string" where
  "token_text secret callId ps = nv_body True ps @ ''!'' @ signature_text secret callId (nv_body True ps)"

lemma signature_of_ok:
  assumes "env_law fits env" and "length secret < 2 ^ 32" "length callId < 2 ^ 32" "length nvpairs < 2 ^ 32"
  shows "signature_of env secret callId nvpairs out = Some (out @ signature_text secret callId nvpairs)"
proof -
  let ?xs = "[bytes_of secret, bytes_of callId, bytes_of nvpairs]"
  have "length (mem_garbage env 64) = 64" using assms(1) by (simp add: env_law_def)
  moreover have "\<forall>x\<in>set ?xs. length x < 2 ^ 32" using assms(2-4) by (simp add: bytes_of_def)
  ultimately have "returns (do { c \<leftarrow> hash_pieces (NetMd5Codec_new (mem_garbage env 64)) ?xs; appendHashValue c out })
      (\<lambda>(c, s). s = out @ concat (map hex_byte (md5 (concat ?xs))) \<and> mFinalized c)"
    by (rule hash_pieces_digest)
  moreover have "concat ?xs = bytes_of (secret @ callId @ nvpairs)" by (simp add: bytes_of_def)
  ultimately show ?thesis
    unfolding returns_iff signature_of_def signature_text_def
    by (auto simp: bind_eq_Some_conv case_prod_unfold simp del: hash_pieces.simps)
qed

lemma encode_loop_ok:
  assumes "list_inv l" and "iters l = [(i, pos)]" and "upcoming (nodes l) pos = Some up"
    and "length up < fuel" and "\<forall>n\<in>set up. nul_free (nv_name (nobj n))"
  shows "\<exists>pos'. encode_loop fuel l i firstParam tok
           = Some (l\<lparr>iters := [(i, pos')]\<rparr>, tok @ nv_body firstParam (map nobj up))"
  using assms
proof (induction fuel arbitrary: l pos up firstParam tok)
  case (Suc f)
  have p: "iter_pos l i = Some pos" using Suc(3) by (simp add: iter_pos_def)
  have sp: "set_pos l i q = l\<lparr>iters := [(i, q)]\<rparr>" for q using Suc(3) by (simp add: set_pos_def)
  show ?case
  proof (cases up)
    case Nil
    then have "iter_step l i = Some (l\<lparr>iters := [(i, OFF_LIST_END)]\<rparr>, None)"
      using Suc(4) p by (simp add: iter_step_def sp)
    then show ?thesis using Nil by (subst encode_loop.simps) auto
  next
    case (Cons n ns)
    let ?l = "l\<lparr>iters := [(i, At (naddr n))]\<rparr>"
    have st: "iter_step l i = Some (?l, Some (ref_of n))"
      using Suc(4) p Cons by (simp add: iter_step_def sp)
    have u: "upcoming (nodes ?l) (At (naddr n)) = Some ns"
      using upcoming_next [OF Suc(2), of pos n ns] Suc(4) Cons by simp
    obtain pos' where "encode_loop f ?l i False (encode_item firstParam (nobj n) tok)
        = Some (?l\<lparr>iters := [(i, pos')]\<rparr>, encode_item firstParam (nobj n) tok @ nv_body False (map nobj ns))"
      using Suc(1) [OF iter_step_inv [OF Suc(2) st] _ u, of False] Suc(5,6) Cons by fastforce
    moreover have "encode_item firstParam (nobj n) tok
        = tok @ (if firstParam then [] else ''.'') @ nv_text (nobj n)"
      using Suc(6) Cons by (simp add: encode_item_def nv_text_def encoded_value_def)
    ultimately show ?thesis using st Cons by (subst encode_loop.simps) (auto simp: ref_of_def)
  qed
qed simp

lemma RouteState_encode_ok:
  assumes env: "env_law fits env" and inv: "list_inv (mValues rs)" "iters (mValues rs) = []"
    and nul: "\<forall>n\<in>set (nodes (mValues rs)). nul_free (nv_name (nobj n))"
    and len: "length secret < 2 ^ 32" "length (mCallId rs) < 2 ^ 32"
      "length (nv_body True (map nobj (nodes (mValues rs)))) < 2 ^ 32"
  shows "RouteState_encode env secret rs [] = Some (rs, token_text secret (mCallId rs) (map nobj (nodes (mValues rs))))"
proof -
  let ?l = "iter_new (mValues rs) 0"
  let ?ps = "map nobj (nodes (mValues rs))"
  have l: "list_inv ?l" "iters ?l = [(0, BeforeFirst)]" "nodes ?l = nodes (mValues rs)"
    using inv by (auto simp: iter_new_def list_inv_def)
  obtain pos' where e: "encode_loop (Suc (length (nodes (mValues rs)))) ?l 0 True []
      = Some (?l\<lparr>iters := [(0, pos')]\<rparr>, nv_body True ?ps)"
    using encode_loop_ok [OF l(1,2), of "nodes (mValues rs)" "Suc (length (nodes (mValues rs)))" True "[]"] l(3) nul
    by (auto simp: upcoming_def)
  have "iter_delete (?l\<lparr>iters := [(0, pos')]\<rparr>) 0 = mValues rs"
    using inv by (cases "mValues rs") (simp add: iter_delete_def iter_new_def)
  then show ?thesis
    using signature_of_ok [OF env len, of "nv_body True ?ps @ ''!''"] e
    by (simp add: RouteState_encode_def token_text_def)
qed

section \<open>The token matches\<close>

definition nv_ok :: "nv \<Rightarrow> bool" where
  "nv_ok p \<longleftrightarrow> list_all name_char (nv_name p) \<and> 2 \<le> length (nv_name p) \<and> one_star (nv_name p)
     \<and> nul_free (nv_value p)"

lemma takeWhile_all: "list_all P xs \<Longrightarrow> ys = [] \<or> \<not> P (hd ys) \<Longrightarrow> takeWhile P (xs @ ys) = xs"
  and dropWhile_all: "list_all P xs \<Longrightarrow> ys = [] \<or> \<not> P (hd ys) \<Longrightarrow> dropWhile P (xs @ ys) = ys"
  by (induction xs) (auto simp: takeWhile_eq_Nil_iff dropWhile_eq_self_iff)

lemma is_pair_text: "nv_ok p \<Longrightarrow> is_pair (nv_text p)"
  unfolding is_pair_def nv_text_def nv_ok_def using encoded_value_facts(1) by blast

lemma no_separator:
  assumes "nv_ok p"
  shows "CHR ''.'' \<notin> set (nv_text p)" and "CHR ''!'' \<notin> set (nv_text p)" and "nul_free (nv_text p)"
proof -
  have v: "c \<in> set (encoded_value (nv_value p)) \<Longrightarrow> value_char c" and n: "c \<in> set (nv_name p) \<Longrightarrow> name_char c" for c
    using assms encoded_value_facts(1) [of "nv_value p"] by (auto simp: nv_ok_def list_all_iff)
  have "CHR ''~'' \<noteq> NUL" by code_simp
  then show "CHR ''.'' \<notin> set (nv_text p)" "CHR ''!'' \<notin> set (nv_text p)" "nul_free (nv_text p)"
    unfolding nv_text_def nul_free_def
    using v [of "CHR ''.''"] v [of "CHR ''!''"] n [of "CHR ''.''"] n [of "CHR ''!''"] v [of NUL] n [of NUL]
      name_char_not_NUL [of NUL] value_char_not_NUL [of NUL] by auto
qed

lemma is_pairs_body:
  assumes "list_all nv_ok ps" and "ps \<noteq> []"
  shows "is_pairs (nv_body True ps)"
  using assms
proof (induction ps rule: induct_list012)
  case (2 p)
  then show ?case using is_pairs.single [OF is_pair_text] by simp
next
  case (3 p q ps)
  then have "is_pairs (nv_text p @ CHR ''.'' # nv_body True (q # ps))" by (intro is_pairs.more is_pair_text) simp_all
  then show ?case by simp
qed simp

lemma pairs_match_unfold:
  "pairs_match s \<longleftrightarrow> (\<exists>name v. s = name @ ''~'' @ v \<and> 2 \<le> length name \<and> list_all name_char name \<and>
     (list_all value_char v \<or> (\<exists>k < length v. list_all value_char (take k v) \<and> v ! k \<noteq> CHR 0x0A \<and> pairs_match (drop (Suc k) v))))"
  (is "_ \<longleftrightarrow> (\<exists>name v. ?split name v)")
proof -
  let ?n = "takeWhile name_char s" and ?v = "tl (dropWhile name_char s)"
  have run: "k < Suc (length (takeWhile P v)) \<longleftrightarrow> list_all P (take k v)" if "k < length v" for k v and P :: "char \<Rightarrow> bool"
  proof -
    have "list_all P (take k v) \<longleftrightarrow> (\<forall>i < k. P (v ! i))" using that by (simp add: list_all_length)
    moreover have "P (v ! i)" if "i < length (takeWhile P v)" for i using that by (metis nth_mem set_takeWhileD takeWhile_nth)
    moreover have "\<not> P (v ! length (takeWhile P v))" if "length (takeWhile P v) < k" using that \<open>k < length v\<close> by (intro nth_length_takeWhile) simp
    ultimately show ?thesis by (meson less_Suc_eq_le less_le_trans not_le)
  qed
  have ex: "list_ex (\<lambda>k. k < length ?v \<and> ?v ! k \<noteq> CHR 0x0A \<and> pairs_match (drop (Suc k) ?v)) [0..<Suc (length (takeWhile value_char ?v))] \<longleftrightarrow>
      (\<exists>k < length ?v. list_all value_char (take k ?v) \<and> ?v ! k \<noteq> CHR 0x0A \<and> pairs_match (drop (Suc k) ?v))"
    unfolding list_ex_iff set_upt using run [of _ ?v value_char] by (auto simp del: upt_Suc)
  have first: "take 1 r = ''~'' \<longleftrightarrow> r = ''~'' @ tl r" for r :: string by (cases r) auto
  note m = pairs_match.simps [of s, unfolded Let_def ex first]
  show ?thesis
  proof
    assume "pairs_match s"
    then have h: "2 \<le> length ?n" "dropWhile name_char s = ''~'' @ ?v"
      "list_all value_char ?v \<or> (\<exists>k < length ?v. list_all value_char (take k ?v) \<and> ?v ! k \<noteq> CHR 0x0A \<and> pairs_match (drop (Suc k) ?v))"
      unfolding m by (simp_all only: split: if_splits)
    have "s = ?n @ ''~'' @ ?v" using h(2) takeWhile_dropWhile_id [of name_char s] by (simp only:)
    moreover have "list_all name_char ?n" by (auto simp: list_all_iff dest: set_takeWhileD)
    ultimately show "\<exists>name v. ?split name v" using h(1,3) by (intro exI [of _ ?n] exI [of _ ?v] conjI)
  next
    assume "\<exists>name v. ?split name v"
    then obtain name v where s: "s = name @ ''~'' @ v" "2 \<le> length name" "list_all name_char name"
      "list_all value_char v \<or> (\<exists>k < length v. list_all value_char (take k v) \<and> v ! k \<noteq> CHR 0x0A \<and> pairs_match (drop (Suc k) v))" by blast
    have "?n = name" "dropWhile name_char s = ''~'' @ v"
      using s(1,3) takeWhile_all [of name_char name "''~'' @ v"] dropWhile_all [of name_char name "''~'' @ v"] by simp_all
    then show "pairs_match s" unfolding m using s(2,4) by simp
  qed
qed

lemma pairs_match_iff: "pairs_match s \<longleftrightarrow> is_pairs s"
proof
  show "pairs_match s \<Longrightarrow> is_pairs s"
  proof (induction s rule: length_induct)
    case (1 s)
    then obtain name v where s: "s = name @ ''~'' @ v" "2 \<le> length name" "list_all name_char name"
      and v: "list_all value_char v \<or> (\<exists>k < length v. list_all value_char (take k v) \<and> v ! k \<noteq> CHR 0x0A \<and> pairs_match (drop (Suc k) v))"
      using pairs_match_unfold by metis
    have p: "is_pair (name @ ''~'' @ w)" if "list_all value_char w" for w using s that unfolding is_pair_def by blast
    from v show ?case
    proof (elim disjE exE conjE)
      assume "list_all value_char v"
      then show ?thesis using p s(1) by (simp add: is_pairs.single)
    next
      fix k assume k: "k < length v" "list_all value_char (take k v)" "v ! k \<noteq> CHR 0x0A" "pairs_match (drop (Suc k) v)"
      then have "is_pairs (drop (Suc k) v)" using "1.IH" s(1) by simp
      then have "is_pairs ((name @ ''~'' @ take k v) @ v ! k # drop (Suc k) v)" by (rule is_pairs.more [OF p [OF k(2)] k(3)])
      then show ?thesis using s(1) id_take_nth_drop [OF k(1)] by simp
    qed
  qed
  show "is_pairs s \<Longrightarrow> pairs_match s"
  proof (induction rule: is_pairs.induct)
    case (single p)
    then show ?case unfolding is_pair_def by (subst pairs_match_unfold) blast
  next
    case (more p c ps)
    then obtain name w where p: "p = name @ ''~'' @ w" "2 \<le> length name" "list_all name_char name" "list_all value_char w" unfolding is_pair_def by blast
    show ?case
      by (subst pairs_match_unfold, intro exI [of _ name] exI [of _ "w @ c # ps"] conjI disjI2 exI [of _ "length w"]) (use p more in simp_all)
  qed
qed

text \<open>
  What the unescaped dot lets through: pairs that another character separates, an exclamation mark included. The pattern of one pair does not find such a pair,
  since neither a dot nor an exclamation mark follows it, and goes on to the next one.
\<close>

lemma separator_any:
  "ss_ref (''a*~c?d*~e!'' @ replicate 32 (CHR ''0'')) = Some 9" "ss_ref (''a*~c!d*~e!'' @ replicate 32 (CHR ''0'')) = Some 9"
  "nv_find (''a*~c?d*~e!'' @ replicate 32 (CHR ''0'')) 0 = Some (5, 2, 1)"
  by code_simp+

lemma body_chars:
  assumes "list_all nv_ok ps"
  shows "CHR ''!'' \<notin> set (nv_body firstParam ps)" and "nul_free (nv_body firstParam ps)"
proof -
  have "CHR ''.'' \<noteq> NUL" by code_simp
  then show "CHR ''!'' \<notin> set (nv_body firstParam ps)" "nul_free (nv_body firstParam ps)"
    using assms no_separator by (induction ps arbitrary: firstParam) auto
qed

lemma signature_chars:
  "length (signature_text k c b) = 32" "list_all isxdigit (signature_text k c b)" "nul_free (signature_text k c b)"
  "CHR ''~'' \<notin> set (signature_text k c b)"
proof -
  have s: "set (signature_text k c b) \<subseteq> set ''0123456789abcdef''" and "length (signature_text k c b) = 32"
    unfolding signature_text_def by (rule md5_hex_digits)+
  then show "length (signature_text k c b) = 32" by simp
  have "list_all (\<lambda>x. isxdigit x \<and> x \<noteq> NUL \<and> x \<noteq> CHR ''~'') ''0123456789abcdef''" by code_simp
  then have "x \<in> set ''0123456789abcdef'' \<Longrightarrow> isxdigit x \<and> x \<noteq> NUL \<and> x \<noteq> CHR ''~''" for x
    unfolding list_all_iff by blast
  then have "\<forall>x\<in>set (signature_text k c b). isxdigit x \<and> x \<noteq> NUL \<and> x \<noteq> CHR ''~''" using s by blast
  then show "list_all isxdigit (signature_text k c b)" "nul_free (signature_text k c b)"
    "CHR ''~'' \<notin> set (signature_text k c b)" unfolding list_all_iff nul_free_def by auto
qed

lemma ss_ref_token:
  assumes "list_all nv_ok ps" and "ps \<noteq> []"
  shows "ss_ref (token_text k c ps) = Some (length (nv_body True ps))"
proof -
  let ?b = "nv_body True ps" and ?sig = "signature_text k c (nv_body True ps)"
  have "\<not> isxdigit CHR 0x0A" by code_simp
  then have "last ?sig \<noteq> CHR 0x0A" using signature_chars(1,2) [of k c ?b] last_in_set [of ?sig] unfolding list_all_iff by (metis length_0_conv zero_neq_numeral)
  then have "last (token_text k c ps) \<noteq> CHR 0x0A" using signature_chars(1) [of k c ?b] by (auto simp: token_text_def)
  then show ?thesis
    using is_pairs_body [OF assms] signature_chars(1,2) [of k c ?b] by (simp add: ss_ref_def token_text_def pairs_match_iff)
qed

lemma nv_at_text:
  assumes "nv_ok p" and "sep = CHR ''.'' \<or> sep = CHR ''!''"
  shows "nv_at (pre @ nv_text p @ sep # post) (length pre)
         = Some (length (nv_name p), length (encoded_value (nv_value p)))"
proof -
  let ?s = "pre @ nv_text p @ sep # post"
  let ?e = "encoded_value (nv_value p)"
  have n: "takeWhile name_char (drop (length pre) ?s) = nv_name p"
    using assms(1) takeWhile_all [of name_char "nv_name p" "CHR ''~'' # ?e @ sep # post"]
    by (simp add: nv_text_def nv_ok_def)
  have r: "drop (length pre + length (nv_name p)) ?s = CHR ''~'' # ?e @ sep # post" by (simp add: nv_text_def)
  have v: "takeWhile value_char (?e @ sep # post) = ?e"
    using assms(2) by (intro takeWhile_all encoded_value_facts(1)) auto
  show ?thesis
    unfolding nv_at_def n r Let_def list.sel v using assms by (auto simp: nv_ok_def)
qed

lemma nv_at_tilde: "nv_at s i \<noteq> None \<Longrightarrow> CHR ''~'' \<in> set (drop i s)"
proof -
  assume "nv_at s i \<noteq> None"
  then have "drop (i + length (takeWhile name_char (drop i s))) s \<noteq> []"
    "hd (drop (i + length (takeWhile name_char (drop i s))) s) = CHR ''~''"
    by (auto simp: nv_at_def Let_def split: if_splits)
  then have "CHR ''~'' \<in> set (drop (i + length (takeWhile name_char (drop i s))) s)" by (metis list.set_sel(1))
  then show ?thesis by (metis add.commute drop_drop in_set_dropD)
qed

lemma nv_find_none: "CHR ''~'' \<notin> set (drop i s) \<Longrightarrow> nv_find s i = None"
proof (induction s i rule: nv_find.induct)
  case (1 s i)
  have "nv_at s i = None" using nv_at_tilde [of s i] 1(2) by blast
  moreover have "CHR ''~'' \<notin> set (drop (Suc i) s)"
    using 1(2) by (metis add.commute drop_drop in_set_dropD plus_1_eq_Suc)
  ultimately show ?case using 1(1) by (subst nv_find.simps) auto
qed

text \<open>The object stands on the pair \<open>p\<close> that begins after \<open>pre\<close>.\<close>

definition on_pair :: "regex \<Rightarrow> string \<Rightarrow> string \<Rightarrow> nv \<Rightarrow> bool" where
  "on_pair re s pre p \<longleftrightarrow> subjectStr re = s \<and> lastMatches re = 3 \<and> length (ovector re) = 9 \<and>
     take 6 (ovector re) = nv_vector (length pre, length (nv_name p), length (encoded_value (nv_value p)))"

lemma on_pair_ov:
  assumes "on_pair re s pre p" and "k < 6"
  shows "ov re (int k) = Some (nv_vector (length pre, length (nv_name p), length (encoded_value (nv_value p))) ! k)"
proof -
  have "nv_vector (length pre, length (nv_name p), length (encoded_value (nv_value p))) ! k = ovector re ! k"
    using assms unfolding on_pair_def by (metis nth_take)
  then show ?thesis using assms by (simp add: on_pair_def ov_def)
qed

lemma on_pair_groups:
  assumes "on_pair re (pre @ nv_text p @ post) pre p"
  shows "MatchString re (Some []) 1 = Some (Some (nv_name p), True)"
    and "MatchString re (Some []) 2 = Some (Some (encoded_value (nv_value p)), True)"
    and "ov re 1 = Some (int (length pre + length (nv_text p) + 1))"
proof -
  note o = on_pair_ov [OF assms]
  have s: "subjectStr re = pre @ nv_text p @ post" "lastMatches re = 3" using assms by (simp_all add: on_pair_def)
  show "MatchString re (Some []) 1 = Some (Some (nv_name p), True)"
    using o [of 2] o [of 3] s
    by (auto simp: MatchString_def nv_vector_def subject_part_def subjectLen_def append_to_def nv_text_def Let_def)
  show "MatchString re (Some []) 2 = Some (Some (encoded_value (nv_value p)), True)"
    using o [of 4] o [of 5] s
    by (auto simp: MatchString_def nv_vector_def subject_part_def subjectLen_def append_to_def nv_text_def Let_def
        nat_add_distrib)
  show "ov re 1 = Some (int (length pre + length (nv_text p) + 1))"
    using o [of 1] by (simp add: nv_vector_def nv_text_def)
qed

lemma decode_item_ok:
  assumes "env_law fits env" and "nv_ok p" and "on_pair re (pre @ nv_text p @ post) pre p"
  shows "decode_item env re vals = Some (nv_insert vals p, True)"
proof -
  have "nul_free (nv_name p)"
    using assms(2) name_char_not_NUL by (auto simp: nv_ok_def nul_free_def list_all_iff)
  then have n: "NameValuePair (nv_name p) (nv_value p) = p"
    using assms(2) by (cases p) (simp add: NameValuePair_def nv_ok_def)
  show ?thesis
  proof (cases "encoded_value (nv_value p) = []")
    case True
    then have "NameValuePair (nv_name p) (chars_of []) = p"
      using n by (simp add: chars_of_def encoded_value_Nil)
    then show ?thesis
      using True on_pair_groups [OF assms(3)] assms(2) by (simp add: decode_item_def nv_ok_def)
  next
    case False
    then show ?thesis
      using on_pair_groups [OF assms(3)] assms(2) decode_encoded_value [OF assms(1) False] n
      by (simp add: decode_item_def nv_ok_def)
  qed
qed

lemma nv_exec_cases:
  assumes "env_law fits env" and "i \<le> length s" and "length vec = 9"
  shows "\<exists>rc vec'. nv_exec env s (int i) anchored vec = (rc, vec') \<and> length vec' = 9 \<and>
           (0 < rc \<longrightarrow> (\<exists>m. nv_ref s i anchored = Some m \<and> rc = 3 \<and> take 6 vec' = nv_vector m)) \<and>
           (fits s \<and> nv_ref s i anchored \<noteq> None \<longrightarrow> 0 < rc)"
proof -
  have "let (rc, vec') = nv_exec env s (int i) anchored vec in length vec' = 9 \<and>
        (0 < rc \<longrightarrow> (\<exists>m. nv_ref s i anchored = Some m \<and> rc = 3 \<and> take 6 vec' = nv_vector m)) \<and>
        (fits s \<and> nv_ref s i anchored \<noteq> None \<longrightarrow> 0 < rc)"
    using assms unfolding env_law_def nv_law_def by blast
  then show ?thesis by (auto split: prod.splits)
qed

text \<open>Searching at the beginning of a pair lands on it.\<close>

lemma exec_on_pair:
  assumes env: "env_law fits env" "fits s" and p: "nv_ok p" and sep: "sep = CHR ''.'' \<or> sep = CHR ''!''"
    and s: "s = pre @ nv_text p @ sep # post" and vec: "length vec = 9"
  shows "\<exists>vec'. nv_exec env s (int (length pre)) anchored vec = (3, vec') \<and>
           on_pair \<lparr>substrcount = k, subjectStr = s, lastStart = l, lastMatches = 3, ovector = vec'\<rparr> s pre p"
proof -
  have at: "nv_at s (length pre) = Some (length (nv_name p), length (encoded_value (nv_value p)))"
    unfolding s by (rule nv_at_text [OF p sep])
  then have "nv_find s (length pre) = Some (length pre, length (nv_name p), length (encoded_value (nv_value p)))"
    by (subst nv_find.simps) (simp add: s)
  then have "nv_ref s (length pre) anchored = Some (length pre, length (nv_name p), length (encoded_value (nv_value p)))"
    using at by (simp add: nv_ref_def)
  moreover have "length pre \<le> length s" by (simp add: s)
  ultimately show ?thesis
    using nv_exec_cases [OF env(1) _ vec, of "length pre" s anchored] env(2) by (auto simp: on_pair_def)
qed

section \<open>Decoding an encoded token\<close>

lemma nv_loop_ok:
  assumes env: "env_law fits env" "fits s" and sig: "CHR ''~'' \<notin> set sig" "sig \<noteq> []"
    and "list_all nv_ok (p # ps)" and "s = pre @ nv_text p @ nv_body False ps @ CHR ''!'' # sig"
    and "on_pair re s pre p" and "length ps < fuel"
  shows "nv_loop env fuel re vals = Some (foldl nv_insert vals (p # ps), True)"
  using assms(5,6,7,8)
proof (induction ps arbitrary: p pre re fuel vals)
  case Nil
  obtain f where f: "fuel = Suc f" using Nil(4) by (cases fuel) simp_all
  have s: "s = pre @ nv_text p @ CHR ''!'' # sig" using Nil(2) by simp
  have d: "decode_item env re vals = Some (nv_insert vals p, True)"
    using decode_item_ok [OF env(1)] Nil(1,3) unfolding s by simp
  let ?i = "length pre + length (nv_text p) + 1"
  have start: "ov re 1 = Some (int ?i)" using on_pair_groups(3) [of re pre p] Nil(3) unfolding s by blast
  have "drop ?i s = sig" by (simp add: s)
  then have "nv_find s ?i = None" using sig(1) by (intro nv_find_none) simp
  moreover obtain rc vec' where "nv_exec env s (int ?i) False (ovector re) = (rc, vec')"
    "0 < rc \<longrightarrow> (\<exists>m. nv_ref s ?i False = Some m)"
    using nv_exec_cases [OF env(1), of ?i s "ovector re" False] Nil(3) by (auto simp: s on_pair_def)
  ultimately have "SearchAgain (nv_exec env) re False
      = Some (re\<lparr>lastStart := int ?i, lastMatches := rc, ovector := vec'\<rparr>, False)"
    using start sig(2) Nil(3) unfolding SearchAgain_def
    by (auto simp: subjectLen_def on_pair_def s nv_ref_def)
  then show ?case unfolding f by (subst nv_loop.simps) (simp add: d)
next
  case (Cons q qs)
  obtain f where f: "fuel = Suc f" using Cons(5) by (cases fuel) simp_all
  let ?pre = "pre @ nv_text p @ ''.''"
  have s: "s = pre @ nv_text p @ CHR ''.'' # nv_text q @ nv_body False qs @ CHR ''!'' # sig"
    using Cons(3) by simp
  have d: "decode_item env re vals = Some (nv_insert vals p, True)"
    using decode_item_ok [OF env(1)] Cons(2,4) unfolding s by simp
  have start: "ov re 1 = Some (int (length ?pre))" using on_pair_groups(3) [of re pre p] Cons(4) unfolding s by simp
  obtain sep post where post: "nv_body False qs @ CHR ''!'' # sig = sep # post" "sep = CHR ''.'' \<or> sep = CHR ''!''"
    by (cases qs) auto
  have s': "s = ?pre @ nv_text q @ sep # post" using s post(1) by simp
  obtain vec' where vec: "nv_exec env s (int (length ?pre)) False (ovector re) = (3, vec')"
    "on_pair \<lparr>substrcount = substrcount re, subjectStr = s, lastStart = int (length ?pre), lastMatches = 3, ovector = vec'\<rparr> s ?pre q"
    using exec_on_pair [OF env _ post(2) s', of "ovector re" False] Cons(2,4) by (auto simp: on_pair_def)
  let ?re = "re\<lparr>lastStart := int (length ?pre), lastMatches := 3, ovector := vec'\<rparr>"
  have "on_pair ?re s ?pre q" using vec(2) Cons(4) by (simp add: on_pair_def)
  then have IH: "nv_loop env f ?re (nv_insert vals p) = Some (foldl nv_insert (nv_insert vals p) (q # qs), True)"
    using Cons(2,5) s f by (intro Cons(1)) simp_all
  have "int (length ?pre) < subjectLen re" using Cons(4) s' by (simp add: on_pair_def subjectLen_def)
  then have "SearchAgain (nv_exec env) re False = Some (?re, True)"
    using start vec(1) Cons(4) by (simp add: SearchAgain_def subjectLen_def on_pair_def)
  then show ?case unfolding f using IH by (subst nv_loop.simps) (simp add: d)
qed

text \<open>Inserting pairs in ascending order of their names appends them.\<close>

lemma nv_insert_last:
  assumes "list_inv l" and "\<forall>n\<in>set (nodes l). nv_cmp (nobj n) p < 0"
  shows "list_inv (nv_insert l p)" and "map nobj (nodes (nv_insert l p)) = map nobj (nodes l) @ [p]"
    and "iters (nv_insert l p) = iters l"
proof -
  have "takeWhile (\<lambda>n. nv_cmp (nobj n) p < 0) (nodes l) = nodes l" "dropWhile (\<lambda>n. nv_cmp (nobj n) p < 0) (nodes l) = []"
    using assms(2) by simp_all
  then show "map nobj (nodes (nv_insert l p)) = map nobj (nodes l) @ [p]"
    unfolding nv_insert_def nodes_sorted_insert [OF assms(1)] snd_conv by (simp only: map_append list.map new_link_simps snd_conv)
  show "list_inv (nv_insert l p)"
    unfolding nv_insert_def sorted_insert_def by (rule insert_before_inv [OF assms(1)])
  show "iters (nv_insert l p) = iters l" by (simp add: nv_insert_def sorted_insert_def insert_before_def)
qed

lemma foldl_nv_insert:
  assumes "list_inv l" and "sorted_wrt (\<lambda>p q. nv_cmp p q < 0) (map nobj (nodes l) @ ps)"
  shows "list_inv (foldl nv_insert l ps) \<and> map nobj (nodes (foldl nv_insert l ps)) = map nobj (nodes l) @ ps
           \<and> iters (foldl nv_insert l ps) = iters l"
  using assms
proof (induction ps arbitrary: l)
  case (Cons p ps)
  have "\<forall>n\<in>set (nodes l). nv_cmp (nobj n) p < 0" using Cons(3) by (auto simp: sorted_wrt_append)
  note ins = nv_insert_last [OF Cons(2) this]
  show ?case using Cons(1) [OF ins(1)] Cons(3) ins(2,3) by simp
qed simp

lemma length_nv_body: "list_all nv_ok ps \<Longrightarrow> length ps \<le> length (nv_body firstParam ps)"
proof (induction ps arbitrary: firstParam)
  case (Cons p ps)
  then have "length ps \<le> length (nv_body False ps)" "2 \<le> length (nv_name p)" by (simp_all add: nv_ok_def)
  then show ?case by (simp add: nv_text_def)
qed simp

lemma token_length: "length (token_text k c ps) = length (nv_body True ps) + 33"
  using signature_chars(1) by (simp add: token_text_def)

lemma nul_free_token: "list_all nv_ok ps \<Longrightarrow> nul_free (token_text k c ps)"
proof -
  have "CHR ''!'' \<noteq> NUL" by code_simp
  then show "list_all nv_ok ps \<Longrightarrow> nul_free (token_text k c ps)"
    using body_chars(2) signature_chars(3) by (simp add: token_text_def)
qed

text \<open>The first search: the token with its two groups.\<close>

definition on_token :: "regex \<Rightarrow> string \<Rightarrow> nat \<Rightarrow> bool" where
  "on_token re s n \<longleftrightarrow> subjectStr re = s \<and> lastMatches re = 3 \<and> length (ovector re) = 9 \<and> take 6 (ovector re) = ss_vector n"

lemma on_token_groups:
  assumes "on_token re s n" and "n + 33 \<le> length s"
  shows "Match re 1 = Some (True, 0, int n)" and "MatchString re (Some []) 2 = Some (Some (take 32 (drop (Suc n) s)), True)"
proof -
  have o: "ov re (int k) = Some (ss_vector n ! k)" if "k < 6" for k
  proof -
    have "ss_vector n ! k = ovector re ! k" using assms that unfolding on_token_def by (metis nth_take)
    then show ?thesis using assms that by (simp add: on_token_def ov_def)
  qed
  show "Match re 1 = Some (True, 0, int n)"
    using o [of 2] o [of 3] assms by (simp add: Match_def on_token_def ss_vector_def)
  show "MatchString re (Some []) 2 = Some (Some (take 32 (drop (Suc n) s)), True)"
    using o [of 4] o [of 5] assms
    by (auto simp: MatchString_def on_token_def ss_vector_def subject_part_def subjectLen_def append_to_def Let_def
        nat_add_distrib)
qed

lemma ss_search_cases:
  assumes "env_law fits env"
  shows "\<exists>rc vec'. ss_exec env s 0 False (ovector (RegEx_new 2 (vec_garbage env))) = (rc, vec') \<and> length vec' = 9 \<and>
           (0 < rc \<longrightarrow> (\<exists>n. ss_ref s = Some n \<and> rc = 3 \<and> take 6 vec' = ss_vector n)) \<and>
           (fits s \<and> ss_ref s \<noteq> None \<longrightarrow> 0 < rc)"
proof -
  let ?vec = "ovector (RegEx_new 2 (vec_garbage env))"
  have "length ?vec = 9" using assms by (simp add: RegEx_new_def env_law_def)
  then have "let (rc, vec') = ss_exec env s 0 False ?vec in length vec' = 9 \<and>
        (0 < rc \<longrightarrow> (\<exists>n. ss_ref s = Some n \<and> rc = 3 \<and> take 6 vec' = ss_vector n)) \<and>
        (fits s \<and> ss_ref s \<noteq> None \<longrightarrow> 0 < rc)"
    using assms unfolding env_law_def ss_law_def by blast
  then show ?thesis by (auto split: prod.splits)
qed

lemma ss_Search:
  assumes "nul_free s" and "length s < 2 ^ 31"
  shows "Search (ss_exec env) (RegEx_new 2 g) (token_block s) (-1) False =
     (let (rc, vec) = ss_exec env s 0 False (ovector (RegEx_new 2 g)) in
      Some ((RegEx_new 2 g)\<lparr>subjectStr := s, lastStart := 0, lastMatches := rc, ovector := vec\<rparr>, 0 < rc))"
  unfolding Search_def token_block_def by (simp add: subject_of_cstr [OF assms])

lemma nv_Search:
  "Search (nv_exec env) (RegEx_new 2 g) (token_block s) (int (length s)) True =
     (let (rc, vec) = nv_exec env s 0 True (ovector (RegEx_new 2 g)) in
      Some ((RegEx_new 2 g)\<lparr>subjectStr := s, lastStart := 0, lastMatches := rc, ovector := vec\<rparr>, 0 < rc))"
  unfolding Search_def token_block_def by (simp add: subject_of_data)

lemma destroyAll_ok:
  assumes "list_inv l"
  obtains l' where "list_destroyAll l = Some (l', map nref (nodes l))" "nodes l' = []" "list_inv l'"
    "map fst (iters l') = map fst (iters l)"
  using remove_heads_ok [OF assms, of "[]"] by (auto simp: list_destroyAll_def comp_def ref_of_def)

text \<open>A token written by \<open>encode\<close> for this call and with this secret is accepted, and the
  parameters are those it was written from.\<close>

lemma RouteState_decode_ok:
  assumes env: "env_law fits env" "fits T" and T: "T = token_text secret (mCallId rs) ps"
    and ps: "list_all nv_ok ps" "ps \<noteq> []" "sorted_wrt (\<lambda>p q. nv_cmp p q < 0) ps"
    and inv: "list_inv (mValues rs)" and len: "length secret < 2 ^ 32" "length (mCallId rs) < 2 ^ 32" "length T < 2 ^ 31"
  shows "\<exists>l. RouteState_decode env secret rs T = Some (rs\<lparr>mValues := l\<rparr>, True) \<and> map nobj (nodes l) = ps \<and> list_inv l
           \<and> map fst (iters l) = map fst (iters (mValues rs))"
proof -
  let ?b = "nv_body True ps" and ?sig = "signature_text secret (mCallId rs) (nv_body True ps)"
  obtain l0 where l0: "list_destroyAll (mValues rs) = Some (l0, map nref (nodes (mValues rs)))" "nodes l0 = []" "list_inv l0"
    "map fst (iters l0) = map fst (iters (mValues rs))" by (rule destroyAll_ok [OF inv])
  have nul: "nul_free T" unfolding T by (rule nul_free_token [OF ps(1)])
  have n: "length ?b + 33 = length T" by (simp add: T token_length)
  obtain vec where vec: "ss_exec env T 0 False (ovector (RegEx_new 2 (vec_garbage env))) = (3, vec)"
    "length vec = 9" "take 6 vec = ss_vector (length ?b)"
    using ss_search_cases [OF env(1), of T] env(2) ss_ref_token [OF ps(1,2)] by (auto simp: T)
  define re where "re = (RegEx_new 2 (vec_garbage env))\<lparr>subjectStr := T, lastStart := 0, lastMatches := 3, ovector := vec\<rparr>"
  have on: "on_token re T (length ?b)" using vec by (simp add: on_token_def re_def)
  have "drop (Suc (length ?b)) T = ?sig" by (simp add: T token_text_def)
  then have m2: "MatchString re (Some []) 2 = Some (Some ?sig, True)"
    using on_token_groups(2) [OF on] n signature_chars(1) by simp
  have "take (length ?b) T = ?b" by (simp add: T token_text_def)
  then have sig: "signature_of env secret (mCallId rs) (take (length ?b) T) [] = Some ?sig"
    using signature_of_ok [OF env(1) len(1,2), of ?b "[]"] n len(3) by simp
  obtain p qs where pq: "ps = p # qs" using ps(2) by (cases ps) auto
  obtain sep post where post: "nv_body False qs @ CHR ''!'' # ?sig = sep # post" "sep = CHR ''.'' \<or> sep = CHR ''!''"
    by (cases qs) auto
  have T1: "T = [] @ nv_text p @ nv_body False qs @ CHR ''!'' # ?sig" by (simp add: T token_text_def pq)
  then have T2: "T = [] @ nv_text p @ sep # post" using post by simp
  have g: "length (ovector (RegEx_new 2 (vec_garbage env))) = 9" using env(1) by (simp add: RegEx_new_def env_law_def)
  obtain vec1 where vec1: "nv_exec env T 0 True (ovector (RegEx_new 2 (vec_garbage env))) = (3, vec1)"
    "on_pair \<lparr>substrcount = 3, subjectStr = T, lastStart = 0, lastMatches = 3, ovector = vec1\<rparr> T [] p"
    using exec_on_pair [OF env _ post(2) T2 g, of True 3 0] ps(1) pq by auto
  define re1 where "re1 = (RegEx_new 2 (vec_garbage env))\<lparr>subjectStr := T, lastStart := 0, lastMatches := 3, ovector := vec1\<rparr>"
  have on1: "on_pair re1 T [] p" using vec1(2) by (simp add: on_pair_def re1_def)
  have "length qs < Suc (length T)" using length_nv_body [OF ps(1), of True] n pq by simp
  then have loop: "nv_loop env (Suc (length T)) re1 l0 = Some (foldl nv_insert l0 ps, True)"
    using nv_loop_ok [OF env signature_chars(4) _ _ T1 on1, of "Suc (length T)" l0] ps(1) pq signature_chars(1)
    by (metis length_0_conv zero_neq_numeral)
  have fold: "list_inv (foldl nv_insert l0 ps)" "map nobj (nodes (foldl nv_insert l0 ps)) = ps"
    "iters (foldl nv_insert l0 ps) = iters l0"
    using foldl_nv_insert [OF l0(3), of ps] l0(2) ps(3) by simp_all
  have "Search (ss_exec env) (RegEx_new 2 (vec_garbage env)) (token_block T) (-1) False = Some (re, True)"
    using ss_Search [OF nul len(3), of env "vec_garbage env"] vec(1) by (simp add: re_def)
  moreover have "Search (nv_exec env) (RegEx_new 2 (vec_garbage env)) (token_block T) (int (length T)) True = Some (re1, True)"
    using nv_Search [of env "vec_garbage env" T] vec1(1) by (simp add: re1_def)
  moreover have "str_cmp ?sig ?sig = 0" by (simp add: str_cmp_def)
  ultimately have "RouteState_decode env secret rs T = Some (rs\<lparr>mValues := foldl nv_insert l0 ps\<rparr>, True)"
    using l0(1) on_token_groups(1) [OF on] n m2 sig loop by (simp add: RouteState_decode_def)
  then show ?thesis using fold l0(4) by auto
qed

section \<open>Decoding is defined for every token\<close>

lemma nv_at_bounds:
  assumes "nv_at s i = Some (n, v)"
  shows "2 \<le> n" and "i + n + v + 2 \<le> length s" and "list_all value_char (take v (drop (i + n + 1) s))"
proof -
  let ?n = "length (takeWhile name_char (drop i s))"
  let ?r = "drop (i + ?n) s"
  let ?v = "length (takeWhile value_char (tl ?r))"
  have f: "2 \<le> ?n" "?r \<noteq> []" "drop (Suc ?v) ?r \<noteq> []" "n = ?n" "v = ?v"
    using assms by (auto simp: nv_at_def Let_def split: if_splits)
  then show "2 \<le> n" by simp
  show "i + n + v + 2 \<le> length s" using f(3-5) by simp
  have "drop (i + n + 1) s = tl ?r" using f(4) by (metis Suc_eq_plus1 add_Suc_right drop_Suc tl_drop)
  then have "take v (drop (i + n + 1) s) = takeWhile value_char (tl ?r)"
    using f(5) by (metis takeWhile_eq_take)
  then show "list_all value_char (take v (drop (i + n + 1) s))"
    by (auto simp: list_all_iff dest: set_takeWhileD)
qed

lemma nv_find_at: "nv_find s i = Some (j, n, v) \<Longrightarrow> i \<le> j \<and> nv_at s j = Some (n, v)"
proof (induction s i rule: nv_find.induct)
  case (1 s i)
  show ?case
  proof (cases "nv_at s i")
    case None
    then show ?thesis using 1 nv_find.simps [of s i] by (auto split: if_splits)
  next
    case (Some m)
    then show ?thesis using 1(2) nv_find.simps [of s i] by (auto split: if_splits prod.splits)
  qed
qed

lemma nv_ref_at: "nv_ref s i anchored = Some (j, n, v) \<Longrightarrow> i \<le> j \<and> nv_at s j = Some (n, v)"
  by (auto simp: nv_ref_def dest: nv_find_at split: if_splits)

text \<open>What a search for a pair leaves: no match, or a match at \<open>i\<close>.\<close>

definition pair_state :: "regex \<Rightarrow> string \<Rightarrow> nat \<Rightarrow> nat \<Rightarrow> nat \<Rightarrow> bool" where
  "pair_state re s i n v \<longleftrightarrow> subjectStr re = s \<and> length (ovector re) = 9 \<and> nv_at s i = Some (n, v) \<and>
     lastMatches re = 3 \<and> take 6 (ovector re) = nv_vector (i, n, v)"

lemma pair_state_groups:
  assumes "pair_state re s i n v"
  shows "\<exists>name. MatchString re (Some []) 1 = Some (Some name, True)"
    and "MatchString re (Some []) 2 = Some (Some (take v (drop (i + n + 1) s)), True)"
    and "ov re 1 = Some (int (i + n + v + 2))"
proof -
  have o: "ov re (int k) = Some (nv_vector (i, n, v) ! k)" if "k < 6" for k
  proof -
    have "nv_vector (i, n, v) ! k = ovector re ! k" using assms that unfolding pair_state_def by (metis nth_take)
    then show ?thesis using assms that by (simp add: pair_state_def ov_def)
  qed
  have b: "2 \<le> n" "i + n + v + 2 \<le> length s" and s: "subjectStr re = s" "lastMatches re = 3"
    using assms nv_at_bounds [of s i n v] by (auto simp: pair_state_def)
  show "\<exists>name. MatchString re (Some []) 1 = Some (Some name, True)"
    using o [of 2] o [of 3] b s
    by (auto simp: MatchString_def nv_vector_def subject_part_def subjectLen_def append_to_def Let_def)
  show "MatchString re (Some []) 2 = Some (Some (take v (drop (i + n + 1) s)), True)"
    using o [of 4] o [of 5] b s
    by (auto simp: MatchString_def nv_vector_def subject_part_def subjectLen_def append_to_def Let_def nat_add_distrib)
  show "ov re 1 = Some (int (i + n + v + 2))" using o [of 1] by (simp add: nv_vector_def)
qed

lemma nv_insert_keeps:
  assumes "list_inv l"
  shows "list_inv (nv_insert l p)" and "iters (nv_insert l p) = iters l"
  using insert_before_inv [OF assms] by (simp_all add: nv_insert_def sorted_insert_def insert_before_def)

lemma decode_item_defined:
  assumes env: "env_law fits env" and re: "pair_state re s i n v \<or> lastMatches re \<le> 0" and inv: "list_inv vals"
  shows "\<exists>l ok. decode_item env re vals = Some (l, ok) \<and> list_inv l \<and> iters l = iters vals"
proof (cases "lastMatches re \<le> 0")
  case True
  have "\<not> one_star []" by (simp add: one_star_def)
  then show ?thesis using True inv by (auto simp: decode_item_def MatchString_def)
next
  case False
  then have p: "pair_state re s i n v" using re by blast
  let ?e = "take v (drop (i + n + 1) s)"
  obtain name where m1: "MatchString re (Some []) 1 = Some (Some name, True)" using pair_state_groups(1) [OF p] by blast
  have "list_all value_char ?e" using p nv_at_bounds(3) by (simp add: pair_state_def)
  moreover have "\<not> value_char CHR 0x0A" by code_simp
  ultimately have "CHR 0x0A \<notin> set (token_unesc ?e)" by (auto simp: token_unesc_def list_all_iff split: if_splits)
  then obtain r where r: "b64_decode_str (b64s env) (mem_garbage env) (token_unesc ?e) RFC4648MimeAlphabet = Some r"
    using b64_decode_str_defined [of "b64s env" RFC4648MimeAlphabet "mem_garbage env" "token_unesc ?e"] env
    unfolding env_law_def b64_alphabet_def by blast
  show ?thesis
    using m1 pair_state_groups(2) [OF p] r nv_insert_keeps [OF inv] inv
    by (cases r) (auto simp: decode_item_def)
qed

lemma nv_search_state:
  assumes env: "env_law fits env" and "k \<le> length s" and "length vec = 9"
    and e: "nv_exec env s (int k) anchored vec = (rc, vec')" and "0 < rc"
  shows "\<exists>i n v. k \<le> i \<and> pair_state \<lparr>substrcount = c, subjectStr = s, lastStart = st, lastMatches = rc, ovector = vec'\<rparr> s i n v"
proof -
  obtain m where "nv_ref s k anchored = Some m" "rc = 3" "take 6 vec' = nv_vector m" "length vec' = 9"
    using nv_exec_cases [OF env assms(2,3), of anchored] e assms(5) by auto
  then show ?thesis using nv_ref_at [of s k anchored] by (cases m) (auto simp: pair_state_def)
qed

lemma nv_loop_defined:
  assumes env: "env_law fits env" and "pair_state re s i n v \<or> lastMatches re \<le> 0" and "list_inv vals"
    and "length s - i < fuel"
  shows "\<exists>l ok. nv_loop env fuel re vals = Some (l, ok) \<and> list_inv l \<and> iters l = iters vals"
  using assms(2,3,4)
proof (induction fuel arbitrary: re i n v vals)
  case (Suc f)
  obtain l ok where d: "decode_item env re vals = Some (l, ok)" "list_inv l" "iters l = iters vals"
    using decode_item_defined [OF env Suc(2,3)] by blast
  show ?case
  proof (cases ok)
    case False
    then show ?thesis using d by (subst nv_loop.simps) auto
  next
    case True
    have "pair_state re s i n v"
      using Suc(2) d(1) True by (auto simp: decode_item_def MatchString_def one_star_def)
    note g = pair_state_groups(3) [OF this] and at = nv_at_bounds [of s i n v]
    let ?k = "i + n + v + 2"
    have k: "?k \<le> length s" and re: "subjectStr re = s" "length (ovector re) = 9"
      using at \<open>pair_state re s i n v\<close> by (auto simp: pair_state_def)
    obtain rc vec' where e: "nv_exec env s (int ?k) False (ovector re) = (rc, vec')" by fastforce
    show ?thesis
    proof (cases "?k < length s \<and> 0 < rc")
      case False
      then have "\<exists>re1. SearchAgain (nv_exec env) re False = Some (re1, False)"
        using g e re by (auto simp: SearchAgain_def subjectLen_def Let_def)
      then show ?thesis using d True by (subst nv_loop.simps) auto
    next
      case again: True
      let ?re = "re\<lparr>lastStart := int ?k, lastMatches := rc, ovector := vec'\<rparr>"
      obtain j n' v' where j: "?k \<le> j" "pair_state ?re s j n' v'"
        using nv_search_state [OF env k re(2) e] again re by (fastforce simp: pair_state_def)
      have "\<exists>l' ok. nv_loop env f ?re l = Some (l', ok) \<and> list_inv l' \<and> iters l' = iters l"
        using Suc(4) j k again by (intro Suc(1) [OF _ d(2)]) auto
      moreover have "SearchAgain (nv_exec env) re False = Some (?re, True)"
        using g e re again by (simp add: SearchAgain_def subjectLen_def)
      ultimately show ?thesis using d True by (subst nv_loop.simps) auto
    qed
  qed
qed simp

lemma ss_ref_split:
  assumes "ss_ref s = Some n"
  shows "n + 33 \<le> length s" and "\<exists>t. s = take n s @ CHR ''!'' # take 32 (drop (Suc n) s) @ t \<and> (t = [] \<or> t = [CHR 0x0A])"
    and "nul_free (take 32 (drop (Suc n) s))"
proof -
  define t where "t = (if s \<noteq> [] \<and> last s = CHR 0x0A then butlast s else s)"
  have f: "33 \<le> length t" "n = length t - 33" "t ! n = CHR ''!''" "list_all isxdigit (drop (Suc n) t)"
    using assms by (auto simp: ss_ref_def t_def [symmetric] Let_def split: if_splits)
  obtain e where e: "s = t @ e" "e = [] \<or> e = [CHR 0x0A]"
    by (cases "s \<noteq> [] \<and> last s = CHR 0x0A") (auto simp: t_def intro: append_butlast_last_id [symmetric])
  show "n + 33 \<le> length s" using f(1,2) e(1) by simp
  have n: "n < length t" "length (drop (Suc n) t) = 32" using f(1,2) by auto
  have sig: "take 32 (drop (Suc n) s) = drop (Suc n) t" using n e(1) by simp
  have "s = take n s @ CHR ''!'' # drop (Suc n) t @ e" using id_take_nth_drop [OF n(1)] f(3) n(1) e(1) by simp
  then show "\<exists>t. s = take n s @ CHR ''!'' # take 32 (drop (Suc n) s) @ t \<and> (t = [] \<or> t = [CHR 0x0A])" using e(2) sig by metis
  have "\<not> isxdigit NUL" by code_simp
  then show "nul_free (take 32 (drop (Suc n) s))" using f(4) unfolding sig list_all_iff nul_free_def by blast
qed

lemma RouteState_decode_cases:
  assumes env: "env_law fits env" and inv: "list_inv (mValues rs)" and nul: "nul_free T"
    and len: "length secret < 2 ^ 32" "length (mCallId rs) < 2 ^ 32" "length T < 2 ^ 31"
  shows "\<exists>l ok. RouteState_decode env secret rs T = Some (rs\<lparr>mValues := l\<rparr>, ok) \<and> list_inv l
           \<and> map fst (iters l) = map fst (iters (mValues rs)) \<and> (\<not> ok \<longrightarrow> nodes l = [])
           \<and> (ok \<longrightarrow> (\<exists>P t. T = P @ ''!'' @ signature_text secret (mCallId rs) P @ t \<and> (t = [] \<or> t = [CHR 0x0A])))"
proof -
  let ?g = "vec_garbage env"
  obtain l0 where l0: "list_destroyAll (mValues rs) = Some (l0, map nref (nodes (mValues rs)))" "nodes l0 = []" "list_inv l0"
    "map fst (iters l0) = map fst (iters (mValues rs))" by (rule destroyAll_ok [OF inv])
  obtain rc vec where e: "ss_exec env T 0 False (ovector (RegEx_new 2 ?g)) = (rc, vec)" "length vec = 9"
    "0 < rc \<longrightarrow> (\<exists>n. ss_ref T = Some n \<and> rc = 3 \<and> take 6 vec = ss_vector n)"
    using ss_search_cases [OF env] by blast
  have S: "Search (ss_exec env) (RegEx_new 2 ?g) (token_block T) (-1) False
      = Some ((RegEx_new 2 ?g)\<lparr>subjectStr := T, lastStart := 0, lastMatches := rc, ovector := vec\<rparr>, 0 < rc)"
    using ss_Search [OF nul len(3), of env ?g] e(1) by simp
  show ?thesis
  proof (cases "0 < rc")
    case False
    then show ?thesis using S l0 by (auto simp: RouteState_decode_def)
  next
    case True
    then obtain n where n: "ss_ref T = Some n" "rc = 3" "take 6 vec = ss_vector n" using e(3) by blast
    define re where "re = (RegEx_new 2 ?g)\<lparr>subjectStr := T, lastStart := 0, lastMatches := rc, ovector := vec\<rparr>"
    let ?sig = "take 32 (drop (Suc n) T)"
    let ?valid = "signature_text secret (mCallId rs) (take n T)"
    have on: "on_token re T n" using n e(2) by (simp add: on_token_def re_def)
    note g = on_token_groups [OF on ss_ref_split(1) [OF n(1)]]
    have sig: "signature_of env secret (mCallId rs) (take n T) [] = Some ?valid"
      using signature_of_ok [OF env len(1,2), of "take n T" "[]"] len(3) by simp
    have c: "str_cmp ?sig ?valid = 0 \<longleftrightarrow> ?sig = ?valid"
      using ss_ref_split(3) [OF n(1)] signature_chars(3) by (simp add: str_cmp_def seq_cmp_0 codes_id_inj)
    show ?thesis
    proof (cases "?sig = ?valid")
      case False
      then show ?thesis
        using S True l0 g sig c unfolding re_def [symmetric] by (auto simp: RouteState_decode_def)
    next
      case valid: True
      obtain rc1 vec1 where e1: "nv_exec env T 0 True (ovector (RegEx_new 2 ?g)) = (rc1, vec1)" by fastforce
      define re1 where "re1 = (RegEx_new 2 ?g)\<lparr>subjectStr := T, lastStart := 0, lastMatches := rc1, ovector := vec1\<rparr>"
      have N: "Search (nv_exec env) (RegEx_new 2 ?g) (token_block T) (int (length T)) True = Some (re1, 0 < rc1)"
        using nv_Search [of env ?g T] e1 by (simp add: re1_def)
      have "length (ovector (RegEx_new 2 ?g)) = 9" using env by (simp add: RegEx_new_def env_law_def)
      then have "(\<exists>i n v. pair_state re1 T i n v) \<or> lastMatches re1 \<le> 0"
        using nv_search_state [OF env, of 0 T "ovector (RegEx_new 2 ?g)" True rc1 vec1] e1
        by (fastforce simp: re1_def pair_state_def)
      then obtain l ok where L: "nv_loop env (Suc (length T)) re1 l0 = Some (l, ok)" "list_inv l" "iters l = iters l0"
        using nv_loop_defined [OF env _ l0(3), of re1 T _ _ _ "Suc (length T)"] by (metis less_Suc_eq_le diff_le_self)
      obtain l2 where l2: "list_destroyAll l = Some (l2, map nref (nodes l))" "nodes l2 = []" "list_inv l2"
        "map fst (iters l2) = map fst (iters l)" by (rule destroyAll_ok [OF L(2)])
      have "\<exists>t. T = take n T @ ''!'' @ ?valid @ t \<and> (t = [] \<or> t = [CHR 0x0A])"
        using ss_ref_split(2) [OF n(1)] valid by simp
      then have shape: "\<exists>P t. T = P @ ''!'' @ signature_text secret (mCallId rs) P @ t \<and> (t = [] \<or> t = [CHR 0x0A])" by blast
      have "RouteState_decode env secret rs T
          = (if ok then Some (rs\<lparr>mValues := l\<rparr>, True) else Some (rs\<lparr>mValues := l2\<rparr>, False))"
        using S True l0 g sig c valid N L l2 unfolding re_def [symmetric] by (simp add: RouteState_decode_def)
      then have "RouteState_decode env secret rs T = Some (rs\<lparr>mValues := if ok then l else l2\<rparr>, ok)" by simp
      then show ?thesis
        using L l0(4) l2 shape by (intro exI [of _ "if ok then l else l2"] exI [of _ ok] conjI impI) simp_all
    qed
  qed
qed

section \<open>Properties\<close>

text \<open>C31. A token that \<open>encode\<close> writes is accepted by \<open>decode\<close>, in any state for the same Call-Id and
  with the same secret, and the parameters it gives are those that were encoded, in the same
  order, values of length zero included. The names are valid and different, there is at least
  one, the values have no NUL, and the token stays below the limits of the regular expression
  library.\<close>

theorem routestate_roundtrip:
  assumes "env_law fits env" and "list_inv (mValues rs)" and "iters (mValues rs) = []" and "nodes (mValues rs) \<noteq> []"
    and "list_all nv_ok (map nobj (nodes (mValues rs)))"
    and "sorted_wrt (\<lambda>p q. nv_cmp p q < 0) (map nobj (nodes (mValues rs)))"
    and "length secret < 2 ^ 32" and "length (mCallId rs) < 2 ^ 32"
    and "fits (token_text secret (mCallId rs) (map nobj (nodes (mValues rs))))"
    and "length (token_text secret (mCallId rs) (map nobj (nodes (mValues rs)))) < 2 ^ 31"
    and "list_inv (mValues rs')" and "mCallId rs' = mCallId rs"
  shows "\<exists>token l. RouteState_encode env secret rs [] = Some (rs, token)
           \<and> RouteState_decode env secret rs' token = Some (rs'\<lparr>mValues := l\<rparr>, True)
           \<and> map nobj (nodes l) = map nobj (nodes (mValues rs))"
proof -
  let ?ps = "map nobj (nodes (mValues rs))"
  let ?T = "token_text secret (mCallId rs) ?ps"
  have "\<forall>n\<in>set (nodes (mValues rs)). nul_free (nv_name (nobj n))"
    using assms(5) name_char_not_NUL by (auto simp: list_all_iff nv_ok_def nul_free_def)
  moreover have "length (nv_body True ?ps) < 2 ^ 32" using assms(10) token_length by simp
  ultimately have "RouteState_encode env secret rs [] = Some (rs, ?T)"
    using RouteState_encode_ok [OF assms(1-3)] assms(7,8) by blast
  moreover have "?T = token_text secret (mCallId rs') ?ps" using assms(12) by simp
  then obtain l where "RouteState_decode env secret rs' ?T = Some (rs'\<lparr>mValues := l\<rparr>, True)" "map nobj (nodes l) = ?ps"
    using RouteState_decode_ok [OF assms(1,9), of secret rs' ?ps, OF _ assms(5) _ assms(6,11,7)] assms(4,8,10,12)
    by (metis list.map_disc_iff)
  ultimately show ?thesis by blast
qed

text \<open>A state with two parameters, for the witnesses.\<close>

definition sample_values :: "nv ulist" where
  "sample_values =
     \<lparr>nodes = [\<lparr>naddr = 0, nref = 0, nobj = NV ''*auth'' [], nhash = 0\<rparr>,
               \<lparr>naddr = 1, nref = 1, nobj = NV ''*from'' ''ab'', nhash = 0\<rparr>],
      iters = [], linkPool = 2\<rparr>"

definition sample_state :: route_state where
  "sample_state =
     \<lparr>mRouteHostPort = ''example.com'', mMayBeMutable = True, mRecordRouteIndices = [], mModified = True,
      mFoundRouteState = False, mAddCopyRequested = False, mValues = sample_values, mCallId = ''call-1'', mFromTag = ''ab''\<rparr>"

lemma sample_state_facts:
  "list_inv (mValues sample_state)" "iters (mValues sample_state) = []" "nodes (mValues sample_state) \<noteq> []"
  "list_all nv_ok (map nobj (nodes (mValues sample_state)))"
  "sorted_wrt (\<lambda>p q. nv_cmp p q < 0) (map nobj (nodes (mValues sample_state)))"
  "length (mCallId sample_state) < 2 ^ 32"
  "length (token_text ''secret'' (mCallId sample_state) (map nobj (nodes (mValues sample_state)))) < 2 ^ 31"
proof -
  show "list_inv (mValues sample_state)" by (simp add: list_inv_def sample_state_def sample_values_def)
  have objs: "map nobj (nodes (mValues sample_state)) = [NV ''*auth'' [], NV ''*from'' ''ab'']"
    by (simp add: sample_state_def sample_values_def)
  have "length (nv_body True [NV ''*auth'' [], NV ''*from'' ''ab'']) = 17" by code_simp
  then show "length (token_text ''secret'' (mCallId sample_state) (map nobj (nodes (mValues sample_state)))) < 2 ^ 31"
    unfolding objs token_length by simp
  show "list_all nv_ok (map nobj (nodes (mValues sample_state)))"
    "sorted_wrt (\<lambda>p q. nv_cmp p q < 0) (map nobj (nodes (mValues sample_state)))"
    unfolding objs by code_simp+
qed (simp_all add: sample_state_def sample_values_def)

theorem routestate_roundtrip_witness:
  "\<exists>token l. RouteState_encode ref_env ''secret'' sample_state [] = Some (sample_state, token)
     \<and> RouteState_decode ref_env ''secret'' sample_state token = Some (sample_state\<lparr>mValues := l\<rparr>, True)
     \<and> map nobj (nodes l) = [NV ''*auth'' [], NV ''*from'' ''ab'']"
proof -
  have objs: "map nobj (nodes (mValues sample_state)) = [NV ''*auth'' [], NV ''*from'' ''ab'']"
    by (simp add: sample_state_def sample_values_def)
  have "length ''secret'' < 2 ^ 32" by simp
  from routestate_roundtrip [OF ref_env_law sample_state_facts(1-5) this sample_state_facts(6) TrueI
      sample_state_facts(7) sample_state_facts(1) refl]
  show ?thesis unfolding objs .
qed

text \<open>C32. A token is accepted only with the signature of its contents: what stands in front of the
  exclamation mark before the signature was signed with the secret and the Call-Id of this message,
  whatever characters the pattern lets stand between the pairs. A single newline may follow the
  signature.\<close>

theorem routestate_accepts_only_signed:
  assumes "env_law fits env" and "list_inv (mValues rs)" and "nul_free T"
    and "length secret < 2 ^ 32" and "length (mCallId rs) < 2 ^ 32" and "length T < 2 ^ 31"
    and "RouteState_decode env secret rs T = Some (rs', True)"
  shows "\<exists>P t. T = P @ ''!'' @ signature_text secret (mCallId rs) P @ t \<and> (t = [] \<or> t = [CHR 0x0A])"
  using RouteState_decode_cases [OF assms(1-6)] assms(7) by auto

theorem routestate_accepts_only_signed_witness:
  "\<exists>P t. token_text ''secret'' ''call-1'' [NV ''*auth'' [], NV ''*from'' ''ab'']
     = P @ ''!'' @ signature_text ''secret'' ''call-1'' P @ t \<and> (t = [] \<or> t = [CHR 0x0A])"
proof -
  let ?T = "token_text ''secret'' (mCallId sample_state) (map nobj (nodes (mValues sample_state)))"
  have objs: "map nobj (nodes (mValues sample_state)) = [NV ''*auth'' [], NV ''*from'' ''ab'']" "mCallId sample_state = ''call-1''"
    by (simp_all add: sample_state_def sample_values_def)
  have len: "length ''secret'' < 2 ^ 32" by simp
  obtain l where "RouteState_decode ref_env ''secret'' sample_state ?T = Some (sample_state\<lparr>mValues := l\<rparr>, True)"
    using RouteState_decode_ok [OF ref_env_law TrueI refl sample_state_facts(4) _ sample_state_facts(5,1) len
        sample_state_facts(6,7)] sample_state_facts(3) by (metis list.map_disc_iff)
  from routestate_accepts_only_signed [OF ref_env_law sample_state_facts(1)
      nul_free_token [OF sample_state_facts(4)] len sample_state_facts(6,7) this]
  show ?thesis unfolding objs .
qed

text \<open>C34. Whatever the token, a C string of less than \<open>2 ^ 31\<close> characters, \<open>decode\<close> returns without
  reading out of bounds, its loop ends, and when it does not accept the token no parameter is left.
  This includes the tokens with other characters than dots between their pairs.\<close>

theorem routestate_decode_total:
  assumes "env_law fits env" and "list_inv (mValues rs)" and "nul_free T"
    and "length secret < 2 ^ 32" and "length (mCallId rs) < 2 ^ 32" and "length T < 2 ^ 31"
  shows "\<exists>l ok. RouteState_decode env secret rs T = Some (rs\<lparr>mValues := l\<rparr>, ok) \<and> list_inv l \<and> (\<not> ok \<longrightarrow> nodes l = [])"
  using RouteState_decode_cases [OF assms] by blast

theorem routestate_decode_total_witness:
  "\<exists>l ok. RouteState_decode ref_env ''secret'' sample_state ''a*b~!0'' = Some (sample_state\<lparr>mValues := l\<rparr>, ok)
     \<and> list_inv l \<and> (\<not> ok \<longrightarrow> nodes l = [])"
proof -
  have "nul_free ''a*b~!0''" by code_simp
  from routestate_decode_total [OF ref_env_law sample_state_facts(1) this _ sample_state_facts(6), of "''secret''"]
  show ?thesis by simp
qed

end
