(* ===== verification/RouteParams.thy ===== *)
theory RouteParams
  imports RouteToken
begin

text \<open>
  The parameters of a route state as a map from names to values: \<open>getParameter\<close> reads the map,
  \<open>setParameter\<close> and \<open>unsetParameter\<close> change it at one name, and \<open>update\<close> records it in the
  message, from which the constructor of the next hop reads it back.
\<close>

section \<open>The map\<close>

interpretation nvs: comparable nv_cmp "\<lambda>_. True"
proof unfold_locales
  show "nv_cmp x y \<le> 0 \<longleftrightarrow> 0 \<le> nv_cmp y x" for x y unfolding nv_cmp_def by (rule strings.cmp_flip) simp_all
  show "nv_cmp x y \<le> 0 \<Longrightarrow> nv_cmp y z \<le> 0 \<Longrightarrow> nv_cmp x z \<le> 0" for x y z
    unfolding nv_cmp_def by (rule strings.cmp_trans [where y = "nv_name y"]) simp_all
qed

definition params :: "nv ulist \<Rightarrow> string \<rightharpoonup> string" where
  "params l = map_of (map (\<lambda>n. (nv_name (nobj n), nv_value (nobj n))) (nodes l))"

text \<open>The list is in order, its names are valid and different, and so are its objects.\<close>

definition values_inv :: "nv ulist \<Rightarrow> bool" where
  "values_inv l \<longleftrightarrow> list_inv l \<and> iters l = [] \<and> list_all nv_ok (map nobj (nodes l)) \<and>
     sorted_wrt (\<lambda>p q. nv_cmp p q < 0) (map nobj (nodes l)) \<and>
     distinct (map nref (nodes l)) \<and> (\<forall>n\<in>set (nodes l). nref n < linkPool l)"

lemma nul_free_name: "nv_ok p \<Longrightarrow> nul_free (nv_name p)"
  using name_char_not_NUL by (auto simp: nv_ok_def nul_free_def list_all_iff)

lemma nv_cmp_0: "nul_free (nv_name p) \<Longrightarrow> nul_free (nv_name q) \<Longrightarrow> nv_cmp p q = 0 \<longleftrightarrow> nv_name p = nv_name q"
  by (simp add: nv_cmp_def str_cmp_def seq_cmp_0 codes_id_inj)

lemma values_inv_node:
  "values_inv l \<Longrightarrow> n \<in> set (nodes l) \<Longrightarrow> nv_ok (nobj n) \<and> nul_free (nv_name (nobj n))"
  by (auto simp: values_inv_def list_all_iff nul_free_name)

lemma values_inv_order: "values_inv l \<Longrightarrow> in_order nv_cmp (\<lambda>_. True) (nodes l)"
  by (auto simp: values_inv_def in_order_def sorted_wrt_map elim: sorted_wrt_mono_rel [rotated])

lemma values_inv_distinct:
  assumes "values_inv l"
  shows "distinct (map (nv_name \<circ> nobj) (nodes l))"
proof -
  have "nv_name p \<noteq> nv_name q" if "nv_cmp p q < 0" for p q using that by (auto simp: nv_cmp_def str_cmp_def)
  then have "sorted_wrt (\<lambda>p q. nv_cmp p q < 0) ps \<Longrightarrow> distinct (map nv_name ps)" for ps
    by (induction ps) auto
  then show ?thesis using assms by (metis values_inv_def map_map)
qed

lemma params_iff:
  assumes "distinct (map (nv_name \<circ> nobj) (nodes l))"
  shows "params l k = Some v \<longleftrightarrow> (\<exists>n\<in>set (nodes l). nobj n = NV k v)"
proof -
  have "distinct (map fst (map (\<lambda>n. (nv_name (nobj n), nv_value (nobj n))) (nodes l)))"
    using assms by (simp add: comp_def)
  then have "params l k = Some v \<longleftrightarrow> (k, v) \<in> set (map (\<lambda>n. (nv_name (nobj n), nv_value (nobj n))) (nodes l))"
    unfolding params_def by (rule map_of_eq_Some_iff)
  also have "\<dots> \<longleftrightarrow> (\<exists>n\<in>set (nodes l). nv_name (nobj n) = k \<and> nv_value (nobj n) = v)" by auto
  also have "\<dots> \<longleftrightarrow> (\<exists>n\<in>set (nodes l). nobj n = NV k v)" by (metis nv.exhaust_sel nv.sel)
  finally show ?thesis .
qed

lemma params_None_iff: "params l k = None \<longleftrightarrow> (\<forall>n\<in>set (nodes l). nv_name (nobj n) \<noteq> k)"
  unfolding params_def map_of_eq_None_iff by force

text \<open>The search of the sorted list finds the pair of that name.\<close>

lemma find_param:
  assumes "values_inv l" and "nul_free name"
  shows "sorted_find nv_cmp l (NV name []) = map_option ref_of (find (\<lambda>n. nv_name (nobj n) = name) (nodes l))"
proof -
  have "find (\<lambda>n. nv_cmp (nobj n) (NV name []) = 0) (nodes l) = find (\<lambda>n. nv_name (nobj n) = name) (nodes l)"
    using values_inv_node [OF assms(1)] assms(2) by (intro find_cong refl) (simp add: nv_cmp_0)
  then show ?thesis
    using nvs.findNode_exactly_find [OF values_inv_order [OF assms(1)], of "NV name []"] by (simp add: sorted_find_def)
qed

lemma find_param_value:
  assumes "values_inv l" and "nul_free name"
  shows "(case sorted_find nv_cmp l (NV name []) of Some q \<Rightarrow> Some (nv_value (snd q)) | None \<Rightarrow> None) = params l name"
proof (cases "find (\<lambda>n. nv_name (nobj n) = name) (nodes l)")
  case None
  then have "params l name = None" by (auto simp: params_None_iff find_None_iff)
  then show ?thesis using None by (simp only: find_param [OF assms] option.map option.case)
next
  case (Some n)
  then have "n \<in> set (nodes l)" "nobj n = NV name (nv_value (nobj n))" by (auto dest!: find_in)
  then have "params l name = Some (nv_value (nobj n))"
    using params_iff [OF values_inv_distinct [OF assms(1)]] by blast
  then show ?thesis using Some by (simp add: find_param [OF assms] ref_of_def)
qed

section \<open>Names\<close>

definition param_ok :: "string \<Rightarrow> string \<Rightarrow> bool" where
  "param_ok i p \<longleftrightarrow> list_all pn_char i \<and> list_all pn_char p \<and> (i \<noteq> [] \<or> p \<noteq> []) \<and> length i < 2 ^ 31 \<and> length p < 2 ^ 31"

lemma pn_char_facts: "pn_char c \<Longrightarrow> name_char c \<and> c \<noteq> CHR ''*'' \<and> c \<noteq> NUL"
proof -
  have "\<not> pn_char CHR ''*''" "\<not> pn_char NUL" by code_simp+
  then show "pn_char c \<Longrightarrow> name_char c \<and> c \<noteq> CHR ''*'' \<and> c \<noteq> NUL" by (auto simp: pn_char_def name_char_def)
qed

lemma param_ok_nul_free: "param_ok i p \<Longrightarrow> nul_free i \<and> nul_free p"
  using pn_char_facts by (auto simp: param_ok_def nul_free_def list_all_iff)

lemma pn_Search:
  assumes "pn_law exec" and "length (ovector re) = 3" and "nul_free s" and "length s < 2 ^ 31"
  shows "\<exists>re'. Search exec re (cstr s) (-1) False = Some (re', pn_matches s) \<and> length (ovector re') = 3"
proof -
  have "let (rc, vec') = exec s 0 False (ovector re) in length vec' = 3 \<and> (0 < rc \<longleftrightarrow> pn_matches s)"
    using assms(1,2) unfolding pn_law_def by blast
  then show ?thesis
    using subject_of_cstr [OF assms(3,4), of "[]"] by (auto simp: Search_def cstr_def split: prod.splits)
qed

lemma RouteParameterName_ok:
  assumes "env_law fits env" and "param_ok i p"
  shows "RouteParameterName env i p = Some (i @ ''*'' @ p)"
proof -
  have n: "nul_free i" "nul_free p" "length i < 2 ^ 31" "length p < 2 ^ 31"
    using param_ok_nul_free [OF assms(2)] assms(2) by (simp_all add: param_ok_def)
  have law: "pn_law (pn_exec env)" "length (ovector (RegEx_new 0 (vec_garbage env))) = 3"
    using assms(1) by (simp_all add: env_law_def RegEx_new_def)
  obtain re where re: "Search (pn_exec env) (RegEx_new 0 (vec_garbage env)) (cstr i) (-1) False = Some (re, pn_matches i)"
    "length (ovector re) = 3" using pn_Search [OF law n(1,3)] by blast
  obtain re' where "Search (pn_exec env) re (cstr p) (-1) False = Some (re', pn_matches p)"
    using pn_Search [OF law(1) re(2) n(2,4)] by blast
  moreover have "pn_matches i" "pn_matches p" using assms(2) by (simp_all add: param_ok_def pn_matches_def)
  ultimately show ?thesis using re n by (simp add: RouteParameterName_def)
qed

lemma param_name_ok:
  assumes "param_ok i p" and "nul_free v"
  shows "nv_ok (NV (i @ ''*'' @ p) v)" and "nul_free (i @ ''*'' @ p)"
proof -
  have "CHR ''*'' \<notin> set i" "CHR ''*'' \<notin> set p" using assms(1) pn_char_facts by (auto simp: param_ok_def list_all_iff)
  moreover from this have "takeWhile (\<lambda>c. c \<noteq> CHR ''*'') (i @ ''*'' @ p) = i"
    by (intro takeWhile_all) (auto simp: list_all_iff)
  ultimately have "one_star (i @ ''*'' @ p)" unfolding one_star_def by (simp only: Let_def) simp
  moreover have "name_char CHR ''*''" "CHR ''*'' \<noteq> NUL" by code_simp+
  moreover have "2 \<le> length (i @ ''*'' @ p)" using assms(1) by (cases i; cases p) (auto simp: param_ok_def)
  ultimately show "nv_ok (NV (i @ ''*'' @ p) v)"
    using assms pn_char_facts by (auto simp: nv_ok_def param_ok_def list_all_iff)
  show "nul_free (i @ ''*'' @ p)" using param_ok_nul_free [OF assms(1)] \<open>CHR ''*'' \<noteq> NUL\<close> by simp
qed

lemma getParameter_params:
  assumes "env_law fits env" and "values_inv (mValues rs)" and "param_ok i p"
  shows "getParameter env rs i p =
     Some (case params (mValues rs) (i @ ''*'' @ p) of Some v \<Rightarrow> (True, v) | None \<Rightarrow> (False, []))"
  using find_param_value [OF assms(2) param_name_ok(2) [OF assms(3), of "[]"], symmetric] RouteParameterName_ok [OF assms(1,3)]
  by (cases "sorted_find nv_cmp (mValues rs) (NV (i @ ''*'' @ p) [])")
    (simp_all add: getParameter_def name_isValid_def split: option.splits)

section \<open>Setting and unsetting\<close>

lemma nv_setValue_keeps:
  assumes inv: "values_inv l" and n: "n \<in> set (nodes l)" "nobj n = NV name old" and v: "nul_free v"
  shows "values_inv (nv_setValue l (nref n) v) \<and> params (nv_setValue l (nref n) v) = (params l)(name \<mapsto> v)"
proof -
  let ?f = "\<lambda>m. if nref m = nref n then m\<lparr>nobj := NV (nv_name (nobj m)) (c_prefix v)\<rparr> else m"
  let ?l = "nv_setValue l (nref n) v"
  have nodes': "nodes ?l = map ?f (nodes l)" by (simp add: nv_setValue_def nv_put_def)
  have same: "naddr (?f m) = naddr m" "nref (?f m) = nref m" "nv_name (nobj (?f m)) = nv_name (nobj m)" for m by simp_all
  have "naddr \<circ> ?f = naddr" "nref \<circ> ?f = nref" "nv_name \<circ> (nobj \<circ> ?f) = nv_name \<circ> nobj" by (auto simp: fun_eq_iff)
  then have maps: "map naddr (nodes ?l) = map naddr (nodes l)" "map nref (nodes ?l) = map nref (nodes l)"
    "map (nv_name \<circ> nobj) (nodes ?l) = map (nv_name \<circ> nobj) (nodes l)"
    by (simp_all add: nodes' comp_assoc)
  have "linkPool ?l = linkPool l" "iters ?l = iters l" by (simp_all add: nv_setValue_def)
  moreover have "\<forall>m\<in>set (nodes ?l). nv_ok (nobj m)"
    using values_inv_node [OF inv] v by (auto simp: nv_ok_def nodes')
  moreover have "sorted_wrt (\<lambda>p q. nv_cmp p q < 0) (map nobj (nodes ?l))"
  proof -
    have eq: "nv_cmp (nobj (?f x)) (nobj (?f y)) = nv_cmp (nobj x) (nobj y)" for x y
      unfolding nv_cmp_def by (simp only: same(3))
    have "sorted_wrt (\<lambda>x y. nv_cmp (nobj x) (nobj y) < 0) (nodes l)"
      using inv by (simp add: values_inv_def sorted_wrt_map)
    then show ?thesis
      unfolding nodes' sorted_wrt_map by (rule sorted_wrt_mono_rel [rotated]) (simp only: eq)
  qed
  moreover have "\<forall>m\<in>set (nodes ?l). naddr m < linkPool l \<and> nref m < linkPool l"
    using inv by (auto simp: nodes' values_inv_def list_inv_def)
  ultimately have inv': "values_inv ?l"
    using inv maps by (simp add: values_inv_def list_inv_def list_all_iff)
  have uniq: "nref m = nref n \<longleftrightarrow> nv_name (nobj m) = name" if "m \<in> set (nodes l)" for m
  proof -
    have "inj_on nref (set (nodes l))" "inj_on (nv_name \<circ> nobj) (set (nodes l))"
      using inv values_inv_distinct [OF inv] by (auto simp: values_inv_def distinct_map)
    then show ?thesis using that n by (metis comp_apply inj_onD nv.sel(1))
  qed
  have "params ?l k = Some w \<longleftrightarrow> ((params l)(name \<mapsto> v)) k = Some w" for k w
  proof -
    have "params ?l k = Some w \<longleftrightarrow> (\<exists>m\<in>set (nodes l). nobj (?f m) = NV k w)"
      unfolding params_iff [OF values_inv_distinct [OF inv']] nodes' set_map by blast
    also have "\<dots> \<longleftrightarrow> (if k = name then w = v else (\<exists>m\<in>set (nodes l). nobj m = NV k w))"
      using uniq n v by (cases "k = name") (auto, (metis nv.sel(1))+)
    also have "\<dots> \<longleftrightarrow> ((params l)(name \<mapsto> v)) k = Some w"
      using params_iff [OF values_inv_distinct [OF inv], of k w] by auto
    finally show ?thesis .
  qed
  then have "params ?l = (params l)(name \<mapsto> v)" by (metis ext not_None_eq option.exhaust)
  then show ?thesis using inv' by blast
qed

lemma sorted_insert_strict:
  assumes inv: "values_inv l" and new: "params l (nv_name p) = None" and p: "nv_ok p"
  shows "sorted_wrt (\<lambda>p q. nv_cmp p q < 0) (map nobj (nodes (nv_insert l p)))"
proof -
  let ?P = "\<lambda>n. nv_cmp (nobj n) p < 0"
  have ne: "nv_cmp (nobj n) p \<noteq> 0" if "n \<in> set (nodes l)" for n
    using that new values_inv_node [OF inv that] nul_free_name [OF p] by (simp add: nv_cmp_0 params_None_iff)
  have flip: "nv_cmp p (nobj n) < 0 \<longleftrightarrow> 0 < nv_cmp (nobj n) p" for n
    using seq_cmp_swap [of "codes id (c_prefix (nv_name p))" "codes id (c_prefix (nv_name (nobj n)))"]
    by (simp add: nv_cmp_def str_cmp_def)
  have "sorted_wrt (\<lambda>p q. nv_cmp p q < 0) (map nobj (takeWhile ?P (nodes l) @ dropWhile ?P (nodes l)))"
    using inv by (simp add: values_inv_def)
  note this [unfolded map_append sorted_wrt_append]
  then have s: "sorted_wrt (\<lambda>p q. nv_cmp p q < 0) (map nobj (takeWhile ?P (nodes l)))"
    "sorted_wrt (\<lambda>p q. nv_cmp p q < 0) (map nobj (dropWhile ?P (nodes l)))"
    "\<forall>x\<in>set (takeWhile ?P (nodes l)). \<forall>y\<in>set (dropWhile ?P (nodes l)). nv_cmp (nobj x) (nobj y) < 0"
    by auto
  have "nv_cmp p (nobj m) < 0" if "m \<in> set (dropWhile ?P (nodes l))" for m
    using nvs.in_order_drop [OF values_inv_order [OF inv] _ that] ne [OF set_dropWhileD [OF that]]
    by (simp add: flip)
  moreover have "nv_cmp (nobj m) p < 0" if "m \<in> set (takeWhile ?P (nodes l))" for m
    using set_takeWhileD [OF that] by simp
  moreover have "list_inv l" using inv by (simp add: values_inv_def)
  ultimately show ?thesis
    using s unfolding nv_insert_def nodes_sorted_insert [OF \<open>list_inv l\<close>] by (simp add: sorted_wrt_append)
qed

lemma set_nodes_insert:
  "set (nodes (nv_insert l p)) = insert (new_link nv_hash l (linkPool l, p)) (set (nodes l))"
  unfolding nv_insert_def sorted_insert_def insert_before_def
  by simp (metis mset_before_link set_mset_add_mset_insert set_mset_mset)

lemma nv_insert_values:
  assumes inv: "values_inv l" and new: "params l (nv_name p) = None" and p: "nv_ok p"
  shows "values_inv (nv_insert l p) \<and> params (nv_insert l p) = (params l)(nv_name p \<mapsto> nv_value p)"
proof -
  let ?l = "nv_insert l p"
  have li: "list_inv l" using inv by (simp add: values_inv_def)
  have "mset (map nref (nodes ?l)) = mset (map nref (new_link nv_hash l (linkPool l, p) # nodes l))"
    by (simp add: nv_insert_def sorted_insert_def insert_before_def)
  moreover have "distinct (map nref (new_link nv_hash l (linkPool l, p) # nodes l))"
    using inv by (auto simp: values_inv_def)
  ultimately have "distinct (map nref (nodes ?l))" by (rule mset_eq_imp_distinct_iff [THEN iffD2])
  moreover have "linkPool ?l = Suc (linkPool l)" by (simp add: nv_insert_def sorted_insert_def insert_before_def)
  ultimately have inv': "values_inv ?l"
    using inv nv_insert_keeps [OF li] sorted_insert_strict [OF assms] p
    by (auto simp: values_inv_def set_nodes_insert list_all_iff less_Suc_eq)
  have "params ?l k = Some w \<longleftrightarrow> ((params l)(nv_name p \<mapsto> nv_value p)) k = Some w" for k w
    using params_iff [OF values_inv_distinct [OF inv']] params_iff [OF values_inv_distinct [OF inv], of k w] new
    by (cases p) (auto simp: set_nodes_insert params_None_iff)
  then have "params ?l = (params l)(nv_name p \<mapsto> nv_value p)" by (metis ext not_None_eq option.exhaust)
  then show ?thesis using inv' by blast
qed

lemma nv_remove_values:
  assumes inv: "values_inv l" and name: "nul_free name"
  shows "values_inv (fst (sorted_remove nv_cmp l (NV name []))) \<and>
         params (fst (sorted_remove nv_cmp l (NV name []))) = (params l)(name := None)"
proof -
  have find: "findNode nv_cmp (nodes l) EXACTLY (NV name []) = find (\<lambda>n. nv_name (nobj n) = name) (nodes l)"
  proof -
    have "find (\<lambda>n. nv_cmp (nobj n) (NV name []) = 0) (nodes l) = find (\<lambda>n. nv_name (nobj n) = name) (nodes l)"
      using values_inv_node [OF inv] name by (intro find_cong refl) (simp add: nv_cmp_0)
    then show ?thesis using nvs.findNode_exactly_find [OF values_inv_order [OF inv], of "NV name []"] by simp
  qed
  show ?thesis
  proof (cases "find (\<lambda>n. nv_name (nobj n) = name) (nodes l)")
    case None
    then have "params l name = None" by (auto simp: params_None_iff find_None_iff)
    then have "(params l)(name := None) = params l" by auto
    then show ?thesis using inv None by (simp add: sorted_remove_def find)
  next
    case (Some n)
    let ?l = "removeLink l (naddr n)"
    have n: "n \<in> set (nodes l)" "nv_name (nobj n) = name" using find_in [OF Some] by simp_all
    have inj: "inj_on (nv_name \<circ> nobj) (set (nodes l))" "inj_on naddr (set (nodes l))"
      using values_inv_distinct [OF inv] inv by (auto simp: distinct_map values_inv_def list_inv_def)
    have nodes': "nodes ?l = filter (\<lambda>m. naddr m \<noteq> naddr n) (nodes l)" by (simp add: removeLink_def)
    have set': "m \<in> set (nodes ?l) \<longleftrightarrow> m \<in> set (nodes l) \<and> nv_name (nobj m) \<noteq> name" for m
    proof
      assume "m \<in> set (nodes ?l)"
      then show "m \<in> set (nodes l) \<and> nv_name (nobj m) \<noteq> name"
        using inj(1) n unfolding nodes' by (metis (mono_tags, lifting) comp_apply inj_onD mem_Collect_eq set_filter)
    next
      assume "m \<in> set (nodes l) \<and> nv_name (nobj m) \<noteq> name"
      then show "m \<in> set (nodes ?l)" using inj(2) n unfolding nodes' by (auto dest: inj_onD)
    qed
    have "list_inv ?l" using inv n by (intro removeLink_inv) (simp_all add: values_inv_def)
    then have inv': "values_inv ?l"
      using inv by (auto simp: values_inv_def nodes' removeLink_def list_all_iff sorted_wrt_map sorted_wrt_filter distinct_map_filter)
    have "params ?l k = Some w \<longleftrightarrow> ((params l)(name := None)) k = Some w" for k w
      using params_iff [OF values_inv_distinct [OF inv']] params_iff [OF values_inv_distinct [OF inv], of k w]
      by (auto simp: set')
    then have "params ?l = (params l)(name := None)" by (metis ext not_None_eq option.exhaust)
    then show ?thesis using inv' Some by (simp add: sorted_remove_def find)
  qed
qed

text \<open>What one call does to the state, for valid names and values.\<close>

lemma setParameter_params:
  assumes env: "env_law fits env" and inv: "values_inv (mValues rs)" and i: "param_ok i p" and v: "nul_free v"
    and "mMayBeMutable rs"
  shows "\<exists>l. setParameter env rs i p v = Some (rs\<lparr>mValues := l, mModified := True\<rparr>) \<and> values_inv l
           \<and> params l = (params (mValues rs))(i @ ''*'' @ p \<mapsto> v)"
proof -
  let ?name = "i @ ''*'' @ p"
  note name = param_name_ok [OF i v] and rn = RouteParameterName_ok [OF env i]
  show ?thesis
  proof (cases "find (\<lambda>n. nv_name (nobj n) = ?name) (nodes (mValues rs))")
    case None
    then have new: "params (mValues rs) ?name = None" by (auto simp: params_None_iff find_None_iff)
    have "NameValuePair ?name v = NV ?name v" using name(2) v by (simp add: NameValuePair_def)
    then show ?thesis
      using nv_insert_values [OF inv, of "NV ?name v"] new name(1) rn assms(5) None find_param [OF inv name(2)]
      by (intro exI [of _ "nv_insert (mValues rs) (NV ?name v)"]) (simp add: setParameter_def name_isValid_def)
  next
    case (Some n)
    have n: "n \<in> set (nodes (mValues rs))" "nobj n = NV ?name (nv_value (nobj n))"
      using find_in [OF Some] by (auto, metis nv.exhaust_sel)
    show ?thesis
      using nv_setValue_keeps [OF inv n v] rn assms(5) Some find_param [OF inv name(2)]
      by (intro exI [of _ "nv_setValue (mValues rs) (nref n) v"])
        (simp add: setParameter_def name_isValid_def ref_of_def)
  qed
qed

lemma unsetParameter_params:
  assumes env: "env_law fits env" and inv: "values_inv (mValues rs)" and i: "param_ok i p" and "mMayBeMutable rs"
  shows "\<exists>l. unsetParameter env rs i p = Some (rs\<lparr>mValues := l\<rparr>) \<and> values_inv l
           \<and> params l = (params (mValues rs))(i @ ''*'' @ p := None)"
proof -
  let ?x = "NV (i @ ''*'' @ p) []"
  have "fst (destroy_with (sorted_remove nv_cmp) (mValues rs) ?x) = fst (sorted_remove nv_cmp (mValues rs) ?x)"
    by (simp add: destroy_with_def split: prod.splits option.splits)
  then show ?thesis
    using nv_remove_values [OF inv param_name_ok(2) [OF i, of "[]"]] RouteParameterName_ok [OF env i] assms(4)
    by (intro exI [of _ "fst (sorted_remove nv_cmp (mValues rs) ?x)"]) (simp add: unsetParameter_def name_isValid_def)
qed

section \<open>Properties of the parameters\<close>

text \<open>The parameters of a mutable state behave as a map: after \<open>setParameter\<close>, \<open>getParameter\<close>
  returns the value that was set, also one of length zero, and every other parameter is what
  it was; after \<open>unsetParameter\<close> the parameter is not found and the others are what they were.
  The list stays in order without duplicates.\<close>

theorem routestate_parameters:
  assumes "env_law fits env" and "values_inv (mValues rs)" and "mMayBeMutable rs" and "param_ok i p" and "nul_free v"
    and "param_ok j q" and "j @ ''*'' @ q \<noteq> i @ ''*'' @ p"
  shows "\<exists>rs1 rs2. setParameter env rs i p v = Some rs1 \<and> values_inv (mValues rs1) \<and> mModified rs1
           \<and> getParameter env rs1 i p = Some (True, v) \<and> getParameter env rs1 j q = getParameter env rs j q
           \<and> unsetParameter env rs1 i p = Some rs2 \<and> values_inv (mValues rs2)
           \<and> getParameter env rs2 i p = Some (False, []) \<and> getParameter env rs2 j q = getParameter env rs j q"
proof -
  obtain l where l: "setParameter env rs i p v = Some (rs\<lparr>mValues := l, mModified := True\<rparr>)" "values_inv l"
    "params l = (params (mValues rs))(i @ ''*'' @ p \<mapsto> v)"
    using setParameter_params [OF assms(1,2,4,5,3)] by blast
  let ?rs = "rs\<lparr>mValues := l, mModified := True\<rparr>"
  have m: "mMayBeMutable ?rs" and inv1: "values_inv (mValues ?rs)" using assms(3) l(2) by simp_all
  obtain l' where l': "unsetParameter env ?rs i p = Some (?rs\<lparr>mValues := l'\<rparr>)" "values_inv l'"
    "params l' = (params l)(i @ ''*'' @ p := None)"
    using unsetParameter_params [OF assms(1) inv1 assms(4) m] by auto
  have inv2: "values_inv (mValues (?rs\<lparr>mValues := l'\<rparr>))" using l'(2) by simp
  note get = getParameter_params [OF assms(1)]
  show ?thesis
    using l l' assms(7) get [OF inv1 assms(4)] get [OF inv1 assms(6)] get [OF assms(2,6)] get [OF inv2 assms(4)]
      get [OF inv2 assms(6)]
    by (intro exI [of _ ?rs] exI [of _ "?rs\<lparr>mValues := l'\<rparr>"] conjI) simp_all
qed

lemma sample_values_inv: "values_inv (mValues sample_state)"
  using sample_state_facts(1,2,4,5) by (simp add: values_inv_def) (simp add: sample_state_def sample_values_def)

theorem routestate_parameters_witness:
  "\<exists>rs1. setParameter ref_env sample_state ''cdr'' ''x'' ''1'' = Some rs1 \<and> getParameter ref_env rs1 ''cdr'' ''x'' = Some (True, ''1'')"
proof -
  have "mMayBeMutable sample_state" by (simp add: sample_state_def)
  moreover have "param_ok ''cdr'' ''x''" "nul_free ''1''" "param_ok [] ''from''" by code_simp+
  ultimately show ?thesis
    using routestate_parameters [OF ref_env_law sample_values_inv, of "''cdr''" "''x''" "''1''" "[]" "''from''"] by auto
qed

text \<open>A state that is not mutable does not change, and its message is not touched: setting and
  unsetting parameters, marking the dialog as authorized and updating do nothing.\<close>

theorem routestate_immutable:
  assumes "\<not> mMayBeMutable rs"
  shows "setParameter env rs i p v = Some rs \<and> unsetParameter env rs i p = Some rs \<and>
         markDialogAsAuthorized env rs = Some rs \<and> RouteState_update env url secret rs request = Some (rs, request)"
  using assms by (simp add: setParameter_def unsetParameter_def markDialogAsAuthorized_def RouteState_update_def)

theorem routestate_immutable_witness:
  "setParameter ref_env (sample_state\<lparr>mMayBeMutable := False\<rparr>) ''a'' ''b'' ''c'' = Some (sample_state\<lparr>mMayBeMutable := False\<rparr>)"
  using routestate_immutable [of "sample_state\<lparr>mMayBeMutable := False\<rparr>"] by simp

text \<open>Unsetting a parameter is not a modification: if nothing else was changed, \<open>update\<close> leaves
  the message as it is, with the removed parameter still in its signed state.\<close>

theorem routestate_unset_not_recorded:
  assumes "env_law fits env" and "values_inv (mValues rs)" and "param_ok i p" and "mMayBeMutable rs"
    and "\<not> mModified rs" and "\<not> mAddCopyRequested rs"
  shows "\<exists>rs1. unsetParameter env rs i p = Some rs1 \<and> getParameter env rs1 i p = Some (False, [])
           \<and> RouteState_update env url secret rs1 request = Some (rs1, request)"
proof -
  obtain l where l: "unsetParameter env rs i p = Some (rs\<lparr>mValues := l\<rparr>)" "values_inv l"
    "params l = (params (mValues rs))(i @ ''*'' @ p := None)"
    using unsetParameter_params [OF assms(1-4)] by blast
  moreover have "getParameter env (rs\<lparr>mValues := l\<rparr>) i p = Some (False, [])"
    using getParameter_params [OF assms(1), of "rs\<lparr>mValues := l\<rparr>" i p] l assms(3) by simp
  ultimately show ?thesis using assms(4-6) by (intro exI [of _ "rs\<lparr>mValues := l\<rparr>"]) (simp add: RouteState_update_def)
qed

definition sample_request :: sip_message where
  "sample_request = \<lparr>callIdField = ''call-1'', fromTag = Some ''ab'', toTag = None, isResponse = False,
     requestMethod = ''INVITE'', recordRoutes = []\<rparr>"




text \<open>A printer and a reader of this kind.\<close>

definition ref_url :: url_ops where
  "ref_url = \<lparr>url_getParam = (\<lambda>r. if CHR ''='' \<in> set r then Some (takeWhile (\<lambda>c. c \<noteq> CHR ''>'') (tl (dropWhile (\<lambda>c. c \<noteq> CHR ''='') r))) else None),
     url_hostPort = (\<lambda>r. r), url_make = (\<lambda>h t. h @ '';sipXecs-rs='' @ t), url_setParam = (\<lambda>r t. r)\<rparr>"



theorem routestate_unset_not_recorded_witness:
  "\<exists>rs1. unsetParameter ref_env (sample_state\<lparr>mModified := False\<rparr>) [] ''from'' = Some rs1
     \<and> RouteState_update ref_env ref_url ''k'' rs1 sample_request = Some (rs1, sample_request)"
proof -
  have "param_ok [] ''from''" by code_simp
  moreover have "values_inv (mValues (sample_state\<lparr>mModified := False\<rparr>))" using sample_values_inv by simp
  ultimately show ?thesis
    using routestate_unset_not_recorded [OF ref_env_law, of "sample_state\<lparr>mModified := False\<rparr>" "[]" "''from''" ref_url "''k''" sample_request]
    by (auto simp: sample_state_def)
qed

section \<open>Through a message\<close>








text \<open>The position of a Record-Route URI counts the URIs of all headers, but \<open>update\<close> replaces
  the header of that number. With two URIs in the first header, a state found in the second
  of them is written over the second header, whose URI is lost, and the old token stays in
  the first.\<close>

theorem routestate_update_wrong_header:
  assumes "env_law fits env" and "values_inv (mValues rs)" and "mMayBeMutable rs" and "mModified rs"
    and "\<not> mAddCopyRequested rs" and "mRecordRouteIndices rs = [1]" and "recordRoutes request = [[r0, r1], [r2]]"
    and "length secret < 2 ^ 32" and "length (mCallId rs) < 2 ^ 32"
    and "length (token_text secret (mCallId rs) (map nobj (nodes (mValues rs)))) < 2 ^ 31"
  shows "RouteState_update env url secret rs request = Some (rs, request\<lparr>recordRoutes :=
           [[r0, r1], [url_setParam url r1 (token_text secret (mCallId rs) (map nobj (nodes (mValues rs))))]]\<rparr>)"
proof -
  let ?ps = "map nobj (nodes (mValues rs))"
  have inv: "list_inv (mValues rs)" "iters (mValues rs) = []" using assms(2) by (auto simp: values_inv_def)
  have "\<forall>n\<in>set (nodes (mValues rs)). nul_free (nv_name (nobj n))" using values_inv_node [OF assms(2)] by blast
  moreover have "length (nv_body True ?ps) < 2 ^ 32" using assms(10) by (simp add: token_length)
  ultimately have "RouteState_encode env secret rs [] = Some (rs, token_text secret (mCallId rs) ?ps)"
    using RouteState_encode_ok [OF assms(1) inv _ assms(8,9)] by blast
  then show ?thesis
    using assms(3-7) by (simp add: RouteState_update_def getRecordRouteUri_def setRecordRouteField_def Let_def)
qed

theorem routestate_update_wrong_header_witness:
  "\<exists>uri. map_option (recordRoutes \<circ> snd) (RouteState_update ref_env ref_url ''k'' (sample_state\<lparr>mRecordRouteIndices := [1]\<rparr>)
     (sample_request\<lparr>recordRoutes := [[''<a>'', ''<b>''], [''<c>'']]\<rparr>)) = Some [[''<a>'', ''<b>''], [uri]]"
proof -
  let ?rs = "sample_state\<lparr>mRecordRouteIndices := [1]\<rparr>"
  have "length (token_text ''k'' (mCallId ?rs) (map nobj (nodes (mValues ?rs)))) < 2 ^ 31"
    using sample_state_facts(7) by (simp add: token_length)
  moreover have "values_inv (mValues ?rs)" "mMayBeMutable ?rs" "mModified ?rs" "\<not> mAddCopyRequested ?rs"
    using sample_values_inv by (simp_all add: sample_state_def)
  moreover have "length (mCallId ?rs) < 2 ^ 32" by (simp add: sample_state_def)
  ultimately show ?thesis
    using routestate_update_wrong_header [OF ref_env_law, of ?rs "sample_request\<lparr>recordRoutes := [[''<a>'', ''<b>''], [''<c>'']]\<rparr>"
        "''<a>''" "''<b>''" "''<c>''" "''k''" ref_url] by simp
qed

end
