(* ===== verification/RedirectPlugin.thy ===== *)
theory RedirectPlugin
  imports UtlHashMap SipMessage
begin

text \<open>
  The two objects a redirect plug-in is given to fill in
  (\<^verbatim>\<open>sipXregistry/src/RedirectPlugin.cpp\<close>): the list of contacts of a request, which records
  whether it was modified, and the description of the error response to send. The optional
  header fields of the latter are kept in a hash table from string objects to string objects
  (theory \<open>UtlHashMap\<close>).

  What a plug-in does to the two objects in one call is a list of operations
  (\<open>contact_op\<close>, \<open>error_op\<close>); the methods that only read are not recorded.
\<close>

section \<open>The contact list\<close>

record contact_list =
  mRequestString :: string
  mbListWasModified :: bool
  mContactList :: "string list"
  diversion :: string

definition ContactList_new :: "string \<Rightarrow> contact_list" where
  "ContactList_new requestString =
     \<lparr>mRequestString = requestString, mbListWasModified = False, mContactList = [], diversion = []\<rparr>"

definition contact_add :: "contact_list \<Rightarrow> string \<Rightarrow> contact_list \<times> bool" where
  "contact_add cl contact = (cl\<lparr>mbListWasModified := True, mContactList := mContactList cl @ [contact]\<rparr>, True)"

definition contact_set :: "contact_list \<Rightarrow> nat \<Rightarrow> string \<Rightarrow> contact_list \<times> bool" where
  "contact_set cl index contact =
     (if index < length (mContactList cl)
      then (cl\<lparr>mbListWasModified := True, mContactList := (mContactList cl)[index := contact]\<rparr>, True)
      else (cl, False))"

definition contact_get :: "contact_list \<Rightarrow> nat \<Rightarrow> string option" where
  "contact_get cl index = (if index < length (mContactList cl) then Some (mContactList cl ! index) else None)"

definition contact_remove :: "contact_list \<Rightarrow> nat \<Rightarrow> contact_list \<times> bool" where
  "contact_remove cl index =
     (if index < length (mContactList cl)
      then (cl\<lparr>mbListWasModified := True,
               mContactList := take index (mContactList cl) @ drop (Suc index) (mContactList cl)\<rparr>, True)
      else (cl, False))"

definition contact_removeAll :: "contact_list \<Rightarrow> contact_list \<times> bool" where
  "contact_removeAll cl = (cl\<lparr>mbListWasModified := True, mContactList := []\<rparr>, True)"

definition contact_touch :: "contact_list \<Rightarrow> contact_list" where
  "contact_touch cl = cl\<lparr>mbListWasModified := True\<rparr>"

definition contact_entries :: "contact_list \<Rightarrow> nat" where
  "contact_entries cl = length (mContactList cl)"

definition resetWasModifiedFlag :: "contact_list \<Rightarrow> contact_list" where
  "resetWasModifiedFlag cl = cl\<lparr>mbListWasModified := False\<rparr>"

definition wasListModified :: "contact_list \<Rightarrow> bool" where
  "wasListModified cl = mbListWasModified cl"

definition getDiversionHeader :: "contact_list \<Rightarrow> string" where
  "getDiversionHeader cl = diversion cl"

definition setDiversionHeader :: "contact_list \<Rightarrow> string \<Rightarrow> contact_list" where
  "setDiversionHeader cl d = cl\<lparr>diversion := d\<rparr>"

datatype contact_op =
    Contact_Add string
  | Contact_Set nat string
  | Contact_Remove nat
  | Contact_RemoveAll
  | Contact_Touch
  | Contact_Diversion string

fun contact_step :: "contact_op \<Rightarrow> contact_list \<Rightarrow> contact_list" where
  "contact_step (Contact_Add c) cl = fst (contact_add cl c)"
| "contact_step (Contact_Set i c) cl = fst (contact_set cl i c)"
| "contact_step (Contact_Remove i) cl = fst (contact_remove cl i)"
| "contact_step Contact_RemoveAll cl = fst (contact_removeAll cl)"
| "contact_step Contact_Touch cl = contact_touch cl"
| "contact_step (Contact_Diversion d) cl = setDiversionHeader cl d"

definition run_contact_ops :: "contact_op list \<Rightarrow> contact_list \<Rightarrow> contact_list" where
  "run_contact_ops ops cl = fold contact_step ops cl"

lemmas contact_defs = contact_add_def contact_set_def contact_remove_def contact_removeAll_def contact_touch_def
  setDiversionHeader_def resetWasModifiedFlag_def wasListModified_def

text \<open>A list that does not say it was modified has the contacts it had.\<close>

lemma contact_step_flag:
  "mbListWasModified cl \<Longrightarrow> mbListWasModified (contact_step op cl)"
  "\<not> mbListWasModified (contact_step op cl) \<Longrightarrow> mContactList (contact_step op cl) = mContactList cl"
  by (cases op; auto simp: contact_defs split: if_splits)+

lemma run_contact_ops_flag: "mbListWasModified cl \<Longrightarrow> mbListWasModified (run_contact_ops ops cl)"
  unfolding run_contact_ops_def by (induction ops arbitrary: cl) (auto intro: contact_step_flag)

lemma run_contact_ops_unmodified:
  "\<not> mbListWasModified (run_contact_ops ops cl) \<Longrightarrow> mContactList (run_contact_ops ops cl) = mContactList cl"
proof (induction ops arbitrary: cl)
  case (Cons op ops)
  have run: "run_contact_ops (op # ops) cl = run_contact_ops ops (contact_step op cl)" by (simp add: run_contact_ops_def)
  have "\<not> mbListWasModified (contact_step op cl)"
    using Cons.prems run_contact_ops_flag [of "contact_step op cl" ops] by (auto simp: run)
  then show ?case using Cons contact_step_flag(2) [of op cl] by (simp add: run)
qed (simp add: run_contact_ops_def)

section \<open>The error descriptor\<close>

definition UNINITIALIZED_WARNING_CODE :: int where "UNINITIALIZED_WARNING_CODE = -1"
definition SIP_4XX_CLASS_CODE :: int where "SIP_4XX_CLASS_CODE = 400"
definition SIP_7XX_CLASS_CODE :: int where "SIP_7XX_CLASS_CODE = 700"
definition SIP_WARN_INCOMPAT_PROTO_CODE :: int where "SIP_WARN_INCOMPAT_PROTO_CODE = 300"
definition SIP_WARN_MISC_CODE :: int where "SIP_WARN_MISC_CODE = 399"
definition SIP_RETRY_AFTER_FIELD :: string where "SIP_RETRY_AFTER_FIELD = ''RETRY-AFTER''"
definition SIP_REQUIRE_FIELD :: string where "SIP_REQUIRE_FIELD = ''REQUIRE''"
definition SIP_UNSUPPORTED_FIELD :: string where "SIP_UNSUPPORTED_FIELD = ''UNSUPPORTED''"
definition SIP_ALLOW_FIELD :: string where "SIP_ALLOW_FIELD = ''ALLOW''"
definition SIP_ACCEPT_FIELD :: string where "SIP_ACCEPT_FIELD = ''ACCEPT''"
definition SIP_ACCEPT_ENCODING_FIELD :: string where "SIP_ACCEPT_ENCODING_FIELD = ''ACCEPT-ENCODING''"
definition SIP_ACCEPT_LANGUAGE_FIELD :: string where "SIP_ACCEPT_LANGUAGE_FIELD = ''ACCEPT-LANGUAGE''"

record error_descriptor =
  mStatusCode :: int
  mReasonPhrase :: string
  mWarningCode :: int
  mWarningText :: string
  mAppendRequestToResponse :: bool
  mOptionalFieldsValues :: "(object, string) hmap"

definition ErrorDescriptor_new :: error_descriptor where
  "ErrorDescriptor_new =
     \<lparr>mStatusCode = 403, mReasonPhrase = ''Forbidden'', mWarningCode = UNINITIALIZED_WARNING_CODE,
      mWarningText = [], mAppendRequestToResponse = False, mOptionalFieldsValues = UtlHashMap_new\<rparr>"

definition setStatusLineData :: "error_descriptor \<Rightarrow> int \<Rightarrow> string \<Rightarrow> error_descriptor \<times> bool" where
  "setStatusLineData d statusCode reasonPhrase =
     (if SIP_4XX_CLASS_CODE \<le> statusCode \<and> statusCode < SIP_7XX_CLASS_CODE
      then (d\<lparr>mStatusCode := statusCode, mReasonPhrase := reasonPhrase\<rparr>, True) else (d, False))"

definition setWarningData :: "error_descriptor \<Rightarrow> int \<Rightarrow> string \<Rightarrow> error_descriptor \<times> bool" where
  "setWarningData d warningCode warningText =
     (if SIP_WARN_INCOMPAT_PROTO_CODE \<le> warningCode \<and> warningCode \<le> SIP_WARN_MISC_CODE
      then (d\<lparr>mWarningCode := warningCode, mWarningText := warningText\<rparr>, True) else (d, False))"

text \<open>\<open>destroy\<close> deletes the key and value objects it takes out; new ones are inserted.\<close>

definition setOptionalFieldValue :: "error_descriptor \<Rightarrow> string \<Rightarrow> string \<Rightarrow> error_descriptor option" where
  "setOptionalFieldValue d fieldName fieldValue = do {
     (t1, _) \<leftarrow> destroy object_hash object_isEqual (mOptionalFieldsValues d) (Some (StringObj fieldName));
     (t2, _) \<leftarrow> insertKeyAndValue object_hash object_isEqual t1 (Some (StringObj fieldName)) (Obj fieldValue);
     Some (d\<lparr>mOptionalFieldsValues := t2\<rparr>) }"

definition setRetryAfterFieldValue :: "error_descriptor \<Rightarrow> string \<Rightarrow> error_descriptor option" where
  "setRetryAfterFieldValue d v = setOptionalFieldValue d SIP_RETRY_AFTER_FIELD v"
definition setRequireFieldValue :: "error_descriptor \<Rightarrow> string \<Rightarrow> error_descriptor option" where
  "setRequireFieldValue d v = setOptionalFieldValue d SIP_REQUIRE_FIELD v"
definition setUnsupportedFieldValue :: "error_descriptor \<Rightarrow> string \<Rightarrow> error_descriptor option" where
  "setUnsupportedFieldValue d v = setOptionalFieldValue d SIP_UNSUPPORTED_FIELD v"
definition setAllowFieldValue :: "error_descriptor \<Rightarrow> string \<Rightarrow> error_descriptor option" where
  "setAllowFieldValue d v = setOptionalFieldValue d SIP_ALLOW_FIELD v"
definition setAcceptFieldValue :: "error_descriptor \<Rightarrow> string \<Rightarrow> error_descriptor option" where
  "setAcceptFieldValue d v = setOptionalFieldValue d SIP_ACCEPT_FIELD v"
definition setAcceptEncodingFieldValue :: "error_descriptor \<Rightarrow> string \<Rightarrow> error_descriptor option" where
  "setAcceptEncodingFieldValue d v = setOptionalFieldValue d SIP_ACCEPT_ENCODING_FIELD v"
definition setAcceptLanguageFieldValue :: "error_descriptor \<Rightarrow> string \<Rightarrow> error_descriptor option" where
  "setAcceptLanguageFieldValue d v = setOptionalFieldValue d SIP_ACCEPT_LANGUAGE_FIELD v"

definition appendRequestToResponse :: "error_descriptor \<Rightarrow> error_descriptor" where
  "appendRequestToResponse d = d\<lparr>mAppendRequestToResponse := True\<rparr>"
definition dontAppendRequestToResponse :: "error_descriptor \<Rightarrow> error_descriptor" where
  "dontAppendRequestToResponse d = d\<lparr>mAppendRequestToResponse := False\<rparr>"

definition getStatusLineData :: "error_descriptor \<Rightarrow> int \<times> string" where
  "getStatusLineData d = (mStatusCode d, mReasonPhrase d)"

definition isWarningDataSet :: "error_descriptor \<Rightarrow> bool" where
  "isWarningDataSet d \<longleftrightarrow> mWarningCode d \<noteq> UNINITIALIZED_WARNING_CODE"

definition getWarningData :: "error_descriptor \<Rightarrow> (int \<times> string) option" where
  "getWarningData d = (if isWarningDataSet d then Some (mWarningCode d, mWarningText d) else None)"

definition shouldRequestBeAppendedToResponse :: "error_descriptor \<Rightarrow> bool" where
  "shouldRequestBeAppendedToResponse d = mAppendRequestToResponse d"

text \<open>The field's value, if it is set; the outer option is undefinedness of the lookup.\<close>

definition getOptinalFieldValue :: "error_descriptor \<Rightarrow> string \<Rightarrow> string option option" where
  "getOptinalFieldValue d fieldName =
     map_option pointee (findValue object_hash object_isEqual (mOptionalFieldsValues d) (StringObj fieldName))"

definition getRetryAfterFieldValue :: "error_descriptor \<Rightarrow> string option option" where
  "getRetryAfterFieldValue d = getOptinalFieldValue d SIP_RETRY_AFTER_FIELD"
definition getRequireFieldValue :: "error_descriptor \<Rightarrow> string option option" where
  "getRequireFieldValue d = getOptinalFieldValue d SIP_REQUIRE_FIELD"
definition getUnsupportedFieldValue :: "error_descriptor \<Rightarrow> string option option" where
  "getUnsupportedFieldValue d = getOptinalFieldValue d SIP_UNSUPPORTED_FIELD"
definition getAllowFieldValue :: "error_descriptor \<Rightarrow> string option option" where
  "getAllowFieldValue d = getOptinalFieldValue d SIP_ALLOW_FIELD"
definition getAcceptFieldValue :: "error_descriptor \<Rightarrow> string option option" where
  "getAcceptFieldValue d = getOptinalFieldValue d SIP_ACCEPT_FIELD"
definition getAcceptEncodingFieldValue :: "error_descriptor \<Rightarrow> string option option" where
  "getAcceptEncodingFieldValue d = getOptinalFieldValue d SIP_ACCEPT_ENCODING_FIELD"
definition getAcceptLanguageFieldValue :: "error_descriptor \<Rightarrow> string option option" where
  "getAcceptLanguageFieldValue d = getOptinalFieldValue d SIP_ACCEPT_LANGUAGE_FIELD"

datatype error_field = RetryAfter | Require | Unsupported | Allow | Accept | AcceptEncoding | AcceptLanguage

datatype error_op =
    Error_StatusLine int string
  | Error_Warning int string
  | Error_Field error_field string
  | Error_AppendRequest
  | Error_DontAppendRequest

fun set_error_field :: "error_field \<Rightarrow> error_descriptor \<Rightarrow> string \<Rightarrow> error_descriptor option" where
  "set_error_field RetryAfter = setRetryAfterFieldValue"
| "set_error_field Require = setRequireFieldValue"
| "set_error_field Unsupported = setUnsupportedFieldValue"
| "set_error_field Allow = setAllowFieldValue"
| "set_error_field Accept = setAcceptFieldValue"
| "set_error_field AcceptEncoding = setAcceptEncodingFieldValue"
| "set_error_field AcceptLanguage = setAcceptLanguageFieldValue"

fun get_error_field :: "error_field \<Rightarrow> error_descriptor \<Rightarrow> string option option" where
  "get_error_field RetryAfter = getRetryAfterFieldValue"
| "get_error_field Require = getRequireFieldValue"
| "get_error_field Unsupported = getUnsupportedFieldValue"
| "get_error_field Allow = getAllowFieldValue"
| "get_error_field Accept = getAcceptFieldValue"
| "get_error_field AcceptEncoding = getAcceptEncodingFieldValue"
| "get_error_field AcceptLanguage = getAcceptLanguageFieldValue"

fun error_step :: "error_descriptor \<Rightarrow> error_op \<Rightarrow> error_descriptor option" where
  "error_step d (Error_StatusLine c r) = Some (fst (setStatusLineData d c r))"
| "error_step d (Error_Warning c t) = Some (fst (setWarningData d c t))"
| "error_step d (Error_Field f v) = set_error_field f d v"
| "error_step d Error_AppendRequest = Some (appendRequestToResponse d)"
| "error_step d Error_DontAppendRequest = Some (dontAppendRequestToResponse d)"

fun run_error_ops :: "error_op list \<Rightarrow> error_descriptor \<Rightarrow> error_descriptor option" where
  "run_error_ops [] d = Some d"
| "run_error_ops (op # ops) d = error_step d op \<bind> run_error_ops ops"

section \<open>What the descriptor stands for\<close>

record error_spec =
  es_status :: "int \<times> string"
  es_warning :: "(int \<times> string) option"
  es_append :: bool
  es_fields :: "error_field \<Rightarrow> string option"

definition error_spec_new :: error_spec where
  "error_spec_new = \<lparr>es_status = (403, ''Forbidden''), es_warning = None, es_append = False, es_fields = Map.empty\<rparr>"

fun spec_step :: "error_op \<Rightarrow> error_spec \<Rightarrow> error_spec" where
  "spec_step (Error_StatusLine c r) e = (if 400 \<le> c \<and> c < 700 then e\<lparr>es_status := (c, r)\<rparr> else e)"
| "spec_step (Error_Warning c t) e = (if 300 \<le> c \<and> c < 400 then e\<lparr>es_warning := Some (c, t)\<rparr> else e)"
| "spec_step (Error_Field f v) e = e\<lparr>es_fields := (es_fields e)(f \<mapsto> v)\<rparr>"
| "spec_step Error_AppendRequest e = e\<lparr>es_append := True\<rparr>"
| "spec_step Error_DontAppendRequest e = e\<lparr>es_append := False\<rparr>"

definition error_abs :: "error_descriptor \<Rightarrow> error_spec" where
  "error_abs d = \<lparr>es_status = getStatusLineData d, es_warning = getWarningData d,
     es_append = shouldRequestBeAppendedToResponse d, es_fields = (\<lambda>f. the (get_error_field f d))\<rparr>"

abbreviation "string_table \<equiv> table_inv object_hash object_isEqual object_ok"

fun field_name :: "error_field \<Rightarrow> string" where
  "field_name RetryAfter = SIP_RETRY_AFTER_FIELD"
| "field_name Require = SIP_REQUIRE_FIELD"
| "field_name Unsupported = SIP_UNSUPPORTED_FIELD"
| "field_name Allow = SIP_ALLOW_FIELD"
| "field_name Accept = SIP_ACCEPT_FIELD"
| "field_name AcceptEncoding = SIP_ACCEPT_ENCODING_FIELD"
| "field_name AcceptLanguage = SIP_ACCEPT_LANGUAGE_FIELD"

text \<open>The table has an entry for every field that is set, and no other.\<close>

definition set_in :: "(object, string) hmap \<Rightarrow> error_field \<Rightarrow> bool" where
  "set_in t f \<longleftrightarrow> table_abs object_isEqual t (StringObj (field_name f)) \<noteq> None"

definition error_ok :: "error_descriptor \<Rightarrow> bool" where
  "error_ok d \<longleftrightarrow> 400 \<le> mStatusCode d \<and> mStatusCode d < 700
     \<and> (mWarningCode d = UNINITIALIZED_WARNING_CODE \<or> 300 \<le> mWarningCode d \<and> mWarningCode d < 400)
     \<and> string_table (mOptionalFieldsValues d)
     \<and> mElements (mOptionalFieldsValues d) = card {f. set_in (mOptionalFieldsValues d) f}"

lemmas field_names = SIP_RETRY_AFTER_FIELD_def SIP_REQUIRE_FIELD_def SIP_UNSUPPORTED_FIELD_def SIP_ALLOW_FIELD_def
  SIP_ACCEPT_FIELD_def SIP_ACCEPT_ENCODING_FIELD_def SIP_ACCEPT_LANGUAGE_FIELD_def

lemma set_error_field_name: "set_error_field f d v = setOptionalFieldValue d (field_name f) v"
  by (cases f) (simp_all add: setRetryAfterFieldValue_def setRequireFieldValue_def setUnsupportedFieldValue_def
      setAllowFieldValue_def setAcceptFieldValue_def setAcceptEncodingFieldValue_def setAcceptLanguageFieldValue_def)

lemma get_error_field_name: "get_error_field f d = getOptinalFieldValue d (field_name f)"
  by (cases f) (simp_all add: getRetryAfterFieldValue_def getRequireFieldValue_def getUnsupportedFieldValue_def
      getAllowFieldValue_def getAcceptFieldValue_def getAcceptEncodingFieldValue_def getAcceptLanguageFieldValue_def)

lemma field_name_inj: "field_name f = field_name g \<longleftrightarrow> f = g"
  by (cases f; cases g; simp add: field_names)

lemma field_name_nul_free: "nul_free (field_name f)"
  by (cases f) (simp; code_simp)+

lemma field_key_ok: "object_ok (StringObj (field_name f))"
  by (simp add: object_ok_def field_name_nul_free)

lemma field_key_eq: "object_isEqual (StringObj (field_name f)) (StringObj (field_name g)) \<longleftrightarrow> f = g"
  by (simp add: object_isEqual_iff field_name_nul_free field_name_inj)

lemma setOptionalFieldValue_set_value:
  "setOptionalFieldValue d name v = map_option (\<lambda>t. d\<lparr>mOptionalFieldsValues := t\<rparr>)
     (objects.table.set_value (mOptionalFieldsValues d) (StringObj name) (Some v))"
  by (auto simp: setOptionalFieldValue_def destroy_def objects.table.set_value_def table_del_def table_put_def
      split: option.splits bind_splits prod.splits)

lemma get_error_field_ok:
  assumes "string_table (mOptionalFieldsValues d)"
  shows "get_error_field f d =
     Some (case table_abs object_isEqual (mOptionalFieldsValues d) (StringObj (field_name f)) of None \<Rightarrow> None | Some v \<Rightarrow> v)"
  using objects.table.get_law [OF assms field_key_ok [of f]]
  by (auto simp: get_error_field_name getOptinalFieldValue_def table_get_def returns_iff)

lemma finite_fields: "finite (F :: error_field set)" and card_fields: "card (F :: error_field set) \<le> 7"
proof -
  have u: "(UNIV :: error_field set) = set [RetryAfter, Require, Unsupported, Allow, Accept, AcceptEncoding, AcceptLanguage]"
    using error_field.exhaust by auto
  then have "finite (UNIV :: error_field set)" by (metis List.finite_set)
  then show "finite F" by (rule rev_finite_subset) simp
  have "card F \<le> card (UNIV :: error_field set)" using \<open>finite UNIV\<close> by (rule card_mono) simp
  also have "\<dots> \<le> 7" unfolding u by (rule order_trans [OF card_length]) simp
  finally show "card F \<le> 7" .
qed

lemma error_step_ok:
  assumes ok: "error_ok d"
  shows "returns (error_step d op) (\<lambda>d'. error_ok d' \<and> error_abs d' = spec_step op (error_abs d))"
proof (cases op)
  case (Error_Field f v)
  have tab: "string_table (mOptionalFieldsValues d)"
    and sz: "mElements (mOptionalFieldsValues d) = card {f. set_in (mOptionalFieldsValues d) f}"
    using ok by (simp_all add: error_ok_def)
  have room: "Suc (mElements (mOptionalFieldsValues d)) < SIZE_MOD"
    using card_fields [of "{f. set_in (mOptionalFieldsValues d) f}"] by (simp add: sz SIZE_MOD_def)
  show ?thesis
    unfolding Error_Field error_step.simps set_error_field_name setOptionalFieldValue_set_value returns_map_option
  proof (rule returns_mono [OF objects.table.set_value_ok [OF tab field_key_ok [of f] room]], clarify, intro conjI)
    fix t
    assume t: "string_table t" "mElements t = (if table_abs object_isEqual (mOptionalFieldsValues d) (StringObj (field_name f)) = None
         then Suc (mElements (mOptionalFieldsValues d)) else mElements (mOptionalFieldsValues d))"
      "\<forall>l. object_ok l \<longrightarrow> table_abs object_isEqual t l = (if object_isEqual (StringObj (field_name f)) l then Some (Some v)
         else table_abs object_isEqual (mOptionalFieldsValues d) l)"
    let ?d = "d\<lparr>mOptionalFieldsValues := t\<rparr>"
    have "{g. set_in t g} = insert f {g. set_in (mOptionalFieldsValues d) g}"
      using t(3) field_key_ok by (auto simp: set_in_def field_key_eq)
    then have "mElements t = card {g. set_in t g}"
      using t(2) sz finite_fields by (simp add: set_in_def insert_absorb)
    then show "error_ok ?d" using ok t(1) by (simp add: error_ok_def)
    have "get_error_field g ?d = Some (if g = f then Some v else the (get_error_field g d))" for g
      using get_error_field_ok [of ?d g] get_error_field_ok [OF tab, of g] t(1) t(3) [rule_format, OF field_key_ok [of g]]
      by (auto simp: field_key_eq split: if_splits)
    then show "error_abs ?d = spec_step (Error_Field f v) (error_abs d)"
      by (simp add: error_abs_def getStatusLineData_def getWarningData_def isWarningDataSet_def
          shouldRequestBeAppendedToResponse_def fun_upd_def fun_eq_iff)
  qed
qed (use ok in \<open>auto simp: error_ok_def error_abs_def setStatusLineData_def setWarningData_def appendRequestToResponse_def
      dontAppendRequestToResponse_def getStatusLineData_def getWarningData_def isWarningDataSet_def get_error_field_name
      getOptinalFieldValue_def shouldRequestBeAppendedToResponse_def SIP_4XX_CLASS_CODE_def SIP_7XX_CLASS_CODE_def
      SIP_WARN_INCOMPAT_PROTO_CODE_def SIP_WARN_MISC_CODE_def UNINITIALIZED_WARNING_CODE_def\<close>)

lemma run_error_ops_ok:
  assumes "error_ok d"
  shows "returns (run_error_ops ops d) (\<lambda>d'. error_ok d' \<and> error_abs d' = fold spec_step ops (error_abs d))"
  using assms
proof (induction ops arbitrary: d)
  case (Cons op ops)
  show ?case unfolding run_error_ops.simps
    by (rule returns_bind [OF error_step_ok [OF Cons.prems]]) (rule returns_mono [OF Cons.IH], auto)
qed simp

lemma ErrorDescriptor_new_ok: "error_ok ErrorDescriptor_new" "error_abs ErrorDescriptor_new = error_spec_new"
proof -
  have tab: "string_table (mOptionalFieldsValues ErrorDescriptor_new)"
    by (simp add: ErrorDescriptor_new_def table_inv_def UtlHashMap_new_ok) (simp add: UtlHashMap_new_def)
  have "mElements (mOptionalFieldsValues ErrorDescriptor_new) = 0" by (simp add: ErrorDescriptor_new_def UtlHashMap_new_def)
  moreover have none: "table_abs object_isEqual (mOptionalFieldsValues ErrorDescriptor_new) k = None" for k
    by (simp add: ErrorDescriptor_new_def table_abs_def UtlHashMap_new_abs)
  ultimately show "error_ok ErrorDescriptor_new" using tab by (simp add: error_ok_def set_in_def) (simp add: ErrorDescriptor_new_def)
  have "get_error_field f ErrorDescriptor_new = Some None" for f
    unfolding get_error_field_ok [OF tab] by (simp add: none)
  then show "error_abs ErrorDescriptor_new = error_spec_new"
    by (simp add: error_abs_def error_spec_new_def getStatusLineData_def getWarningData_def isWarningDataSet_def
        shouldRequestBeAppendedToResponse_def ErrorDescriptor_new_def fun_eq_iff)
qed

lemma error_ok_field: "error_ok d \<Longrightarrow> get_error_field f d = Some (es_fields (error_abs d) f)"
  using get_error_field_ok [of d f] by (simp add: error_ok_def error_abs_def)

section \<open>Properties\<close>

text \<open>C14. Whatever a plug-in does to an error descriptor, the operations return and the response it
  describes has a status code of the classes 4xx to 6xx and, if it has a warning, a warning code
  3xx.\<close>

theorem error_descriptor_codes:
  "returns (run_error_ops ops ErrorDescriptor_new) (\<lambda>d.
     400 \<le> fst (getStatusLineData d) \<and> fst (getStatusLineData d) < 700
     \<and> (case getWarningData d of None \<Rightarrow> True | Some (c, t) \<Rightarrow> 300 \<le> c \<and> c < 400))"
  by (rule returns_mono [OF run_error_ops_ok [OF ErrorDescriptor_new_ok(1), of ops]])
     (auto simp: error_ok_def getStatusLineData_def getWarningData_def isWarningDataSet_def)

text \<open>C13. The descriptor implements its specification: the last good status line and warning count, 403
  Forbidden without one, and each optional field has the value set last or none, independently
  of the others.\<close>

theorem error_descriptor_refines:
  "returns (run_error_ops ops ErrorDescriptor_new) (\<lambda>d. error_abs d = fold spec_step ops error_spec_new
     \<and> (\<forall>f. get_error_field f d = Some (es_fields (fold spec_step ops error_spec_new) f)))"
  by (rule returns_mono [OF run_error_ops_ok [OF ErrorDescriptor_new_ok(1), of ops]])
     (auto simp: ErrorDescriptor_new_ok(2) error_ok_field)

end
