(* ===== verification/SipRedirectServer.thy ===== *)
theory SipRedirectServer
  imports RedirectPlugin
begin

text \<open>
  The redirect server of the registrar (\<^verbatim>\<open>sipXregistry/src/SipRedirectServer.cpp\<close>,
  \<^verbatim>\<open>RedirectSuspend.cpp\<close>, \<^verbatim>\<open>RedirectResumeMsg.cpp\<close>): a request goes through the configured
  plug-ins, which fill the contact list, report an error or ask for the request to be
  suspended; a suspended request is processed again when every plug-in that asked for it has
  sent a resume message. \<open>handleMessage\<close> is one step of the server's task.

  \<^item> \<open>mSuspendList\<close> is the hash table of theory \<open>UtlHashMap\<close> from sequence numbers to the
    addresses of suspend objects; \<open>suspends\<close> are the objects that live.
  \<^item> The plug-ins are parameters (\<open>redirect_env\<close>): each call gives their new state and either
    an exception or what the call did. \<open>parse_uri\<close> to \<open>apply_params\<close> are methods of class \<open>Url\<close>
    and the header parameters of a target URI, \<open>selfHeaderValue\<close> is how the user agent names itself.
  \<^item> \<open>log\<close> lists what the server did: responses and ACKs it sent, calls of plug-ins, private
    storage it deleted. A response is the request it answers, whose identifying header fields
    it repeats, and the message with the first line and the fields the server writes.
  \<^item> \<open>None\<close> is undefined behaviour: a NULL or dangling pointer, an index out of range, a write
    outside a buffer.

  Every message is handled under the server's lock or by its only task, so a step is atomic;
  an iterator that a plug-in has on the table exists only while that plug-in holds the lock.
\<close>

section \<open>Plug-ins and state\<close>

datatype exc = MongoException | BoostException | StdException | UnknownException

fun errorString :: "exc \<Rightarrow> string" where
  "errorString MongoException = ''Registry - Mongo DB Exception''"
| "errorString BoostException = ''Registry - Boost Library Exception''"
| "errorString StdException = ''Registry - Standard Library Exception''"
| "errorString UnknownException = ''Registry - Unknown Exception''"

datatype LookUpStatus = ERROR | SEARCH_PENDING | SUCCESS | InvalidStatus int

record 'u lookup_result =
  lr_status :: LookUpStatus
  lr_contacts :: "contact_op list"
  lr_errors :: "error_op list"
  lr_storage :: "nat option"
  lr_requestString :: string
  lr_requestUri :: 'u

record ('p, 'u) redirect_env =
  env_lookUp :: "nat \<Rightarrow> 'p \<Rightarrow> http_message \<Rightarrow> string \<Rightarrow> 'u \<Rightarrow> string \<Rightarrow> contact_list \<Rightarrow> 32 word \<Rightarrow> nat option
                  \<Rightarrow> error_descriptor \<Rightarrow> 'p \<times> (exc + 'u lookup_result)"
  env_observe :: "nat \<Rightarrow> 'p \<Rightarrow> http_message \<Rightarrow> string \<Rightarrow> 'u \<Rightarrow> string \<Rightarrow> contact_list \<Rightarrow> 32 word \<Rightarrow> 'p \<times> exc option"
  env_cancel :: "nat \<Rightarrow> 'p \<Rightarrow> 32 word \<Rightarrow> 'p \<times> exc option"
  env_finalize :: "nat \<Rightarrow> 'p \<Rightarrow> 'p"
  parse_uri :: "string \<Rightarrow> 'u"
  uri_port :: "'u \<Rightarrow> int"
  uri_setPort :: "'u \<Rightarrow> int \<Rightarrow> 'u"
  addr_spec :: "string \<Rightarrow> string"
  url_parts :: "string \<Rightarrow> url_fields"
  apply_params :: "http_message \<Rightarrow> http_message"
  selfHeaderValue :: string

record redirector =
  suspended :: bool
  needsCancel :: bool
  privateStorage :: "nat option"

record redirect_suspend =
  mMessage :: http_message
  mSuspendCount :: int
  mRedirectors :: "redirector list"

record redirector_descriptor =
  bActive :: bool
  authorityLevel :: int

record sip_response =
  res_request :: http_message
  res_message :: http_message
  res_sipfrag :: bool

datatype server_output =
    Sent sip_response
  | SentAck http_message
  | LookedUp nat "32 word"
  | Observed nat "32 word"
  | Cancelled nat "32 word"
  | StorageDeleted nat
  | Finalized nat

record 'p redirect_server =
  mNextSeqNo :: "32 word"
  mSuspendList :: "(object, nat) hmap"
  suspends :: "nat \<rightharpoonup> redirect_suspend"
  suspendPool :: nat
  mpConfiguredRedirectors :: "redirector_descriptor list"
  mProxyNormalPort :: int
  mDefaultDomain :: string
  mAckRouteToProxy :: string
  plugins :: 'p
  log :: "server_output list"
  running :: bool

definition logged :: "'p redirect_server \<Rightarrow> server_output \<Rightarrow> 'p redirect_server" where
  "logged s e = s\<lparr>log := log s @ [e]\<rparr>"

definition element_at :: "'a list \<Rightarrow> nat \<Rightarrow> 'a option" where
  "element_at xs i = (if i < length xs then Some (xs ! i) else None)"

text \<open>\<open>UtlInt(seqNo)\<close>, the key of a request.\<close>

definition seq_key :: "32 word \<Rightarrow> object" where
  "seq_key seqNo = IntObj (ucast seqNo)"

section \<open>Suspend objects\<close>

definition RedirectSuspend_new :: "nat \<Rightarrow> http_message \<Rightarrow> redirect_suspend" where
  "RedirectSuspend_new noRedirectors message =
     \<lparr>mMessage = message, mSuspendCount = 0,
      mRedirectors = replicate noRedirectors \<lparr>suspended = False, needsCancel = False, privateStorage = None\<rparr>\<rparr>"

definition RedirectSuspend_delete :: "nat \<Rightarrow> 'p redirect_server \<Rightarrow> 'p redirect_server" where
  "RedirectSuspend_delete a s =
     (case suspends s a of
        None \<Rightarrow> s
      | Some so \<Rightarrow> s\<lparr>suspends := (suspends s)(a := None),
           log := log s @ concat (map (\<lambda>r. case privateStorage r of None \<Rightarrow> [] | Some p \<Rightarrow> [StorageDeleted p]) (mRedirectors so))\<rparr>)"

definition update_suspend :: "'p redirect_server \<Rightarrow> nat \<Rightarrow> (redirect_suspend \<Rightarrow> redirect_suspend) \<Rightarrow> 'p redirect_server option" where
  "update_suspend s a f = map_option (\<lambda>so. s\<lparr>suspends := (suspends s)(a \<mapsto> f so)\<rparr>) (suspends s a)"

definition update_slot :: "nat \<Rightarrow> (redirector \<Rightarrow> redirector) \<Rightarrow> redirect_suspend \<Rightarrow> redirect_suspend" where
  "update_slot i f so = so\<lparr>mRedirectors := (mRedirectors so)[i := f (mRedirectors so ! i)]\<rparr>"

fun cancel_plugins ::
  "('p, 'u) redirect_env \<Rightarrow> 32 word \<Rightarrow> redirect_suspend \<Rightarrow> nat list \<Rightarrow> 'p redirect_server \<Rightarrow> ('p redirect_server \<times> exc option) option" where
  "cancel_plugins env seqNo so [] s = Some (s, None)"
| "cancel_plugins env seqNo so (i # is) s = do {
     d \<leftarrow> element_at (mpConfiguredRedirectors s) i;
     r \<leftarrow> element_at (mRedirectors so) i;
     if bActive d \<and> needsCancel r then
       (case env_cancel env i (plugins s) seqNo of
          (p, None) \<Rightarrow> cancel_plugins env seqNo so is (logged (s\<lparr>plugins := p\<rparr>) (Cancelled i seqNo))
        | (p, Some e) \<Rightarrow> Some (logged (s\<lparr>plugins := p\<rparr>) (Cancelled i seqNo), Some e))
     else cancel_plugins env seqNo so is s }"

definition cancelRedirect ::
  "('p, 'u) redirect_env \<Rightarrow> 'p redirect_server \<Rightarrow> 64 word \<Rightarrow> nat \<Rightarrow> ('p redirect_server \<times> exc option) option" where
  "cancelRedirect env s containableSeqNo suspendObject = do {
     so \<leftarrow> suspends s suspendObject;
     (s1, e) \<leftarrow> cancel_plugins env (ucast containableSeqNo) so [0..<length (mpConfiguredRedirectors s)] s;
     case e of
       Some x \<Rightarrow> Some (s1, Some x)
     | None \<Rightarrow> do {
         (m, _, _, deleted) \<leftarrow> destroy object_hash object_isEqual (mSuspendList s1) (Some (IntObj containableSeqNo));
         Some (fold RedirectSuspend_delete deleted (s1\<lparr>mSuspendList := m\<rparr>), None) } }"

section \<open>Responses\<close>

text \<open>
  A response, as far as the server itself fills it: \<open>setResponseData\<close> makes the first line. The fields it copies from the request
  (the subject of theory \<open>SipHeaders\<close>) have other names than those the server sets, and the request is kept in their place.
\<close>

definition setResponseData :: "http_message \<Rightarrow> int \<Rightarrow> string \<Rightarrow> sip_response" where
  "setResponseData request code reason =
     \<lparr>res_request = request,
      res_message = setResponseFirstHeaderLine \<lparr>mFirstHeaderLine = [], mNameValues = []\<rparr> SIP_PROTOCOL_VERSION code reason,
      res_sipfrag = False\<rparr>"

definition res_header :: "sip_response \<Rightarrow> string \<Rightarrow> string \<Rightarrow> sip_response" where
  "res_header r name value = r\<lparr>res_message := setHeaderValue (res_message r) name value 0\<rparr>"

definition optional_header :: "string \<Rightarrow> string option option \<Rightarrow> sip_response \<Rightarrow> sip_response option" where
  "optional_header name field r =
     map_option (\<lambda>v. case v of None \<Rightarrow> r | Some value \<Rightarrow> res_header r name value) field"

definition buildResponseFromRequestAndErrorDescriptor ::
  "string \<Rightarrow> http_message \<Rightarrow> error_descriptor \<Rightarrow> sip_response option" where
  "buildResponseFromRequestAndErrorDescriptor defaultDomain request errorDescriptor = do {
     let (code, reason) = getStatusLineData errorDescriptor;
     let r0 = setResponseData request code reason;
     r1 \<leftarrow> (case getWarningData errorDescriptor of
              None \<Rightarrow> Some r0
            | Some (warningCode, text) \<Rightarrow>
                map_option (\<lambda>m. r0\<lparr>res_message := m\<rparr>) (setWarningField (res_message r0) warningCode defaultDomain text));
     let r2 = (if shouldRequestBeAppendedToResponse errorDescriptor then r1\<lparr>res_sipfrag := True\<rparr> else r1);
     r3 \<leftarrow> optional_header SIP_ACCEPT_FIELD (getAcceptFieldValue errorDescriptor) r2;
     r4 \<leftarrow> optional_header SIP_ACCEPT_ENCODING_FIELD (getAcceptEncodingFieldValue errorDescriptor) r3;
     r5 \<leftarrow> optional_header SIP_ACCEPT_LANGUAGE_FIELD (getAcceptLanguageFieldValue errorDescriptor) r4;
     r6 \<leftarrow> optional_header SIP_ALLOW_FIELD (getAllowFieldValue errorDescriptor) r5;
     r7 \<leftarrow> optional_header SIP_REQUIRE_FIELD (getRequireFieldValue errorDescriptor) r6;
     r8 \<leftarrow> optional_header SIP_RETRY_AFTER_FIELD (getRetryAfterFieldValue errorDescriptor) r7;
     optional_header SIP_UNSUPPORTED_FIELD (getUnsupportedFieldValue errorDescriptor) r8 }"

definition redirectResponse :: "http_message \<Rightarrow> contact_list \<Rightarrow> sip_response" where
  "redirectResponse request cl =
     (if 0 < contact_entries cl then
        (let r = setResponseData request 302 ''Moved Temporarily'';
             m = fold (\<lambda>(index, contact) m. setContactField m contact index) (enumerate 0 (mContactList cl)) (res_message r) in
         r\<lparr>res_message := (if getDiversionHeader cl \<noteq> [] then addHeaderField m ''DIVERSION'' (getDiversionHeader cl) else m)\<rparr>)
      else setResponseData request 404 ''Not Found'')"

text \<open>\<open>SipUserAgent::setUserAgentHeader\<close>.\<close>

definition SIP_USER_AGENT_FIELD :: string where "SIP_USER_AGENT_FIELD = ''USER-AGENT''"

definition setUserAgentHeader :: "string \<Rightarrow> sip_response \<Rightarrow> sip_response" where
  "setUserAgentHeader self r =
     (if field_value (res_message r) SIP_USER_AGENT_FIELD = [] then res_header r SIP_USER_AGENT_FIELD self else r)"

text \<open>The copy of an ACK that is sent back to the proxy, for the address of the only contact.\<close>

definition ackCopy :: "('p, 'u) redirect_env \<Rightarrow> string \<Rightarrow> http_message \<Rightarrow> string \<Rightarrow> http_message option" where
  "ackCopy env ackRouteToProxy message contact =
     decrementMaxForwards (addRouteUri (apply_params env (removeRoutes
       (setRequestFirstHeaderLine message ''ACK'' (addr_spec env contact) SIP_PROTOCOL_VERSION))) ackRouteToProxy)"

section \<open>Processing a request\<close>

record ('p, 'u) loop_state =
  ls_server :: "'p redirect_server"
  ls_suspend :: "nat option"
  willSuspend :: bool
  willError :: bool
  contactListAuthorityLevel :: int
  contactList :: contact_list
  errorDescriptor :: error_descriptor
  stringUri :: string
  requestUri :: 'u

text \<open>The private storage pointer kept for a plug-in.\<close>

definition private_of :: "'p redirect_server \<Rightarrow> nat option \<Rightarrow> nat \<Rightarrow> nat option option" where
  "private_of s suspendObject i =
     (case suspendObject of
        None \<Rightarrow> Some None
      | Some a \<Rightarrow> do { so \<leftarrow> suspends s a; r \<leftarrow> element_at (mRedirectors so) i; Some (privateStorage r) })"

text \<open>Creating the suspend object, if there is none and one is needed.\<close>

definition new_suspend :: "'p redirect_server \<Rightarrow> http_message \<Rightarrow> 32 word \<Rightarrow> ('p redirect_server \<times> nat) option" where
  "new_suspend s message seqNo = do {
     (m, _) \<leftarrow> insertKeyAndValue object_hash object_isEqual (mSuspendList s) (Some (seq_key seqNo)) (Obj (suspendPool s));
     Some (s\<lparr>suspends := (suspends s)(suspendPool s \<mapsto> RedirectSuspend_new (length (mpConfiguredRedirectors s)) message),
             suspendPool := Suc (suspendPool s), mSuspendList := m,
             mNextSeqNo := (if seqNo = mNextSeqNo s then mNextSeqNo s + 1 else mNextSeqNo s)\<rparr>, suspendPool s) }"

definition ensure_suspend ::
  "'p redirect_server \<Rightarrow> nat option \<Rightarrow> bool \<Rightarrow> http_message \<Rightarrow> 32 word \<Rightarrow> ('p redirect_server \<times> nat option) option" where
  "ensure_suspend s suspendObject needed message seqNo =
     (if suspendObject = None \<and> needed
      then map_option (\<lambda>(s1, a). (s1, Some a)) (new_suspend s message seqNo)
      else Some (s, suspendObject))"

definition store_private :: "'p redirect_server \<Rightarrow> nat option \<Rightarrow> nat \<Rightarrow> nat option \<Rightarrow> 'p redirect_server option" where
  "store_private s suspendObject i storage =
     (case suspendObject of
        None \<Rightarrow> Some s
      | Some a \<Rightarrow> update_suspend s a (update_slot i (\<lambda>r. r\<lparr>privateStorage := storage\<rparr>)))"

definition mark_suspended :: "'p redirect_server \<Rightarrow> nat option \<Rightarrow> nat \<Rightarrow> 'p redirect_server option" where
  "mark_suspended s suspendObject i =
     (case suspendObject of
        None \<Rightarrow> None
      | Some a \<Rightarrow> update_suspend s a (\<lambda>so. (update_slot i (\<lambda>r. r\<lparr>suspended := True, needsCancel := True\<rparr>) so)
                                           \<lparr>mSuspendCount := mSuspendCount so + 1\<rparr>))"

definition lookup_one ::
  "('p, 'u) redirect_env \<Rightarrow> http_message \<Rightarrow> string \<Rightarrow> 32 word \<Rightarrow> nat \<Rightarrow> ('p, 'u) loop_state \<Rightarrow> (('p, 'u) loop_state \<times> exc option) option" where
  "lookup_one env message method seqNo i ls = do {
     let s = ls_server ls;
     d \<leftarrow> element_at (mpConfiguredRedirectors s) i;
     if bActive d then
       if contactListAuthorityLevel ls \<le> authorityLevel d then do {
         storage \<leftarrow> private_of s (ls_suspend ls) i;
         let cl = resetWasModifiedFlag (contactList ls);
         case env_lookUp env i (plugins s) message (stringUri ls) (requestUri ls) method cl seqNo storage (errorDescriptor ls) of
           (p, Inl e) \<Rightarrow> Some (ls\<lparr>ls_server := logged (s\<lparr>plugins := p\<rparr>) (LookedUp i seqNo), contactList := cl\<rparr>, Some e)
         | (p, Inr r) \<Rightarrow> do {
             let s1 = logged (s\<lparr>plugins := p\<rparr>) (LookedUp i seqNo);
             let cl1 = run_contact_ops (lr_contacts r) cl;
             ed \<leftarrow> run_error_ops (lr_errors r) (errorDescriptor ls);
             (s2, so) \<leftarrow> ensure_suspend s1 (ls_suspend ls) (lr_status r = SEARCH_PENDING \<or> lr_storage r \<noteq> None) message seqNo;
             s3 \<leftarrow> store_private s2 so i (lr_storage r);
             let ls1 = ls\<lparr>ls_server := s3, ls_suspend := so, contactList := cl1, errorDescriptor := ed,
                          stringUri := lr_requestString r, requestUri := lr_requestUri r\<rparr>;
             case lr_status r of
               SUCCESS \<Rightarrow> Some (if wasListModified cl1 then ls1\<lparr>contactListAuthorityLevel := authorityLevel d\<rparr> else ls1, None)
             | ERROR \<Rightarrow> Some (ls1\<lparr>willError := True\<rparr>, None)
             | SEARCH_PENDING \<Rightarrow> do {
                 s4 \<leftarrow> mark_suspended s3 so i;
                 Some (ls1\<lparr>ls_server := s4, willSuspend := True\<rparr>, None) }
             | InvalidStatus n \<Rightarrow> Some (ls1, None) } }
       else
         (case env_observe env i (plugins s) message (stringUri ls) (requestUri ls) method (contactList ls) seqNo of
            (p, e) \<Rightarrow> Some (ls\<lparr>ls_server := logged (s\<lparr>plugins := p\<rparr>) (Observed i seqNo)\<rparr>, e))
     else Some (ls, None) }"

fun redirect_loop ::
  "('p, 'u) redirect_env \<Rightarrow> http_message \<Rightarrow> string \<Rightarrow> 32 word \<Rightarrow> nat list \<Rightarrow> ('p, 'u) loop_state \<Rightarrow> (('p, 'u) loop_state \<times> exc option) option" where
  "redirect_loop env message method seqNo [] ls = Some (ls, None)"
| "redirect_loop env message method seqNo (i # is) ls =
     (if willError ls then Some (ls, None)
      else do {
        (ls1, e) \<leftarrow> lookup_one env message method seqNo i ls;
        case e of
          Some x \<Rightarrow> Some (ls1, Some x)
        | None \<Rightarrow> redirect_loop env message method seqNo is ls1 })"

definition isAck :: "string \<Rightarrow> bool" where
  "isAck method \<longleftrightarrow> str_casecmp method ''ACK'' = 0"

text \<open>What is sent when the plug-ins have done all they can.\<close>

definition send_result :: "('p, 'u) redirect_env \<Rightarrow> http_message \<Rightarrow> string \<Rightarrow> ('p, 'u) loop_state \<Rightarrow> 'p redirect_server option" where
  "send_result env message method ls =
     (let s = ls_server ls in
      if isAck method then
        (if \<not> willError ls \<and> contact_entries (contactList ls) = 1 then do {
           contact \<leftarrow> contact_get (contactList ls) 0;
           ack \<leftarrow> ackCopy env (mAckRouteToProxy s) message contact;
           Some (logged s (SentAck ack)) }
         else Some s)
      else if willError ls then do {
        r \<leftarrow> buildResponseFromRequestAndErrorDescriptor (mDefaultDomain s) message (errorDescriptor ls);
        Some (logged s (Sent (setUserAgentHeader (selfHeaderValue env) r))) }
      else Some (logged s (Sent (setUserAgentHeader (selfHeaderValue env) (redirectResponse message (contactList ls))))))"

definition LOWEST_AUTHORITY_LEVEL :: int where "LOWEST_AUTHORITY_LEVEL = 0"

definition processRedirect ::
  "('p, 'u) redirect_env \<Rightarrow> 'p redirect_server \<Rightarrow> http_message \<Rightarrow> string \<Rightarrow> 32 word \<Rightarrow> nat option
    \<Rightarrow> ('p redirect_server \<times> exc option) option" where
  "processRedirect env s message method seqNo suspendObject = do {
     let uri = parse_uri env (getRequestUri message);
     let uri1 = (if mProxyNormalPort s \<noteq> PORT_NONE \<and> uri_port env uri = mProxyNormalPort s
                 then uri_setPort env uri PORT_NONE else uri);
     (ls, e) \<leftarrow> redirect_loop env message method seqNo [0..<length (mpConfiguredRedirectors s)]
       \<lparr>ls_server = s, ls_suspend = suspendObject, willSuspend = False, willError = False,
        contactListAuthorityLevel = LOWEST_AUTHORITY_LEVEL, contactList = ContactList_new (getRequestUri message),
        errorDescriptor = ErrorDescriptor_new, stringUri = getRequestUri message, requestUri = uri1\<rparr>;
     case e of
       Some x \<Rightarrow> Some (ls_server ls, Some x)
     | None \<Rightarrow>
         if willError ls \<or> \<not> willSuspend ls then do {
           s1 \<leftarrow> send_result env message method ls;
           case ls_suspend ls of
             None \<Rightarrow> Some (s1, None)
           | Some a \<Rightarrow> cancelRedirect env s1 (ucast seqNo) a }
         else Some (ls_server ls, None) }"

section \<open>Handling a message\<close>

text \<open>
  A walk over the table with an iterator \<open>n\<close>: \<open>visit\<close> is called for the sequence number and
  the suspend object of every entry, and may take that entry out. The fuel is more than the
  number of entries.
\<close>

definition set_iterator :: "nat \<Rightarrow> hiter \<Rightarrow> ('k, 'v) hmap \<Rightarrow> ('k, 'v) hmap" where
  "set_iterator n it m = m\<lparr>mIteratorList := map (\<lambda>(k, x). (k, if k = n then it else x)) (mIteratorList m)\<rparr>"

fun walk ::
  "nat \<Rightarrow> nat \<Rightarrow> ('p redirect_server \<Rightarrow> 64 word \<Rightarrow> nat \<Rightarrow> ('p redirect_server \<times> exc option) option)
    \<Rightarrow> 'p redirect_server \<Rightarrow> ('p redirect_server \<times> exc option) option" where
  "walk 0 n visit s = None"
| "walk (Suc fuel) n visit s = do {
     it \<leftarrow> map_of (mIteratorList (mSuspendList s)) n;
     (it1, k) \<leftarrow> iterator_next (mSuspendList s) it;
     let s1 = s\<lparr>mSuspendList := set_iterator n it1 (mSuspendList s)\<rparr>;
     case k of
       None \<Rightarrow> Some (s1, None)
     | Some _ \<Rightarrow> do {
         v \<leftarrow> iterator_value (mSuspendList s1) it1;
         a \<leftarrow> pointee v;
         key \<leftarrow> iterator_key (mSuspendList s1) it1;
         seqNo \<leftarrow> (case key of Some (IntObj w) \<Rightarrow> Some w | _ \<Rightarrow> None);
         (s2, e) \<leftarrow> visit s1 seqNo a;
         case e of
           Some x \<Rightarrow> Some (s2, Some x)
         | None \<Rightarrow> walk fuel n visit s2 } }"

definition walk_table ::
  "('p redirect_server \<Rightarrow> 64 word \<Rightarrow> nat \<Rightarrow> ('p redirect_server \<times> exc option) option)
    \<Rightarrow> 'p redirect_server \<Rightarrow> ('p redirect_server \<times> exc option) option" where
  "walk_table visit s = do {
     let n = Suc (fold max (map fst (mIteratorList (mSuspendList s))) 0);
     (s1, e) \<leftarrow> walk (Suc (mElements (mSuspendList s))) n visit (s\<lparr>mSuspendList := HashMapIterator_new (mSuspendList s) n\<rparr>);
     m \<leftarrow> HashMapIterator_delete (mSuspendList s1) n;
     Some (s1\<lparr>mSuspendList := m\<rparr>, e) }"

text \<open>CANCEL: the entries it applies to are answered and cancelled.\<close>

definition cancel_visit ::
  "('p, 'u) redirect_env \<Rightarrow> http_message \<Rightarrow> 'p redirect_server \<Rightarrow> 64 word \<Rightarrow> nat \<Rightarrow> ('p redirect_server \<times> exc option) option" where
  "cancel_visit env message s seqNo a = do {
     so \<leftarrow> suspends s a;
     if isInviteFor (url_parts env) (mMessage so) message
     then cancelRedirect env (logged s (Sent (setResponseData (mMessage so) 487 ''Request Terminated''))) seqNo a
     else Some (s, None) }"

definition handle_resume ::
  "('p, 'u) redirect_env \<Rightarrow> 'p redirect_server \<Rightarrow> 32 word \<Rightarrow> int \<Rightarrow> ('p redirect_server \<times> exc option \<times> bool) option" where
  "handle_resume env s seqNo redirectorNo = do {
     v \<leftarrow> findValue object_hash object_isEqual (mSuspendList s) (seq_key seqNo);
     case pointee v of
       None \<Rightarrow> Some (s, None, False)
     | Some a \<Rightarrow>
         if redirectorNo < 0 \<or> int (length (mpConfiguredRedirectors s)) \<le> redirectorNo then Some (s, None, False)
         else do {
           so \<leftarrow> suspends s a;
           r \<leftarrow> element_at (mRedirectors so) (nat redirectorNo);
           if \<not> suspended r then Some (s, None, False)
           else do {
             s1 \<leftarrow> update_suspend s a (\<lambda>so. (update_slot (nat redirectorNo) (\<lambda>r. r\<lparr>suspended := False\<rparr>) so)
                                             \<lparr>mSuspendCount := mSuspendCount so - 1\<rparr>);
             if mSuspendCount so - 1 = 0 then do {
               (s2, e) \<leftarrow> processRedirect env s1 (mMessage so) (getRequestMethod (mMessage so)) seqNo (Some a);
               Some (s2, e, e = None) }
             else Some (s1, None, True) } } }"

definition handle_shutdown :: "('p, 'u) redirect_env \<Rightarrow> 'p redirect_server \<Rightarrow> ('p redirect_server \<times> exc option) option" where
  "handle_shutdown env s = do {
     (s1, e) \<leftarrow> walk_table (cancelRedirect env) s;
     case e of
       Some x \<Rightarrow> Some (s1, Some x)
     | None \<Rightarrow> Some ((fold (\<lambda>i s. logged (s\<lparr>plugins := env_finalize env i (plugins s)\<rparr>) (Finalized i))
                       [0..<length (mpConfiguredRedirectors s1)] s1)\<lparr>running := False\<rparr>, None) }"

datatype os_msg = PHONE_APP http_message | REDIRECT_RESTART "32 word" int | OS_SHUTDOWN | OTHER_MSG

definition handle_request ::
  "('p, 'u) redirect_env \<Rightarrow> 'p redirect_server \<Rightarrow> http_message \<Rightarrow> ('p redirect_server \<times> exc option) option" where
  "handle_request env s message =
     (let method = getRequestMethod message in
      if str_casecmp method ''CANCEL'' = 0 then walk_table (cancel_visit env message) s
      else processRedirect env s message method (mNextSeqNo s) None)"

fun handleMessage :: "('p, 'u) redirect_env \<Rightarrow> 'p redirect_server \<Rightarrow> os_msg \<Rightarrow> ('p redirect_server \<times> bool) option" where
  "handleMessage env s (PHONE_APP message) = do {
     (s1, e) \<leftarrow> handle_request env s message;
     Some (case e of
             None \<Rightarrow> (s1, True)
           | Some x \<Rightarrow> (logged s1 (Sent (setResponseData message 503 (errorString x))), True)) }"
| "handleMessage env s (REDIRECT_RESTART seqNo redirectorNo) = do {
     (s1, e, handled) \<leftarrow> handle_resume env s seqNo redirectorNo;
     Some (s1, handled) }"
| "handleMessage env s OS_SHUTDOWN = do {
     (s1, e) \<leftarrow> handle_shutdown env s;
     Some (s1, e = None) }"
| "handleMessage env s OTHER_MSG = Some (s, False)"

text \<open>\<open>getPrivateStorage\<close> is called by the plug-ins; it does not test whether it has found the
  request.\<close>

definition getPrivateStorage :: "'p redirect_server \<Rightarrow> 32 word \<Rightarrow> nat \<Rightarrow> nat option option" where
  "getPrivateStorage s requestSeqNo redirectorNo = do {
     v \<leftarrow> findValue object_hash object_isEqual (mSuspendList s) (seq_key requestSeqNo);
     a \<leftarrow> pointee v;
     private_of s (Some a) redirectorNo }"

text \<open>
  The iterator that gives a plug-in its private storage in each suspended request, one call:
  it steps over the requests that have none.
\<close>

fun storage_next :: "nat \<Rightarrow> 'p redirect_server \<Rightarrow> nat \<Rightarrow> hiter \<Rightarrow> (hiter \<times> nat option) option" where
  "storage_next 0 s redirectorNo it = None"
| "storage_next (Suc fuel) s redirectorNo it = do {
     (it1, k) \<leftarrow> iterator_next (mSuspendList s) it;
     case k of
       None \<Rightarrow> Some (it1, None)
     | Some _ \<Rightarrow> do {
         v \<leftarrow> iterator_value (mSuspendList s) it1;
         a \<leftarrow> pointee v;
         p \<leftarrow> private_of s (Some a) redirectorNo;
         if p \<noteq> None then Some (it1, p) else storage_next fuel s redirectorNo it1 } }"

text \<open>
  \<open>initialize\<close>: \<open>port\<close> is the configured proxy port, and for every plug-in \<open>configured\<close> tells
  whether it initialized itself and its configured authority level. The level of a plug-in that
  did not is not set; the code does not read it.
\<close>

definition PORT_DEFAULT :: int where "PORT_DEFAULT = -2"

definition redirect_initialize :: "string \<Rightarrow> int \<Rightarrow> (bool \<times> int option) list \<Rightarrow> 'p \<Rightarrow> 'p redirect_server" where
  "redirect_initialize domain port configured p =
     \<lparr>mNextSeqNo = 0, mSuspendList = UtlHashMap_new, suspends = Map.empty, suspendPool = 0,
      mpConfiguredRedirectors = map (\<lambda>(active, level).
        \<lparr>bActive = active, authorityLevel = (if active then case level of Some l \<Rightarrow> l | None \<Rightarrow> LOWEST_AUTHORITY_LEVEL
                                            else LOWEST_AUTHORITY_LEVEL)\<rparr>) configured,
      mProxyNormalPort = (if port = PORT_DEFAULT then SIP_PORT else port), mDefaultDomain = domain,
      mAckRouteToProxy = ''<'' @ domain @ '';lr>'', plugins = p, log = [], running = True\<rparr>"

end
