(* ===== verification/RedirectRun.thy ===== *)
theory RedirectRun
  imports SipRedirectServer
begin

text \<open>
  Proofs about the redirect server of theory \<open>SipRedirectServer\<close>: its invariant, that every
  message is handled without undefined behaviour, and that every request is answered once
  or waits in the table of suspended requests.
\<close>

section \<open>The entries of the table\<close>

definition addr_of :: "(object, nat) pair \<Rightarrow> nat" where
  "addr_of p = the (pointee (pvalue p))"

text \<open>A suspend object has a slot for every plug-in and counts those that are suspended, which
  are among those that need a call of \<open>cancel\<close>.\<close>

definition suspend_ok :: "nat \<Rightarrow> redirect_suspend \<Rightarrow> bool" where
  "suspend_ok N so \<longleftrightarrow> length (mRedirectors so) = N
     \<and> mSuspendCount so = int (length (filter suspended (mRedirectors so)))
     \<and> (\<forall>r \<in> set (mRedirectors so). suspended r \<longrightarrow> needsCancel r)"

text \<open>
  The entries \<open>M\<close> of the table and the suspend objects \<open>S\<close>: they correspond one to one, the
  keys are sequence numbers below the next one, and every request waits for some plug-in,
  except for the one being processed, at address \<open>X\<close>.
\<close>

definition entries_ok ::
  "nat \<Rightarrow> 32 word \<Rightarrow> nat \<Rightarrow> nat option \<Rightarrow> (object, nat) pair multiset \<Rightarrow> (nat \<rightharpoonup> redirect_suspend) \<Rightarrow> bool" where
  "entries_ok N next pool X M S \<longleftrightarrow>
     (\<forall>p \<in># M. \<exists>n a. pdata p = seq_key n \<and> pvalue p = Obj a \<and> n < next)
     \<and> (\<forall>p \<in># M. \<forall>q \<in># M. addr_of p = addr_of q \<longrightarrow> p = q)
     \<and> dom S = addr_of ` set_mset M \<and> (\<forall>a \<in> dom S. a < pool)
     \<and> (\<forall>a so. S a = Some so \<longrightarrow> suspend_ok N so \<and> (Some a \<noteq> X \<longrightarrow> 0 < mSuspendCount so))"

definition pending_of :: "(object, nat) pair multiset \<Rightarrow> (nat \<rightharpoonup> redirect_suspend) \<Rightarrow> http_message multiset" where
  "pending_of M S = image_mset (\<lambda>p. mMessage (the (S (addr_of p)))) M"

lemma addr_of_Obj [simp]: "pvalue p = Obj a \<Longrightarrow> addr_of p = a"
  by (simp add: addr_of_def)

lemma seq_key_eq [simp]: "object_isEqual (seq_key m) (seq_key n) \<longleftrightarrow> m = n"
  by (simp add: seq_key_def object_isEqual_iff to_unsigned_def ucast_up_ucast_id is_up)

lemma seq_key_ok [simp]: "object_ok (seq_key n)"
  by (simp add: seq_key_def object_ok_def)

lemma seq_key_inj [simp]: "seq_key m = seq_key n \<longleftrightarrow> m = n"
  by (metis seq_key_eq objects.eq_refl seq_key_ok)

lemma next_unat: "Suc (unat (n :: 32 word)) < 2 ^ 32 \<Longrightarrow> unat (n + 1) = Suc (unat n)"
  by (simp add: unat_word_ariths)

lemma next_less: "Suc (unat (n :: 32 word)) < 2 ^ 32 \<Longrightarrow> n < n + 1"
  using next_unat [of n] by (simp add: word_less_nat_alt)

lemma entries_ok_add:
  assumes "entries_ok N n pool None M S" and "pdata p = seq_key n" "pvalue p = Obj pool" and "Suc (unat n) < 2 ^ 32"
    and "suspend_ok N so"
  shows "entries_ok N (n + 1) (Suc pool) (Some pool) (add_mset p M) (S(pool \<mapsto> so))"
    and "pending_of (add_mset p M) (S(pool \<mapsto> so)) = add_mset (mMessage so) (pending_of M S)"
proof -
  have less: "n < n + 1" using next_less [OF assms(4)] .
  have fresh: "addr_of q \<noteq> pool" if "q \<in># M" for q using that assms(1) by (auto simp: entries_ok_def)
  show "entries_ok N (n + 1) (Suc pool) (Some pool) (add_mset p M) (S(pool \<mapsto> so))"
    using assms less fresh unfolding entries_ok_def
    by (auto simp: less_Suc_eq)
  show "pending_of (add_mset p M) (S(pool \<mapsto> so)) = add_mset (mMessage so) (pending_of M S)"
    using fresh assms(3) by (auto simp: pending_of_def intro!: image_mset_cong)
qed

lemma entries_ok_remove:
  assumes "entries_ok N n pool X (add_mset p M) S" and "p \<notin># M" and "X = None \<or> X = Some (addr_of p)" "S (addr_of p) = Some so"
  shows "entries_ok N n pool None M (S(addr_of p := None))"
    and "pending_of (add_mset p M) S = add_mset (mMessage so) (pending_of M (S(addr_of p := None)))"
proof -
  have other: "addr_of q \<noteq> addr_of p" if "q \<in># M" for q using that assms(1,2) by (auto simp: entries_ok_def)
  show "entries_ok N n pool None M (S(addr_of p := None))"
    using assms other unfolding entries_ok_def by (auto simp: dom_def)
  show "pending_of (add_mset p M) S = add_mset (mMessage so) (pending_of M (S(addr_of p := None)))"
    using other assms(4) by (auto simp: pending_of_def intro!: image_mset_cong)
qed

lemma entries_ok_update:
  assumes "entries_ok N n pool X M S" and "S a = Some so" and "suspend_ok N so'" and "X = Some a \<or> 0 < mSuspendCount so'"
  shows "entries_ok N n pool X M (S(a \<mapsto> so'))"
  using assms unfolding entries_ok_def by (auto simp: dom_def)

lemma pending_update:
  assumes "S a = Some so" and "mMessage so' = mMessage so"
  shows "pending_of M (S(a \<mapsto> so')) = pending_of M S"
  using assms by (auto simp: pending_of_def intro!: image_mset_cong)

lemma entries_ok_weaken: "entries_ok N n pool None M S \<Longrightarrow> entries_ok N n pool X M S"
  by (auto simp: entries_ok_def)

lemma entries_ok_settled:
  "entries_ok N n pool (Some a) M S \<Longrightarrow> S a = Some so \<Longrightarrow> 0 < mSuspendCount so \<Longrightarrow> entries_ok N n pool None M S"
  unfolding entries_ok_def by (auto) (metis option.inject)


section \<open>The invariant of the server\<close>

abbreviation "entries_of s \<equiv> mset (hm_pairs (mSuspendList s))"

definition server_inv :: "nat option \<Rightarrow> 'p redirect_server \<Rightarrow> bool" where
  "server_inv X s \<longleftrightarrow> hm_ok object_hash object_isEqual object_ok (mSuspendList s)
     \<and> entries_ok (length (mpConfiguredRedirectors s)) (mNextSeqNo s) (suspendPool s) X (entries_of s) (suspends s)"

definition idle :: "'p redirect_server \<Rightarrow> bool" where
  "idle s \<longleftrightarrow> mIteratorList (mSuspendList s) = []"

definition pending :: "'p redirect_server \<Rightarrow> http_message multiset" where
  "pending s = pending_of (entries_of s) (suspends s)"

text \<open>What never changes.\<close>

definition config :: "'p redirect_server \<Rightarrow> redirector_descriptor list \<times> int \<times> string \<times> string" where
  "config s = (mpConfiguredRedirectors s, mProxyNormalPort s, mDefaultDomain s, mAckRouteToProxy s)"

text \<open>The responses that were sent, in order, and the requests they answer.\<close>

definition responses :: "server_output list \<Rightarrow> sip_response list" where
  "responses l = concat (map (\<lambda>e. case e of Sent r \<Rightarrow> [r] | _ \<Rightarrow> []) l)"

definition answers :: "server_output list \<Rightarrow> http_message list" where
  "answers l = map res_request (responses l)"

lemma responses_simps [simp]:
  "responses [] = []" "responses (Sent r # l) = r # responses l" "responses (l @ m) = responses l @ responses m"
  "responses [SentAck k] = []" "responses [LookedUp i n] = []" "responses [Observed i n] = []"
  "responses (map (\<lambda>i. Cancelled i n) is) = []"
  by (simp_all add: responses_def)

lemma answers_simps [simp]: "answers [] = []" "answers (Sent r # l) = res_request r # answers l" "answers (l @ m) = answers l @ answers m"
  by (simp_all add: answers_def)

lemma no_answers [simp]: "responses l = [] \<Longrightarrow> answers l = []"
  by (simp add: answers_def)

text \<open>Plug-ins that throw no exception, and whose warnings fit into the buffer they are printed to.\<close>

definition warning_ok :: "string \<Rightarrow> error_op \<Rightarrow> bool" where
  "warning_ok domain op \<longleftrightarrow> (case op of Error_Warning c t \<Rightarrow> nul_free t \<and> warning_fits (length domain + length t) | _ \<Rightarrow> True)"

definition quiet :: "string \<Rightarrow> ('p, 'u) redirect_env \<Rightarrow> bool" where
  "quiet domain env \<longleftrightarrow>
     (\<forall>i p m su ru meth cl n st ed. case snd (env_lookUp env i p m su ru meth cl n st ed) of
        Inl e \<Rightarrow> False | Inr r \<Rightarrow> list_all (warning_ok domain) (lr_errors r))
     \<and> (\<forall>i p m su ru meth cl n. snd (env_observe env i p m su ru meth cl n) = None)
     \<and> (\<forall>i p n. snd (env_cancel env i p n) = None)"

lemma server_inv_log [simp]:
  "server_inv X (s\<lparr>plugins := p, log := l\<rparr>) = server_inv X s" "server_inv X (s\<lparr>log := l\<rparr>) = server_inv X s"
  "server_inv X (s\<lparr>plugins := p\<rparr>) = server_inv X s" "server_inv X (logged s e) = server_inv X s"
  by (simp_all add: server_inv_def logged_def)

lemma fewer_entries:
  assumes "server_inv X s"
  shows "mElements (mSuspendList s) \<le> unat (mNextSeqNo s)"
proof -
  let ?ps = "hm_pairs (mSuspendList s)"
  have ok: "mElements (mSuspendList s) = length ?ps" "pairs_ok object_hash object_isEqual object_ok (pairPool (mSuspendList s)) ?ps"
    using assms by (auto simp: server_inv_def hm_ok_def)
  have keys: "\<forall>p \<in> set ?ps. \<exists>n. pdata p = seq_key n \<and> n < mNextSeqNo s"
    using assms by (auto simp: server_inv_def entries_ok_def)
  define num where "num p = unat (SOME n. pdata p = seq_key n)" for p :: "(object, nat) pair"
  have num: "num p < unat (mNextSeqNo s) \<and> pdata p = seq_key (word_of_nat (num p))" if "p \<in> set ?ps" for p
  proof -
    obtain n where n: "pdata p = seq_key n" "n < mNextSeqNo s" using keys \<open>p \<in> set ?ps\<close> by blast
    then have "num p = unat n" by (simp add: num_def)
    then show ?thesis using n by (simp add: word_less_nat_alt)
  qed
  have "inj_on num (set ?ps)"
  proof
    fix p q assume pq: "p \<in> set ?ps" "q \<in> set ?ps" "num p = num q"
    then have "object_isEqual (pdata p) (pdata q)" using num [of p] num [of q] by simp
    then show "p = q" using pq ok(2) by (auto simp: pairs_ok_def)
  qed
  then have "card (set ?ps) \<le> card {..<unat (mNextSeqNo s)}"
    using num by (intro card_inj_on_le [where f = num]) auto
  then show ?thesis using ok distinct_card [OF pairs_ok_distinct [OF ok(2)]] by simp
qed

lemma new_suspend_ok:
  fixes s :: "'p redirect_server" and message
  assumes inv: "server_inv None s" and "idle s" and n: "Suc (unat (mNextSeqNo s)) < 2 ^ 32"
  defines "so \<equiv> RedirectSuspend_new (length (mpConfiguredRedirectors s)) message"
  shows "returns (new_suspend s message (mNextSeqNo s)) (\<lambda>(s', a). a = suspendPool s \<and> server_inv (Some a) s' \<and> idle s'
           \<and> config s' = config s \<and> log s' = log s \<and> plugins s' = plugins s
           \<and> mNextSeqNo s' = mNextSeqNo s + 1 \<and> suspends s' a = Some so \<and> pending s' = add_mset message (pending s)
           \<and> (\<exists>p \<in># entries_of s'. pdata p = seq_key (mNextSeqNo s) \<and> pvalue p = Obj a))"
proof -
  let ?m = "mSuspendList s"
  have hm: "hm_ok object_hash object_isEqual object_ok ?m" and it: "mIteratorList ?m = []"
    and ent: "entries_ok (length (mpConfiguredRedirectors s)) (mNextSeqNo s) (suspendPool s) None (entries_of s) (suspends s)"
    using inv assms(2) by (auto simp: server_inv_def idle_def)
  have "unat (mNextSeqNo s) < 2 ^ 32" using n by simp
  then have room: "Suc (mElements ?m) < SIZE_MOD" using fewer_entries [OF inv] by (simp add: SIZE_MOD_def)
  have fresh: "hm_abs object_isEqual ?m (seq_key (mNextSeqNo s)) = None"
    unfolding objects.hm_abs_None using ent by (force simp: entries_ok_def)
  have so: "suspend_ok (length (mpConfiguredRedirectors s)) so" "mMessage so = message"
    by (auto simp: so_def RedirectSuspend_new_def suspend_ok_def filter_replicate)
  show ?thesis
    unfolding new_suspend_def
  proof (rule returns_bind [OF objects.insertKeyAndValue_ok [OF hm seq_key_ok [of "mNextSeqNo s"] room, where v = "Obj (suspendPool s)"]], clarify)
    fix m r
    let ?p = "\<lparr>pid = pairPool ?m, pdata = seq_key (mNextSeqNo s), phash = object_hash (seq_key (mNextSeqNo s)),
                pvalue = stored_value (Obj (suspendPool s))\<rparr>"
    assume m: "hm_ok object_hash object_isEqual object_ok m" "mIteratorList m = mIteratorList ?m"
      "if hm_abs object_isEqual ?m (seq_key (mNextSeqNo s)) = None
       then r = Some (seq_key (mNextSeqNo s)) \<and> mset (hm_pairs m) = add_mset ?p (entries_of s) else r = None \<and> m = ?m"
    then have pairs: "mset (hm_pairs m) = add_mset ?p (entries_of s)" using fresh by simp
    then have elems: "set (hm_pairs m) = insert ?p (set (hm_pairs ?m))" by (metis set_mset_add_mset_insert set_mset_mset)
    have p: "pdata ?p = seq_key (mNextSeqNo s)" "pvalue ?p = Obj (suspendPool s)" by (simp_all add: stored_value_def)
    note add = entries_ok_add [OF ent p n so(1)]
    show "returns (Some (s\<lparr>suspends := (suspends s)(suspendPool s \<mapsto> RedirectSuspend_new (length (mpConfiguredRedirectors s)) message),
             suspendPool := Suc (suspendPool s), mSuspendList := m,
             mNextSeqNo := (if mNextSeqNo s = mNextSeqNo s then mNextSeqNo s + 1 else mNextSeqNo s)\<rparr>, suspendPool s))
         (\<lambda>(s', a). a = suspendPool s \<and> server_inv (Some a) s' \<and> idle s'
           \<and> config s' = config s \<and> log s' = log s \<and> plugins s' = plugins s
           \<and> mNextSeqNo s' = mNextSeqNo s + 1 \<and> suspends s' a = Some so \<and> pending s' = add_mset message (pending s)
           \<and> (\<exists>p \<in># entries_of s'. pdata p = seq_key (mNextSeqNo s) \<and> pvalue p = Obj a))"
      using add m(1,2) it so(2) p by (simp add: server_inv_def idle_def config_def pending_def pairs elems so_def [symmetric])
  qed
qed

lemma update_suspend_ok:
  assumes inv: "server_inv X s" and a: "suspends s a = Some so" and ok: "suspend_ok (length (mpConfiguredRedirectors s)) (f so)"
    and "mMessage (f so) = mMessage so" and "X = Some a \<or> 0 < mSuspendCount (f so)"
  shows "\<exists>s'. update_suspend s a f = Some s' \<and> s' = s\<lparr>suspends := (suspends s)(a \<mapsto> f so)\<rparr>
           \<and> server_inv X s' \<and> pending s' = pending s"
  using assms entries_ok_update [where S = "suspends s" and a = a and so = so and so' = "f so"]
    pending_update [where S = "suspends s" and a = a and so = so and so' = "f so"]
  by (auto simp: update_suspend_def server_inv_def pending_def)

section \<open>Cancelling\<close>

text \<open>What the server's operations leave alone.\<close>

definition same_setup :: "'p redirect_server \<Rightarrow> 'p redirect_server \<Rightarrow> bool" where
  "same_setup s s' \<longleftrightarrow> config s' = config s \<and> mNextSeqNo s' = mNextSeqNo s \<and> suspendPool s' = suspendPool s"

text \<open>The calls of \<open>cancel\<close>, and the private storage that goes with a suspend object.\<close>

definition cancel_log :: "redirector_descriptor list \<Rightarrow> 32 word \<Rightarrow> redirect_suspend \<Rightarrow> nat list \<Rightarrow> server_output list" where
  "cancel_log ds n so is = map (\<lambda>i. Cancelled i n) (filter (\<lambda>i. bActive (ds ! i) \<and> needsCancel (mRedirectors so ! i)) is)"

definition storage_log :: "redirect_suspend \<Rightarrow> server_output list" where
  "storage_log so = concat (map (\<lambda>r. case privateStorage r of None \<Rightarrow> [] | Some p \<Rightarrow> [StorageDeleted p]) (mRedirectors so))"

lemma responses_cancel [simp]: "responses (cancel_log ds n so is) = []"
  by (simp add: cancel_log_def)

lemma responses_storage [simp]: "responses (storage_log so) = []"
  by (auto simp: responses_def storage_log_def split: option.splits)

lemma quiet_cancel: "quiet domain env \<Longrightarrow> env_cancel env i p n = (fst (env_cancel env i p n), None)"
  by (simp add: quiet_def prod_eq_iff)

lemma cancel_plugins_ok:
  assumes "quiet domain env" and "length (mRedirectors so) = length (mpConfiguredRedirectors s)"
    and "list_all (\<lambda>i. i < length (mpConfiguredRedirectors s)) is"
  shows "\<exists>p. cancel_plugins env n so is s =
           Some (s\<lparr>plugins := p, log := log s @ cancel_log (mpConfiguredRedirectors s) n so is\<rparr>, None)"
  using assms(2,3)
proof (induction "is" arbitrary: s)
  case Nil
  then show ?case by (intro exI [of _ "plugins s"]) (simp add: cancel_log_def)
next
  case (Cons i "is")
  let ?c = "bActive (mpConfiguredRedirectors s ! i) \<and> needsCancel (mRedirectors so ! i)"
  let ?s = "if ?c then logged (s\<lparr>plugins := fst (env_cancel env i (plugins s) n)\<rparr>) (Cancelled i n) else s"
  have "cancel_plugins env n so (i # is) s = cancel_plugins env n so is ?s"
    using Cons.prems quiet_cancel [OF assms(1), of i "plugins s" n] by (auto simp: element_at_def split: prod.splits)
  then show ?case using Cons.IH [of ?s] Cons.prems by (auto simp: logged_def cancel_log_def)
qed

lemma RedirectSuspend_delete_Some:
  "suspends s a = Some so \<Longrightarrow> RedirectSuspend_delete a s = s\<lparr>suspends := (suspends s)(a := None), log := log s @ storage_log so\<rparr>"
  by (simp add: RedirectSuspend_delete_def storage_log_def)

lemma ucast_seq [simp]: "ucast (ucast (n :: 32 word) :: 64 word) = n"
  by (simp add: ucast_up_ucast_id is_up)

lemma IntObj_seq [simp]: "IntObj (ucast (n :: 32 word)) = seq_key n"
  by (simp add: seq_key_def)

lemma cancelRedirect_ok:
  assumes quiet: "quiet domain env" and inv: "server_inv X s" and p: "p \<in># entries_of s" "pdata p = seq_key n" "pvalue p = Obj a"
    and X: "X = None \<or> X = Some a" and so: "suspends s a = Some so" and live: "iters_live (mSuspendList s)"
  shows "returns (cancelRedirect env s (ucast n) a) (\<lambda>(s', e). e = None \<and> server_inv None s'
           \<and> entries_of s = add_mset p (entries_of s') \<and> suspends s' = (suspends s)(a := None) \<and> same_setup s s'
           \<and> pending s = add_mset (mMessage so) (pending s')
           \<and> log s' = log s @ cancel_log (mpConfiguredRedirectors s) n so [0..<length (mpConfiguredRedirectors s)] @ storage_log so
           \<and> length (mIteratorList (mSuspendList s')) = length (mIteratorList (mSuspendList s))
           \<and> (\<exists>r v. removeKeyAndValue object_hash object_isEqual (mSuspendList s) (Some (seq_key n)) = Some (mSuspendList s', r, v)))"
proof -
  let ?m = "mSuspendList s"
  have hm: "hm_ok object_hash object_isEqual object_ok ?m"
    and ent: "entries_ok (length (mpConfiguredRedirectors s)) (mNextSeqNo s) (suspendPool s) X (entries_of s) (suspends s)"
    using inv by (auto simp: server_inv_def)
  have len: "length (mRedirectors so) = length (mpConfiguredRedirectors s)"
    using ent so by (auto simp: entries_ok_def suspend_ok_def)
  obtain pl where cp: "cancel_plugins env n so [0..<length (mpConfiguredRedirectors s)] s =
      Some (s\<lparr>plugins := pl, log := log s @ cancel_log (mpConfiguredRedirectors s) n so [0..<length (mpConfiguredRedirectors s)]\<rparr>, None)"
    using cancel_plugins_ok [OF quiet len, of "[0..<length (mpConfiguredRedirectors s)]" n] by (auto simp: list_all_iff)
  have abs: "hm_abs object_isEqual ?m (seq_key n) = Some (Obj a)"
    unfolding objects.hm_abs_Some [OF hm seq_key_ok] using p by (intro bexI [of _ p]) simp_all
  obtain m r v q where rm: "removeKeyAndValue object_hash object_isEqual ?m (Some (seq_key n)) = Some (m, r, v)"
    "hm_ok object_hash object_isEqual object_ok m" "length (mIteratorList m) = length (mIteratorList ?m)"
    and q: "q \<in> set (hm_pairs ?m)" "object_isEqual (pdata q) (seq_key n)" "r = Some (pdata q)" "pvalue q = Obj a" "v = Obj a"
      "entries_of s = add_mset q (mset (hm_pairs m))"
    using objects.removeKeyAndValue_ok [OF hm seq_key_ok [of n] live] by (auto simp: returns_iff abs)
  have "addr_of q = addr_of p" using p q by simp
  then have [simp]: "q = p" using ent p(1) q(1) by (auto simp: entries_ok_def)
  have notin: "p \<notin># mset (hm_pairs m)"
    using removed_not_in [of "hm_pairs ?m" p "hm_pairs m"] q(6) hm_ok_iterable(1) [OF hm] by (auto simp: distinct_map)
  have a: "addr_of p = a" using p by simp
  note removed = entries_ok_remove [OF ent [unfolded q(6) \<open>q = p\<close>] notin X [folded a] so [folded a], unfolded a]
  show ?thesis
    unfolding cancelRedirect_def
    using so rm q(3,5) removed q(6)
    by (simp add: cp destroy_def RedirectSuspend_delete_Some server_inv_def pending_def same_setup_def config_def)
qed

section \<open>Responses\<close>

text \<open>A warning that fits into the buffer it is printed to, with the server's domain in front.\<close>

definition warning_printable :: "string \<Rightarrow> error_spec \<Rightarrow> bool" where
  "warning_printable domain es \<longleftrightarrow>
     (case es_warning es of None \<Rightarrow> True | Some (c, t) \<Rightarrow> nul_free t \<and> warning_fits (length domain + length t))"

lemma warnings_printable:
  "warning_printable domain es \<Longrightarrow> list_all (warning_ok domain) ops \<Longrightarrow> warning_printable domain (fold spec_step ops es)"
proof (induction ops arbitrary: es)
  case (Cons op ops)
  have "warning_printable domain (spec_step op es)"
    using Cons.prems by (cases op) (auto simp: warning_printable_def warning_ok_def)
  then show ?case using Cons by simp
qed simp

lemma optional_header_ok:
  assumes "field = Some v"
  shows "returns (optional_header name field r) (\<lambda>r'. res_request r' = res_request r \<and> res_sipfrag r' = res_sipfrag r)"
  using assms by (auto simp: optional_header_def res_header_def split: option.splits)

lemma error_fields_defined:
  assumes "error_ok d"
  shows "\<exists>v. getAcceptFieldValue d = Some v" "\<exists>v. getAcceptEncodingFieldValue d = Some v" "\<exists>v. getAcceptLanguageFieldValue d = Some v"
    "\<exists>v. getAllowFieldValue d = Some v" "\<exists>v. getRequireFieldValue d = Some v" "\<exists>v. getRetryAfterFieldValue d = Some v"
    "\<exists>v. getUnsupportedFieldValue d = Some v"
  using error_ok_field [OF assms, of Accept] error_ok_field [OF assms, of AcceptEncoding] error_ok_field [OF assms, of AcceptLanguage]
    error_ok_field [OF assms, of Allow] error_ok_field [OF assms, of Require] error_ok_field [OF assms, of RetryAfter]
    error_ok_field [OF assms, of Unsupported] by simp_all

lemma warning_defined:
  assumes "error_ok d" and "nul_free domain" and "warning_printable domain (error_abs d)" and "getWarningData d = Some (c, t)"
  shows "setWarningField m c domain t = Some (setHeaderValue m SIP_WARNING_FIELD (warning_text c domain t) 0)"
proof -
  have "nul_free t" "warning_fits (length domain + length t)" using assms(3,4) by (simp_all add: warning_printable_def error_abs_def)
  moreover have "300 \<le> c" "c < 400"
    using assms(1,4) by (auto simp: error_ok_def getWarningData_def isWarningDataSet_def split: if_splits)
  ultimately show ?thesis
    using setWarningField_cases [OF assms(2), of t c m] by (auto simp: warning_fits_def SIZE_MOD_def)
qed

lemma buildResponse_ok:
  assumes ok: "error_ok d" and "nul_free domain" and "warning_printable domain (error_abs d)"
  shows "returns (buildResponseFromRequestAndErrorDescriptor domain request d) (\<lambda>r. res_request r = request)"
proof -
  note defined = error_fields_defined [OF ok] warning_defined [OF assms]
  show ?thesis
    unfolding buildResponseFromRequestAndErrorDescriptor_def
    using defined by (auto simp: Let_def optional_header_def res_header_def setResponseData_def split: option.splits prod.splits)
qed

lemma setUserAgentHeader_request [simp]: "res_request (setUserAgentHeader self r) = res_request r"
  by (simp add: setUserAgentHeader_def res_header_def)

lemma redirectResponse_request [simp]: "res_request (redirectResponse request cl) = request"
  by (simp add: redirectResponse_def setResponseData_def Let_def)

section \<open>The loop over the plug-ins\<close>

lemma count_update:
  assumes "i < length xs"
  shows "int (length (filter P (xs[i := x]))) =
           int (length (filter P xs)) - (if P (xs ! i) then 1 else 0) + (if P x then 1 else 0)"
proof -
  have "filter P xs = filter P (take i xs @ xs ! i # drop (Suc i) xs)" using id_take_nth_drop [OF assms] by simp
  then show ?thesis using assms by (simp add: upd_conv_take_nth_drop)
qed

lemma suspend_ok_slot:
  assumes ok: "suspend_ok N so" and i: "i < N" and r: "suspended (f (mRedirectors so ! i)) \<longrightarrow> needsCancel (f (mRedirectors so ! i))"
    and c: "c = mSuspendCount so - (if suspended (mRedirectors so ! i) then 1 else 0) + (if suspended (f (mRedirectors so ! i)) then 1 else 0)"
  shows "suspend_ok N ((update_slot i f so)\<lparr>mSuspendCount := c\<rparr>)"
proof -
  have "i < length (mRedirectors so)" using ok i by (simp add: suspend_ok_def)
  then show ?thesis
    using ok r unfolding c by (auto simp: suspend_ok_def update_slot_def count_update dest!: set_update_subset_insert [THEN subsetD])
qed

lemma count_zero:
  assumes "suspend_ok N so" and "mSuspendCount so = 0" and "j < N"
  shows "\<not> suspended (mRedirectors so ! j)"
  using assms by (auto simp: suspend_ok_def filter_empty_conv)

text \<open>
  The invariant of the loop: \<open>base\<close> are the other requests that wait, and plug-ins from \<open>i\<close> on
  have not been asked. \<open>B\<close> bounds the next sequence number.
\<close>

definition loop_core ::
  "http_message \<Rightarrow> 32 word \<Rightarrow> http_message multiset \<Rightarrow> nat \<Rightarrow> nat \<Rightarrow> 'p redirect_server \<Rightarrow> nat option \<Rightarrow> bool \<Rightarrow> bool" where
  "loop_core message seqNo base B i s suspendObject w \<longleftrightarrow> idle s \<and>
     (case suspendObject of
        None \<Rightarrow> server_inv None s \<and> seqNo = mNextSeqNo s \<and> Suc (unat (mNextSeqNo s)) \<le> B \<and> pending s = base \<and> \<not> w
      | Some a \<Rightarrow> server_inv (Some a) s \<and> unat (mNextSeqNo s) \<le> B \<and> pending s = add_mset message base
          \<and> (\<exists>p \<in># entries_of s. pdata p = seq_key seqNo \<and> pvalue p = Obj a)
          \<and> (\<exists>so. suspends s a = Some so \<and> mMessage so = message \<and> (w \<longleftrightarrow> 0 < mSuspendCount so)
                \<and> (\<forall>j. i \<le> j \<and> j < length (mpConfiguredRedirectors s) \<longrightarrow> \<not> suspended (mRedirectors so ! j))))"

definition loop_inv ::
  "http_message \<Rightarrow> 32 word \<Rightarrow> 'p redirect_server \<Rightarrow> http_message multiset \<Rightarrow> nat \<Rightarrow> nat \<Rightarrow> ('p, 'u) loop_state \<Rightarrow> bool" where
  "loop_inv message seqNo s0 base B i ls \<longleftrightarrow>
     loop_core message seqNo base B i (ls_server ls) (ls_suspend ls) (willSuspend ls)
     \<and> config (ls_server ls) = config s0 \<and> answers (log (ls_server ls)) = answers (log s0)
     \<and> error_ok (errorDescriptor ls) \<and> warning_printable (mDefaultDomain s0) (error_abs (errorDescriptor ls))"

text \<open>Only these parts of the state matter.\<close>

lemma loop_core_log [simp]:
  "loop_core message seqNo base B i (s\<lparr>plugins := p\<rparr>) so w = loop_core message seqNo base B i s so w"
  "loop_core message seqNo base B i (logged s e) so w = loop_core message seqNo base B i s so w"
  by (simp_all add: loop_core_def idle_def pending_def logged_def server_inv_def cong: option.case_cong)

lemma config_log [simp]: "config (s\<lparr>plugins := p\<rparr>) = config s" "config (logged s e) = config s"
  by (simp_all add: config_def logged_def)

lemma log_logged [simp]: "log (logged s e) = log s @ [e]" "plugins (logged s e) = plugins s"
  by (simp_all add: logged_def)

lemma loop_core_mono:
  "loop_core message seqNo base B i s so w \<Longrightarrow> i \<le> j \<Longrightarrow> loop_core message seqNo base B j s so w"
  by (auto simp: loop_core_def split: option.splits)

lemma loop_inv_mono: "loop_inv message seqNo s0 base B i ls \<Longrightarrow> i \<le> j \<Longrightarrow> loop_inv message seqNo s0 base B j ls"
  by (auto simp: loop_inv_def intro: loop_core_mono)

lemma ensure_suspend_ok:
  assumes core: "loop_core message seqNo base B i s so w" and B: "B < 2 ^ 32"
  shows "returns (ensure_suspend s so needed message seqNo) (\<lambda>(s', so'). loop_core message seqNo base B i s' so' w
           \<and> config s' = config s \<and> log s' = log s \<and> plugins s' = plugins s \<and> (needed \<longrightarrow> so' \<noteq> None))"
proof (cases "so = None \<and> needed")
  case True
  then have s: "server_inv None s" "idle s" "seqNo = mNextSeqNo s" "Suc (unat (mNextSeqNo s)) \<le> B" "pending s = base" "\<not> w"
    using core by (auto simp: loop_core_def)
  have n: "Suc (unat (mNextSeqNo s)) < 2 ^ 32" using s(4) B by simp
  note new = new_suspend_ok [OF s(1,2) n, of message]
  have none: "\<not> suspended (mRedirectors (RedirectSuspend_new N message) ! j)" if "j < N" for j N
    using that by (simp add: RedirectSuspend_new_def)
  have zero: "mSuspendCount (RedirectSuspend_new N message) = 0" "mMessage (RedirectSuspend_new N message) = message" for N
    by (simp_all add: RedirectSuspend_new_def)
  have "ensure_suspend s so needed message seqNo = map_option (\<lambda>(s1, a). (s1, Some a)) (new_suspend s message (mNextSeqNo s))"
    using True s(3) by (simp add: ensure_suspend_def)
  then show ?thesis
    using new s n none zero next_unat [OF n] by (auto simp: returns_iff loop_core_def config_def)
qed (use core in \<open>auto simp: ensure_suspend_def\<close>)

lemma core_update:
  assumes core: "loop_core message seqNo base B i s (Some a) w" and so: "suspends s a = Some so"
    and f: "suspend_ok (length (mpConfiguredRedirectors s)) (f so)" "mMessage (f so) = mMessage so" "w' \<longleftrightarrow> 0 < mSuspendCount (f so)"
      "\<forall>j. k \<le> j \<and> j < length (mpConfiguredRedirectors s) \<longrightarrow> \<not> suspended (mRedirectors (f so) ! j)"
  shows "returns (update_suspend s a f) (\<lambda>s'. loop_core message seqNo base B k s' (Some a) w' \<and> config s' = config s \<and> log s' = log s \<and> plugins s' = plugins s)"
proof -
  have "server_inv (Some a) s" using core by (simp add: loop_core_def)
  from update_suspend_ok [where f = f and so = so, OF this so f(1,2)] obtain s' where
    s': "update_suspend s a f = Some s'" "s' = s\<lparr>suspends := (suspends s)(a \<mapsto> f so)\<rparr>" "server_inv (Some a) s'" "pending s' = pending s"
    by auto
  then show ?thesis using core so f(2-4) by (auto simp: loop_core_def idle_def config_def)
qed

lemma core_object:
  assumes "loop_core message seqNo base B i s (Some a) w"
  obtains so where "suspends s a = Some so" "mMessage so = message" "w \<longleftrightarrow> 0 < mSuspendCount so"
    "suspend_ok (length (mpConfiguredRedirectors s)) so"
    "\<forall>j. i \<le> j \<and> j < length (mpConfiguredRedirectors s) \<longrightarrow> \<not> suspended (mRedirectors so ! j)"
  using assms by (fastforce simp: loop_core_def server_inv_def entries_ok_def)

lemma store_private_ok:
  assumes core: "loop_core message seqNo base B i s so w" and i: "i < length (mpConfiguredRedirectors s)"
  shows "returns (store_private s so i st) (\<lambda>s'. loop_core message seqNo base B i s' so w \<and> config s' = config s \<and> log s' = log s \<and> plugins s' = plugins s)"
proof (cases so)
  case (Some a)
  obtain ob where ob: "suspends s a = Some ob" "mMessage ob = message" "w \<longleftrightarrow> 0 < mSuspendCount ob"
    "suspend_ok (length (mpConfiguredRedirectors s)) ob"
    "\<forall>j. i \<le> j \<and> j < length (mpConfiguredRedirectors s) \<longrightarrow> \<not> suspended (mRedirectors ob ! j)"
    using core_object [OF core [unfolded Some]] .
  let ?f = "update_slot i (\<lambda>r. r\<lparr>privateStorage := st\<rparr>)"
  have len: "length (mRedirectors ob) = length (mpConfiguredRedirectors s)" using ob(4) by (simp add: suspend_ok_def)
  have "suspend_ok (length (mpConfiguredRedirectors s)) ((?f ob)\<lparr>mSuspendCount := mSuspendCount ob\<rparr>)"
    using ob(4,5) i by (intro suspend_ok_slot) auto
  moreover have "(?f ob)\<lparr>mSuspendCount := mSuspendCount ob\<rparr> = ?f ob" by (simp add: update_slot_def)
  moreover have "\<not> suspended (mRedirectors (?f ob) ! j)" if "i \<le> j" "j < length (mpConfiguredRedirectors s)" for j
    using ob(5) that len by (auto simp: update_slot_def nth_list_update)
  ultimately show ?thesis
    using core_update [where f = ?f and k = i and w' = w, OF core [unfolded Some] ob(1)] ob(2,3)
    by (simp add: store_private_def Some update_slot_def)
qed (use core in \<open>simp add: store_private_def\<close>)

lemma mark_suspended_ok:
  assumes core: "loop_core message seqNo base B i s (Some a) w" and i: "i < length (mpConfiguredRedirectors s)"
  shows "returns (mark_suspended s (Some a) i)
           (\<lambda>s'. loop_core message seqNo base B (Suc i) s' (Some a) True \<and> config s' = config s \<and> log s' = log s \<and> plugins s' = plugins s)"
proof -
  obtain ob where ob: "suspends s a = Some ob" "mMessage ob = message" "w \<longleftrightarrow> 0 < mSuspendCount ob"
    "suspend_ok (length (mpConfiguredRedirectors s)) ob"
    "\<forall>j. i \<le> j \<and> j < length (mpConfiguredRedirectors s) \<longrightarrow> \<not> suspended (mRedirectors ob ! j)"
    using core_object [OF core] .
  let ?f = "\<lambda>so. (update_slot i (\<lambda>r. r\<lparr>suspended := True, needsCancel := True\<rparr>) so)\<lparr>mSuspendCount := mSuspendCount so + 1\<rparr>"
  have len: "length (mRedirectors ob) = length (mpConfiguredRedirectors s)" using ob(4) by (simp add: suspend_ok_def)
  have "suspend_ok (length (mpConfiguredRedirectors s)) (?f ob)"
    using ob(4,5) i by (intro suspend_ok_slot) auto
  moreover have "0 < mSuspendCount (?f ob)" using ob(4) by (simp add: suspend_ok_def)
  moreover have "\<not> suspended (mRedirectors (?f ob) ! j)" if "Suc i \<le> j" "j < length (mpConfiguredRedirectors s)" for j
    using ob(5) that by (auto simp: update_slot_def)
  ultimately show ?thesis
    using core_update [where f = ?f and k = "Suc i" and w' = True, OF core ob(1)]
    by (simp add: mark_suspended_def update_slot_def)
qed

lemma private_of_ok:
  assumes core: "loop_core message seqNo base B i s so w" and i: "i < length (mpConfiguredRedirectors s)"
  shows "\<exists>st. private_of s so i = Some st"
proof (cases so)
  case (Some a)
  from core_object [OF core [unfolded Some]] obtain ob where "suspends s a = Some ob"
    "suspend_ok (length (mpConfiguredRedirectors s)) ob" by metis
  then show ?thesis using i by (simp add: private_of_def Some element_at_def suspend_ok_def)
qed (simp add: private_of_def)

lemma quiet_lookUp:
  assumes "quiet domain env"
  obtains p r where "env_lookUp env i pl m su ru meth cl n st ed = (p, Inr r)" "list_all (warning_ok domain) (lr_errors r)"
proof -
  have "case snd (env_lookUp env i pl m su ru meth cl n st ed) of Inl e \<Rightarrow> False | Inr r \<Rightarrow> list_all (warning_ok domain) (lr_errors r)"
    using assms by (simp only: quiet_def)
  then show ?thesis
    using that by (cases "env_lookUp env i pl m su ru meth cl n st ed") (auto split: sum.splits)
qed

lemma quiet_observe:
  "quiet domain env \<Longrightarrow> env_observe env i p m su ru meth cl n = (fst (env_observe env i p m su ru meth cl n), None)"
  by (simp add: quiet_def prod_eq_iff)

text \<open>From their state \<open>p\<close> on the plug-ins never ask for the request to be suspended.\<close>

coinductive calm :: "('p, 'u) redirect_env \<Rightarrow> http_message \<Rightarrow> 'p \<Rightarrow> bool" for env message where
  calmI: "(\<And>i su ru meth cl n st ed. calm env message (fst (env_lookUp env i p message su ru meth cl n st ed))
             \<and> (case snd (env_lookUp env i p message su ru meth cl n st ed) of Inl e \<Rightarrow> True | Inr r \<Rightarrow> lr_status r \<noteq> SEARCH_PENDING))
     \<Longrightarrow> (\<And>i su ru meth cl n. calm env message (fst (env_observe env i p message su ru meth cl n))) \<Longrightarrow> calm env message p"

lemma calm_lookUp:
  assumes "calm env message p" and "env_lookUp env i p message su ru meth cl n st ed = (p', Inr r)"
  shows "calm env message p'" and "lr_status r \<noteq> SEARCH_PENDING"
proof -
  have "calm env message (fst (env_lookUp env i p message su ru meth cl n st ed))
    \<and> (case snd (env_lookUp env i p message su ru meth cl n st ed) of Inl e \<Rightarrow> True | Inr r \<Rightarrow> lr_status r \<noteq> SEARCH_PENDING)"
    using assms(1) by cases blast
  then show "calm env message p'" "lr_status r \<noteq> SEARCH_PENDING" by (simp_all add: assms(2))
qed

lemma calm_observe: "calm env message p \<Longrightarrow> calm env message (fst (env_observe env i p message su ru meth cl n))"
  by (auto elim: calm.cases)

lemma config_redirectors: "config s = config s0 \<Longrightarrow> mpConfiguredRedirectors s = mpConfiguredRedirectors s0"
  by (simp add: config_def)

lemma lookup_one_ok:
  fixes ls :: "('p, 'u) loop_state"
  assumes quiet: "quiet (mDefaultDomain s0) env" and inv: "loop_inv message seqNo s0 base B i ls"
    and B: "B < 2 ^ 32" and i: "i < length (mpConfiguredRedirectors s0)"
  shows "returns (lookup_one env message method seqNo i ls) (\<lambda>(ls', e). e = None \<and> loop_inv message seqNo s0 base B (Suc i) ls'
           \<and> (calm env message (plugins (ls_server ls)) \<longrightarrow> calm env message (plugins (ls_server ls')) \<and> willSuspend ls' = willSuspend ls))"
proof -
  let ?s = "ls_server ls" and ?cl = "resetWasModifiedFlag (contactList ls)"
  have core: "loop_core message seqNo base B i ?s (ls_suspend ls) (willSuspend ls)" and conf: "config ?s = config s0"
    and ans: "answers (log ?s) = answers (log s0)" and err: "error_ok (errorDescriptor ls)"
    and warn: "warning_printable (mDefaultDomain s0) (error_abs (errorDescriptor ls))"
    using inv by (auto simp: loop_inv_def)
  have i': "i < length (mpConfiguredRedirectors ?s)" using i config_redirectors [OF conf] by simp
  define d where "d = mpConfiguredRedirectors ?s ! i"
  have d: "element_at (mpConfiguredRedirectors ?s) i = Some d" using i' by (simp add: element_at_def d_def)
  have next_i: "loop_inv message seqNo s0 base B (Suc i) ls" using loop_inv_mono [OF inv] by simp
  show ?thesis
  proof (cases "bActive d \<and> contactListAuthorityLevel ls \<le> authorityLevel d")
    case False
    obtain q where q: "env_observe env i (plugins ?s) message (stringUri ls) (requestUri ls) method (contactList ls) seqNo = (q, None)"
      using quiet_observe [OF quiet] by blast
    have "calm env message (plugins ?s) \<longrightarrow> calm env message q" using calm_observe q by (metis fst_conv)
    then show ?thesis using False next_i by (cases "bActive d") (simp_all add: lookup_one_def Let_def d loop_inv_def q)
  next
    case asked: True
    obtain st where st: "private_of ?s (ls_suspend ls) i = Some st" using private_of_ok [OF core i'] by blast
    obtain p r where r: "env_lookUp env i (plugins ?s) message (stringUri ls) (requestUri ls) method ?cl seqNo st (errorDescriptor ls) = (p, Inr r)"
      "list_all (warning_ok (mDefaultDomain s0)) (lr_errors r)"
      using quiet_lookUp [OF quiet] .
    let ?s1 = "logged (?s\<lparr>plugins := p\<rparr>) (LookedUp i seqNo)"
    obtain ed where ed: "run_error_ops (lr_errors r) (errorDescriptor ls) = Some ed" "error_ok ed"
      "warning_printable (mDefaultDomain s0) (error_abs ed)"
      using run_error_ops_ok [OF err, of "lr_errors r"] warnings_printable [OF warn r(2)] by (auto simp: returns_iff)
    have core1: "loop_core message seqNo base B i ?s1 (ls_suspend ls) (willSuspend ls)" using core by simp
    let ?needed = "lr_status r = SEARCH_PENDING \<or> lr_storage r \<noteq> None"
    obtain s2 so where s2: "ensure_suspend ?s1 (ls_suspend ls) ?needed message seqNo = Some (s2, so)"
      "loop_core message seqNo base B i s2 so (willSuspend ls)" "config s2 = config s0" "log s2 = log ?s1" "plugins s2 = p" "?needed \<longrightarrow> so \<noteq> None"
      using ensure_suspend_ok [OF core1 B, of ?needed] conf by (auto simp: returns_iff)
    have i2: "i < length (mpConfiguredRedirectors s2)" using i config_redirectors [OF s2(3)] by simp
    obtain s3 where s3: "store_private s2 so i (lr_storage r) = Some s3" "loop_core message seqNo base B i s3 so (willSuspend ls)"
      "config s3 = config s0" "log s3 = log ?s1" "plugins s3 = p"
      using store_private_ok [OF s2(2) i2, of "lr_storage r"] s2(3-5) by (auto simp: returns_iff)
    have i3: "i < length (mpConfiguredRedirectors s3)" using i config_redirectors [OF s3(3)] by simp
    have core3: "loop_core message seqNo base B (Suc i) s3 so (willSuspend ls)" using loop_core_mono [OF s3(2)] by simp
    note unfolded = lookup_one_def Let_def d st r(1) ed(1) s2(1) s3(1)
    show ?thesis
    proof (cases "lr_status r")
      case SEARCH_PENDING
      then obtain a where a: "so = Some a" using s2(6) by auto
      obtain s4 where s4: "mark_suspended s3 so i = Some s4" "loop_core message seqNo base B (Suc i) s4 so True"
        "config s4 = config s0" "log s4 = log ?s1"
        using mark_suspended_ok [OF s3(2) [unfolded a] i3] s3(3-5) a by (auto simp: returns_iff)
      have "\<not> calm env message (plugins ?s)" using calm_lookUp(2) [OF _ r(1)] SEARCH_PENDING by blast
      then show ?thesis using asked s4 ed ans SEARCH_PENDING s2(1) by (simp add: unfolded loop_inv_def)
    qed (use asked core3 ed s3 ans s2(1) calm_lookUp(1) [OF _ r(1)] in \<open>simp_all add: unfolded loop_inv_def\<close>)
  qed
qed

lemma redirect_loop_ok:
  fixes ls :: "('p, 'u) loop_state"
  assumes quiet: "quiet (mDefaultDomain s0) env" and inv: "loop_inv message seqNo s0 base B i ls"
    and B: "B < 2 ^ 32" and i: "i \<le> length (mpConfiguredRedirectors s0)"
  shows "returns (redirect_loop env message method seqNo [i..<length (mpConfiguredRedirectors s0)] ls)
           (\<lambda>(ls', e). e = None \<and> loop_inv message seqNo s0 base B (length (mpConfiguredRedirectors s0)) ls'
             \<and> (calm env message (plugins (ls_server ls)) \<longrightarrow> calm env message (plugins (ls_server ls')) \<and> willSuspend ls' = willSuspend ls))"
  using inv i
proof (induction "length (mpConfiguredRedirectors s0) - i" arbitrary: i ls)
  case (Suc n)
  then have i: "i < length (mpConfiguredRedirectors s0)" by simp
  show ?case
  proof (cases "willError ls")
    case True
    then show ?thesis using loop_inv_mono [OF Suc.prems] i by (simp add: upt_conv_Cons)
  next
    case False
    show ?thesis
      unfolding upt_conv_Cons [OF i] redirect_loop.simps if_not_P [OF False]
    proof (rule returns_bind [OF lookup_one_ok [OF quiet Suc.prems(1) B i]], goal_cases)
      case (1 x)
      then obtain ls1 where x: "x = (ls1, None)" and ls1: "loop_inv message seqNo s0 base B (Suc i) ls1"
        "calm env message (plugins (ls_server ls)) \<longrightarrow> calm env message (plugins (ls_server ls1)) \<and> willSuspend ls1 = willSuspend ls" by (cases x) auto
      have "n = length (mpConfiguredRedirectors s0) - Suc i" using Suc.hyps(2) by simp
      from Suc.hyps(1) [OF this ls1(1) Suc_leI [OF i]] show ?case
        unfolding x prod.case option.case by (rule returns_mono) (use ls1(2) in auto)
    qed
  qed
qed auto

section \<open>Processing a request\<close>

text \<open>A request that is not an ACK is answered; a copy of an ACK can be made.\<close>

definition ack_copied :: "('p, 'u) redirect_env \<Rightarrow> string \<Rightarrow> http_message \<Rightarrow> bool" where
  "ack_copied env route message \<longleftrightarrow> isAck (getRequestMethod message) \<longrightarrow> (\<forall>contact. ackCopy env route message contact \<noteq> None)"

definition answer_of :: "http_message \<Rightarrow> http_message list" where
  "answer_of message = (if isAck (getRequestMethod message) then [] else [message])"

lemma logged_answer: "answers [e] = ms \<Longrightarrow> \<exists>l. logged s e = s\<lparr>log := log s @ l\<rparr> \<and> answers l = ms"
  by (intro exI [of _ "[e]"]) (simp add: logged_def)

lemma send_result_ok:
  fixes ls :: "('p, 'u) loop_state"
  assumes inv: "loop_inv message seqNo s0 base B N ls" and dom: "nul_free (mDefaultDomain s0)"
    and ack: "ack_copied env (mAckRouteToProxy s0) message"
  shows "returns (send_result env message (getRequestMethod message) ls)
           (\<lambda>s'. \<exists>l. s' = (ls_server ls)\<lparr>log := log (ls_server ls) @ l\<rparr> \<and> answers l = answer_of message)"
proof -
  let ?s = "ls_server ls"
  have s: "config ?s = config s0" "error_ok (errorDescriptor ls)" "warning_printable (mDefaultDomain s0) (error_abs (errorDescriptor ls))"
    using inv by (auto simp: loop_inv_def)
  have c: "mDefaultDomain ?s = mDefaultDomain s0" "mAckRouteToProxy ?s = mAckRouteToProxy s0" using s(1) by (simp_all add: config_def)
  have same: "?s = ?s\<lparr>log := log ?s @ []\<rparr>" by simp
  show ?thesis
  proof (cases "isAck (getRequestMethod message)")
    case True
    then have "\<exists>m. ackCopy env (mAckRouteToProxy ?s) message contact = Some m" for contact using ack by (simp add: ack_copied_def c)
    then obtain copy where "\<And>contact. ackCopy env (mAckRouteToProxy ?s) message contact = Some (copy contact)" by metis
    then show ?thesis
      using True same by (auto simp: send_result_def Let_def answer_of_def contact_entries_def contact_get_def
          intro!: logged_answer intro: exI [of _ "[]"])
  next
    case False
    then show ?thesis
      using buildResponse_ok [OF s(2) dom s(3), of message]
      by (auto simp: send_result_def Let_def answer_of_def c returns_iff intro!: logged_answer)
  qed
qed

lemma core_cancel:
  assumes quiet: "quiet domain env" and core: "loop_core message seqNo base B i s (Some a) w"
  shows "returns (cancelRedirect env s (ucast seqNo) a) (\<lambda>(s', e). e = None \<and> server_inv None s' \<and> idle s' \<and> config s' = config s
           \<and> unat (mNextSeqNo s') \<le> B \<and> pending s' = base \<and> answers (log s') = answers (log s))"
proof -
  have inv: "server_inv (Some a) s" and live: "iters_live (mSuspendList s)" and idle: "idle s" and pend: "pending s = add_mset message base"
    and B: "unat (mNextSeqNo s) \<le> B"
    using core by (auto simp: loop_core_def idle_def iters_live_def)
  obtain p where p: "p \<in># entries_of s" "pdata p = seq_key seqNo" "pvalue p = Obj a" using core by (auto simp: loop_core_def)
  obtain so where so: "suspends s a = Some so" "mMessage so = message" using core_object [OF core] by metis
  show ?thesis
    by (rule returns_mono [OF cancelRedirect_ok [OF quiet inv p _ so(1) live]])
       (use idle pend so(2) B in \<open>auto simp: same_setup_def idle_def\<close>)
qed

text \<open>
  The outcome of processing a request: it is answered, and gone from the table if it was there, or
  it waits in the table.
\<close>

definition settled :: "('p, 'u) redirect_env \<Rightarrow> http_message \<Rightarrow> 'p redirect_server \<Rightarrow> http_message multiset \<Rightarrow> nat \<Rightarrow> 'p redirect_server \<Rightarrow> bool" where
  "settled env message s0 base B s' \<longleftrightarrow> server_inv None s' \<and> idle s' \<and> config s' = config s0 \<and> unat (mNextSeqNo s') \<le> B
     \<and> (pending s' = base \<and> answers (log s') = answers (log s0) @ answer_of message
        \<or> pending s' = add_mset message base \<and> answers (log s') = answers (log s0) \<and> \<not> calm env message (plugins s0))"

lemma processRedirect_ok:
  assumes quiet: "quiet (mDefaultDomain s) env" and dom: "nul_free (mDefaultDomain s)"
    and ack: "ack_copied env (mAckRouteToProxy s) message" and B: "B < 2 ^ 32" and core: "loop_core message seqNo base B 0 s so False"
  shows "returns (processRedirect env s message (getRequestMethod message) seqNo so) (\<lambda>(s', e). e = None \<and> settled env message s base B s')"
proof -
  let ?N = "length (mpConfiguredRedirectors s)"
  let ?ls = "\<lambda>u. \<lparr>ls_server = s, ls_suspend = so, willSuspend = False, willError = False,
        contactListAuthorityLevel = LOWEST_AUTHORITY_LEVEL, contactList = ContactList_new (getRequestUri message),
        errorDescriptor = ErrorDescriptor_new, stringUri = getRequestUri message, requestUri = u\<rparr>"
  have "loop_inv message seqNo s base B 0 (?ls u)" for u
    using core ErrorDescriptor_new_ok by (simp add: loop_inv_def warning_printable_def error_spec_new_def)
  note loop = redirect_loop_ok [OF quiet this B le0]
  show ?thesis
    unfolding processRedirect_def Let_def
  proof (rule returns_bind [OF loop], goal_cases)
    case (1 x)
    then obtain ls where x: "x = (ls, None)" and inv: "loop_inv message seqNo s base B ?N ls"
      and never: "calm env message (plugins s) \<longrightarrow> \<not> willSuspend ls" by (cases x) auto
    let ?s = "ls_server ls"
    have core1: "loop_core message seqNo base B ?N ?s (ls_suspend ls) (willSuspend ls)" and conf: "config ?s = config s"
      and ans: "answers (log ?s) = answers (log s)" using inv by (auto simp: loop_inv_def)
    have finish: "returns (send_result env message (getRequestMethod message) ls \<bind> (\<lambda>s1. case ls_suspend ls of
        None \<Rightarrow> Some (s1, None) | Some a \<Rightarrow> cancelRedirect env s1 (ucast seqNo) a)) (\<lambda>(s', e). e = None \<and> settled env message s base B s')"
    proof (rule returns_bind [OF send_result_ok [OF inv dom ack]], elim exE conjE)
      fix s1 l assume s1: "s1 = ?s\<lparr>log := log ?s @ l\<rparr>" "answers l = answer_of message"
      have core2: "loop_core message seqNo base B ?N s1 (ls_suspend ls) (willSuspend ls)"
        using core1 s1(1) by (simp add: loop_core_def idle_def pending_def server_inv_def cong: option.case_cong)
      have s1': "config s1 = config s" "answers (log s1) = answers (log s) @ answer_of message"
        using s1 conf ans by (simp_all add: config_def)
      show "returns (case ls_suspend ls of None \<Rightarrow> Some (s1, None) | Some a \<Rightarrow> cancelRedirect env s1 (ucast seqNo) a)
        (\<lambda>(s', e). e = None \<and> settled env message s base B s')"
      proof (cases "ls_suspend ls")
        case None
        then show ?thesis using core2 s1' by (auto simp: settled_def loop_core_def)
      next
        case (Some a)
        show ?thesis unfolding Some option.case
          by (rule returns_mono [OF core_cancel [OF quiet core2 [unfolded Some]]]) (use s1' in \<open>auto simp: settled_def\<close>)
      qed
    qed
    have wait: "settled env message s base B ?s" if w: "willSuspend ls"
    proof -
      obtain a where a: "ls_suspend ls = Some a" using core1 w by (cases "ls_suspend ls") (auto simp: loop_core_def)
      obtain ob where "suspends ?s a = Some ob" "0 < mSuspendCount ob" using core_object [OF core1 [unfolded a]] w by metis
      then have "server_inv None ?s" using core1 entries_ok_settled by (fastforce simp: a loop_core_def server_inv_def)
      then show ?thesis using core1 conf ans never w by (auto simp: a settled_def loop_core_def)
    qed
    show ?case using finish wait by (simp add: x)
  qed
qed

end
