(* ===== verification/RedirectEvents.thy ===== *)
theory RedirectEvents
  imports RedirectRun
begin

text \<open>
  The events of the redirect server of theory \<open>SipRedirectServer\<close>: the walks over the table of
  suspended requests that a CANCEL and the shutdown make, the resume messages, and runs of
  events, for which requests received, responses sent and requests that wait are accounted for.
\<close>

section \<open>Walking over the table\<close>

lemma iterators_only [simp]:
  "it_at (m\<lparr>mIteratorList := its\<rparr>) it = it_at m it" "remaining (m\<lparr>mIteratorList := its\<rparr>) it = remaining m it"
  "iterator_current (m\<lparr>mIteratorList := its\<rparr>) it = iterator_current m it"
  "numberOfBuckets (m\<lparr>mIteratorList := its\<rparr>) = numberOfBuckets m" "hm_pairs (m\<lparr>mIteratorList := its\<rparr>) = hm_pairs m"
  by (simp_all add: it_at_def remaining_def iterator_current_def numberOfBuckets_def pair_with_def hm_pairs_def
      cong: option.case_cong)

lemma server_inv_iterators:
  "server_inv X (s\<lparr>mSuspendList := (mSuspendList s)\<lparr>mIteratorList := its\<rparr>\<rparr>) = server_inv X s"
  by (simp add: server_inv_def hm_ok_iterators)

lemma current_pair:
  assumes "iterator_current m it = Some (Some p)"
  shows "mPosition it < numberOfBuckets m" "mpCurrentPair it = Some (pid p)" "p \<in> set (hm_pairs m)"
  using assms by (auto simp: iterator_current_def pair_with_def find_Some_iff split: if_splits option.splits)

lemma seq_case: "(case seq_key k of IntObj w \<Rightarrow> f w | _ \<Rightarrow> c) = f (ucast k)"
  by (simp add: seq_key_def del: IntObj_seq)

definition msg_of :: "'p redirect_server \<Rightarrow> (object, nat) pair \<Rightarrow> http_message" where
  "msg_of s p = mMessage (the (suspends s (addr_of p)))"

text \<open>
  What a visitor of the table does: it takes the entry out if the message is one it selects, and
  sends the reply to it, and leaves the server alone otherwise. The iterator keeps its place.
\<close>

locale visitor =
  fixes visit :: "('p, 'u) redirect_env \<Rightarrow> 'p redirect_server \<Rightarrow> 64 word \<Rightarrow> nat \<Rightarrow> ('p redirect_server \<times> exc option) option"
    and selected :: "('p, 'u) redirect_env \<Rightarrow> http_message \<Rightarrow> bool"
    and reply :: "http_message \<Rightarrow> sip_response list"
  assumes visit_law: "\<And>domain env s n it p k a so. quiet domain env \<Longrightarrow> server_inv None s \<Longrightarrow> mIteratorList (mSuspendList s) = [(n, it)] \<Longrightarrow>
      it_at (mSuspendList s) it \<Longrightarrow> iterator_current (mSuspendList s) it = Some (Some p) \<Longrightarrow>
      pdata p = seq_key k \<Longrightarrow> pvalue p = Obj a \<Longrightarrow> suspends s a = Some so \<Longrightarrow>
      returns (visit env s (ucast k) a) (\<lambda>(s', e). e = None \<and>
        (if selected env (mMessage so)
         then server_inv None s' \<and> same_setup s s' \<and> entries_of s = add_mset p (entries_of s') \<and> suspends s' = (suspends s)(a := None)
           \<and> responses (log s') = responses (log s) @ reply (mMessage so)
           \<and> (\<exists>it'. mIteratorList (mSuspendList s') = [(n, it')] \<and> it_at (mSuspendList s') it'
                \<and> remaining (mSuspendList s') it' = remaining (mSuspendList s) it)
         else s' = s))"
begin

text \<open>The outcome of a walk over the entries \<open>ps\<close>.\<close>

definition walked :: "('p, 'u) redirect_env \<Rightarrow> 'p redirect_server \<Rightarrow> (object, nat) pair list \<Rightarrow> 'p redirect_server \<Rightarrow> bool" where
  "walked env s ps s' \<longleftrightarrow> server_inv None s' \<and> same_setup s s'
     \<and> entries_of s = entries_of s' + mset (filter (\<lambda>p. selected env (msg_of s p)) ps)
     \<and> (\<forall>q \<in># entries_of s'. msg_of s' q = msg_of s q)
     \<and> responses (log s') = responses (log s) @ concat (map (\<lambda>p. reply (msg_of s p)) (filter (\<lambda>p. selected env (msg_of s p)) ps))"

lemma walked_take:
  assumes inv: "server_inv None s" and s2: "same_setup s s2" "entries_of s = add_mset p (entries_of s2)"
      "suspends s2 = (suspends s)(addr_of p := None)" "responses (log s2) = responses (log s) @ reply (msg_of s p)"
    and sel: "selected env (msg_of s p)" and sub: "mset ps \<subseteq># entries_of s2" and rest: "walked env s2 ps s'"
  shows "walked env s (p # ps) s'"
proof -
  have "distinct (hm_pairs (mSuspendList s))"
    using inv hm_ok_iterable(1) [of object_hash object_isEqual object_ok "mSuspendList s"] by (auto simp: server_inv_def distinct_map)
  then have notin: "p \<notin># entries_of s2" using removed_not_in [of "hm_pairs (mSuspendList s)" p] s2(2) by auto
  have other: "msg_of s2 q = msg_of s q" if "q \<in># entries_of s2" for q
  proof -
    have "addr_of q \<noteq> addr_of p" using inv that notin s2(2) by (auto simp: server_inv_def entries_ok_def)
    then show ?thesis by (simp add: msg_of_def s2(3))
  qed
  have ps: "filter (\<lambda>p. selected env (msg_of s2 p)) ps = filter (\<lambda>p. selected env (msg_of s p)) ps"
    "map (\<lambda>p. reply (msg_of s2 p)) (filter (\<lambda>p. selected env (msg_of s p)) ps) = map (\<lambda>p. reply (msg_of s p)) (filter (\<lambda>p. selected env (msg_of s p)) ps)"
    using sub other by (auto intro!: filter_cong dest: mset_subset_eqD)
  have "q \<in># entries_of s2" if "q \<in># entries_of s'" for q
    using rest that by (auto simp: walked_def dest!: arg_cong [of _ _ set_mset])
  then show ?thesis using s2 sel rest other by (auto simp: walked_def ps same_setup_def)
qed

lemma walk_ok:
  assumes quiet: "quiet domain env" and "server_inv None s" and "mIteratorList (mSuspendList s) = [(n, it)]" and "it_at (mSuspendList s) it"
    and "mset (remaining (mSuspendList s) it) \<subseteq># entries_of s" and "length (remaining (mSuspendList s) it) < fuel"
  shows "returns (walk fuel n (visit env) s) (\<lambda>(s', e). e = None \<and> walked env s (remaining (mSuspendList s) it) s'
           \<and> (\<exists>it'. mIteratorList (mSuspendList s') = [(n, it')]))"
  using assms(2-)
proof (induction fuel arbitrary: s it)
  case (Suc fuel)
  let ?m = "mSuspendList s" and ?R = "remaining (mSuspendList s) it"
  have hm: "hm_ok object_hash object_isEqual object_ok ?m"
    and ent: "entries_ok (length (mpConfiguredRedirectors s)) (mNextSeqNo s) (suspendPool s) None (entries_of s) (suspends s)"
    using Suc.prems(1) by (auto simp: server_inv_def)
  note step = iterator_next_ok [OF hm_ok_iterable [OF hm] Suc.prems(3)]
  have set: "set_iterator n it1 ?m = ?m\<lparr>mIteratorList := [(n, it1)]\<rparr>" for it1
    using Suc.prems(2) by (simp add: set_iterator_def)
  show ?case
  proof (cases ?R)
    case Nil
    then obtain it1 where "iterator_next ?m it = Some (it1, None)" using step by auto
    then show ?thesis
      using Suc.prems(1,2) Nil
      by (auto simp: set walked_def server_inv_iterators same_setup_def config_def msg_of_def)
  next
    case (Cons p ps)
    then obtain it1 where it1: "iterator_next ?m it = Some (it1, Some (pdata p))" "it_at ?m it1" "remaining ?m it1 = ps"
      "iterator_current ?m it1 = Some (Some p)"
      using step by auto
    let ?s1 = "s\<lparr>mSuspendList := ?m\<lparr>mIteratorList := [(n, it1)]\<rparr>\<rparr>"
    have p: "p \<in># entries_of s" using current_pair(3) [OF it1(4)] by simp
    then obtain k a where ka: "pdata p = seq_key k" "pvalue p = Obj a" using ent by (auto simp: entries_ok_def)
    have "a \<in> dom (suspends s)" using ent p ka(2) by (auto simp: entries_ok_def image_iff intro!: bexI [of _ p])
    then obtain so where so: "suspends s a = Some so" by blast
    have rest: "mset ps \<subseteq># entries_of s - {#p#}" "length ps < fuel"
      using Suc.prems(4,5) Cons by (auto simp: insert_subset_eq_iff)
    have walk: "walk (Suc fuel) n (visit env) s = visit env ?s1 (ucast k) a \<bind>
        (\<lambda>(s2, e). case e of Some x \<Rightarrow> Some (s2, Some x) | None \<Rightarrow> walk fuel n (visit env) s2)"
      unfolding walk.simps(2) Let_def set Suc.prems(2)
      by (simp add: it1(1,4) ka iterator_value_def iterator_key_def public_value_def seq_case)
    have s1: "server_inv None ?s1" "msg_of ?s1 = msg_of s" "same_setup s ?s1" "entries_of ?s1 = entries_of s"
      using Suc.prems(1) by (simp_all add: server_inv_iterators msg_of_def fun_eq_iff same_setup_def config_def)
    have msg: "msg_of s p = mMessage so" using ka so by (simp add: msg_of_def)
    have visit: "returns (visit env ?s1 (ucast k) a) (\<lambda>(s', e). e = None \<and> (if selected env (mMessage so)
         then server_inv None s' \<and> same_setup ?s1 s' \<and> entries_of ?s1 = add_mset p (entries_of s') \<and> suspends s' = (suspends ?s1)(a := None)
           \<and> responses (log s') = responses (log ?s1) @ reply (mMessage so)
           \<and> (\<exists>it'. mIteratorList (mSuspendList s') = [(n, it')] \<and> it_at (mSuspendList s') it'
                \<and> remaining (mSuspendList s') it' = remaining (mSuspendList ?s1) it1)
         else s' = ?s1))"
      by (rule visit_law [OF quiet s1(1)]) (use it1 ka so in simp_all)
    show ?thesis unfolding walk
    proof (rule returns_bind [OF visit], goal_cases)
      case (1 x)
      then obtain s2 where x: "x = (s2, None)" by (cases x) simp
      show ?case
      proof (cases "selected env (mMessage so)")
        case False
        have "mset (remaining (mSuspendList ?s1) it1) \<subseteq># entries_of ?s1"
          using rest(1) it1(3) by (simp add: subset_mset.order_trans)
        note IH = Suc.IH [where s = ?s1 and it = it1, OF s1(1) _ _ this]
        have s2: "s2 = ?s1" using 1 False by (simp add: x)
        have "returns (walk fuel n (visit env) ?s1) (\<lambda>(s', e). e = None \<and> walked env s ?R s' \<and> (\<exists>it'. mIteratorList (mSuspendList s') = [(n, it')]))"
          by (rule returns_mono [OF IH])
            (use it1 rest(2) s1 False in \<open>auto simp: Cons walked_def msg same_setup_def\<close>)
        then show ?thesis by (simp add: x s2)
      next
        case True
        then obtain it2 where s2: "server_inv None s2" "same_setup s s2" "entries_of s = add_mset p (entries_of s2)"
          "suspends s2 = (suspends s)(a := None)" "responses (log s2) = responses (log s) @ reply (mMessage so)"
          "mIteratorList (mSuspendList s2) = [(n, it2)]" "it_at (mSuspendList s2) it2" "remaining (mSuspendList s2) it2 = ps"
          using 1 s1 it1(3) by (auto simp: x same_setup_def)
        have sub: "mset ps \<subseteq># entries_of s2" using rest(1) by (simp add: s2(3))
        have take: "walked env s (p # ps) s'" if "walked env s2 ps s'" for s'
          by (rule walked_take [OF Suc.prems(1) s2(2,3) _ _ _ sub that]) (use s2(4,5) ka True msg in simp_all)
        have "returns (walk fuel n (visit env) s2) (\<lambda>(s', e). e = None \<and> walked env s ?R s' \<and> (\<exists>it'. mIteratorList (mSuspendList s') = [(n, it')]))"
          by (rule returns_mono [OF Suc.IH [where s = s2 and it = it2, OF s2(1,6,7)]])
            (use s2(8) sub rest(2) take in \<open>auto simp: Cons\<close>)
        then show ?thesis by (simp add: x)
      qed
    qed
  qed
qed simp

lemma walk_table_ok:
  assumes quiet: "quiet domain env" and inv: "server_inv None s" and idle: "idle s"
  shows "returns (walk_table (visit env) s) (\<lambda>(s', e). e = None \<and> server_inv None s' \<and> idle s' \<and> same_setup s s'
           \<and> pending s' = filter_mset (\<lambda>m. \<not> selected env m) (pending s)
           \<and> (\<exists>ms. mset ms = filter_mset (selected env) (pending s) \<and> responses (log s') = responses (log s) @ concat (map reply ms)))"
proof -
  let ?m = "mSuspendList s" and ?it = HashMapIterator_init
  let ?s0 = "s\<lparr>mSuspendList := HashMapIterator_new ?m (Suc 0)\<rparr>"
  have hm: "hm_ok object_hash object_isEqual object_ok ?m" using inv by (simp add: server_inv_def)
  have new: "HashMapIterator_new ?m (Suc 0) = ?m\<lparr>mIteratorList := [(Suc 0, ?it)]\<rparr>" using idle by (simp add: HashMapIterator_new_def idle_def)
  note start = init_remaining [OF hm_ok_iterable(2) [OF hm]]
  have len: "length (hm_pairs ?m) = mElements ?m" using hm by (simp add: hm_ok_def)
  have walk: "returns (walk (Suc (mElements ?m)) (Suc 0) (visit env) ?s0) (\<lambda>(s', e). e = None \<and> walked env ?s0 (remaining (mSuspendList ?s0) ?it) s'
       \<and> (\<exists>it'. mIteratorList (mSuspendList s') = [(Suc 0, it')]))"
    by (rule walk_ok [OF quiet]) (use inv start len in \<open>simp_all add: new server_inv_iterators\<close>)
  have pend: "pending t = image_mset (msg_of t) (entries_of t)" for t by (simp add: pending_def pending_of_def msg_of_def [abs_def])
  have msg0: "msg_of (s\<lparr>mSuspendList := m\<rparr>) = msg_of s" for m by (simp add: msg_of_def fun_eq_iff)
  have n: "Suc (fold max (map fst (mIteratorList ?m)) 0) = Suc 0" using idle by (simp add: idle_def)
  show ?thesis
    unfolding walk_table_def Let_def n
  proof (rule returns_bind [OF walk], goal_cases)
    case (1 x)
    then obtain s1 it1 where x: "x = (s1, None)" and w: "walked env ?s0 (hm_pairs ?m) s1" and it1: "mIteratorList (mSuspendList s1) = [(Suc 0, it1)]"
      using start by (cases x) (auto simp: new)
    let ?sel = "filter (\<lambda>p. selected env (msg_of s p)) (hm_pairs ?m)"
    have s1: "server_inv None s1" "same_setup s s1" "entries_of s = entries_of s1 + mset ?sel"
      "\<forall>q \<in># entries_of s1. msg_of s1 q = msg_of s q"
      "responses (log s1) = responses (log s) @ concat (map (\<lambda>p. reply (msg_of s p)) ?sel)"
      using w by (auto simp: walked_def msg0 new same_setup_def config_def)
    have hm1: "hm_ok object_hash object_isEqual object_ok (mSuspendList s1)" using s1(1) by (simp add: server_inv_def)
    obtain m where m: "HashMapIterator_delete (mSuspendList s1) (Suc 0) = Some m" "hm_ok object_hash object_isEqual object_ok m"
      "mset (hm_pairs m) = entries_of s1" "mIteratorList m = []"
      using HashMapIterator_delete_ok [OF hm1, of "Suc 0"] it1 by (auto simp: returns_iff)
    have split: "entries_of s = mset ?sel + filter_mset (\<lambda>p. \<not> selected env (msg_of s p)) (entries_of s)"
      by (simp add: mset_filter flip: multiset_partition)
    have "pending s1 = image_mset (msg_of s) (filter_mset (\<lambda>p. \<not> selected env (msg_of s p)) (entries_of s))"
      unfolding pend using s1(3,4) split by (metis (no_types, lifting) add.commute add_left_imp_eq image_mset_cong)
    then have left: "pending s1 = filter_mset (\<lambda>m. \<not> selected env m) (pending s)"
      by (simp add: pend filter_mset_image_mset)
    have taken: "mset (map (msg_of s) ?sel) = filter_mset (selected env) (pending s)"
      by (simp add: pend filter_mset_image_mset)
    have "\<exists>ms. mset ms = filter_mset (selected env) (pending s) \<and> responses (log s1) = responses (log s) @ concat (map reply ms)"
      by (intro exI [of _ "map (msg_of s) ?sel"] conjI taken) (simp add: s1(5) comp_def)
    then show ?case
      using s1(1,2) m left by (auto simp: x server_inv_def idle_def same_setup_def config_def pending_def)
  qed
qed

end

text \<open>The visitor of the shutdown and, for every CANCEL, that of the CANCEL.\<close>

lemma cancel_current:
  assumes quiet: "quiet domain env" and inv: "server_inv None s" and its: "mIteratorList (mSuspendList s) = [(n, it)]"
    and at: "it_at (mSuspendList s) it" and cur: "iterator_current (mSuspendList s) it = Some (Some p)"
    and p: "pdata p = seq_key k" "pvalue p = Obj a" and so: "suspends s a = Some so"
  shows "returns (cancelRedirect env s (ucast k) a) (\<lambda>(s', e). e = None \<and> server_inv None s' \<and> same_setup s s'
           \<and> entries_of s = add_mset p (entries_of s') \<and> suspends s' = (suspends s)(a := None) \<and> responses (log s') = responses (log s)
           \<and> (\<exists>it'. mIteratorList (mSuspendList s') = [(n, it')] \<and> it_at (mSuspendList s') it'
                \<and> remaining (mSuspendList s') it' = remaining (mSuspendList s) it))"
proof -
  have hm: "hm_ok object_hash object_isEqual object_ok (mSuspendList s)" using inv by (simp add: server_inv_def)
  note cp = current_pair [OF cur]
  have live: "iters_live (mSuspendList s)" using its cp by (auto simp: iters_live_def)
  note rm = objects.remove_current_ok [OF hm its at cp]
  show ?thesis
    by (rule returns_mono [OF cancelRedirect_ok [OF quiet inv _ p _ so live]]) (use rm p cp in \<open>auto simp: returns_iff\<close>)
qed

interpretation closing: visitor cancelRedirect "\<lambda>env m. True" "\<lambda>m. []"
  using cancel_current by unfold_locales simp

interpretation cancelling: visitor "\<lambda>env. cancel_visit env message" "\<lambda>env m. isInviteFor (url_parts env) m message"
  "\<lambda>m. [setResponseData m 487 ''Request Terminated'']" for message
proof (unfold_locales, goal_cases)
  case (1 domain env s n it p k a so)
  let ?s = "logged s (Sent (setResponseData (mMessage so) 487 ''Request Terminated''))"
  have "returns (cancelRedirect env ?s (ucast k) a) (\<lambda>(s', e). e = None \<and> server_inv None s' \<and> same_setup ?s s'
           \<and> entries_of ?s = add_mset p (entries_of s') \<and> suspends s' = (suspends ?s)(a := None) \<and> responses (log s') = responses (log ?s)
           \<and> (\<exists>it'. mIteratorList (mSuspendList s') = [(n, it')] \<and> it_at (mSuspendList s') it'
                \<and> remaining (mSuspendList s') it' = remaining (mSuspendList ?s) it))"
    by (rule cancel_current [OF 1(1)]) (use 1 in \<open>simp_all add: logged_def\<close>)
  then show ?case
    using 1 by (auto simp: cancel_visit_def logged_def same_setup_def config_def returns_iff)
qed

section \<open>Resuming a request\<close>

text \<open>The requests that have to be answered.\<close>

definition due :: "http_message multiset \<Rightarrow> http_message multiset" where
  "due M = filter_mset (\<lambda>m. \<not> isAck (getRequestMethod m)) M"

definition accounted :: "'p redirect_server \<Rightarrow> http_message multiset" where
  "accounted s = mset (answers (log s)) + due (pending s)"

lemma due_simps [simp]: "due {#} = {#}" "due (M + N) = due M + due N" "mset (answer_of m) = due {#m#}"
  by (simp_all add: due_def answer_of_def)

lemma due_add: "due (add_mset m M) = due {#m#} + due M"
  by (simp add: due_def)

lemma settled_accounted: "settled env m s base B s' \<Longrightarrow> accounted s' = mset (answers (log s)) + due (add_mset m base)"
  by (auto simp: settled_def accounted_def due_add [of m base])

definition server_ok :: "('p, 'u) redirect_env \<Rightarrow> nat \<Rightarrow> 'p redirect_server \<Rightarrow> bool" where
  "server_ok env B s \<longleftrightarrow> server_inv None s \<and> idle s \<and> unat (mNextSeqNo s) \<le> B
     \<and> quiet (mDefaultDomain s) env \<and> nul_free (mDefaultDomain s) \<and> (\<forall>m \<in># pending s. ack_copied env (mAckRouteToProxy s) m)"

lemma settled_ok:
  assumes st: "settled env m s1 (pending s - {#m#}) B s'" and s: "quiet (mDefaultDomain s) env" "nul_free (mDefaultDomain s)"
      "\<forall>m \<in># pending s. ack_copied env (mAckRouteToProxy s) m" "m \<in># pending s"
    and same: "mDefaultDomain s1 = mDefaultDomain s" "mAckRouteToProxy s1 = mAckRouteToProxy s" "log s1 = log s" "config s1 = config s"
  shows "server_ok env B s' \<and> config s' = config s \<and> accounted s' = accounted s"
proof -
  have c: "config s' = config s" using st same(4) by (simp add: settled_def)
  then have dom: "mDefaultDomain s' = mDefaultDomain s" "mAckRouteToProxy s' = mAckRouteToProxy s" by (simp_all add: config_def)
  have "accounted s' = accounted s" using settled_accounted [OF st] s(4) same(3) by (simp add: accounted_def)
  moreover have "pending s' \<subseteq># pending s" using st s(4) by (auto simp: settled_def)
  ultimately show ?thesis using st s c dom by (auto simp: server_ok_def settled_def dest: mset_subset_eqD)
qed

text \<open>The suspend object a sequence number is mapped to.\<close>

lemma find_suspended:
  assumes inv: "server_inv None s"
  shows "(findValue object_hash object_isEqual (mSuspendList s) (seq_key n) = Some NULLV \<and> (\<forall>p \<in># entries_of s. pdata p \<noteq> seq_key n))
    \<or> (\<exists>a p so. findValue object_hash object_isEqual (mSuspendList s) (seq_key n) = Some (Obj a) \<and> p \<in># entries_of s
          \<and> pdata p = seq_key n \<and> pvalue p = Obj a \<and> suspends s a = Some so)"
proof -
  have hm: "hm_ok object_hash object_isEqual object_ok (mSuspendList s)"
    and ent: "entries_ok (length (mpConfiguredRedirectors s)) (mNextSeqNo s) (suspendPool s) None (entries_of s) (suspends s)"
    using inv by (auto simp: server_inv_def)
  note find = objects.findValue_ok [OF hm seq_key_ok [of n]]
  show ?thesis
  proof (cases "hm_abs object_isEqual (mSuspendList s) (seq_key n)")
    case None
    then have "\<forall>p \<in> set (hm_pairs (mSuspendList s)). \<not> object_isEqual (pdata p) (seq_key n)" by (simp add: objects.hm_abs_None)
    then show ?thesis using find None by auto
  next
    case (Some v)
    then obtain p where p: "p \<in># entries_of s" "object_isEqual (pdata p) (seq_key n)" "pvalue p = v"
      using objects.hm_abs_Some [OF hm seq_key_ok [of n]] by auto
    obtain k a where ka: "pdata p = seq_key k" "pvalue p = Obj a" using ent p(1) by (auto simp: entries_ok_def)
    have "a \<in> dom (suspends s)" using ent p(1) ka(2) by (auto simp: entries_ok_def image_iff intro!: bexI [of _ p])
    then show ?thesis using find Some p ka by (auto simp: public_value_def)
  qed
qed

lemma waiting_request:
  assumes inv: "server_inv None s" and p: "p \<in># entries_of s" "pvalue p = Obj a" and so: "suspends s a = Some so"
  shows "mMessage so \<in># pending s" and "suspend_ok (length (mpConfiguredRedirectors s)) so" and "0 < mSuspendCount so"
proof -
  have "msg_of s p \<in># pending s" using p(1) by (auto simp: pending_def pending_of_def msg_of_def)
  then show "mMessage so \<in># pending s" using p(2) so by (simp add: msg_of_def)
  show "suspend_ok (length (mpConfiguredRedirectors s)) so" "0 < mSuspendCount so"
    using inv so by (auto simp: server_inv_def entries_ok_def)
qed

text \<open>One plug-in's share of a suspended request is taken back; with the last one the request is
  ready to be processed again.\<close>

definition taken_back :: "nat \<Rightarrow> redirect_suspend \<Rightarrow> redirect_suspend" where
  "taken_back i so = (update_slot i (\<lambda>r. r\<lparr>suspended := False\<rparr>) so)\<lparr>mSuspendCount := mSuspendCount so - 1\<rparr>"

lemma taken_back_ok:
  assumes inv: "server_inv None s" and idle: "idle s" and p: "p \<in># entries_of s" "pdata p = seq_key n" "pvalue p = Obj a"
    and so: "suspends s a = Some so" and i: "i < length (mpConfiguredRedirectors s)" "suspended (mRedirectors so ! i)"
    and B: "unat (mNextSeqNo s) \<le> B"
  shows "returns (update_suspend s a (taken_back i)) (\<lambda>s1. s1 = s\<lparr>suspends := (suspends s)(a \<mapsto> taken_back i so)\<rparr> \<and> pending s1 = pending s
           \<and> (if mSuspendCount so - 1 = 0 then loop_core (mMessage so) n (pending s - {#mMessage so#}) B 0 s1 (Some a) False
              else server_inv None s1))"
proof -
  let ?N = "length (mpConfiguredRedirectors s)"
  note w = waiting_request [OF inv p(1,3) so]
  have "suspend_ok ?N (taken_back i so)" unfolding taken_back_def using w(2) i by (intro suspend_ok_slot) auto
  then have tb: "suspend_ok ?N (taken_back i so)" "mMessage (taken_back i so) = mMessage so" "mSuspendCount (taken_back i so) = mSuspendCount so - 1"
    by (simp_all add: taken_back_def update_slot_def)
  have inva: "server_inv (Some a) s" using inv by (auto simp: server_inv_def intro: entries_ok_weaken)
  obtain s1 where s1: "update_suspend s a (taken_back i) = Some s1" "s1 = s\<lparr>suspends := (suspends s)(a \<mapsto> taken_back i so)\<rparr>"
    "server_inv (Some a) s1" "pending s1 = pending s"
    using update_suspend_ok [where f = "taken_back i", OF inva so tb(1,2)] by auto
  have "loop_core (mMessage so) n (pending s - {#mMessage so#}) B 0 s1 (Some a) False" if "mSuspendCount so - 1 = 0"
    using s1(2-4) idle p B w(1) tb count_zero [OF tb(1)] that by (auto simp: loop_core_def idle_def)
  moreover have "server_inv None s1" if "mSuspendCount so - 1 \<noteq> 0"
  proof -
    have "0 < mSuspendCount (taken_back i so)" using that w(3) tb(3) by simp
    moreover have "suspends s1 a = Some (taken_back i so)" by (simp add: s1(2))
    ultimately show ?thesis using s1(3) entries_ok_settled unfolding server_inv_def by blast
  qed
  ultimately show ?thesis using s1 by simp
qed

lemma handle_resume_ok:
  assumes ok: "server_ok env B s" and B: "B < 2 ^ 32"
  shows "returns (handle_resume env s n i) (\<lambda>(s', e, h). e = None \<and> server_ok env B s' \<and> config s' = config s
           \<and> accounted s' = accounted s)"
proof -
  have s: "server_inv None s" "idle s" "unat (mNextSeqNo s) \<le> B" "quiet (mDefaultDomain s) env" "nul_free (mDefaultDomain s)"
    "\<forall>m \<in># pending s. ack_copied env (mAckRouteToProxy s) m"
    using ok by (auto simp: server_ok_def)
  consider (none) "findValue object_hash object_isEqual (mSuspendList s) (seq_key n) = Some NULLV"
    | (found) a p so where "findValue object_hash object_isEqual (mSuspendList s) (seq_key n) = Some (Obj a)" "p \<in># entries_of s"
        "pdata p = seq_key n" "pvalue p = Obj a" "suspends s a = Some so"
    using find_suspended [OF s(1), of n] by blast
  then show ?thesis
  proof cases
    case none
    then show ?thesis using ok by (simp add: handle_resume_def)
  next
    case found
    note w = waiting_request [OF s(1) found(2,4,5)]
    let ?N = "length (mpConfiguredRedirectors s)"
    show ?thesis
    proof (cases "0 \<le> i \<and> i < int ?N \<and> suspended (mRedirectors so ! nat i)")
      case False
      then show ?thesis
        using ok found w(2) by (auto simp: handle_resume_def element_at_def suspend_ok_def)
    next
      case True
      then have i: "nat i < ?N" "suspended (mRedirectors so ! nat i)" by auto
      obtain s1 where s1: "update_suspend s a (taken_back (nat i)) = Some s1" "s1 = s\<lparr>suspends := (suspends s)(a \<mapsto> taken_back (nat i) so)\<rparr>"
        "pending s1 = pending s" "if mSuspendCount so - 1 = 0 then loop_core (mMessage so) n (pending s - {#mMessage so#}) B 0 s1 (Some a) False
              else server_inv None s1"
        using taken_back_ok [OF s(1,2) found(2-5) i s(3)] by (auto simp: returns_iff)
      have resume: "handle_resume env s n i = (if mSuspendCount so - 1 = 0 then
          processRedirect env s1 (mMessage so) (getRequestMethod (mMessage so)) n (Some a) \<bind> (\<lambda>(s2, e). Some (s2, e, e = None))
          else Some (s1, None, True))"
        using found True w(2) s1(1) i by (simp add: handle_resume_def element_at_def suspend_ok_def taken_back_def [abs_def])
      show ?thesis
      proof (cases "mSuspendCount so - 1 = 0")
        case False
        then show ?thesis
          using s s1 by (simp add: resume server_ok_def accounted_def config_def idle_def)
      next
        case ready: True
        have core: "loop_core (mMessage so) n (pending s - {#mMessage so#}) B 0 s1 (Some a) False" using s1(4) ready by simp
        have same: "mDefaultDomain s1 = mDefaultDomain s" "mAckRouteToProxy s1 = mAckRouteToProxy s" "log s1 = log s" "config s1 = config s"
          by (simp_all add: s1(2) config_def)
        have "returns (processRedirect env s1 (mMessage so) (getRequestMethod (mMessage so)) n (Some a))
            (\<lambda>(s', e). e = None \<and> settled env (mMessage so) s1 (pending s - {#mMessage so#}) B s')"
          by (rule processRedirect_ok [OF _ _ _ B core]) (use s w(1) same in auto)
        then show ?thesis
          unfolding resume if_P [OF ready]
          by (rule returns_bind) (use settled_ok [OF _ s(4-6) w(1) same] in auto)
      qed
    qed
  qed
qed

section \<open>Runs\<close>

definition isCancel :: "http_message \<Rightarrow> bool" where
  "isCancel m \<longleftrightarrow> str_casecmp (getRequestMethod m) ''CANCEL'' = 0"

text \<open>The requests an event brings that have to be answered. CANCEL requests are answered by the
  SIP stack.\<close>

fun received :: "os_msg \<Rightarrow> http_message multiset" where
  "received (PHONE_APP m) = (if isCancel m then {#} else due {#m#})"
| "received _ = {#}"

fun serves :: "('p, 'u) redirect_env \<Rightarrow> string \<Rightarrow> os_msg \<Rightarrow> bool" where
  "serves env route (PHONE_APP m) = (isCancel m \<or> ack_copied env route m)"
| "serves env route (REDIRECT_RESTART n i) = True"
| "serves env route OS_SHUTDOWN = False"
| "serves env route OTHER_MSG = True"

fun run_events :: "('p, 'u) redirect_env \<Rightarrow> 'p redirect_server \<Rightarrow> os_msg list \<Rightarrow> 'p redirect_server option" where
  "run_events env s [] = Some s"
| "run_events env s (ev # evs) = do { (s1, handled) \<leftarrow> handleMessage env s ev; run_events env s1 evs }"

lemma server_ok_parts:
  assumes "server_ok env B s"
  shows "server_inv None s" "idle s" "unat (mNextSeqNo s) \<le> B" "quiet (mDefaultDomain s) env" "nul_free (mDefaultDomain s)"
    "\<forall>m \<in># pending s. ack_copied env (mAckRouteToProxy s) m"
  using assms by (auto simp: server_ok_def)

lemma server_ok_mono: "server_ok env B s \<Longrightarrow> B \<le> C \<Longrightarrow> server_ok env C s"
  by (simp add: server_ok_def)

lemma server_ok_Suc: "server_ok env B s \<Longrightarrow> server_ok env (Suc B) s"
  by (erule server_ok_mono) (rule le_SucI [OF order_refl])

lemma new_request_ok:
  assumes ok: "server_ok env B s" and B: "Suc B < 2 ^ 32" and ack: "ack_copied env (mAckRouteToProxy s) m"
  shows "returns (processRedirect env s m (getRequestMethod m) (mNextSeqNo s) None)
           (\<lambda>(s', e). e = None \<and> server_ok env (Suc B) s' \<and> config s' = config s \<and> accounted s' = accounted s + due {#m#})"
proof -
  note s = server_ok_parts [OF ok]
  have core: "loop_core m (mNextSeqNo s) (pending s) (Suc B) 0 s None False" using s by (simp add: loop_core_def)
  show ?thesis
  proof (rule returns_mono [OF processRedirect_ok [OF s(4,5) ack B core]], goal_cases)
    case (1 x)
    then obtain s' where x: "x = (s', None)" and st: "settled env m s (pending s) (Suc B) s'" by (cases x) auto
    have c: "config s' = config s" using st by (simp add: settled_def)
    then have dom: "mDefaultDomain s' = mDefaultDomain s" "mAckRouteToProxy s' = mAckRouteToProxy s" by (simp_all add: config_def)
    have "set_mset (pending s') \<subseteq> insert m (set_mset (pending s))" using st by (auto simp: settled_def)
    then have "server_ok env (Suc B) s'" using st s(4-6) ack dom by (auto simp: server_ok_def settled_def)
    moreover have "accounted s' = accounted s + due {#m#}"
      using settled_accounted [OF st] due_add [of m "pending s"] by (simp add: accounted_def)
    ultimately show ?case using c by (simp add: x)
  qed
qed

lemma cancel_ok:
  assumes ok: "server_ok env B s"
  shows "returns (walk_table (cancel_visit env m) s) (\<lambda>(s', e). e = None \<and> server_ok env B s' \<and> config s' = config s
           \<and> pending s' = filter_mset (\<lambda>k. \<not> isInviteFor (url_parts env) k m) (pending s)
           \<and> (\<exists>ms. mset ms = filter_mset (\<lambda>k. isInviteFor (url_parts env) k m) (pending s)
                \<and> responses (log s') = responses (log s) @ map (\<lambda>k. setResponseData k 487 ''Request Terminated'') ms))"
proof -
  note s = server_ok_parts [OF ok]
  have one: "concat (map (\<lambda>k. [f k]) ms) = map f ms" for f :: "http_message \<Rightarrow> sip_response" and ms by (induction ms) auto
  show ?thesis
    by (rule returns_mono [OF cancelling.walk_table_ok [OF s(4,1,2), of m]])
       (use s in \<open>auto simp: one server_ok_def same_setup_def config_def\<close>)
qed

lemma invite_not_ack: "isInviteFor url k m \<Longrightarrow> \<not> isAck (getRequestMethod k)"
proof -
  have "seq_cmp (codes tolower (c_prefix SIP_INVITE_METHOD)) (codes tolower (c_prefix ''ACK'')) \<noteq> 0" by code_simp
  then show "isInviteFor url k m \<Longrightarrow> \<not> isAck (getRequestMethod k)"
    by (auto simp: isInviteFor_def isAck_def str_cmp_0 str_casecmp_def)
qed

lemma due_invites:
  "due M = filter_mset (\<lambda>k. isInviteFor url k m) M + due (filter_mset (\<lambda>k. \<not> isInviteFor url k m) M)"
proof -
  have "due (filter_mset (\<lambda>k. isInviteFor url k m) M) = filter_mset (\<lambda>k. isInviteFor url k m) M"
    unfolding due_def filter_filter_mset by (rule filter_mset_cong) (auto dest: invite_not_ack)
  then show ?thesis by (metis due_simps(2) multiset_partition)
qed

lemma handleMessage_ok:
  assumes ok: "server_ok env B s" and B: "Suc B < 2 ^ 32" and ev: "serves env (mAckRouteToProxy s) ev"
  shows "returns (handleMessage env s ev) (\<lambda>(s', h). server_ok env (Suc B) s' \<and> config s' = config s
           \<and> accounted s' = accounted s + received ev)"
proof (cases ev)
  case (PHONE_APP m)
  show ?thesis
  proof (cases "isCancel m")
    case True
    have "returns (handle_request env s m) (\<lambda>(s', e). e = None \<and> server_ok env (Suc B) s' \<and> config s' = config s
        \<and> accounted s' = accounted s)"
      unfolding handle_request_def Let_def if_P [OF True [unfolded isCancel_def]]
    proof (rule returns_mono [OF cancel_ok [OF ok, of m]], goal_cases)
      case (1 x)
      then obtain s' ms where x: "x = (s', None)" and s': "server_ok env B s'" "config s' = config s"
        "pending s' = filter_mset (\<lambda>k. \<not> isInviteFor (url_parts env) k m) (pending s)"
        "mset ms = filter_mset (\<lambda>k. isInviteFor (url_parts env) k m) (pending s)"
        "responses (log s') = responses (log s) @ map (\<lambda>k. setResponseData k 487 ''Request Terminated'') ms"
        by (cases x) auto
      have "answers (log s') = answers (log s) @ ms" by (simp add: answers_def s'(5) comp_def setResponseData_def)
      then have "accounted s' = accounted s"
        using due_invites [of "pending s" "url_parts env" m] by (simp add: accounted_def s'(3,4))
      then show ?case using s'(1,2) server_ok_mono [OF s'(1)] by (simp add: x)
    qed
    then show ?thesis unfolding PHONE_APP handleMessage.simps
      by (rule returns_bind) (use True in auto)
  next
    case False
    have "returns (handle_request env s m) (\<lambda>(s', e). e = None \<and> server_ok env (Suc B) s' \<and> config s' = config s
        \<and> accounted s' = accounted s + due {#m#})"
      using new_request_ok [OF ok B, of m] ev False by (simp add: PHONE_APP handle_request_def isCancel_def Let_def)
    then show ?thesis unfolding PHONE_APP handleMessage.simps
      by (rule returns_bind) (use False in auto)
  qed
next
  case (REDIRECT_RESTART n i)
  have "B < 2 ^ 32" using B by simp
  show ?thesis unfolding REDIRECT_RESTART handleMessage.simps
    by (rule returns_bind [OF handle_resume_ok [OF ok \<open>B < 2 ^ 32\<close>]]) (auto intro: server_ok_Suc)
next
  case OTHER_MSG
  then show ?thesis using server_ok_mono [OF ok] by simp
qed (use ev in simp)

lemma run_events_ok:
  assumes "server_ok env B s" and "B + length evs < 2 ^ 32" and "list_all (serves env (mAckRouteToProxy s)) evs"
  shows "returns (run_events env s evs) (\<lambda>s'. server_ok env (B + length evs) s' \<and> config s' = config s
           \<and> accounted s' = accounted s + sum_list (map received evs))"
  using assms
proof (induction evs arbitrary: s B)
  case (Cons ev evs)
  have ev: "Suc B < 2 ^ 32" "serves env (mAckRouteToProxy s) ev" using Cons.prems(2,3) by auto
  show ?case unfolding run_events.simps
  proof (rule returns_bind [OF handleMessage_ok [OF Cons.prems(1) ev]], goal_cases)
    case (1 x)
    then obtain s1 h where x: "x = (s1, h)" and s1: "server_ok env (Suc B) s1" "config s1 = config s" "accounted s1 = accounted s + received ev"
      by (cases x) auto
    have "mAckRouteToProxy s1 = mAckRouteToProxy s" using s1(2) by (simp add: config_def)
    then show ?case unfolding x prod.case
      by (intro returns_mono [OF Cons.IH [OF s1(1)]]) (use Cons.prems(2,3) s1 in \<open>auto simp: add.assoc\<close>)
  qed
qed simp

text \<open>The runs of a server after its initialization: plug-ins that throw no exception and whose warnings fit, fewer than \<open>2 ^ 32 - 1\<close> events, and ACK requests of
  which a copy for a contact can be made.\<close>

definition run_ok :: "('p, 'u) redirect_env \<Rightarrow> string \<Rightarrow> os_msg list \<Rightarrow> bool" where
  "run_ok env domain evs \<longleftrightarrow> quiet domain env \<and> nul_free domain \<and> length evs < 2 ^ 32 - 1
     \<and> list_all (serves env (''<'' @ domain @ '';lr>'')) evs"

lemma no_pairs [simp]: "hm_pairs UtlHashMap_new = []"
  by (simp add: UtlHashMap_new_def hm_pairs_def)

lemma redirect_initialize_empty: "accounted (redirect_initialize domain port configured p) = {#}"
  by (simp add: redirect_initialize_def pending_def pending_of_def accounted_def)

lemma redirect_initialize_ok:
  assumes "quiet domain env" and "nul_free domain"
  shows "server_ok env 0 (redirect_initialize domain port configured p)"
  using assms
  by (simp add: server_ok_def redirect_initialize_def server_inv_def idle_def pending_def pending_of_def entries_ok_def UtlHashMap_new_ok)
     (simp add: UtlHashMap_new_def)

lemma run_ok_server:
  assumes "run_ok env domain evs"
  shows "returns (run_events env (redirect_initialize domain port configured p) evs) (\<lambda>s. server_ok env (length evs) s
           \<and> config s = config (redirect_initialize domain port configured p) \<and> accounted s = sum_list (map received evs))"
proof -
  have init: "server_ok env 0 (redirect_initialize domain port configured p)"
    using redirect_initialize_ok [of domain env] assms by (simp add: run_ok_def)
  have "list_all (serves env (mAckRouteToProxy (redirect_initialize domain port configured p))) evs"
    using assms by (simp add: run_ok_def redirect_initialize_def)
  from run_events_ok [OF init _ this] show ?thesis
    using assms by (simp add: run_ok_def redirect_initialize_empty)
qed

lemma reached_ok:
  assumes "run_ok env domain evs" and "run_events env (redirect_initialize domain port configured p) evs = Some s"
  shows "server_ok env (length evs) s"
  using run_ok_server [OF assms(1), of port configured p] assms(2) by simp

section \<open>A sample server\<close>

text \<open>Two plug-ins: the first asks for the request to be suspended as often as the state of the
  plug-ins tells, and then gives a contact; the second gives a contact.\<close>

definition sample_url :: "string \<Rightarrow> url_fields" where
  "sample_url s = \<lparr>url_tag = s, url_user = [], url_host = [], url_port = 5060, url_transport = []\<rparr>"

definition sample_lookUp :: "nat \<Rightarrow> nat \<Rightarrow> string \<Rightarrow> string \<Rightarrow> string lookup_result" where
  "sample_lookUp i p su ru =
     (let pend = i = 0 \<and> 0 < p in
      \<lparr>lr_status = (if pend then SEARCH_PENDING else SUCCESS), lr_contacts = (if pend then [] else [Contact_Add ''sip:bob@10.0.0.1'']),
       lr_errors = [], lr_storage = (if pend then Some 77 else None), lr_requestString = su, lr_requestUri = ru\<rparr>)"

definition sample_env :: "(nat, string) redirect_env" where
  "sample_env = \<lparr>env_lookUp = (\<lambda>i p m su ru meth cl sq st ed. (if i = 0 then p - 1 else p, Inr (sample_lookUp i p su ru))),
     env_observe = (\<lambda>i p m su ru meth cl sq. (p, None)), env_cancel = (\<lambda>i p sq. (p, None)), env_finalize = (\<lambda>i p. p),
     parse_uri = id, uri_port = (\<lambda>u. 5060), uri_setPort = (\<lambda>u p. u), addr_spec = id, url_parts = sample_url, apply_params = id, selfHeaderValue = ''sipX''\<rparr>"

definition sample_request :: "string \<Rightarrow> http_message" where
  "sample_request method =
     setCSeqField (setRequestFirstHeaderLine \<lparr>mFirstHeaderLine = [], mNameValues = []\<rparr> method ''sip:bob@x'' ''SIP/2.0'') 1 method"

abbreviation "sample_server p \<equiv> redirect_initialize ''example.com'' PORT_DEFAULT [(True, Some 0), (True, Some 10)] (p :: nat)"

lemma sample_quiet: "quiet ''example.com'' sample_env"
  by (simp add: quiet_def sample_env_def sample_lookUp_def Let_def)

lemma sample_calm: "calm sample_env m 0"
  by (coinduction) (simp add: sample_env_def sample_lookUp_def)

lemma sample_methods: "getRequestMethod (sample_request ''INVITE'') = ''INVITE''" "getRequestMethod (sample_request ''CANCEL'') = ''CANCEL''"
  by code_simp+

lemma sample_kinds: "\<not> isCancel (sample_request ''INVITE'')" "isCancel (sample_request ''CANCEL'')" "\<not> isAck ''INVITE''"
  by code_simp+

lemma sample_run_ok: "run_ok sample_env ''example.com'' [PHONE_APP (sample_request ''INVITE'')]"
proof -
  have "nul_free ''example.com''" by code_simp
  then show ?thesis using sample_quiet sample_kinds by (simp add: run_ok_def ack_copied_def sample_methods)
qed

text \<open>The state of the sample server after the INVITE: it waits for the first plug-in.\<close>

lemma sample_suspended:
  "returns (run_events sample_env (sample_server 1) [PHONE_APP (sample_request ''INVITE'')]) (\<lambda>s.
     findValue object_hash object_isEqual (mSuspendList s) (seq_key 0) = Some (Obj 0) \<and> plugins s = 0
     \<and> map_option mSuspendCount (suspends s 0) = Some 1 \<and> map_option mMessage (suspends s 0) = Some (sample_request ''INVITE'')
     \<and> map_option (map suspended \<circ> mRedirectors) (suspends s 0) = Some [True, False] \<and> responses (log s) = [])"
  by code_simp

section \<open>Properties\<close>

text \<open>C1. No request is lost and none is answered twice, as long as no plug-in throws an exception and every warning of a plug-in fits into the buffer it is printed
  to: after any run of fewer than \<open>2 ^ 32 - 1\<close> events before the shutdown, every ACK among them one that class \<open>Url\<close> can address, each event is handled without undefined behaviour, and the
  requests that were received (but ACK and CANCEL) are those that were answered, once each, together with those that wait in the table of suspended requests. The table
  and the suspend objects keep their invariant. With exceptions this is not so: \<open>redirect_exception_answers_twice\<close> below.\<close>

theorem redirect_answered_once:
  assumes "run_ok env domain evs"
  shows "returns (run_events env (redirect_initialize domain port configured p) evs) (\<lambda>s.
           sum_list (map received evs) = mset (answers (log s)) + due (pending s) \<and> server_inv None s \<and> idle s)"
  by (rule returns_mono [OF run_ok_server [OF assms, of port configured p]]) (auto simp: accounted_def server_ok_def)

theorem redirect_answered_once_witness:
  "returns (run_events sample_env (sample_server 1) [PHONE_APP (sample_request ''INVITE'')]) (\<lambda>s.
     {#sample_request ''INVITE''#} = mset (answers (log s)) + due (pending s) \<and> server_inv None s \<and> idle s)"
  using redirect_answered_once [OF sample_run_ok, of PORT_DEFAULT "[(True, Some 0), (True, Some 10)]" "1 :: nat"]
  by (simp add: sample_kinds sample_methods due_def)

text \<open>C5. A CANCEL request ends the suspended INVITE requests it is for, and no other: each is answered with 487 once, and is taken out of
  the table.\<close>

theorem redirect_cancel:
  assumes "run_ok env domain evs" and "run_events env (redirect_initialize domain port configured p) evs = Some s" and "isCancel m"
  shows "returns (handleMessage env s (PHONE_APP m)) (\<lambda>(s', h). h
           \<and> pending s' = filter_mset (\<lambda>k. \<not> isInviteFor (url_parts env) k m) (pending s)
           \<and> (\<exists>ms. mset ms = filter_mset (\<lambda>k. isInviteFor (url_parts env) k m) (pending s)
                \<and> responses (log s') = responses (log s) @ map (\<lambda>k. setResponseData k 487 ''Request Terminated'') ms))"
proof -
  have eq: "handle_request env s m = walk_table (cancel_visit env m) s" using assms(3) by (simp add: handle_request_def isCancel_def Let_def)
  show ?thesis unfolding handleMessage.simps eq
    by (rule returns_bind [OF cancel_ok [OF reached_ok [OF assms(1,2)], of m]]) auto
qed

theorem redirect_cancel_witness:
  "\<exists>s. run_events sample_env (sample_server 1) [PHONE_APP (sample_request ''INVITE'')] = Some s
     \<and> returns (handleMessage sample_env s (PHONE_APP (sample_request ''CANCEL''))) (\<lambda>(s', h). h
         \<and> pending s' = filter_mset (\<lambda>k. \<not> isInviteFor sample_url k (sample_request ''CANCEL'')) (pending s))"
proof -
  obtain s where s: "run_events sample_env (sample_server 1) [PHONE_APP (sample_request ''INVITE'')] = Some s"
    using sample_suspended by (auto simp: returns_iff)
  have "url_parts sample_env = sample_url" by (simp add: sample_env_def)
  then show ?thesis
    using redirect_cancel [OF sample_run_ok s sample_kinds(2)] s by (auto simp: returns_iff)
qed

text \<open>C6. When the last plug-in a suspended request waits for resumes it, and the plug-ins do not ask for it to be suspended again, the request
  is answered (or, an ACK, forwarded or dropped), exactly once, and no longer waits.\<close>

theorem redirect_resume:
  assumes "run_ok env domain evs" and "run_events env (redirect_initialize domain port configured p) evs = Some s"
    and "findValue object_hash object_isEqual (mSuspendList s) (seq_key n) = Some (Obj a)" and "suspends s a = Some so"
    and "mSuspendCount so = 1" and "i < length (mpConfiguredRedirectors s)" and "suspended (mRedirectors so ! i)"
    and "calm env (mMessage so) (plugins s)"
  shows "returns (handleMessage env s (REDIRECT_RESTART n (int i))) (\<lambda>(s', h). h
           \<and> add_mset (mMessage so) (pending s') = pending s \<and> answers (log s') = answers (log s) @ answer_of (mMessage so))"
proof -
  note ok = server_ok_parts [OF reached_ok [OF assms(1,2)]]
  obtain q where q: "q \<in># entries_of s" "pdata q = seq_key n" "pvalue q = Obj a"
    using find_suspended [OF ok(1), of n] assms(3) by auto
  note w = waiting_request [OF ok(1) q(1,3) assms(4)]
  obtain s1 where s1: "update_suspend s a (taken_back i) = Some s1" "s1 = s\<lparr>suspends := (suspends s)(a \<mapsto> taken_back i so)\<rparr>"
    "loop_core (mMessage so) n (pending s - {#mMessage so#}) (length evs) 0 s1 (Some a) False"
    using taken_back_ok [OF ok(1,2) q assms(4,6,7) ok(3)] assms(5) by (auto simp: returns_iff)
  have resume: "handle_resume env s n (int i) =
      processRedirect env s1 (mMessage so) (getRequestMethod (mMessage so)) n (Some a) \<bind> (\<lambda>(s2, e). Some (s2, e, e = None))"
    using assms(3-7) w(2) s1(1) by (simp add: handle_resume_def element_at_def suspend_ok_def taken_back_def [abs_def])
  have B: "length evs < 2 ^ 32" using assms(1) by (simp add: run_ok_def)
  have settled: "returns (processRedirect env s1 (mMessage so) (getRequestMethod (mMessage so)) n (Some a))
      (\<lambda>(s', e). e = None \<and> settled env (mMessage so) s1 (pending s - {#mMessage so#}) (length evs) s')"
    by (rule processRedirect_ok [OF _ _ _ B s1(3)]) (use ok w(1) in \<open>auto simp: s1(2)\<close>)
  have "returns (handle_resume env s n (int i)) (\<lambda>(s', e, h). h \<and> add_mset (mMessage so) (pending s') = pending s
          \<and> answers (log s') = answers (log s) @ answer_of (mMessage so))"
    unfolding resume by (rule returns_bind [OF settled]) (use assms(8) w(1) s1(2) in \<open>auto simp: settled_def\<close>)
  then show ?thesis unfolding handleMessage.simps by (rule returns_bind) auto
qed

theorem redirect_resume_witness:
  "\<exists>s. run_events sample_env (sample_server 1) [PHONE_APP (sample_request ''INVITE'')] = Some s
     \<and> returns (handleMessage sample_env s (REDIRECT_RESTART 0 0)) (\<lambda>(s', h). h \<and> answers (log s') = [sample_request ''INVITE''])"
proof -
  obtain s so where s: "run_events sample_env (sample_server 1) [PHONE_APP (sample_request ''INVITE'')] = Some s"
    "findValue object_hash object_isEqual (mSuspendList s) (seq_key 0) = Some (Obj 0)" "suspends s 0 = Some so"
    "mSuspendCount so = 1" "map suspended (mRedirectors so) = [True, False]" "mMessage so = sample_request ''INVITE''" "plugins s = 0"
    "responses (log s) = []"
    using sample_suspended by (auto simp: returns_iff)
  have c: "config s = config (sample_server 1)" using run_ok_server [OF sample_run_ok, of PORT_DEFAULT "[(True, Some 0), (True, Some 10)]" "1 :: nat"] s(1) by simp
  then have len: "(0::nat) < length (mpConfiguredRedirectors s)" by (simp add: config_def redirect_initialize_def)
  have slot: "suspended (mRedirectors so ! 0)" using s(5) by (cases "mRedirectors so") auto
  have "calm sample_env (mMessage so) (plugins s)" using sample_calm s(7) by simp
  from redirect_resume [OF sample_run_ok s(1-4) len slot this] show ?thesis
    using s(1,6,8) by (simp add: answer_of_def sample_methods sample_kinds no_answers)
      (auto simp: returns_iff)
qed

text \<open>A resume message for a request that is not in the table, or for a plug-in that the request does not wait for, or that does not exist,
  changes nothing. (A request that was cancelled or answered is no longer in the table, and its number is not used again.)\<close>

theorem redirect_stale_resume:
  assumes "run_ok env domain evs" and "run_events env (redirect_initialize domain port configured p) evs = Some s"
    and "\<forall>a so. findValue object_hash object_isEqual (mSuspendList s) (seq_key n) = Some (Obj a) \<and> suspends s a = Some so
            \<and> 0 \<le> i \<and> i < int (length (mpConfiguredRedirectors s)) \<longrightarrow> \<not> suspended (mRedirectors so ! nat i)"
  shows "handleMessage env s (REDIRECT_RESTART n i) = Some (s, False)"
proof -
  note ok = server_ok_parts [OF reached_ok [OF assms(1,2)]]
  consider (none) "findValue object_hash object_isEqual (mSuspendList s) (seq_key n) = Some NULLV"
    | (found) a q so where "findValue object_hash object_isEqual (mSuspendList s) (seq_key n) = Some (Obj a)" "q \<in># entries_of s"
        "pvalue q = Obj a" "suspends s a = Some so"
    using find_suspended [OF ok(1), of n] by blast
  then show ?thesis
  proof cases
    case found
    then show ?thesis
      using assms(3) waiting_request(2) [OF ok(1) found(2-4)]
      by (auto simp: handle_resume_def element_at_def suspend_ok_def)
  qed (simp add: handle_resume_def)
qed

theorem redirect_stale_resume_witness:
  "\<exists>s. run_events sample_env (sample_server 1) [PHONE_APP (sample_request ''INVITE'')] = Some s
     \<and> handleMessage sample_env s (REDIRECT_RESTART 0 1) = Some (s, False)"
proof -
  obtain s so where s: "run_events sample_env (sample_server 1) [PHONE_APP (sample_request ''INVITE'')] = Some s"
    "findValue object_hash object_isEqual (mSuspendList s) (seq_key 0) = Some (Obj 0)" "suspends s 0 = Some so"
    "map suspended (mRedirectors so) = [True, False]"
    using sample_suspended by (auto simp: returns_iff)
  have "\<not> suspended (mRedirectors so ! 1)" using s(4) by (auto simp: map_eq_Cons_conv)
  then have "handleMessage sample_env s (REDIRECT_RESTART 0 1) = Some (s, False)"
    by (intro redirect_stale_resume [OF sample_run_ok s(1)]) (use s(2,3) in auto)
  then show ?thesis using s(1) by blast
qed

lemma finalize_fold:
  fixes env :: "('p, 'u) redirect_env"
  defines "f \<equiv> \<lambda>i s. logged (s\<lparr>plugins := env_finalize env i (plugins s)\<rparr>) (Finalized i)"
  shows "\<exists>p. fold f is s = s\<lparr>plugins := p, log := log s @ map Finalized is\<rparr>"
proof (induction "is" arbitrary: s)
  case Nil
  show ?case by (intro exI [of _ "plugins s"]) simp
next
  case (Cons i "is")
  show ?case using Cons.IH [of "f i s"] by (auto simp: f_def logged_def)
qed

lemma responses_finalized [simp]: "responses (map Finalized is) = []"
  by (simp add: responses_def)

lemma shutdown_ok:
  assumes ok: "server_ok env B s"
  shows "returns (handle_shutdown env s) (\<lambda>(s', e). e = None \<and> \<not> running s' \<and> hm_pairs (mSuspendList s') = [] \<and> suspends s' = Map.empty
           \<and> responses (log s') = responses (log s) \<and> (\<exists>l. log s' = l @ map Finalized [0..<length (mpConfiguredRedirectors s)]))"
proof -
  note s = server_ok_parts [OF ok]
  show ?thesis
    unfolding handle_shutdown_def
  proof (rule returns_bind [OF closing.walk_table_ok [OF s(4,1,2)]], goal_cases)
    case (1 x)
    then obtain s1 where x: "x = (s1, None)" and s1: "server_inv None s1" "config s1 = config s" "pending s1 = {#}" "responses (log s1) = responses (log s)"
      by (cases x) (auto simp: same_setup_def)
    have "hm_pairs (mSuspendList s1) = []" using s1(3) by (simp add: pending_def pending_of_def)
    moreover from this have "suspends s1 = Map.empty" using s1(1) by (simp add: server_inv_def entries_ok_def)
    moreover obtain q where "fold (\<lambda>i s. logged (s\<lparr>plugins := env_finalize env i (plugins s)\<rparr>) (Finalized i))
        [0..<length (mpConfiguredRedirectors s1)] s1 = s1\<lparr>plugins := q, log := log s1 @ map Finalized [0..<length (mpConfiguredRedirectors s1)]\<rparr>"
      using finalize_fold [of env] by blast
    ultimately show ?case using s1(4) config_redirectors [OF s1(2)] by (simp add: x)
  qed
qed

text \<open>At the shutdown every suspended request is given up without a response: the table and the suspend objects are gone, and the
  plug-ins are finalized, in their order.\<close>

theorem redirect_shutdown:
  assumes "run_ok env domain evs" and "run_events env (redirect_initialize domain port configured p) evs = Some s"
  shows "returns (handleMessage env s OS_SHUTDOWN) (\<lambda>(s', h). h \<and> \<not> running s' \<and> hm_pairs (mSuspendList s') = [] \<and> suspends s' = Map.empty
           \<and> responses (log s') = responses (log s) \<and> (\<exists>l. log s' = l @ map Finalized [0..<length (mpConfiguredRedirectors s)]))"
  unfolding handleMessage.simps by (rule returns_bind [OF shutdown_ok [OF reached_ok [OF assms]]]) auto

theorem redirect_shutdown_witness:
  "\<exists>s. run_events sample_env (sample_server 1) [PHONE_APP (sample_request ''INVITE'')] = Some s
     \<and> returns (handleMessage sample_env s OS_SHUTDOWN) (\<lambda>(s', h). h \<and> suspends s' = Map.empty \<and> responses (log s') = [])"
proof -
  obtain s where s: "run_events sample_env (sample_server 1) [PHONE_APP (sample_request ''INVITE'')] = Some s" "responses (log s) = []"
    using sample_suspended by (auto simp: returns_iff)
  show ?thesis using redirect_shutdown [OF sample_run_ok s(1)] s by (auto simp: returns_iff)
qed

definition throwing_env :: "(nat, string) redirect_env" where
  "throwing_env = sample_env\<lparr>env_lookUp := (\<lambda>i p m su ru meth cl sq st ed.
     if i = 0 \<or> p \<noteq> 1 then (if i = 0 then p - 1 else p, Inr (sample_lookUp i p su ru)) else (0, Inl StdException))\<rparr>"

text \<open>An exception of a plug-in after another one has asked for the request to be suspended: the request is answered with 503, but its
  suspend object stays in the table, and when the other plug-in resumes it, it is answered again.\<close>

theorem redirect_exception_answers_twice:
  "returns (run_events throwing_env (sample_server 2) [PHONE_APP (sample_request ''INVITE''), REDIRECT_RESTART 0 0])
     (\<lambda>s. answers (log s) = [sample_request ''INVITE'', sample_request ''INVITE'']
        \<and> map (mFirstHeaderLine \<circ> res_message) (responses (log s)) =
            [''SIP/2.0 503 Registry - Standard Library Exception'', ''SIP/2.0 302 Moved Temporarily''])"
  by code_simp

end
