(* ===== verification/RedirectResponse.thy ===== *)
theory RedirectResponse
  imports RedirectEvents
begin

text \<open>
  What the redirect server of theory \<open>SipRedirectServer\<close> answers: the fields of a redirection and of
  an error response, and which plug-ins may give the contacts of a redirection, by their
  authority levels.
\<close>

section \<open>Redirections\<close>

lemma setResponseData_simps [simp]:
  "res_request (setResponseData request code reason) = request" "res_sipfrag (setResponseData request code reason) = False"
  "header_values (res_message (setResponseData request code reason)) name = []"
  by (simp_all add: setResponseData_def setResponseFirstHeaderLine_def setFirstHeaderLine_def header_values_def)

lemma first_line_kept [simp]:
  "mFirstHeaderLine (setHeaderValue m n v i) = mFirstHeaderLine m" "mFirstHeaderLine (addHeaderField m n v) = mFirstHeaderLine m"
  by (simp_all add: setHeaderValue_def addHeaderField_def split: option.splits)

text \<open>C11. A redirection has the contacts of the contact list, in their order, as its Contact fields, and the diversion header if there is one;
  without contacts the response is 404 and has neither.\<close>

theorem redirect_response_contacts:
  "header_values (res_message (redirectResponse request cl)) SIP_CONTACT_FIELD = map c_prefix (mContactList cl)
   \<and> header_values (res_message (redirectResponse request cl)) ''DIVERSION'' =
       (if mContactList cl = [] \<or> diversion cl = [] then [] else [c_prefix (diversion cl)])
   \<and> mFirstHeaderLine (res_message (redirectResponse request cl)) =
       (if mContactList cl = [] then ''SIP/2.0 404 Not Found'' else ''SIP/2.0 302 Moved Temporarily'')
   \<and> res_request (redirectResponse request cl) = request"
proof -
  let ?start = "res_message (setResponseData request 302 ''Moved Temporarily'')"
  let ?m = "fold (\<lambda>(index, contact) m. setHeaderValue m SIP_CONTACT_FIELD contact index) (enumerate 0 (mContactList cl)) ?start"
  have keys: "header_key ''DIVERSION'' \<noteq> header_key SIP_CONTACT_FIELD" by code_simp
  have d: "c_prefix (printf_d 302) = ''302''" "c_prefix (printf_d 404) = ''404''" "c_prefix SIP_PROTOCOL_VERSION = ''SIP/2.0''"
    "c_prefix ''Moved Temporarily'' = ''Moved Temporarily''" "c_prefix ''Not Found'' = ''Not Found''" by code_simp+
  have lines: "mFirstHeaderLine ?start = ''SIP/2.0 302 Moved Temporarily''"
    "mFirstHeaderLine (res_message (setResponseData request 404 ''Not Found'')) = ''SIP/2.0 404 Not Found''"
    by (simp_all only: setResponseData_def setResponseFirstHeaderLine_def setFirstHeaderLine_def d HEADER_LINE_PART_DELIMITER_def
        sip_response.simps http_message.simps append.simps)
  have "mFirstHeaderLine (fold (\<lambda>(index, contact) m. setHeaderValue m SIP_CONTACT_FIELD contact index) xs m) = mFirstHeaderLine m" for xs m
    by (induction xs arbitrary: m) auto
  then show ?thesis
    using keys lines http.put_list [of ?start SIP_CONTACT_FIELD "mContactList cl"]
      http.put_other [OF keys [symmetric], of "enumerate 0 (mContactList cl)" ?start]
    by (auto simp: redirectResponse_def contact_entries_def getDiversionHeader_def setContactField_def Let_def)
qed

section \<open>Error responses\<close>

definition response_fields :: "error_field list" where
  "response_fields = [Accept, AcceptEncoding, AcceptLanguage, Allow, Require, RetryAfter, Unsupported]"

definition put_field :: "error_spec \<Rightarrow> error_field \<Rightarrow> sip_response \<Rightarrow> sip_response" where
  "put_field es f r = (case es_fields es f of None \<Rightarrow> r | Some v \<Rightarrow> res_header r (field_name f) v)"

lemma put_field_other:
  "header_key (field_name f) \<noteq> header_key name \<Longrightarrow> header_values (res_message (put_field es f r)) name = header_values (res_message r) name"
  by (simp add: put_field_def res_header_def http.put_law split: option.splits)

lemma put_fields_first [simp]:
  "mFirstHeaderLine (res_message (fold (put_field es) fs r)) = mFirstHeaderLine (res_message r)"
  "res_request (fold (put_field es) fs r) = res_request r" "res_sipfrag (fold (put_field es) fs r) = res_sipfrag r"
  by (induction fs arbitrary: r) (auto simp: put_field_def res_header_def split: option.splits)

lemma put_fields_other:
  "list_all (\<lambda>f. header_key (field_name f) \<noteq> header_key name) fs \<Longrightarrow>
     header_values (res_message (fold (put_field es) fs r)) name = header_values (res_message r) name"
  by (induction fs arbitrary: r) (auto simp: put_field_other)

lemma header_key_fields: "header_key (field_name f) = header_key (field_name g) \<longleftrightarrow> f = g"
  by (cases f; cases g; simp; code_simp)

lemma header_key_warning: "header_key (field_name f) \<noteq> header_key SIP_WARNING_FIELD"
  by (cases f; simp; code_simp)

lemma put_fields_value:
  assumes "distinct fs" and "f \<in> set fs" and "header_values (res_message r) (field_name f) = []"
  shows "header_values (res_message (fold (put_field es) fs r)) (field_name f) =
           (case es_fields es f of None \<Rightarrow> [] | Some v \<Rightarrow> [c_prefix v])"
  using assms
proof (induction fs arbitrary: r)
  case (Cons g fs)
  show ?case
  proof (cases "f = g")
    case True
    then have "list_all (\<lambda>h. header_key (field_name h) \<noteq> header_key (field_name f)) fs"
      using Cons.prems(1) by (auto simp: list_all_iff header_key_fields)
    then have "header_values (res_message (fold (put_field es) (g # fs) r)) (field_name f) = header_values (res_message (put_field es g r)) (field_name f)"
      by (simp add: put_fields_other)
    also have "\<dots> = (case es_fields es f of None \<Rightarrow> [] | Some v \<Rightarrow> [c_prefix v])"
      using True Cons.prems(3) by (simp add: put_field_def res_header_def http.put_law split: option.splits)
    finally show ?thesis .
  next
    case False
    then show ?thesis using Cons.IH [of "put_field es g r"] Cons.prems by (simp add: put_field_other header_key_fields)
  qed
qed simp

definition put_warning :: "string \<Rightarrow> error_spec \<Rightarrow> sip_response \<Rightarrow> sip_response" where
  "put_warning domain es r =
     (case es_warning es of None \<Rightarrow> r | Some (c, t) \<Rightarrow> res_header r SIP_WARNING_FIELD (warning_text c domain t))"

lemma buildResponse_spec:
  assumes ok: "error_ok d" and dom: "nul_free domain" and w: "warning_printable domain (error_abs d)"
  defines "es \<equiv> error_abs d"
  shows "buildResponseFromRequestAndErrorDescriptor domain request d =
           Some (fold (put_field es) response_fields
             ((put_warning domain es (setResponseData request (fst (es_status es)) (snd (es_status es))))\<lparr>res_sipfrag := es_append es\<rparr>))"
proof -
  have f: "getAcceptFieldValue d = Some (es_fields es Accept)" "getAcceptEncodingFieldValue d = Some (es_fields es AcceptEncoding)"
    "getAcceptLanguageFieldValue d = Some (es_fields es AcceptLanguage)" "getAllowFieldValue d = Some (es_fields es Allow)"
    "getRequireFieldValue d = Some (es_fields es Require)" "getRetryAfterFieldValue d = Some (es_fields es RetryAfter)"
    "getUnsupportedFieldValue d = Some (es_fields es Unsupported)"
    using error_ok_field [OF ok, of Accept] error_ok_field [OF ok, of AcceptEncoding] error_ok_field [OF ok, of AcceptLanguage]
      error_ok_field [OF ok, of Allow] error_ok_field [OF ok, of Require] error_ok_field [OF ok, of RetryAfter]
      error_ok_field [OF ok, of Unsupported] by (simp_all add: es_def)
  have g: "getStatusLineData d = es_status es" "getWarningData d = es_warning es" "shouldRequestBeAppendedToResponse d = es_append es"
    by (simp_all add: es_def error_abs_def)
  have warn: "setWarningField m c domain t = Some (setHeaderValue m SIP_WARNING_FIELD (warning_text c domain t) 0)" if "es_warning es = Some (c, t)" for m c t
    using warning_defined [OF ok dom w] g(2) that by simp
  have put: "optional_header (field_name h) (Some (es_fields es h)) r = Some (put_field es h r)" for h r
    by (simp add: optional_header_def put_field_def)
  have frag: "(if es_append es then r\<lparr>res_sipfrag := True\<rparr> else r) = r\<lparr>res_sipfrag := es_append es\<rparr>" if "\<not> res_sipfrag r" for r
    using that by simp
  have keep: "res_sipfrag (put_warning domain es (setResponseData request c t)) = False" for c t
    by (simp add: put_warning_def res_header_def split: option.splits)
  have first: "(case es_warning es of None \<Rightarrow> Some r0 | Some (c, t) \<Rightarrow> map_option (\<lambda>m. r0\<lparr>res_message := m\<rparr>) (setWarningField (res_message r0) c domain t))
      = Some (put_warning domain es r0)" for r0
    by (auto simp: put_warning_def res_header_def warn split: option.splits)
  show ?thesis
    unfolding buildResponseFromRequestAndErrorDescriptor_def g f first
    using put [of Accept] put [of AcceptEncoding] put [of AcceptLanguage] put [of Allow] put [of Require] put [of RetryAfter] put [of Unsupported]
    by (simp add: Let_def case_prod_beta frag keep response_fields_def)
qed

text \<open>C12. The error response that the plug-ins' calls on the error descriptor lead to: the status line, the warning with the server's domain, each
  optional field that was set, with its last value, and no other, and whether the request is appended are as the calls ask for.\<close>

theorem redirect_error_response:
  assumes "nul_free domain" and "list_all (warning_ok domain) ops"
  shows "returns (run_error_ops ops ErrorDescriptor_new \<bind> buildResponseFromRequestAndErrorDescriptor domain request) (\<lambda>r.
           let es = fold spec_step ops error_spec_new in
           mFirstHeaderLine (res_message r) = ''SIP/2.0 '' @ printf_d (fst (es_status es)) @ '' '' @ c_prefix (snd (es_status es))
           \<and> (\<forall>f. header_values (res_message r) (field_name f) = (case es_fields es f of None \<Rightarrow> [] | Some v \<Rightarrow> [c_prefix v]))
           \<and> header_values (res_message r) SIP_WARNING_FIELD =
               (case es_warning es of None \<Rightarrow> [] | Some (c, t) \<Rightarrow> [c_prefix (warning_text c domain t)])
           \<and> res_sipfrag r = es_append es \<and> res_request r = request)"
proof (rule returns_bind [OF run_error_ops_ok [OF ErrorDescriptor_new_ok(1), of ops]], elim conjE)
  fix d
  let ?es = "fold spec_step ops error_spec_new"
  assume d: "error_ok d" "error_abs d = fold spec_step ops (error_abs ErrorDescriptor_new)"
  then have es: "error_abs d = ?es" by (simp add: ErrorDescriptor_new_ok(2))
  have "warning_printable domain (error_abs d)"
    unfolding es by (rule warnings_printable [OF _ assms(2)]) (simp add: warning_printable_def error_spec_new_def)
  note build = buildResponse_spec [OF d(1) assms(1) this, unfolded es]
  let ?r0 = "setResponseData request (fst (es_status ?es)) (snd (es_status ?es))"
  let ?r1 = "(put_warning domain ?es ?r0)\<lparr>res_sipfrag := es_append ?es\<rparr>"
  have line: "mFirstHeaderLine (res_message ?r1) = ''SIP/2.0 '' @ printf_d (fst (es_status ?es)) @ '' '' @ c_prefix (snd (es_status ?es))"
  proof -
    have "c_prefix SIP_PROTOCOL_VERSION = ''SIP/2.0''" by code_simp
    moreover have "c_prefix (printf_d k) = printf_d k" for k using printf_d_ok [of k] by simp
    ultimately show ?thesis
      by (simp add: put_warning_def res_header_def setResponseData_def setResponseFirstHeaderLine_def setFirstHeaderLine_def
          HEADER_LINE_PART_DELIMITER_def split: option.splits)
  qed
  have fields: "distinct response_fields" "f \<in> set response_fields" for f by (cases f; simp add: response_fields_def)+
  have none: "header_values (res_message ?r1) (field_name f) = []" for f
    using header_key_warning [of f] by (auto simp: put_warning_def res_header_def http.put_law split: option.splits)
  have warn: "header_values (res_message ?r1) SIP_WARNING_FIELD = (case es_warning ?es of None \<Rightarrow> [] | Some (c, t) \<Rightarrow> [c_prefix (warning_text c domain t)])"
    by (simp add: put_warning_def res_header_def http.put_law split: option.splits)
  have other: "list_all (\<lambda>f. header_key (field_name f) \<noteq> header_key SIP_WARNING_FIELD) response_fields"
    by (simp add: list_all_iff header_key_warning)
  have req: "res_request ?r1 = request" by (simp add: put_warning_def res_header_def split: option.splits)
  show "returns (buildResponseFromRequestAndErrorDescriptor domain request d) (\<lambda>r.
           let es = fold spec_step ops error_spec_new in
           mFirstHeaderLine (res_message r) = ''SIP/2.0 '' @ printf_d (fst (es_status es)) @ '' '' @ c_prefix (snd (es_status es))
           \<and> (\<forall>f. header_values (res_message r) (field_name f) = (case es_fields es f of None \<Rightarrow> [] | Some v \<Rightarrow> [c_prefix v]))
           \<and> header_values (res_message r) SIP_WARNING_FIELD =
               (case es_warning es of None \<Rightarrow> [] | Some (c, t) \<Rightarrow> [c_prefix (warning_text c domain t)])
           \<and> res_sipfrag r = es_append es \<and> res_request r = request)"
    unfolding build returns_simps Let_def
    using line warn req put_fields_other [OF other] put_fields_value [OF fields none] by simp
qed

theorem redirect_error_response_witness:
  "returns (run_error_ops [Error_StatusLine 404 ''No Such User'', Error_Warning 399 ''unknown'', Error_Field RetryAfter ''60''] ErrorDescriptor_new
       \<bind> buildResponseFromRequestAndErrorDescriptor ''example.com'' blank_message)
     (\<lambda>r. header_values (res_message r) SIP_RETRY_AFTER_FIELD = [''60''] \<and> header_values (res_message r) SIP_ALLOW_FIELD = [])"
proof -
  let ?ops = "[Error_StatusLine 404 ''No Such User'', Error_Warning 399 ''unknown'', Error_Field RetryAfter ''60'']"
  have h: "nul_free ''example.com''" "list_all (warning_ok ''example.com'') ?ops" "c_prefix ''60'' = ''60''" by code_simp+
  have es: "es_fields (fold spec_step ?ops error_spec_new) = [RetryAfter \<mapsto> ''60'']" by (simp add: error_spec_new_def)
  show ?thesis
  proof (rule returns_mono [OF redirect_error_response [OF h(1,2), of blank_message]], goal_cases)
    case (1 r)
    then have f: "header_values (res_message r) (field_name g) = (case ([RetryAfter \<mapsto> ''60''] :: error_field \<Rightarrow> string option) g of
        None \<Rightarrow> [] | Some v \<Rightarrow> [c_prefix v])" for g unfolding Let_def es by blast
    have "CHR ''6'' \<noteq> NUL" "CHR ''0'' \<noteq> NUL" by code_simp+
    then show ?case using f [of RetryAfter] f [of Allow] by simp
  qed
qed

section \<open>Authority levels\<close>

lemma suspend_steps:
  "ensure_suspend s so needed message seqNo = Some (s', so') \<Longrightarrow>
     mpConfiguredRedirectors s' = mpConfiguredRedirectors s \<and> log s' = log s"
  "store_private s so i st = Some s' \<Longrightarrow> mpConfiguredRedirectors s' = mpConfiguredRedirectors s \<and> log s' = log s"
  "mark_suspended s so i = Some s' \<Longrightarrow> mpConfiguredRedirectors s' = mpConfiguredRedirectors s \<and> log s' = log s"
  by (auto simp: ensure_suspend_def new_suspend_def store_private_def mark_suspended_def update_suspend_def
      split: if_splits option.splits bind_splits)

text \<open>What the round for plug-in \<open>i\<close> may do to the contacts and their level: a plug-in below the level is only shown them.\<close>

definition authorized :: "32 word \<Rightarrow> nat list \<Rightarrow> ('p, 'u) loop_state \<Rightarrow> ('p, 'u) loop_state \<Rightarrow> bool" where
  "authorized seqNo is ls ls' \<longleftrightarrow>
     (let ds = mpConfiguredRedirectors (ls_server ls) in
      mpConfiguredRedirectors (ls_server ls') = ds \<and> contactListAuthorityLevel ls \<le> contactListAuthorityLevel ls'
      \<and> (\<exists>l. log (ls_server ls') = log (ls_server ls) @ l
           \<and> (\<forall>e \<in> set l. \<exists>i \<in> set is. i < length ds \<and> bActive (ds ! i) \<and>
                (e = LookedUp i seqNo \<and> contactListAuthorityLevel ls \<le> authorityLevel (ds ! i) \<or> e = Observed i seqNo))
           \<and> ((\<forall>i. LookedUp i seqNo \<notin> set l) \<longrightarrow> contactList ls' = contactList ls)))"

lemma authorized_refl [simp]: "authorized seqNo is ls ls"
  by (simp add: authorized_def)

lemma authorized_trans:
  assumes one: "authorized seqNo [i] ls ls1" and two: "authorized seqNo is ls1 ls2"
  shows "authorized seqNo (i # is) ls ls2"
proof -
  let ?ds = "mpConfiguredRedirectors (ls_server ls)"
  obtain l where l: "log (ls_server ls1) = log (ls_server ls) @ l" "mpConfiguredRedirectors (ls_server ls1) = ?ds"
    "contactListAuthorityLevel ls \<le> contactListAuthorityLevel ls1" "(\<forall>i. LookedUp i seqNo \<notin> set l) \<longrightarrow> contactList ls1 = contactList ls"
    "\<forall>e \<in> set l. i < length ?ds \<and> bActive (?ds ! i) \<and> (e = LookedUp i seqNo \<and> contactListAuthorityLevel ls \<le> authorityLevel (?ds ! i) \<or> e = Observed i seqNo)"
    using one by (auto simp: authorized_def Let_def)
  obtain k where k: "log (ls_server ls2) = log (ls_server ls1) @ k" "mpConfiguredRedirectors (ls_server ls2) = ?ds"
    "contactListAuthorityLevel ls1 \<le> contactListAuthorityLevel ls2" "(\<forall>i. LookedUp i seqNo \<notin> set k) \<longrightarrow> contactList ls2 = contactList ls1"
    "\<forall>e \<in> set k. \<exists>i \<in> set is. i < length ?ds \<and> bActive (?ds ! i) \<and>
       (e = LookedUp i seqNo \<and> contactListAuthorityLevel ls1 \<le> authorityLevel (?ds ! i) \<or> e = Observed i seqNo)"
    using two by (auto simp: authorized_def Let_def l(2))
  have "\<exists>j \<in> set (i # is). j < length ?ds \<and> bActive (?ds ! j) \<and>
       (e = LookedUp j seqNo \<and> contactListAuthorityLevel ls \<le> authorityLevel (?ds ! j) \<or> e = Observed j seqNo)"
    if "e \<in> set (l @ k)" for e
    using that l(3,5) k(5) by (fastforce dest: order_trans)
  then show ?thesis
    unfolding authorized_def Let_def using l k by (intro conjI exI [of _ "l @ k"]) auto
qed

lemma lookup_one_authorized:
  assumes "lookup_one env message method seqNo i ls = Some (ls', e)"
  shows "authorized seqNo [i] ls ls'"
  using assms
  by (auto simp: lookup_one_def Let_def element_at_def authorized_def logged_def dest!: suspend_steps
      split: if_splits option.splits bind_splits prod.splits sum.splits LookUpStatus.splits)

lemma redirect_loop_authorized:
  "redirect_loop env message method seqNo is ls = Some (ls', e) \<Longrightarrow> authorized seqNo is ls ls'"
proof (induction "is" arbitrary: ls)
  case (Cons i "is")
  show ?case
  proof (cases "willError ls")
    case False
    then obtain ls1 e1 where one: "lookup_one env message method seqNo i ls = Some (ls1, e1)"
      using Cons.prems by (auto split: bind_splits)
    then have rest: "authorized seqNo is ls1 ls'"
      using Cons.IH [of ls1] Cons.prems False by (auto split: option.splits)
    show ?thesis using authorized_trans [OF lookup_one_authorized [OF one] rest] .
  qed (use Cons.prems in simp)
qed simp

text \<open>C10. Authority: from any round on, only active plug-ins whose authority is at least the level that the contact list has there are asked; the others
  are shown the contacts and cannot change them, the level never falls, and if nobody is asked the contacts stay as they are.\<close>

theorem redirect_authority:
  assumes "redirect_loop env message method seqNo is ls = Some (ls', e)"
  shows "\<exists>l. log (ls_server ls') = log (ls_server ls) @ l
           \<and> (\<forall>i n. LookedUp i n \<in> set l \<longrightarrow> n = seqNo \<and> i \<in> set is \<and> i < length (mpConfiguredRedirectors (ls_server ls))
                \<and> bActive (mpConfiguredRedirectors (ls_server ls) ! i)
                \<and> contactListAuthorityLevel ls \<le> authorityLevel (mpConfiguredRedirectors (ls_server ls) ! i))
           \<and> ((\<forall>i. LookedUp i seqNo \<notin> set l) \<longrightarrow> contactList ls' = contactList ls)
           \<and> contactListAuthorityLevel ls \<le> contactListAuthorityLevel ls'"
proof -
  obtain l where "log (ls_server ls') = log (ls_server ls) @ l" "contactListAuthorityLevel ls \<le> contactListAuthorityLevel ls'"
    "(\<forall>i. LookedUp i seqNo \<notin> set l) \<longrightarrow> contactList ls' = contactList ls"
    "\<forall>e \<in> set l. \<exists>i \<in> set is. i < length (mpConfiguredRedirectors (ls_server ls)) \<and> bActive (mpConfiguredRedirectors (ls_server ls) ! i)
       \<and> (e = LookedUp i seqNo \<and> contactListAuthorityLevel ls \<le> authorityLevel (mpConfiguredRedirectors (ls_server ls) ! i) \<or> e = Observed i seqNo)"
    using redirect_loop_authorized [OF assms] by (auto simp: authorized_def Let_def)
  then show ?thesis by (intro exI [of _ l] conjI) fastforce+
qed

definition sample_round :: "(nat, string) loop_state" where
  "sample_round = \<lparr>ls_server = sample_server 0, ls_suspend = None, willSuspend = False, willError = False, contactListAuthorityLevel = 5,
     contactList = ContactList_new ''sip:bob@x'', errorDescriptor = ErrorDescriptor_new, stringUri = ''sip:bob@x'', requestUri = ''sip:bob@x''\<rparr>"

theorem redirect_authority_witness:
  "returns (redirect_loop sample_env blank_message ''INVITE'' 0 [0, 1] sample_round) (\<lambda>(ls', e).
     log (ls_server ls') = [Observed 0 0, LookedUp 1 0] \<and> 5 \<le> contactListAuthorityLevel ls')"
proof -
  have run: "returns (redirect_loop sample_env blank_message ''INVITE'' 0 [0, 1] sample_round) (\<lambda>(ls', e).
     log (ls_server ls') = [Observed 0 0, LookedUp 1 0])" by code_simp
  have "contactListAuthorityLevel sample_round = 5" by (simp add: sample_round_def)
  then show ?thesis
    using run redirect_authority [of sample_env blank_message "''INVITE''" 0 "[0, 1]" sample_round] by (auto simp: returns_iff)
qed

end
