(* ===== verification/UtlHashBag.thy ===== *)
theory UtlHashBag
  imports UtlHashMap
begin

text \<open>
  The hash bag (\<^verbatim>\<open>sipXportLib/src/utl/UtlHashBag.cpp\<close>): the table of theory \<open>UtlHashMap\<close> without values and without
  regard to objects that are equal, so that it holds a multiset. Its buckets are in ascending order of
  the hash codes, and a new object comes before those with the same code. The functions that
  compute the bucket number, the new number of buckets and move the contents are the same in both sources
  and are shared; a link is a pair whose value is NULL. Objects are identified by their contents,
  so the operations that compare addresses (\<open>removeReference\<close>, \<open>findReference\<close>) and the iterators of the
  bag are not modelled.
\<close>

section \<open>Operations\<close>

type_synonym 'k bag = "('k, unit) hmap"

definition HASHBAG_INITIAL_BUCKET_BITS :: nat where
  "HASHBAG_INITIAL_BUCKET_BITS = 4"

definition UtlHashBag_new :: "'k bag" where
  "UtlHashBag_new =
     \<lparr>mElements = 0, mBucketBits = HASHBAG_INITIAL_BUCKET_BITS,
      mpBucket = replicate (NUM_HASHMAP_BUCKETS HASHBAG_INITIAL_BUCKET_BITS) [], mIteratorList = [], pairPool = 0\<rparr>"

fun bag_place :: "('k, 'v) pair \<Rightarrow> ('k, 'v) pair list \<Rightarrow> ('k, 'v) pair list" where
  "bag_place link [] = [link]"
| "bag_place link (inBucket # rest) =
     (if phash inBucket < phash link then inBucket # bag_place link rest else link # inBucket # rest)"

text \<open>\<open>insert\<close> of a link into a bucket may resize; as for the table, the number bounds the depth of the recursion.\<close>

fun bag_insert_link :: "nat \<Rightarrow> ('k, 'v) hmap \<Rightarrow> ('k, 'v) pair \<Rightarrow> nat \<Rightarrow> ('k, 'v) hmap option" where
  "bag_insert_link 0 m link b = None"
| "bag_insert_link (Suc depth) m link b = do {
     bucket \<leftarrow> bucket_at m b;
     resizeIfNeededAndSafe (bag_insert_link depth) (m\<lparr>mpBucket := (mpBucket m)[b := bag_place link bucket]\<rparr>) }"

declare bag_insert_link.simps [simp del]

definition bag_insert :: "('k \<Rightarrow> 32 word) \<Rightarrow> 'k bag \<Rightarrow> 'k option \<Rightarrow> ('k bag \<times> 'k option) option" where
  "bag_insert hsh m insertedContainable =
     (case insertedContainable of
        None \<Rightarrow> Some (m, None)
      | Some k \<Rightarrow> do {
          let link = \<lparr>pid = pairPool m, pdata = k, phash = hsh k, pvalue = NULLV\<rparr>;
          let m1 = m\<lparr>mElements := sz_add (mElements m) 1, pairPool := Suc (pairPool m)\<rparr>;
          b \<leftarrow> bucketNumber (mBucketBits m1) (phash link);
          m2 \<leftarrow> bag_insert_link INSERT_DEPTH m1 link b;
          Some (m2, Some k) })"

fun bag_lookup_loop :: "('k \<Rightarrow> 'k \<Rightarrow> bool) \<Rightarrow> 'k \<Rightarrow> 32 word \<Rightarrow> ('k, 'v) pair list \<Rightarrow> nat \<Rightarrow> nat option" where
  "bag_lookup_loop eq key keyHash [] i = None"
| "bag_lookup_loop eq key keyHash (check # rest) i =
     (if phash check \<le> keyHash then
        if phash check = keyHash \<and> eq (pdata check) key then Some i
        else bag_lookup_loop eq key keyHash rest (Suc i)
      else None)"

definition bag_lookup :: "('k \<Rightarrow> 32 word) \<Rightarrow> ('k \<Rightarrow> 'k \<Rightarrow> bool) \<Rightarrow> 'k bag \<Rightarrow> 'k \<Rightarrow> (nat \<times> nat option) option" where
  "bag_lookup hsh eq m key = do {
     b \<leftarrow> bucketNumber (mBucketBits m) (hsh key);
     bucket \<leftarrow> bucket_at m b;
     Some (b, bag_lookup_loop eq key (hsh key) bucket 0) }"

definition bag_find :: "('k \<Rightarrow> 32 word) \<Rightarrow> ('k \<Rightarrow> 'k \<Rightarrow> bool) \<Rightarrow> 'k bag \<Rightarrow> 'k \<Rightarrow> 'k option option" where
  "bag_find hsh eq m key = do {
     (b, found) \<leftarrow> bag_lookup hsh eq m key;
     bucket \<leftarrow> bucket_at m b;
     Some (map_option (\<lambda>i. pdata (bucket ! i)) found) }"

definition bag_contains :: "('k \<Rightarrow> 32 word) \<Rightarrow> ('k \<Rightarrow> 'k \<Rightarrow> bool) \<Rightarrow> 'k bag \<Rightarrow> 'k \<Rightarrow> bool option" where
  "bag_contains hsh eq m key = do { (b, found) \<leftarrow> bag_lookup hsh eq m key; Some (found \<noteq> None) }"

definition bag_remove :: "('k \<Rightarrow> 32 word) \<Rightarrow> ('k \<Rightarrow> 'k \<Rightarrow> bool) \<Rightarrow> 'k bag \<Rightarrow> 'k option \<Rightarrow> ('k bag \<times> 'k option) option" where
  "bag_remove hsh eq m object =
     (case object of
        None \<Rightarrow> Some (m, None)
      | Some k \<Rightarrow> do {
          (b, found) \<leftarrow> bag_lookup hsh eq m k;
          case found of
            None \<Rightarrow> Some (m, None)
          | Some i \<Rightarrow> do {
              bucket \<leftarrow> bucket_at m b;
              its \<leftarrow> notifyIteratorsOfRemove (mpBucket m) (mIteratorList m);
              Some (m\<lparr>mpBucket := (mpBucket m)[b := remove_nth i bucket], mIteratorList := its,
                      mElements := sz_sub (mElements m) 1\<rparr>, Some (pdata (bucket ! i))) } })"

definition bag_destroy :: "('k \<Rightarrow> 32 word) \<Rightarrow> ('k \<Rightarrow> 'k \<Rightarrow> bool) \<Rightarrow> 'k bag \<Rightarrow> 'k option \<Rightarrow> ('k bag \<times> bool) option" where
  "bag_destroy hsh eq m object = do { (m1, wasRemoved) \<leftarrow> bag_remove hsh eq m object; Some (m1, wasRemoved \<noteq> None) }"

definition bag_removeAll :: "'k bag \<Rightarrow> ('k bag \<times> 'k list) option" where
  "bag_removeAll m = do {
     (bs, its, ps) \<leftarrow> clear_buckets 0 (mElements m) (mpBucket m) (mIteratorList m);
     Some (m\<lparr>mpBucket := bs, mIteratorList := its, mElements := 0\<rparr>, map pdata ps) }"

definition bag_entries :: "'k bag \<Rightarrow> nat" where "bag_entries m = mElements m"

definition bag_isEmpty :: "'k bag \<Rightarrow> bool" where "bag_isEmpty m \<longleftrightarrow> mElements m = 0"

section \<open>The bag as a multiset\<close>

lemma mset_bag_place [simp]: "mset (bag_place p ps) = add_mset p (mset ps)"
  by (induction ps) auto

lemma set_bag_place [simp]: "set (bag_place p ps) = insert p (set ps)"
  by (induction ps) auto

lemma sorted_bag_place:
  "sorted_wrt (\<lambda>p q. phash p \<le> phash q) ps \<Longrightarrow> sorted_wrt (\<lambda>p q. phash p \<le> phash q) (bag_place p ps)"
  by (induction ps) (auto intro: order_trans simp: not_less)

interpretation hashbag: bucket_inserter "\<lambda>h k. h \<le> k" bag_place "bag_insert_link (Suc d)" for d
  by unfold_locales
     (auto intro: sorted_bag_place simp: bag_insert_link.simps bucket_at_def resizeIfNeededAndSafe_def NUM_HASHMAP_BUCKETS_def)

definition bag_ok :: "('k \<Rightarrow> 32 word) \<Rightarrow> 'k bag \<Rightarrow> bool" where
  "bag_ok hsh m \<longleftrightarrow> buckets_by (\<lambda>h k. h \<le> k) (mBucketBits m) (mpBucket m)
     \<and> (\<forall>p \<in> set (hm_pairs m). phash p = hsh (pdata p))
     \<and> mElements m = length (hm_pairs m) \<and> mElements m < SIZE_MOD"

definition bag_contents :: "'k bag \<Rightarrow> 'k multiset" where
  "bag_contents m = image_mset pdata (mset (hm_pairs m))"

lemma bag_new_ok: "bag_ok hsh UtlHashBag_new" "bag_contents UtlHashBag_new = {#}"
  using buckets_by_empty [of 4]
  by (auto simp: bag_ok_def bag_contents_def UtlHashBag_new_def HASHBAG_INITIAL_BUCKET_BITS_def NUM_HASHMAP_BUCKETS_def hm_pairs_def)

lemma bag_lookup_loop_Some:
  "bag_lookup_loop eq k h ps i = Some j \<Longrightarrow> i \<le> j \<and> j - i < length ps \<and> phash (ps ! (j - i)) = h \<and> eq (pdata (ps ! (j - i))) k"
proof (induction ps arbitrary: i)
  case (Cons p ps)
  show ?case
  proof (cases "phash p = h \<and> eq (pdata p) k")
    case False
    then have "bag_lookup_loop eq k h ps (Suc i) = Some j" using Cons.prems by (auto split: if_splits)
    from Cons.IH [OF this] have "Suc i \<le> j" "j - Suc i < length ps" "phash (ps ! (j - Suc i)) = h" "eq (pdata (ps ! (j - Suc i))) k" by auto
    moreover from this have "j - i = Suc (j - Suc i)" by simp
    ultimately show ?thesis by simp
  qed (use Cons.prems in auto)
qed simp

lemma bag_lookup_loop_None:
  assumes "sorted_wrt (\<lambda>p q. phash p \<le> phash q) ps" and "bag_lookup_loop eq k h ps i = None" and "p \<in> set ps"
  shows "\<not> (phash p = h \<and> eq (pdata p) k)"
  using assms
proof (induction ps arbitrary: i)
  case (Cons q ps)
  then show ?case by (cases "phash q \<le> h") (fastforce split: if_splits)+
qed simp

lemma bag_insert_ok:
  assumes m: "bag_ok hsh m" and room: "Suc (mElements m) < SIZE_MOD"
  shows "returns (bag_insert hsh m (Some k)) (\<lambda>(m', r). r = Some k \<and> bag_ok hsh m' \<and> mIteratorList m' = mIteratorList m
           \<and> bag_contents m' = add_mset k (bag_contents m))"
proof -
  let ?p = "\<lparr>pid = pairPool m, pdata = k, phash = hsh k, pvalue = NULLV\<rparr> :: ('a, unit) pair"
  let ?m = "m\<lparr>mElements := sz_add (mElements m) 1, pairPool := Suc (pairPool m)\<rparr>"
  have n: "sz_add (mElements m) 1 = Suc (mElements m)" using room by (simp add: sz_add_exact)
  have bs: "buckets_by (\<lambda>h k. h \<le> k) (mBucketBits m) (mpBucket m)" and len: "mElements m = length (hm_pairs m)"
    using m by (auto simp: bag_ok_def)
  obtain b where b: "bucketNumber (mBucketBits m) (hsh k) = Some b" "b < length (mpBucket m)"
    using bucketNumber_bound [of "mBucketBits m" "hsh k"] bs by (auto simp: buckets_by_def)
  have "returns (bag_insert_link INSERT_DEPTH ?m ?p b) (\<lambda>m'. rebuilt_by (\<lambda>h k. h \<le> k) ?m m' (add_mset ?p (mset (hm_pairs ?m))))"
    using hashbag.place_and_resize_ok [where d = 0 and m = ?m and p = ?p and b = b] bs b n room len
    by (simp add: INSERT_DEPTH_def numeral_2_eq_2 bag_insert_link.simps(2) [of "Suc 0"] bucket_at_def hm_pairs_def)
  then have "returns (bag_insert_link INSERT_DEPTH ?m ?p b \<bind> (\<lambda>m2. Some (m2, Some k)))
      (\<lambda>(m', r). r = Some k \<and> bag_ok hsh m' \<and> mIteratorList m' = mIteratorList m \<and> bag_contents m' = add_mset k (bag_contents m))"
  proof (rule returns_bind, goal_cases)
    case (1 m')
    then have pairs: "mset (hm_pairs m') = mset (?p # hm_pairs m)" by (auto simp: rebuilt_by_def hm_pairs_def)
    have "length (hm_pairs m') = Suc (mElements m)" "set (hm_pairs m') = insert ?p (set (hm_pairs m))"
      using arg_cong [OF pairs, of size] arg_cong [OF pairs, of set_mset] len by simp_all
    then show ?case using 1 room n m pairs by (auto simp: rebuilt_by_def bag_ok_def bag_contents_def)
  qed
  then show ?thesis using b by (simp add: bag_insert_def Let_def)
qed

context containable
begin

lemma bag_lookup_ok:
  assumes m: "bag_ok hash m" and k: "ok k" and all: "\<forall>x \<in># bag_contents m. ok x"
  shows "returns (bag_lookup hash eq m k) (\<lambda>(b, found). b < length (mpBucket m) \<and>
           (case found of
              None \<Rightarrow> \<not> (\<exists>x \<in># bag_contents m. eq x k)
            | Some i \<Rightarrow> i < length (mpBucket m ! b) \<and> eq (pdata (mpBucket m ! b ! i)) k))"
proof -
  have bs: "buckets_by (\<lambda>h k. h \<le> k) (mBucketBits m) (mpBucket m)" using m by (auto simp: bag_ok_def)
  obtain b where b: "bucketNumber (mBucketBits m) (hash k) = Some b" "b < length (mpBucket m)"
    using bucketNumber_bound [of "mBucketBits m" "hash k"] bs by (auto simp: buckets_by_def)
  have "\<not> eq x k" if none: "bag_lookup_loop eq k (hash k) (mpBucket m ! b) 0 = None" and x: "x \<in># bag_contents m" for x
  proof
    assume e: "eq x k"
    obtain p where p: "p \<in> set (hm_pairs m)" "x = pdata p" using x by (auto simp: bag_contents_def)
    have h: "phash p = hash k" using p m e k x all eq_hash by (auto simp: bag_ok_def)
    obtain c where c: "c < length (mpBucket m)" "p \<in> set (mpBucket m ! c)"
      using p by (auto simp: hm_pairs_def) (metis in_set_conv_nth)
    then have "bucketNumber (mBucketBits m) (phash p) = Some c" using bs unfolding buckets_by_def by blast
    then show False
      using bag_lookup_loop_None [OF _ none] b c bs h e p(2) by (auto simp: buckets_by_def)
  qed
  then show ?thesis
    using b bag_lookup_loop_Some [of eq k "hash k" "mpBucket m ! b" 0]
    by (auto simp: bag_lookup_def bucket_at_def split: option.splits)
qed

lemma bag_find_ok:
  assumes "bag_ok hash m" and "ok k" and "\<forall>x \<in># bag_contents m. ok x"
  shows "returns (bag_find hash eq m k) (\<lambda>r. case r of
           None \<Rightarrow> \<not> (\<exists>x \<in># bag_contents m. eq x k) | Some x \<Rightarrow> x \<in># bag_contents m \<and> eq x k)"
  unfolding bag_find_def
proof (rule returns_bind [OF bag_lookup_ok [OF assms]], goal_cases)
  case (1 x)
  obtain b found where x: "x = (b, found)" by (cases x)
  have "mpBucket m ! b ! i \<in> set (hm_pairs m)" if "b < length (mpBucket m)" "i < length (mpBucket m ! b)" for i
    using that by (auto simp: hm_pairs_def intro!: bexI [of _ "mpBucket m ! b"])
  then show ?case using 1 by (auto simp: x bucket_at_def bag_contents_def split: option.splits)
qed

lemma bag_remove_ok:
  assumes m: "bag_ok hash m" and k: "ok k" and all: "\<forall>x \<in># bag_contents m. ok x" and its: "mIteratorList m = []"
  shows "returns (bag_remove hash eq m (Some k)) (\<lambda>(m', r). case r of
           None \<Rightarrow> m' = m \<and> \<not> (\<exists>x \<in># bag_contents m. eq x k)
         | Some x \<Rightarrow> eq x k \<and> bag_ok hash m' \<and> bag_contents m = add_mset x (bag_contents m'))"
  unfolding bag_remove_def option.case
proof (rule returns_bind [OF bag_lookup_ok [OF m k all]], goal_cases)
  case (1 x)
  obtain b found where x: "x = (b, found)" by (cases x)
  show ?case
  proof (cases found)
    case (Some i)
    then have b: "b < length (mpBucket m)" and i: "i < length (mpBucket m ! b)" and e: "eq (pdata (mpBucket m ! b ! i)) k"
      using 1 x by auto
    let ?p = "mpBucket m ! b ! i" and ?bs = "(mpBucket m)[b := remove_nth i (mpBucket m ! b)]"
    let ?m = "m\<lparr>mpBucket := ?bs, mIteratorList := [], mElements := sz_sub (mElements m) 1\<rparr>"
    have del: "mset (mpBucket m ! b) = add_mset ?p (mset (remove_nth i (mpBucket m ! b)))" using mset_remove_nth [OF i] by simp
    have pairs: "mset (hm_pairs m) = add_mset ?p (mset (concat ?bs))"
      using mset_concat_update [OF b, of "remove_nth i (mpBucket m ! b)"] del by (simp add: hm_pairs_def)
    then have len: "length (hm_pairs m) = Suc (length (concat ?bs))" by (metis size_add_mset size_mset)
    have sub: "set (concat ?bs) \<subseteq> set (hm_pairs m)" using arg_cong [OF pairs, of set_mset] by auto
    have new: "hm_pairs ?m = concat ?bs" by (simp add: hm_pairs_def)
    have "buckets_by (\<lambda>h k. h \<le> k) (mBucketBits m) ?bs"
      using m b i set_remove_nth_subset [of i "mpBucket m ! b"]
      by (intro buckets_by_update sorted_remove_nth) (auto simp: bag_ok_def buckets_by_def)
    moreover have "sz_sub (mElements m) 1 = length (concat ?bs)" using m len by (simp add: bag_ok_def sz_sub_exact)
    ultimately have "bag_ok hash ?m" unfolding bag_ok_def new using m len sub by (auto simp: bag_ok_def)
    moreover have "bag_contents m = add_mset (pdata ?p) (bag_contents ?m)" unfolding bag_contents_def new pairs by simp
    ultimately show ?thesis using b e its by (simp add: x Some bucket_at_def)
  qed (use 1 x in auto)
qed

end

section \<open>Property\<close>

text \<open>C40. A bag of the library's objects is a multiset: an insertion adds the object even if an equal one is there, a search returns an equal
  object exactly when there is one, and a removal takes out one object that is equal to its argument; all of them return, the insertion through
  a resizing of the table too, and keep the table well formed.\<close>

theorem hashbag_multiset:
  assumes "bag_ok object_hash m" and "mIteratorList m = []" and "Suc (mElements m) < SIZE_MOD"
    and "object_ok k" and "\<forall>x \<in># bag_contents m. object_ok x"
  shows "returns (bag_insert object_hash m (Some k)) (\<lambda>(m', r). r = Some k \<and> bag_ok object_hash m' \<and> bag_contents m' = add_mset k (bag_contents m))
         \<and> returns (bag_find object_hash object_isEqual m k) (\<lambda>r. case r of
             None \<Rightarrow> \<not> (\<exists>x \<in># bag_contents m. object_isEqual x k) | Some x \<Rightarrow> x \<in># bag_contents m \<and> object_isEqual x k)
         \<and> returns (bag_remove object_hash object_isEqual m (Some k)) (\<lambda>(m', r). case r of
             None \<Rightarrow> m' = m \<and> \<not> (\<exists>x \<in># bag_contents m. object_isEqual x k)
           | Some x \<Rightarrow> object_isEqual x k \<and> bag_ok object_hash m' \<and> bag_contents m = add_mset x (bag_contents m'))"
  using returns_mono [OF bag_insert_ok [OF assms(1,3), of k]] objects.bag_find_ok [OF assms(1,4,5)] objects.bag_remove_ok [OF assms(1,4,5,2)]
  by (simp add: case_prod_beta)

theorem hashbag_multiset_witness:
  "returns (bag_insert object_hash UtlHashBag_new (Some (BoolObj True))) (\<lambda>(m', r). bag_contents m' = {#BoolObj True#})"
proof -
  have m: "mIteratorList UtlHashBag_new = []" "Suc (mElements UtlHashBag_new) < SIZE_MOD" by (simp_all add: UtlHashBag_new_def SIZE_MOD_def)
  have k: "object_ok (BoolObj True)" "\<forall>x \<in># bag_contents UtlHashBag_new. object_ok x" by (simp_all add: bag_new_ok object_ok_def)
  show ?thesis using hashbag_multiset [OF bag_new_ok(1) m k] by (auto elim!: returns_mono simp: bag_new_ok)
qed

end
