(* ===== verification/NameValueTokenizer.thy ===== *)
theory NameValueTokenizer
  imports SipMessage
begin

text \<open>
  The tokenizer of header lines (\<^verbatim>\<open>sipXtackLib/src/net/NameValueTokenizer.cpp\<close>): lines and the
  name/value pairs on them, and the subfields of a header field between separators. A text is the
  list of its characters; the positions of the code are positions in it.
\<close>

section \<open>Lines and pairs\<close>

definition NEWLINE :: char where "NEWLINE = CHR 0x0A"
definition CARRIAGE_RETURN :: char where "CARRIAGE_RETURN = CHR 0x0D"

text \<open>\<open>findNextLineTerminator\<close>: the index of the terminator and that of the next line; \<open>None\<close> stands for -1.\<close>

fun findNextLineTerminator :: "string \<Rightarrow> (nat \<times> nat) option" where
  "findNextLineTerminator [] = None"
| "findNextLineTerminator (c # text) =
     (if c = NEWLINE \<or> c = CARRIAGE_RETURN then
        Some (0, if c = CARRIAGE_RETURN \<and> (case text of [] \<Rightarrow> False | d # _ \<Rightarrow> d = NEWLINE) then 2 else 1)
      else map_option (\<lambda>(terminatorIndex, nextLineIndex). (Suc terminatorIndex, Suc nextLineIndex)) (findNextLineTerminator text))"

definition frontTrim :: "(char \<Rightarrow> bool) \<Rightarrow> string \<Rightarrow> string" where
  "frontTrim white s = dropWhile white s"

definition backTrim :: "(char \<Rightarrow> bool) \<Rightarrow> string \<Rightarrow> string" where
  "backTrim white s = drop_back white s"

record tokenizer =
  textPtr :: string
  bytesConsumed :: nat

definition isAtEnd :: "tokenizer \<Rightarrow> bool" where
  "isAtEnd t \<longleftrightarrow> length (textPtr t) \<le> bytesConsumed t"

definition getNextPair :: "char \<Rightarrow> tokenizer \<Rightarrow> tokenizer \<times> bool \<times> string \<times> string" where
  "getNextPair separator t =
     (let rest = drop (bytesConsumed t) (textPtr t);
          (lineLength, nextLineOffset) = (case findNextLineTerminator rest of
              None \<Rightarrow> (length rest, None) | Some (l, n) \<Rightarrow> (l, Some n));
          line = take lineLength rest;
          nameEnd = length (takeWhile (\<lambda>c. c \<noteq> separator) line);
          name = strip_spec is_strip_ws both (take nameEnd line);
          value = (if Suc nameEnd < lineLength then strip_spec is_strip_ws both (drop (Suc nameEnd) line) else []) in
      (t\<lparr>bytesConsumed := bytesConsumed t + (case nextLineOffset of Some n \<Rightarrow> n | None \<Rightarrow> lineLength)\<rparr>, name \<noteq> [], name, value))"

section \<open>Subfields\<close>

text \<open>A byte of 128 or more is a negative \<open>char\<close>, which \<open>isChar\<close> refuses.\<close>

definition isCtl :: "char \<Rightarrow> bool" where
  "isCtl c \<longleftrightarrow> (let n = of_char c :: nat in n \<le> 8 \<or> 14 \<le> n \<and> n \<le> 31 \<or> n = 127)"

definition isPrintableChar :: "char \<Rightarrow> bool" where
  "isPrintableChar c \<longleftrightarrow> \<not> isCtl c \<and> (of_char c :: nat) \<le> 127"

text \<open>
  The loop of \<open>getSubField\<close>: the number of subfields passed, where the last one begins and
  where it ends. \<open>None\<close> is the early return for a character that is not printable.
\<close>

fun subfield_loop :: "bool \<Rightarrow> string \<Rightarrow> int \<Rightarrow> string \<Rightarrow> int \<Rightarrow> int \<Rightarrow> int \<Rightarrow> int \<Rightarrow> (int \<times> int \<times> int) option" where
  "subfield_loop validateChars separators subFieldIndex text charIndex subFieldI subFieldBegin separatorIndex =
     (if subFieldI < subFieldIndex then
        (case text of
           [] \<Rightarrow> Some (subFieldI + 1, separatorIndex + 1, charIndex)
         | c # rest \<Rightarrow>
             if c = NUL then Some (subFieldI + 1, separatorIndex + 1, charIndex)
             else if validateChars \<and> \<not> isPrintableChar c then None
             else if c \<in> set separators then
               subfield_loop validateChars separators subFieldIndex rest (charIndex + 1)
                 (if separatorIndex + 1 \<noteq> charIndex then subFieldI + 1 else subFieldI) (separatorIndex + 1) charIndex
             else subfield_loop validateChars separators subFieldIndex rest (charIndex + 1) subFieldI subFieldBegin separatorIndex)
      else Some (subFieldI, subFieldBegin, separatorIndex))"

declare subfield_loop.simps [simp del]

text \<open>Whether the subfield was found, and its text.\<close>

definition getSubField_ptr :: "string \<Rightarrow> int \<Rightarrow> string \<Rightarrow> bool \<Rightarrow> bool \<times> string" where
  "getSubField_ptr textField subFieldIndex separators validateChars =
     (case subfield_loop validateChars separators subFieldIndex textField 0 (-1) 0 (-1) of
        None \<Rightarrow> (False, [])
      | Some (i, b, e) \<Rightarrow> if i = subFieldIndex then (True, take (nat (e - b)) (drop (nat b) textField)) else (False, []))"

text \<open>The variant that fills a string object, which it leaves alone when the text is too long.\<close>

definition getSubField :: "string \<Rightarrow> int \<Rightarrow> string \<Rightarrow> bool \<Rightarrow> string \<Rightarrow> bool \<times> string" where
  "getSubField textField subFieldIndex separators validateChars old =
     (if 65536 < length (c_prefix textField) then (False, old)
      else getSubField_ptr (c_prefix textField) subFieldIndex separators validateChars)"

section \<open>The reference: splitting a text\<close>

fun pieces :: "(char \<Rightarrow> bool) \<Rightarrow> string \<Rightarrow> string list" where
  "pieces sep [] = [[]]"
| "pieces sep (c # s) = (if sep c then [] # pieces sep s else (case pieces sep s of p # ps \<Rightarrow> (c # p) # ps | [] \<Rightarrow> [[c]]))"

definition subfields :: "string \<Rightarrow> string \<Rightarrow> string list" where
  "subfields separators s = filter (\<lambda>p. p \<noteq> []) (pieces (\<lambda>c. c \<in> set separators) s)"

lemma pieces_not_Nil [simp]: "pieces sep s \<noteq> []"
  by (induction s) (auto split: list.splits)

lemma pieces_split:
  "list_all (\<lambda>c. \<not> sep c) xs \<Longrightarrow> sep c \<Longrightarrow> pieces sep (xs @ c # s) = xs # pieces sep s"
  by (induction xs) auto

lemma pieces_one: "list_all (\<lambda>c. \<not> sep c) xs \<Longrightarrow> pieces sep xs = [xs]"
  by (induction xs) auto

text \<open>
  The loop from a point inside a piece: \<open>cur\<close> is what has been passed of that piece, which began
  behind the last separator. If there is nothing behind the last separator, that empty piece is found too.
\<close>

definition open_end :: "string \<Rightarrow> string \<Rightarrow> bool" where
  "open_end separators s \<longleftrightarrow> s = [] \<or> last s \<in> set separators"

definition subfield_result :: "string \<Rightarrow> int \<Rightarrow> nat \<Rightarrow> bool \<Rightarrow> string list \<Rightarrow> (int \<times> int \<times> int) option \<Rightarrow> bool" where
  "subfield_result whole subFieldIndex n opened ps r \<longleftrightarrow> (\<exists>i b e. r = Some (i, b, e) \<and>
     (if n < length ps then i = subFieldIndex \<and> take (nat (e - b)) (drop (nat b) whole) = ps ! n
      else if n = length ps \<and> opened then i = subFieldIndex \<and> take (nat (e - b)) (drop (nat b) whole) = []
      else i < subFieldIndex))"

lemma subfield_result_Suc: "subfield_result w i (Suc k) opened (p # ps) r = subfield_result w i k opened ps r"
  by (simp add: subfield_result_def)

lemma subfield_loop_spec:
  assumes "nul_free field" and "validateChars \<longrightarrow> list_all isPrintableChar field"
    and "list_all (\<lambda>c. c \<notin> set separators) cur" and "subFieldIndex = subFieldI + 1 + int n"
    and "whole = prefix @ cur @ field" and "charIndex = int (length prefix + length cur)" and "separatorIndex = int (length prefix) - 1"
  shows "subfield_result whole subFieldIndex n (open_end separators (cur @ field)) (filter (\<lambda>p. p \<noteq> []) (pieces (\<lambda>c. c \<in> set separators) (cur @ field)))
           (subfield_loop validateChars separators subFieldIndex field charIndex subFieldI subFieldBegin separatorIndex)"
  using assms
proof (induction field arbitrary: cur subFieldI n prefix charIndex separatorIndex subFieldBegin)
  case Nil
  then show ?case
    using pieces_one [of "\<lambda>c. c \<in> set separators" cur]
    by (auto simp: subfield_result_def open_end_def subfield_loop.simps nat_add_distrib list_all_iff)
next
  case (Cons c field)
  have c: "c \<noteq> NUL" "validateChars \<longrightarrow> isPrintableChar c" "nul_free field" "validateChars \<longrightarrow> list_all isPrintableChar field"
    using Cons.prems(1,2) by auto
  have more: "subFieldI < subFieldIndex" using Cons.prems(4) by simp
  show ?case
  proof (cases "c \<in> set separators")
    case False
    have "subfield_result whole subFieldIndex n (open_end separators ((cur @ [c]) @ field)) (filter (\<lambda>p. p \<noteq> []) (pieces (\<lambda>c. c \<in> set separators) ((cur @ [c]) @ field)))
        (subfield_loop validateChars separators subFieldIndex field (charIndex + 1) subFieldI subFieldBegin separatorIndex)"
      by (rule Cons.IH [where prefix = prefix]) (use c Cons.prems False in auto)
    then show ?thesis using c more False by (auto simp: subfield_loop.simps [of _ _ _ "c # field"])
  next
    case sep: True
    have split: "pieces (\<lambda>c. c \<in> set separators) (cur @ c # field) = cur # pieces (\<lambda>c. c \<in> set separators) field"
      by (rule pieces_split) (use Cons.prems(3) sep in auto)
    have step: "subfield_loop validateChars separators subFieldIndex (c # field) charIndex subFieldI subFieldBegin separatorIndex
        = subfield_loop validateChars separators subFieldIndex field (charIndex + 1)
            (if separatorIndex + 1 \<noteq> charIndex then subFieldI + 1 else subFieldI) (separatorIndex + 1) charIndex"
      using c more sep by (auto simp: subfield_loop.simps [of _ _ _ "c # field"])
    have ends: "open_end separators (cur @ c # field) = open_end separators ([] @ field)" using sep by (simp add: open_end_def)
    have IH: "subfield_result whole subFieldIndex k (open_end separators ([] @ field)) (filter (\<lambda>p. p \<noteq> []) (pieces (\<lambda>c. c \<in> set separators) ([] @ field)))
        (subfield_loop validateChars separators subFieldIndex field (charIndex + 1) I (separatorIndex + 1) charIndex)"
      if "subFieldIndex = I + 1 + int k" for I k
      by (rule Cons.IH [where prefix = "prefix @ cur @ [c]"]) (use c Cons.prems that in auto)
    show ?thesis
    proof (cases "cur = []")
      case True
      then show ?thesis unfolding step split ends using IH [of subFieldI n] Cons.prems(4,6,7) by simp
    next
      case cur: False
      then have i: "separatorIndex + 1 \<noteq> charIndex" using Cons.prems(6,7) by simp
      show ?thesis
      proof (cases n)
        case 0
        then have "subFieldI + 1 = subFieldIndex" using Cons.prems(4) by simp
        then show ?thesis
          unfolding step split ends using i cur 0 Cons.prems(5-7)
          by (simp add: subfield_loop.simps subfield_result_def nat_add_distrib)
      next
        case (Suc k)
        then have "subFieldIndex = (subFieldI + 1) + 1 + int k" using Cons.prems(4) by simp
        from IH [OF this] show ?thesis
          unfolding step split ends using i cur Suc by (simp add: subfield_result_Suc)
      qed
    qed
  qed
qed

lemma getSubField_ptr_exact:
  assumes "nul_free field" and "validateChars \<longrightarrow> list_all isPrintableChar field"
  shows "getSubField_ptr field (int n) separators validateChars =
           (if n < length (subfields separators field) then (True, subfields separators field ! n)
            else (n = length (subfields separators field) \<and> open_end separators field, []))"
proof -
  have "subfield_result field (int n) n (open_end separators field) (subfields separators field) (subfield_loop validateChars separators (int n) field 0 (-1) 0 (-1))"
    using subfield_loop_spec [where prefix = "[]" and cur = "[]" and whole = field and subFieldI = "-1" and n = n, OF assms]
    by (simp add: subfields_def)
  then show ?thesis by (auto simp: subfield_result_def getSubField_ptr_def split: if_splits)
qed

lemma getSubField_ptr_spec:
  assumes "nul_free field" and "validateChars \<longrightarrow> list_all isPrintableChar field"
  shows "snd (getSubField_ptr field (int n) separators validateChars) = (if n < length (subfields separators field) then subfields separators field ! n else [])"
  by (simp add: getSubField_ptr_exact [OF assms])

section \<open>Properties\<close>

text \<open>C18. The subfields that \<open>getSubField\<close> finds by counting separators are those of the field split at the separators, less the empty ones: the \<open>n\<close>-th is found
  with the \<open>n\<close>-th of them as its text. Behind the last one nothing is found, but for one case: if the field is empty or ends with a separator, one more subfield is
  reported as found, with an empty text.\<close>

theorem tokenizer_subfields:
  assumes "nul_free field" and "length field \<le> 65536" and "validateChars \<longrightarrow> list_all isPrintableChar field"
  shows "getSubField field (int n) separators validateChars old =
           (if n < length (subfields separators field) then (True, subfields separators field ! n)
            else (n = length (subfields separators field) \<and> open_end separators field, []))"
  using getSubField_ptr_exact [OF assms(1,3), of n separators] assms(1,2) by (simp add: getSubField_def)

theorem tokenizer_subfields_witness:
  "getSubField ''a,,b,'' 1 '','' True [] = (True, ''b'') \<and> getSubField ''a,,b,'' 2 '','' True [] = (True, []) \<and> getSubField ''a,,b,'' 3 '','' True [] = (False, [])"
proof -
  have h: "nul_free ''a,,b,''" "list_all isPrintableChar ''a,,b,''" "subfields '','' ''a,,b,'' = [''a'', ''b'']" "open_end '','' ''a,,b,''" by code_simp+
  show ?thesis using tokenizer_subfields [of "''a,,b,''" True 1 "'',''" "[]"] tokenizer_subfields [of "''a,,b,''" True 2 "'',''" "[]"]
      tokenizer_subfields [of "''a,,b,''" True 3 "'',''" "[]"] h by simp
qed

end
