(* ===== verification/SipHeaders.thy ===== *)
theory SipHeaders
  imports NameValueTokenizer
begin

text \<open>
  Header fields with several values (\<^verbatim>\<open>sipXtackLib/src/net/SipMessage.cpp\<close>): the values of a field may
  stand on one line, separated by commas, or on lines of their own. \<open>getFieldSubfield\<close> numbers
  them through; the Via and Route fields and the responses to a request are built on it.
\<close>

section \<open>Subfields\<close>

definition SIP_MULTIFIELD_SEPARATOR :: string where "SIP_MULTIFIELD_SEPARATOR = '',''"
definition BOTTOM_SUBFIELD :: int where "BOTTOM_SUBFIELD = 2 ^ 31 - 1"
definition SIP_VIA_FIELD :: string where "SIP_VIA_FIELD = ''VIA''"
definition SIP_RECORD_ROUTE_FIELD :: string where "SIP_RECORD_ROUTE_FIELD = ''RECORD-ROUTE''"

text \<open>The inner loop, over the subfields of one line: the index reached, the subfield there and the one before.\<close>

function subfield_walk :: "string \<Rightarrow> int \<Rightarrow> bool \<Rightarrow> int \<Rightarrow> int \<Rightarrow> string \<Rightarrow> string \<Rightarrow> int \<times> string \<times> string" where
  "subfield_walk value addressIndex validateChars subFieldIndex index url urlBackup =
     (if url \<noteq> [] \<and> index < addressIndex then
        subfield_walk value addressIndex validateChars (subFieldIndex + 1) (index + 1)
          (snd (getSubField value (subFieldIndex + 1) SIP_MULTIFIELD_SEPARATOR validateChars url)) url
      else (index, url, urlBackup))"
  by pat_completeness auto
termination by (relation "measure (\<lambda>(value, addressIndex, validateChars, subFieldIndex, index, url, urlBackup). nat (addressIndex - index))") auto

declare subfield_walk.simps [simp del]

lemma getHeaderValue_bound: "getHeaderValue m i name = Some v \<Longrightarrow> i < length (mNameValues m)"
  by (auto simp: getHeaderValue_values header_values_def split: if_splits intro: order.strict_trans2 [OF _ length_filter_le])

text \<open>The outer loop, over the lines of the field: the subfield, if it was found, and the last one passed.\<close>

function field_walk :: "http_message \<Rightarrow> string \<Rightarrow> int \<Rightarrow> bool \<Rightarrow> nat \<Rightarrow> int \<Rightarrow> string \<Rightarrow> string \<Rightarrow> string option \<times> string" where
  "field_walk m fieldName addressIndex validateChars fieldIndex index url urlBackup =
     (case getHeaderValue m fieldIndex fieldName of
        None \<Rightarrow> (None, urlBackup)
      | Some value \<Rightarrow>
          if index \<le> addressIndex then
            (let (index1, url1, urlBackup1) = subfield_walk value addressIndex validateChars 0 index
                   (snd (getSubField value 0 SIP_MULTIFIELD_SEPARATOR validateChars url)) urlBackup in
             if index1 = addressIndex \<and> url1 \<noteq> [] then (Some url1, urlBackup1)
             else if addressIndex < index1 then (None, urlBackup1)
             else field_walk m fieldName addressIndex validateChars (Suc fieldIndex) index1 url1 urlBackup1)
          else (None, urlBackup))"
  by pat_completeness auto
termination
  by (relation "measure (\<lambda>(m, fieldName, addressIndex, validateChars, fieldIndex, index, url, urlBackup). length (mNameValues m) - fieldIndex)")
     (auto dest: getHeaderValue_bound)

declare field_walk.simps [simp del]

definition getFieldSubfield :: "http_message \<Rightarrow> string \<Rightarrow> int \<Rightarrow> bool \<Rightarrow> string option" where
  "getFieldSubfield m fieldName addressIndex validateChars =
     (let (found, urlBackup) = field_walk m fieldName addressIndex validateChars 0 0 [] [] in
      if addressIndex = BOTTOM_SUBFIELD \<and> urlBackup \<noteq> []
      then Some ((case found of None \<Rightarrow> [] | Some u \<Rightarrow> u) @ urlBackup) else found)"

section \<open>What the walks find\<close>

text \<open>Lines the tokenizer can split; the lines that are looked at, up to the first empty one; their subfields.\<close>

definition plain :: "bool \<Rightarrow> string \<Rightarrow> bool" where
  "plain validateChars s \<longleftrightarrow> nul_free s \<and> length s \<le> 65536 \<and> (validateChars \<longrightarrow> list_all isPrintableChar s)"

definition field_lines :: "http_message \<Rightarrow> string \<Rightarrow> string list" where
  "field_lines m fieldName = takeWhile (\<lambda>v. v \<noteq> []) (header_values m fieldName)"

definition field_entries :: "http_message \<Rightarrow> string \<Rightarrow> string list" where
  "field_entries m fieldName = concat (map (subfields SIP_MULTIFIELD_SEPARATOR) (field_lines m fieldName))"

lemma getSubField_plain:
  assumes "plain validateChars s"
  shows "snd (getSubField s (int n) SIP_MULTIFIELD_SEPARATOR validateChars old) =
           (if n < length (subfields SIP_MULTIFIELD_SEPARATOR s) then subfields SIP_MULTIFIELD_SEPARATOR s ! n else [])"
  using getSubField_ptr_spec(1) [of s validateChars n SIP_MULTIFIELD_SEPARATOR] assms by (simp add: getSubField_def plain_def)

lemma subfields_not_Nil: "p \<in> set (subfields seps s) \<Longrightarrow> p \<noteq> []"
  by (simp add: subfields_def)

lemma subfield_walk_plain:
  assumes plain: "plain validateChars s" and "index + int d = addressIndex" and "k \<le> length (subfields SIP_MULTIFIELD_SEPARATOR s)"
    and "url = (if k < length (subfields SIP_MULTIFIELD_SEPARATOR s) then subfields SIP_MULTIFIELD_SEPARATOR s ! k else [])"
  shows "\<exists>backup. subfield_walk s addressIndex validateChars (int k) index url urlBackup =
           (let ps = subfields SIP_MULTIFIELD_SEPARATOR s in
            if k + d < length ps then (addressIndex, ps ! (k + d), backup) else (index + int (length ps - k), [], backup))"
  using assms(2-4)
proof (induction d arbitrary: k index url urlBackup)
  case 0
  let ?ps = "subfields SIP_MULTIFIELD_SEPARATOR s"
  show ?case using 0 by (subst subfield_walk.simps) (auto simp: Let_def)
next
  case (Suc d)
  let ?ps = "subfields SIP_MULTIFIELD_SEPARATOR s"
  show ?case
  proof (cases "k < length ?ps")
    case False
    then show ?thesis using Suc.prems by (subst subfield_walk.simps) (auto simp: Let_def)
  next
    case True
    then have url: "url = ?ps ! k" "url \<noteq> []" using Suc.prems(3) subfields_not_Nil by (auto dest: nth_mem)
    have step: "subfield_walk s addressIndex validateChars (int k) index url urlBackup =
        subfield_walk s addressIndex validateChars (int (Suc k)) (index + 1) (snd (getSubField s (int (Suc k)) SIP_MULTIFIELD_SEPARATOR validateChars url)) url"
      using url(2) Suc.prems(1) by (subst subfield_walk.simps) (simp add: add.commute)
    obtain backup where IH: "subfield_walk s addressIndex validateChars (int (Suc k)) (index + 1)
          (snd (getSubField s (int (Suc k)) SIP_MULTIFIELD_SEPARATOR validateChars url)) url =
        (if Suc k + d < length ?ps then (addressIndex, ?ps ! (Suc k + d), backup) else (index + 1 + int (length ?ps - Suc k), [], backup))"
      using Suc.IH [where k = "Suc k" and index = "index + 1" and urlBackup = url
          and url = "snd (getSubField s (int (Suc k)) SIP_MULTIFIELD_SEPARATOR validateChars url)"]
        Suc.prems(1) True getSubField_plain [OF plain, of "Suc k" url] by (auto simp: Let_def)
    show ?thesis unfolding step IH using True by (auto simp: Let_def)
  qed
qed

lemma line_at:
  assumes "i \<le> length (field_lines m name)"
  shows "getHeaderValue m i name = (if i < length (field_lines m name) then Some (field_lines m name ! i) else None)"
proof (cases "i < length (field_lines m name)")
  case True
  then have "field_lines m name ! i = header_values m name ! i" by (simp add: field_lines_def takeWhile_nth)
  moreover have "field_lines m name ! i \<noteq> []" using True nth_mem set_takeWhileD unfolding field_lines_def by fastforce
  moreover have "i < length (header_values m name)"
    using True length_takeWhile_le [of _ "header_values m name"] unfolding field_lines_def by (rule order.strict_trans2)
  ultimately show ?thesis using True by (simp add: getHeaderValue_values)
next
  case False
  then have i: "i = length (takeWhile (\<lambda>v. v \<noteq> []) (header_values m name))" using assms by (simp add: field_lines_def)
  then have "i < length (header_values m name) \<Longrightarrow> header_values m name ! i = []"
    using nth_length_takeWhile [of "\<lambda>v. v \<noteq> []" "header_values m name"] by auto
  then show ?thesis using False by (auto simp: getHeaderValue_values)
qed

lemma field_walk_plain:
  assumes "list_all (plain validateChars) (field_lines m name)" and "fieldIndex \<le> length (field_lines m name)" and "index + int d = addressIndex"
  shows "fst (field_walk m name addressIndex validateChars fieldIndex index url urlBackup) =
           (let es = concat (map (subfields SIP_MULTIFIELD_SEPARATOR) (drop fieldIndex (field_lines m name))) in
            if d < length es then Some (es ! d) else None)"
  using assms(2,3)
proof (induction "length (field_lines m name) - fieldIndex" arbitrary: fieldIndex index d url urlBackup)
  case 0
  then show ?case using line_at [of fieldIndex m name] by (subst field_walk.simps) simp
next
  case (Suc n)
  let ?v = "field_lines m name ! fieldIndex"
  let ?ps = "subfields SIP_MULTIFIELD_SEPARATOR ?v"
  have f: "fieldIndex < length (field_lines m name)" using Suc.hyps(2) by simp
  have v: "getHeaderValue m fieldIndex name = Some ?v" using line_at [OF Suc.prems(1)] f by simp
  have plain: "plain validateChars ?v" using assms(1) f by (simp add: list_all_length)
  have es: "drop fieldIndex (field_lines m name) = ?v # drop (Suc fieldIndex) (field_lines m name)" using f by (simp add: Cons_nth_drop_Suc)
  have url: "snd (getSubField ?v 0 SIP_MULTIFIELD_SEPARATOR validateChars url) = (if 0 < length ?ps then ?ps ! 0 else [])"
    using getSubField_plain [OF plain, of 0 url] by simp
  obtain backup where w: "subfield_walk ?v addressIndex validateChars 0 index (snd (getSubField ?v 0 SIP_MULTIFIELD_SEPARATOR validateChars url)) urlBackup =
      (if d < length ?ps then (addressIndex, ?ps ! d, backup) else (index + int (length ?ps), [], backup))"
    using subfield_walk_plain [where k = 0 and urlBackup = urlBackup, OF plain Suc.prems(2) le0 url] by (auto simp: Let_def)
  show ?case
  proof (cases "d < length ?ps")
    case True
    then have "?ps ! d \<noteq> []" using subfields_not_Nil nth_mem by blast
    then show ?thesis using True v w Suc.prems(2) by (subst field_walk.simps) (simp add: es nth_append)
  next
    case False
    have "fst (field_walk m name addressIndex validateChars fieldIndex index url urlBackup) =
        fst (field_walk m name addressIndex validateChars (Suc fieldIndex) (index + int (length ?ps)) [] backup)"
      using False v w Suc.prems(2) by (subst field_walk.simps) simp
    also have "\<dots> = (let es = concat (map (subfields SIP_MULTIFIELD_SEPARATOR) (drop (Suc fieldIndex) (field_lines m name))) in
            if d - length ?ps < length es then Some (es ! (d - length ?ps)) else None)"
      by (rule Suc.hyps(1)) (use Suc.hyps(2) f False Suc.prems(2) in auto)
    finally show ?thesis using False by (auto simp: es Let_def nth_append)
  qed
qed

text \<open>The subfields of all lines are numbered through.\<close>

lemma getFieldSubfield_plain:
  assumes "list_all (plain validateChars) (field_lines m name)" and "int n < BOTTOM_SUBFIELD"
  shows "getFieldSubfield m name (int n) validateChars =
           (if n < length (field_entries m name) then Some (field_entries m name ! n) else None)"
proof -
  have "fst (field_walk m name (int n) validateChars 0 0 [] []) =
      (if n < length (field_entries m name) then Some (field_entries m name ! n) else None)"
    using field_walk_plain [OF assms(1), of 0 0 n "int n"] by (simp add: field_entries_def Let_def)
  then show ?thesis using assms(2) by (auto simp: getFieldSubfield_def case_prod_beta)
qed

section \<open>Via fields and responses\<close>

definition getViaFieldSubField :: "http_message \<Rightarrow> nat \<Rightarrow> string option" where
  "getViaFieldSubField m subFieldIndex =
     (case getFieldSubfield m SIP_VIA_FIELD (int subFieldIndex) True of Some via \<Rightarrow> if via \<noteq> [] then Some via else None | None \<Rightarrow> None)"

definition addViaField :: "http_message \<Rightarrow> string \<Rightarrow> bool \<Rightarrow> http_message" where
  "addViaField m viaField afterOtherVias =
     (let nv = NameValuePair SIP_VIA_FIELD viaField in
      case match_at (\<lambda>h. nv_cmp h nv = 0) 0 (mNameValues m) of
        Some fieldIndex \<Rightarrow>
          if afterOtherVias then m\<lparr>mNameValues := take fieldIndex (mNameValues m) @ nv # drop fieldIndex (mNameValues m)\<rparr>
          else m\<lparr>mNameValues := mNameValues m @ [nv]\<rparr>
      | None \<Rightarrow> m\<lparr>mNameValues := mNameValues m @ [nv]\<rparr>)"

text \<open>\<open>setViaFromRequest\<close>; a request has no more subfields than characters, which bounds the loop.\<close>

fun via_loop :: "nat \<Rightarrow> http_message \<Rightarrow> nat \<Rightarrow> http_message \<Rightarrow> http_message option" where
  "via_loop 0 request subFieldindex m = None"
| "via_loop (Suc fuel) request subFieldindex m =
     (case getViaFieldSubField request subFieldindex of
        None \<Rightarrow> Some m
      | Some via \<Rightarrow> via_loop fuel request (Suc subFieldindex) (addViaField m via False))"

definition setViaFromRequest :: "http_message \<Rightarrow> http_message \<Rightarrow> http_message option" where
  "setViaFromRequest m request = via_loop (Suc (length (concat (header_values request SIP_VIA_FIELD)))) request 0 m"

text \<open>Where a string starts in another one.\<close>

fun index_of :: "string \<Rightarrow> string \<Rightarrow> nat option" where
  "index_of p [] = (if p = [] then Some 0 else None)"
| "index_of p (c # s) = (if take (length p) (c # s) = p then Some 0 else map_option Suc (index_of p s))"

text \<open>A parameter that is there gets the new value, up to the next blank or semicolon; else it is appended.\<close>

definition setUriParameter :: "string \<Rightarrow> string \<Rightarrow> string \<Rightarrow> string" where
  "setUriParameter uri parameterName parameterValue =
     (let value = c_prefix parameterValue;
          parameterString = c_prefix parameterName @ (if value \<noteq> [] then ''='' else []) in
      case index_of parameterString uri of
        Some i \<Rightarrow>
          (let tagIndex = i + length parameterString in
           take tagIndex uri @ value @ dropWhile (\<lambda>c. c \<noteq> CHR '' '' \<and> c \<noteq> CHR 0x09 \<and> c \<noteq> CHR '';'') (drop tagIndex uri))
      | None \<Rightarrow> uri @ '';'' @ parameterString @ value)"

definition SIP_TRYING_CODE :: int where "SIP_TRYING_CODE = 100"

text \<open>The To field of a response; \<open>tag\<close> is what \<open>CallId::getNewTag\<close> gives.\<close>

definition response_to :: "int \<Rightarrow> string \<Rightarrow> string \<Rightarrow> string" where
  "response_to statusCode toField tag =
     (if statusCode \<noteq> SIP_TRYING_CODE \<and> index_of '';tag='' toField = None then setUriParameter toField ''tag'' tag else toField)"

definition setResponseData_fields ::
  "http_message \<Rightarrow> int \<Rightarrow> string \<Rightarrow> string \<Rightarrow> string \<Rightarrow> string \<Rightarrow> int \<Rightarrow> string \<Rightarrow> string option \<Rightarrow> string \<Rightarrow> http_message" where
  "setResponseData_fields m statusCode statusText fromField toField callId sequenceNumber sequenceMethod localContact tag =
     (let m1 = setResponseFirstHeaderLine m SIP_PROTOCOL_VERSION statusCode statusText;
          m2 = setHeaderValue m1 SIP_FROM_FIELD fromField 0;
          m3 = setHeaderValue m2 SIP_TO_FIELD (response_to statusCode toField tag) 0;
          m4 = setHeaderValue m3 SIP_CALLID_FIELD callId 0;
          m5 = (if 0 \<le> sequenceNumber then setCSeqField m4 sequenceNumber sequenceMethod else m4) in
      case localContact of Some c \<Rightarrow> setContactField m5 c 0 | None \<Rightarrow> m5)"

definition isRecordRouteAccepted :: "http_message \<Rightarrow> bool" where
  "isRecordRouteAccepted m \<longleftrightarrow> \<not> isResponse m \<and>
     \<not> (let method = getRequestMethod m in
        str_cmp method ''MESSAGE'' = 0 \<or> str_cmp method ''REGISTER'' = 0 \<or> str_cmp method ''PUBLISH'' = 0)"

function echo_loop :: "http_message \<Rightarrow> nat \<Rightarrow> http_message \<Rightarrow> http_message" where
  "echo_loop request recordRouteIndex m =
     (case getHeaderValue request recordRouteIndex SIP_RECORD_ROUTE_FIELD of
        None \<Rightarrow> m
      | Some v \<Rightarrow> echo_loop request (Suc recordRouteIndex) (setHeaderValue m SIP_RECORD_ROUTE_FIELD v recordRouteIndex))"
  by pat_completeness auto
termination
  by (relation "measure (\<lambda>(request, i, m). length (mNameValues request) - i)") (auto dest: getHeaderValue_bound)

declare echo_loop.simps [simp del]

text \<open>\<open>setResponseData\<close> from a request; the address of the interface, which it copies as well, is not part of the model.\<close>

definition setResponseData_request ::
  "http_message \<Rightarrow> http_message \<Rightarrow> int \<Rightarrow> string \<Rightarrow> string option \<Rightarrow> bool \<Rightarrow> string \<Rightarrow> http_message option" where
  "setResponseData_request m request responseCode responseText localContact echoRecordRouteIfApplicable tag = do {
     let (_, sequenceNum, sequenceMethod) = getCSeqField request;
     m1 \<leftarrow> setViaFromRequest
       (setResponseData_fields m responseCode responseText (field_value request SIP_FROM_FIELD) (field_value request SIP_TO_FIELD)
          (getCallIdField request) sequenceNum sequenceMethod localContact tag) request;
     Some (if echoRecordRouteIfApplicable \<and> isRecordRouteAccepted request then echo_loop request 0 m1 else m1) }"

section \<open>What a response repeats\<close>

lemma header_values_via:
  "header_values (addViaField m v False) name = header_values m name @ (if header_key SIP_VIA_FIELD = header_key name then [c_prefix v] else [])"
proof -
  have n: "c_prefix SIP_VIA_FIELD = header_key SIP_VIA_FIELD" by code_simp
  have "mNameValues (addViaField m v False) = mNameValues m @ [NameValuePair SIP_VIA_FIELD v]"
    by (simp add: addViaField_def Let_def split: option.splits)
  moreover have "header_is (Some name) (NameValuePair SIP_VIA_FIELD v) \<longleftrightarrow> header_key SIP_VIA_FIELD = header_key name"
    using n by (simp add: header_is_key NameValuePair_def)
  ultimately show ?thesis by (simp add: header_values_def NameValuePair_def)
qed

lemma kept_first_line [simp]: "mFirstHeaderLine (setHeaderValue m n v i) = mFirstHeaderLine m"
  by (simp add: setHeaderValue_def addHeaderField_def split: option.splits)

lemma first_line_via [simp]: "mFirstHeaderLine (addViaField m v b) = mFirstHeaderLine m"
  by (simp add: addViaField_def Let_def split: option.splits)

text \<open>The fields of a message, and those it has once the entries \<open>vs\<close> are added to field \<open>n\<close>.\<close>

definition gained :: "string \<Rightarrow> string list \<Rightarrow> http_message \<Rightarrow> http_message \<Rightarrow> bool" where
  "gained n vs m m' \<longleftrightarrow> mFirstHeaderLine m' = mFirstHeaderLine m
     \<and> (\<forall>name. header_values m' name = header_values m name @ (if header_key n = header_key name then vs else []))"

lemma pieces_length: "length (concat (pieces sep s)) \<le> length s"
  by (induction s) (auto split: list.splits)

lemma subfields_length: "length (subfields seps s) \<le> length s"
proof -
  have "length (filter (\<lambda>p. p \<noteq> []) ps) \<le> length (concat ps)" for ps :: "string list"
  proof (induction ps)
    case (Cons p ps)
    then show ?case by (cases p) auto
  qed simp
  then show ?thesis unfolding subfields_def using pieces_length [of "\<lambda>c. c \<in> set seps" s] by (rule order_trans)
qed

lemma concat_takeWhile_length: "length (concat (map f (takeWhile P xs))) \<le> length (concat (map f xs))"
  by (induction xs) auto

lemma field_entries_length: "length (field_entries m name) \<le> length (concat (header_values m name))"
proof -
  have "length (concat (map (subfields SIP_MULTIFIELD_SEPARATOR) vs)) \<le> length (concat vs)" for vs
    by (induction vs) (auto intro: add_mono subfields_length)
  then show ?thesis
    unfolding field_entries_def field_lines_def using concat_takeWhile_length [of id] by (metis (no_types, lifting) list.map_id0 id_apply order_trans)
qed

lemma pieces_chars: "p \<in> set (pieces sep s) \<Longrightarrow> set p \<subseteq> set s"
proof (induction s arbitrary: p)
  case (Cons c s)
  show ?case
  proof (cases "pieces sep s")
    case (Cons q qs)
    then have "set q \<subseteq> set s" "\<And>r. r \<in> set qs \<Longrightarrow> set r \<subseteq> set s" using Cons.IH by auto
    then show ?thesis using Cons.prems \<open>pieces sep s = q # qs\<close> by (auto split: if_splits)
  qed simp
qed simp

lemma field_entries_nul_free:
  assumes "list_all (plain v) (field_lines m name)" and "p \<in> set (field_entries m name)"
  shows "nul_free p" and "p \<noteq> []"
proof -
  obtain s where s: "s \<in> set (field_lines m name)" "p \<in> set (subfields SIP_MULTIFIELD_SEPARATOR s)"
    using assms(2) by (auto simp: field_entries_def)
  then have "set p \<subseteq> set s" using pieces_chars by (auto simp: subfields_def)
  then show "nul_free p" "p \<noteq> []"
    using assms(1) s subfields_not_Nil by (auto simp: list_all_iff plain_def nul_free_def)
qed

lemma getViaFieldSubField_plain:
  assumes "list_all (plain True) (field_lines request SIP_VIA_FIELD)" and "int n < BOTTOM_SUBFIELD"
  shows "getViaFieldSubField request n =
           (if n < length (field_entries request SIP_VIA_FIELD) then Some (field_entries request SIP_VIA_FIELD ! n) else None)"
  using getFieldSubfield_plain [OF assms] field_entries_nul_free(2) [OF assms(1)] by (auto simp: getViaFieldSubField_def)

lemma via_loop_plain:
  assumes plain: "list_all (plain True) (field_lines request SIP_VIA_FIELD)"
    and bound: "int (length (field_entries request SIP_VIA_FIELD)) < BOTTOM_SUBFIELD"
    and "i \<le> length (field_entries request SIP_VIA_FIELD)" and "length (field_entries request SIP_VIA_FIELD) - i < fuel"
  shows "returns (via_loop fuel request i m) (gained SIP_VIA_FIELD (drop i (field_entries request SIP_VIA_FIELD)) m)"
  using assms(3,4)
proof (induction fuel arbitrary: i m)
  case (Suc fuel)
  let ?es = "field_entries request SIP_VIA_FIELD"
  have get: "getViaFieldSubField request i = (if i < length ?es then Some (?es ! i) else None)"
    using getViaFieldSubField_plain [OF plain, of i] bound Suc.prems(1) by simp
  show ?case
  proof (cases "i < length ?es")
    case True
    have nf: "c_prefix (?es ! i) = ?es ! i" using field_entries_nul_free(1) [OF plain] True by simp
    have "returns (via_loop fuel request (Suc i) (addViaField m (?es ! i) False)) (gained SIP_VIA_FIELD (drop (Suc i) ?es) (addViaField m (?es ! i) False))"
      by (rule Suc.IH) (use Suc.prems True in auto)
    then have "returns (via_loop fuel request (Suc i) (addViaField m (?es ! i) False)) (gained SIP_VIA_FIELD (drop i ?es) m)"
      by (rule returns_mono) (use True nf in \<open>simp add: gained_def header_values_via Cons_nth_drop_Suc [symmetric]\<close>)
    then show ?thesis using get True by simp
  next
    case False
    then show ?thesis using get Suc.prems by (simp add: gained_def)
  qed
qed simp

lemma setViaFromRequest_plain:
  assumes "list_all (plain True) (field_lines request SIP_VIA_FIELD)" and "int (length (field_entries request SIP_VIA_FIELD)) < BOTTOM_SUBFIELD"
  shows "returns (setViaFromRequest m request) (gained SIP_VIA_FIELD (field_entries request SIP_VIA_FIELD) m)"
  using via_loop_plain [OF assms le0, of "Suc (length (concat (header_values request SIP_VIA_FIELD)))" m] field_entries_length [of request SIP_VIA_FIELD]
  by (simp add: setViaFromRequest_def)

lemma echo_loop_lines:
  assumes "i \<le> length (field_lines request SIP_RECORD_ROUTE_FIELD)" and "length (header_values m SIP_RECORD_ROUTE_FIELD) = i"
  shows "gained SIP_RECORD_ROUTE_FIELD (map c_prefix (drop i (field_lines request SIP_RECORD_ROUTE_FIELD))) m (echo_loop request i m)"
  using assms
proof (induction "length (field_lines request SIP_RECORD_ROUTE_FIELD) - i" arbitrary: i m)
  case 0
  then show ?case using line_at [OF 0(2)] by (subst echo_loop.simps) (simp add: gained_def)
next
  case (Suc n)
  let ?ls = "field_lines request SIP_RECORD_ROUTE_FIELD"
  let ?m1 = "setHeaderValue m SIP_RECORD_ROUTE_FIELD (?ls ! i) i"
  have i: "i < length ?ls" using Suc.hyps(2) by simp
  have step: "echo_loop request i m = echo_loop request (Suc i) ?m1"
    using line_at [OF Suc.prems(1)] i by (subst echo_loop.simps) simp
  have key: "length (header_values m name) = i" if "header_key SIP_RECORD_ROUTE_FIELD = header_key name" for name
    using Suc.prems(2) header_is_cong [OF that] by (simp add: header_values_def)
  have one: "gained SIP_RECORD_ROUTE_FIELD [c_prefix (?ls ! i)] m ?m1"
    using key by (simp add: gained_def http.put_law kept_first_line)
  have "gained SIP_RECORD_ROUTE_FIELD (map c_prefix (drop (Suc i) ?ls)) ?m1 (echo_loop request (Suc i) ?m1)"
    by (rule Suc.hyps(1)) (use Suc.hyps(2) i one Suc.prems in \<open>auto simp: gained_def\<close>)
  then show ?case unfolding step using one i by (auto simp: gained_def Cons_nth_drop_Suc [symmetric])
qed

text \<open>The first line of a field as the accessors read it.\<close>

lemma field_value_hd: "field_value m name = (case header_values m name of [] \<Rightarrow> [] | v # _ \<Rightarrow> v)"
  by (auto simp: field_value_def getHeaderValue_values split: list.splits)

text \<open>The fields that a response copies from the request, all with different names.\<close>

lemma response_keys:
  "distinct (map header_key [SIP_FROM_FIELD, SIP_TO_FIELD, SIP_CALLID_FIELD, SIP_CSEQ_FIELD, SIP_CONTACT_FIELD, SIP_VIA_FIELD, SIP_RECORD_ROUTE_FIELD])"
  by code_simp

lemma header_values_first_line [simp]: "header_values (setResponseFirstHeaderLine m v c t) name = header_values m name"
  by (simp add: setResponseFirstHeaderLine_def setFirstHeaderLine_def header_values_def)

lemma response_fields:
  assumes "\<And>name. header_values m name = []" and "0 \<le> n"
    and r: "r = setResponseData_fields m code reason from to callId n meth contact tag"
  shows "header_values r SIP_FROM_FIELD = [c_prefix from]" "header_values r SIP_TO_FIELD = [c_prefix (response_to code to tag)]"
    "header_values r SIP_CALLID_FIELD = [c_prefix callId]" "header_values r SIP_VIA_FIELD = []" "header_values r SIP_RECORD_ROUTE_FIELD = []"
    "mFirstHeaderLine r = mFirstHeaderLine (setResponseFirstHeaderLine m SIP_PROTOCOL_VERSION code reason)"
    "header_values r SIP_CONTACT_FIELD = (case contact of None \<Rightarrow> [] | Some c \<Rightarrow> [c_prefix c])"
    "header_values r SIP_CSEQ_FIELD = [c_prefix (printf_d n @ '' '' @ c_prefix meth)]"
  using response_keys assms(1,2)
  by (auto simp: r setResponseData_fields_def setCSeqField_def setContactField_def http.put_law Let_def split: option.splits)

lemma getCSeqField_cong: "header_values m SIP_CSEQ_FIELD = header_values m' SIP_CSEQ_FIELD \<Longrightarrow> getCSeqField m = getCSeqField m'"
  by (simp add: getCSeqField_def getHeaderValue_values)

lemma getCSeqField_range: "getCSeqField m = (True, n, meth) \<Longrightarrow> 0 \<le> n \<and> n < 2 ^ 31"
  by (auto simp: getCSeqField_def Let_def split: option.splits if_splits prod.splits)

lemma isResponse_cong: "mFirstHeaderLine m = mFirstHeaderLine m' \<Longrightarrow> isResponse m = isResponse m'"
  by (simp add: isResponse_def)

lemma version_word: "line_word SIP_PROTOCOL_VERSION" "take 7 SIP_PROTOCOL_VERSION = SIP_PROTOCOL_VERSION"
  by code_simp+

lemma isResponse_response: "nul_free reason \<Longrightarrow> isResponse (setResponseFirstHeaderLine m SIP_PROTOCOL_VERSION code reason)"
  using isResponse_first_line [OF version_word(1), of "printf_d code" reason m] printf_d_ok [of code] version_word(2)
  by (simp add: setResponseFirstHeaderLine_def)

text \<open>The tag that a response adds does not take it out of the session, if a field without \<open>;tag=\<close> has no tag.\<close>

lemma sameSession_to:
  assumes "index_of '';tag='' to = None \<Longrightarrow> url_tag (url to) = []" and "nul_free to"
  shows "sameSession_urls (url (c_prefix (response_to code to tag))) (url to) True"
  using assms by (auto simp: sameSession_urls_def response_to_def str_cmp_0)

lemma sameSession_same: "sameSession_urls u u b"
  by (simp add: sameSession_urls_def str_cmp_0)

lemma blank_values: "header_values blank_message name = []"
  by (simp add: blank_message_def header_values_def)

text \<open>The fields of a response, and why they make it one to the request.\<close>

lemma response_from_request:
  assumes cseq: "getCSeqField request = (True, n, meth)" "line_word meth" and "nul_free reason"
    and nul: "nul_free (field_value request SIP_FROM_FIELD)" "nul_free (getCallIdField request)"
    and via: "list_all (plain True) (field_lines request SIP_VIA_FIELD)" "int (length (field_entries request SIP_VIA_FIELD)) < BOTTOM_SUBFIELD"
  shows "returns (setResponseData_request blank_message request code reason contact echo tag) (\<lambda>r.
           isResponse r \<and> mFirstHeaderLine r = mFirstHeaderLine (setResponseFirstHeaderLine blank_message SIP_PROTOCOL_VERSION code reason)
           \<and> getCSeqField r = (True, n, meth) \<and> header_values r SIP_FROM_FIELD = [field_value request SIP_FROM_FIELD]
           \<and> header_values r SIP_TO_FIELD = [c_prefix (response_to code (field_value request SIP_TO_FIELD) tag)]
           \<and> header_values r SIP_CALLID_FIELD = [getCallIdField request] \<and> header_values r SIP_VIA_FIELD = field_entries request SIP_VIA_FIELD
           \<and> header_values r SIP_RECORD_ROUTE_FIELD =
               (if echo \<and> isRecordRouteAccepted request then map c_prefix (field_lines request SIP_RECORD_ROUTE_FIELD) else [])
           \<and> header_values r SIP_CONTACT_FIELD = (case contact of None \<Rightarrow> [] | Some c \<Rightarrow> [c_prefix c]))"
proof -
  let ?from = "field_value request SIP_FROM_FIELD" and ?to = "field_value request SIP_TO_FIELD"
  let ?r0 = "setResponseData_fields blank_message code reason ?from ?to (getCallIdField request) n meth contact tag"
  note f = response_fields [OF blank_values conjunct1 [OF getCSeqField_range [OF cseq(1)]] refl, of code reason ?from ?to "getCallIdField request" meth contact tag]
  note keys = response_keys
  let ?RR = "if echo \<and> isRecordRouteAccepted request then map c_prefix (field_lines request SIP_RECORD_ROUTE_FIELD) else []"
  let ?es = "field_entries request SIP_VIA_FIELD"
  have rr: "gained SIP_RECORD_ROUTE_FIELD ?RR m (if echo \<and> isRecordRouteAccepted request then echo_loop request 0 m else m)"
    if "gained SIP_VIA_FIELD ?es ?r0 m" for m
    using that echo_loop_lines [OF le0, of m request] keys f(5) by (auto simp: gained_def)
  have resp: "isResponse ?r0" using isResponse_cong [OF f(6)] isResponse_response [OF assms(3)] by blast
  have "header_values (setCSeqField blank_message n meth) SIP_CSEQ_FIELD = [c_prefix (printf_d n @ '' '' @ c_prefix meth)]"
    by (simp add: setCSeqField_def http.put_law blank_values)
  then have seq: "getCSeqField m = (True, n, meth)" if "header_values m SIP_CSEQ_FIELD = [c_prefix (printf_d n @ '' '' @ c_prefix meth)]" for m
    using getCSeqField_cong [of m "setCSeqField blank_message n meth"] that getCSeqField_set [of n meth blank_message]
      getCSeqField_range [OF cseq(1)] cseq(2) by simp
  have result: "isResponse m2 \<and> mFirstHeaderLine m2 = mFirstHeaderLine (setResponseFirstHeaderLine blank_message SIP_PROTOCOL_VERSION code reason)
      \<and> getCSeqField m2 = (True, n, meth) \<and> header_values m2 SIP_FROM_FIELD = [?from]
      \<and> header_values m2 SIP_TO_FIELD = [c_prefix (response_to code ?to tag)]
      \<and> header_values m2 SIP_CALLID_FIELD = [getCallIdField request] \<and> header_values m2 SIP_VIA_FIELD = ?es \<and> header_values m2 SIP_RECORD_ROUTE_FIELD = ?RR
      \<and> header_values m2 SIP_CONTACT_FIELD = (case contact of None \<Rightarrow> [] | Some c \<Rightarrow> [c_prefix c])"
    if "gained SIP_VIA_FIELD ?es ?r0 m1" "gained SIP_RECORD_ROUTE_FIELD ?RR m1 m2" for m1 m2
  proof -
    have v: "mFirstHeaderLine m2 = mFirstHeaderLine ?r0" "header_values m2 name = header_values ?r0 name
        @ (if header_key SIP_VIA_FIELD = header_key name then ?es else []) @ (if header_key SIP_RECORD_ROUTE_FIELD = header_key name then ?RR else [])" for name
      using that by (simp_all add: gained_def)
    have others: "header_values m2 name = header_values ?r0 name" if "header_key name \<noteq> header_key SIP_VIA_FIELD" "header_key name \<noteq> header_key SIP_RECORD_ROUTE_FIELD" for name
      using that v(2) [of name] by auto
    have two: "header_values m2 SIP_VIA_FIELD = ?es" "header_values m2 SIP_RECORD_ROUTE_FIELD = ?RR"
      using v(2) [of SIP_VIA_FIELD] v(2) [of SIP_RECORD_ROUTE_FIELD] keys f by auto
    have five: "header_values m2 name = header_values ?r0 name" if "name \<in> {SIP_FROM_FIELD, SIP_TO_FIELD, SIP_CALLID_FIELD, SIP_CSEQ_FIELD, SIP_CONTACT_FIELD}" for name
      using that keys by (intro others) auto
    have "getCSeqField m2 = (True, n, meth)" by (rule seq) (simp add: five f)
    moreover have "isResponse m2" using resp isResponse_cong [OF v(1)] by simp
    ultimately show ?thesis by (simp add: v(1) two five f nul)
  qed
  show ?thesis
    unfolding setResponseData_request_def cseq(1) Let_def prod.case
    by (rule returns_bind [OF setViaFromRequest_plain [OF via, of ?r0]], unfold returns_simps)
       (rule result, assumption, erule rr)
qed

lemma isResponseTo_fields:
  assumes "\<not> isResponse request" and "getCSeqField request = (True, n, meth)" and "nul_free (field_value request SIP_TO_FIELD)"
    and url: "index_of '';tag='' (field_value request SIP_TO_FIELD) = None \<Longrightarrow> url_tag (url (field_value request SIP_TO_FIELD)) = []"
    and r: "isResponse r" "getCSeqField r = (True, n, meth)" "header_values r SIP_FROM_FIELD = [field_value request SIP_FROM_FIELD]"
      "header_values r SIP_TO_FIELD = [c_prefix (response_to code (field_value request SIP_TO_FIELD) tag)]"
      "header_values r SIP_CALLID_FIELD = [getCallIdField request]"
  shows "isResponseTo url r request"
  using assms sameSession_to [where url = url, OF url assms(3)] sameSession_same
  by (simp add: isResponseTo_def isSameSession_def field_value_hd [of r] getCallIdField_def str_cmp_0)

text \<open>C15. The response made from a request is a response to it (the same session, sequence number and method), whatever tag it adds to the To
  field; it repeats the Via entries of the request in their order, one on each line, and the Record-Route lines if the request accepts them,
  so that it takes the way of the request back.\<close>

theorem sip_response_matches:
  assumes "\<not> isResponse request" and "getCSeqField request = (True, n, meth)" and "line_word meth" and "nul_free reason"
    and "nul_free (field_value request SIP_FROM_FIELD)" and "nul_free (field_value request SIP_TO_FIELD)" and "nul_free (getCallIdField request)"
    and "index_of '';tag='' (field_value request SIP_TO_FIELD) = None \<Longrightarrow> url_tag (url (field_value request SIP_TO_FIELD)) = []"
    and "list_all (plain True) (field_lines request SIP_VIA_FIELD)" and "int (length (field_entries request SIP_VIA_FIELD)) < BOTTOM_SUBFIELD"
  shows "returns (setResponseData_request blank_message request code reason contact echo tag) (\<lambda>r.
           isResponseTo url r request
           \<and> header_values r SIP_TO_FIELD = [c_prefix (response_to code (field_value request SIP_TO_FIELD) tag)]
           \<and> header_values r SIP_VIA_FIELD = field_entries request SIP_VIA_FIELD
           \<and> header_values r SIP_RECORD_ROUTE_FIELD =
               (if echo \<and> isRecordRouteAccepted request then map c_prefix (field_lines request SIP_RECORD_ROUTE_FIELD) else [])
           \<and> header_values r SIP_CONTACT_FIELD = (case contact of None \<Rightarrow> [] | Some c \<Rightarrow> [c_prefix c]))"
  using response_from_request [OF assms(2-5,7,9,10), of code contact echo tag] isResponseTo_fields [where url = url, OF assms(1,2,6,8)]
  by (auto elim!: returns_mono)

definition sample_request :: http_message where
  "sample_request = fold (\<lambda>(n, v) m. addHeaderField m n v)
     [(''Via'', ''SIP/2.0/UDP proxy, SIP/2.0/TCP phone''), (''From'', ''<sip:a@x>;tag=1''), (''To'', ''<sip:b@y>''),
      (''Call-Id'', ''id1''), (''CSeq'', ''7 INVITE''), (''Record-Route'', ''<sip:proxy;lr>'')]
     (setRequestFirstHeaderLine blank_message ''INVITE'' ''sip:b@y'' SIP_PROTOCOL_VERSION)"

definition no_url :: "string \<Rightarrow> url_fields" where
  "no_url s = \<lparr>url_tag = [], url_user = s, url_host = [], url_port = PORT_NONE, url_transport = []\<rparr>"

theorem sip_response_matches_witness:
  "returns (setResponseData_request blank_message sample_request 200 ''OK'' None True ''9'') (\<lambda>r.
     isResponseTo no_url r sample_request
     \<and> header_values r SIP_TO_FIELD = [''<sip:b@y>;tag=9'']
     \<and> header_values r SIP_VIA_FIELD = [''SIP/2.0/UDP proxy'', '' SIP/2.0/TCP phone'']
     \<and> header_values r SIP_RECORD_ROUTE_FIELD = [''<sip:proxy;lr>''])"
proof -
  have h: "\<not> isResponse sample_request" "getCSeqField sample_request = (True, 7, ''INVITE'')" "line_word ''INVITE''" "nul_free ''OK''"
    "nul_free (field_value sample_request SIP_FROM_FIELD)" "nul_free (field_value sample_request SIP_TO_FIELD)"
    "nul_free (getCallIdField sample_request)" by code_simp+
  have url: "url_tag (no_url (field_value sample_request SIP_TO_FIELD)) = []" by (simp add: no_url_def)
  have via: "list_all (plain True) (field_lines sample_request SIP_VIA_FIELD)"
    "int (length (field_entries sample_request SIP_VIA_FIELD)) < BOTTOM_SUBFIELD" by code_simp+
  have v: "c_prefix (response_to 200 (field_value sample_request SIP_TO_FIELD) ''9'') = ''<sip:b@y>;tag=9''"
    "field_entries sample_request SIP_VIA_FIELD = [''SIP/2.0/UDP proxy'', '' SIP/2.0/TCP phone'']"
    "map c_prefix (field_lines sample_request SIP_RECORD_ROUTE_FIELD) = [''<sip:proxy;lr>'']" "isRecordRouteAccepted sample_request" by code_simp+
  show ?thesis
    by (rule returns_mono [OF sip_response_matches [where url = no_url, OF h url via, where code = 200 and contact = None and echo = True and tag = "''9''"]])
       (simp only: v simp_thms if_True)
qed

end
