(* ===== verification/SipVia.thy ===== *)
theory SipVia
  imports SipHeaders UtlHashBag
begin

text \<open>
  The parameters of a Via entry (\<open>parseViaParameters\<close>, \<open>getViaTag\<close> and \<open>removeTopVia\<close> of \<^verbatim>\<open>sipXtackLib/src/net/SipMessage.cpp\<close>). They are
  cut out of the text by \<open>NameValueTokenizer\<close> and collected in a hash bag, where \<open>getViaTag\<close> looks one up by its
  name, with regard to case.
\<close>

section \<open>Parameters\<close>

text \<open>The first subfield of a text: where it begins and where it ends.\<close>

definition first_subfield :: "string \<Rightarrow> string \<Rightarrow> (nat \<times> nat) option" where
  "first_subfield separators s =
     (case subfield_loop False separators 0 s 0 (-1) 0 (-1) of
        Some (i, b, e) \<Rightarrow> if i = 0 then Some (nat b, nat e) else None
      | None \<Rightarrow> None)"

definition param_white :: "char \<Rightarrow> bool" where
  "param_white c \<longleftrightarrow> c = CHR '' '' \<or> c = CHR 0x09 \<or> c = CHR 0x0A \<or> c = CHR 0x0D"

text \<open>
  One parameter, of \<open>n\<close> characters at the front of a text. The characters that separate the
  name from the value are counted in the whole text, the value ends with the parameter.
\<close>

definition via_param :: "string \<Rightarrow> nat \<Rightarrow> nv list" where
  "via_param s n =
     (case first_subfield ''='' (take n s) of
        None \<Rightarrow> []
      | Some (b, e) \<Rightarrow>
          (let name = dropWhile is_separator (take (e - b) (drop b s)) in
           if name = [] then []
           else
             let valueSeparatorOffset = length (takeWhile (\<lambda>c. c = CHR ''='') (drop e s));
                 valuePtr = drop (e + valueSeparatorOffset) s;
                 valueLength = int n - int (e + valueSeparatorOffset);
                 value = (if valueSeparatorOffset = 0 \<or> valuePtr = [] \<or> valueLength \<le> 0 then []
                          else frontBackTrim param_white (take (nat valueLength) valuePtr))
             in [NV (frontBackTrim param_white name) (c_prefix value)]))"

text \<open>The loop, from a place in the field on: the pairs in the order in which they are inserted into the bag.\<close>

function via_params :: "string \<Rightarrow> nat \<Rightarrow> nv list" where
  "via_params viaField lastCharIndex =
     (case first_subfield '';'' (drop lastCharIndex viaField) of
        None \<Rightarrow> []
      | Some (b, e) \<Rightarrow>
          if b < e then
            via_param (drop (lastCharIndex + b) viaField) (e - b)
            @ (if lastCharIndex + e < length viaField then via_params viaField (lastCharIndex + e) else [])
          else [])"
  by pat_completeness auto
termination by (relation "measure (\<lambda>(v, i). length v - i)") auto

declare via_params.simps [simp del]

definition parseViaParameters :: "string \<Rightarrow> nv list" where
  "parseViaParameters viaField = via_params (c_prefix viaField) 0"

fun insert_params :: "nv list \<Rightarrow> nv bag \<Rightarrow> nv bag option" where
  "insert_params [] bag = Some bag"
| "insert_params (p # ps) bag = do { (bag1, _) \<leftarrow> bag_insert nv_hash bag (Some p); insert_params ps bag1 }"

text \<open>Whether the parameter was found, and its value.\<close>

definition getViaTag :: "string \<Rightarrow> string \<Rightarrow> (bool \<times> string) option" where
  "getViaTag viaField tagName = do {
     bag \<leftarrow> insert_params (parseViaParameters viaField) UtlHashBag_new;
     pair \<leftarrow> bag_find nv_hash (\<lambda>p q. nv_cmp p q = 0) bag (NV (c_prefix tagName) []);
     Some (case pair of Some p \<Rightarrow> (True, nv_value p) | None \<Rightarrow> (False, [])) }"

text \<open>\<open>removeTopVia\<close> takes the first entry off the first Via line; what is left of the line goes in front of the other Via lines.\<close>

definition removeTopVia :: "http_message \<Rightarrow> http_message \<times> bool" where
  "removeTopVia m =
     (let viaField = field_value m SIP_VIA_FIELD;
          NewViaHeader = (if CHR '','' \<in> set viaField
            then strip_spec (\<lambda>c. c = CHR '' '') both (tl (dropWhile (\<lambda>c. c \<noteq> CHR '','') viaField)) else []);
          (m1, fieldFound) = (case match_at (\<lambda>h. nv_cmp h (NameValuePair SIP_VIA_FIELD []) = 0) 0 (mNameValues m) of
             Some k \<Rightarrow> (m\<lparr>mNameValues := take k (mNameValues m) @ drop (Suc k) (mNameValues m)\<rparr>, True)
           | None \<Rightarrow> (m, False)) in
      (if NewViaHeader \<noteq> [] then addViaField m1 NewViaHeader True else m1, fieldFound))"

section \<open>What the tokenizer cuts out\<close>

lemma subfield_in_piece:
  "nul_free s \<Longrightarrow> separatorIndex + 1 < charIndex \<Longrightarrow>
     subfield_loop False separators 0 s charIndex (-1) subFieldBegin separatorIndex =
       Some (0, separatorIndex + 1, charIndex + int (length (takeWhile (\<lambda>c. c \<notin> set separators) s)))"
proof (induction s arbitrary: charIndex)
  case (Cons c s)
  then show ?case by (cases "c \<in> set separators") (simp_all add: subfield_loop.simps)
qed (simp add: subfield_loop.simps)

lemma subfield_from_start:
  "nul_free s \<Longrightarrow> separatorIndex + 1 = charIndex \<Longrightarrow>
     subfield_loop False separators 0 s charIndex (-1) subFieldBegin separatorIndex =
       (let b = int (length (takeWhile (\<lambda>c. c \<in> set separators) s));
            n = int (length (takeWhile (\<lambda>c. c \<notin> set separators) (dropWhile (\<lambda>c. c \<in> set separators) s)))
        in Some (0, charIndex + b, charIndex + b + n))"
proof (induction s arbitrary: charIndex separatorIndex subFieldBegin)
  case (Cons c s)
  show ?case
  proof (cases "c \<in> set separators")
    case True
    then show ?thesis
      using Cons.IH [of charIndex "charIndex + 1" "separatorIndex + 1"] Cons.prems by (simp add: subfield_loop.simps [of _ _ _ "c # s"] Let_def)
  next
    case False
    then show ?thesis
      using subfield_in_piece [of s separatorIndex "charIndex + 1" separators subFieldBegin] Cons.prems
      by (simp add: subfield_loop.simps [of _ _ _ "c # s"] Let_def)
  qed
qed (simp add: subfield_loop.simps)

lemma first_subfield_spec:
  assumes "nul_free s"
  shows "first_subfield separators s =
           (let b = length (takeWhile (\<lambda>c. c \<in> set separators) s);
                n = length (takeWhile (\<lambda>c. c \<notin> set separators) (dropWhile (\<lambda>c. c \<in> set separators) s))
            in Some (b, b + n))"
  using subfield_from_start [OF assms, of "-1" 0 separators 0] by (simp add: first_subfield_def Let_def nat_add_distrib)

text \<open>The reference: the name is what stands before the first equals sign, the value what stands behind the run of equals signs there.\<close>

definition param_of :: "string \<Rightarrow> nv list" where
  "param_of p =
     (let q = dropWhile (\<lambda>c. c = CHR ''='') p;
          name = dropWhile is_separator (takeWhile (\<lambda>c. c \<noteq> CHR ''='') q);
          value = dropWhile (\<lambda>c. c = CHR ''='') (dropWhile (\<lambda>c. c \<noteq> CHR ''='') q)
      in if name = [] then [] else [NV (frontBackTrim param_white name) (frontBackTrim param_white value)])"

lemma takeWhile_append_stop: "r = [] \<or> \<not> P (hd r) \<Longrightarrow> takeWhile P (xs @ r) = takeWhile P xs"
  by (induction xs) (auto simp: takeWhile_eq_Nil_iff)

lemma drop_takeWhile: "drop (length (takeWhile P xs)) (xs @ r) = dropWhile P xs @ r"
  using length_takeWhile_le [of P xs] by (simp add: dropWhile_eq_drop)

lemma nul_free_sub: "set t \<subseteq> set s \<Longrightarrow> nul_free s \<Longrightarrow> nul_free t"
  by (auto simp: nul_free_def)

lemma set_frontBackTrim: "set (frontBackTrim P s) \<subseteq> set s"
  by (auto simp: frontBackTrim_def drop_back_def dest!: set_dropWhileD)

lemma via_param_spec:
  assumes s: "s = p @ r" and nul: "nul_free s" and r: "r = [] \<or> hd r = CHR '';''"
  shows "via_param s (length p) = param_of p"
proof -
  let ?eq = "\<lambda>c. c = CHR ''=''"
  define q where "q = dropWhile ?eq p"
  define u where "u = dropWhile (\<lambda>c. c \<noteq> CHR ''='') q"
  define b where "b = length (takeWhile ?eq p)"
  define k where "k = length (takeWhile (\<lambda>c. c \<noteq> CHR ''='') q)"
  define off where "off = length (takeWhile ?eq u)"
  have front: "take (length p) s = p" using s by simp
  have first: "first_subfield ''='' p = Some (b, b + k)"
    using first_subfield_spec [of p "''=''"] nul s by (simp add: b_def k_def q_def Let_def)
  have qr: "drop b s = q @ r" unfolding b_def q_def s by (rule drop_takeWhile)
  have name: "take k (drop b s) = takeWhile (\<lambda>c. c \<noteq> CHR ''='') q"
    unfolding qr k_def by (simp add: takeWhile_eq_take [symmetric] length_takeWhile_le)
  have ur: "drop (b + k) s = u @ r"
    using drop_takeWhile [of "\<lambda>c. c \<noteq> CHR ''=''" q r] arg_cong [OF qr, of "drop k"] unfolding k_def u_def by (simp only: drop_drop add.commute)
  have count: "length (takeWhile ?eq (drop (b + k) s)) = off"
    unfolding ur off_def using takeWhile_append_stop [of r ?eq u] r by auto
  have rest: "drop (b + k + off) s = dropWhile ?eq u @ r"
    using drop_takeWhile [of ?eq u r] arg_cong [OF ur, of "drop off"] unfolding off_def by (simp only: drop_drop add.commute)
  have len: "int (length p) - int (b + k + off) = int (length (dropWhile ?eq u))"
  proof -
    have "length p = b + length q" "length q = k + length u" "length u = off + length (dropWhile ?eq u)"
      unfolding b_def q_def k_def u_def off_def
      by (metis length_append takeWhile_dropWhile_id)+
    then show ?thesis by simp
  qed
  have zero: "dropWhile ?eq u = []" if "off = 0"
  proof -
    have "u = [] \<or> hd u = CHR ''=''" unfolding u_def using hd_dropWhile [of "\<lambda>c. c \<noteq> CHR ''=''" q] by blast
    then show ?thesis using that by (cases u) (auto simp: off_def)
  qed
  have sub: "set (frontBackTrim param_white (dropWhile ?eq u)) \<subseteq> set p"
    using set_frontBackTrim [of param_white "dropWhile ?eq u"] by (auto simp: u_def q_def dest!: set_dropWhileD)
  have keep: "c_prefix (frontBackTrim param_white (dropWhile ?eq u)) = frontBackTrim param_white (dropWhile ?eq u)"
    using nul_free_sub [OF sub] nul s by simp
  have empty: "frontBackTrim param_white [] = []" by (simp add: frontBackTrim_def drop_back_def)
  define w where "w = dropWhile ?eq u"
  have "(if off = 0 \<or> w @ r = [] \<or> int (length w) \<le> 0 then [] else frontBackTrim param_white (take (nat (int (length w))) (w @ r))) = frontBackTrim param_white w"
    using zero [folded w_def] empty by (cases "w = []") auto
  then show ?thesis
    unfolding via_param_def front first option.case prod.case diff_add_inverse name count rest len param_of_def Let_def
      q_def [symmetric] u_def [symmetric] w_def [symmetric]
    using keep [folded w_def] by simp
qed

lemma subfields_skip: "subfields separators (dropWhile (\<lambda>c. c \<in> set separators) s) = subfields separators s"
  by (induction s) (simp_all add: subfields_def)

lemma subfields_first:
  assumes "p \<noteq> []" and "list_all (\<lambda>c. c \<notin> set separators) p" and "r = [] \<or> hd r \<in> set separators"
  shows "subfields separators (p @ r) = p # subfields separators r"
proof (cases r)
  case Nil
  then show ?thesis using assms pieces_one [of "\<lambda>c. c \<in> set separators" p] by (simp add: subfields_def)
next
  case (Cons c t)
  then have c: "c \<in> set separators" using assms(3) by simp
  then show ?thesis
    using assms(1,2) pieces_split [of "\<lambda>c. c \<in> set separators" p c t] Cons by (simp add: subfields_def)
qed

text \<open>The loop over the field cuts it at the semicolons.\<close>

lemma via_params_spec:
  assumes "nul_free v"
  shows "via_params v i = concat (map param_of (subfields '';'' (drop i v)))"
proof (induction "length v - i" arbitrary: i rule: less_induct)
  case less
  let ?semi = "\<lambda>c. c \<in> set '';''"
  define s where "s = drop i v"
  define b where "b = length (takeWhile ?semi s)"
  define t where "t = dropWhile ?semi s"
  define p where "p = takeWhile (\<lambda>c. c \<notin> set '';'') t"
  define r where "r = dropWhile (\<lambda>c. c \<notin> set '';'') t"
  have nul: "nul_free s" using assms by (auto simp: s_def nul_free_def dest: in_set_dropD)
  have first: "first_subfield '';'' s = Some (b, b + length p)"
    using first_subfield_spec [OF nul, of "'';''"] by (simp add: b_def p_def t_def Let_def)
  have t: "drop (i + b) v = p @ r" using dropWhile_eq_drop [of ?semi s] by (simp add: s_def b_def t_def p_def r_def add.commute)
  have r: "r = [] \<or> hd r = CHR '';''" unfolding r_def using hd_dropWhile [of "\<lambda>c. c \<notin> set '';''" t] by auto
  have sub: "subfields '';'' s = subfields '';'' (p @ r)" using subfields_skip [of "'';''" s] by (simp add: t_def p_def r_def)
  show ?case
  proof (cases "p = []")
    case True
    have "t = []"
    proof (rule ccontr)
      assume "t \<noteq> []"
      then have "\<not> ?semi (hd t)" unfolding t_def by (rule hd_dropWhile)
      then show False using True \<open>t \<noteq> []\<close> by (cases t) (auto simp: p_def)
    qed
    then have "subfields '';'' s = []" using sub by (simp add: p_def r_def subfields_def)
    then show ?thesis using True first by (subst via_params.simps) (simp add: s_def)
  next
    case False
    have nulp: "nul_free (p @ r)" using assms by (auto simp: t [symmetric] nul_free_def dest: in_set_dropD)
    have rest: "drop (i + (b + length p)) v = r"
      using arg_cong [OF t, of "drop (length p)"] by (simp add: add.commute add.left_commute)
    have fields: "subfields '';'' s = p # subfields '';'' r"
      unfolding sub by (rule subfields_first [OF False]) (use r in \<open>auto simp: p_def list_all_iff dest: set_takeWhileD\<close>)
    have more: "i + (b + length p) < length v \<longleftrightarrow> r \<noteq> []" using rest by auto
    have step: "via_params v i = param_of p @ (if r \<noteq> [] then via_params v (i + (b + length p)) else [])"
      using False first more via_param_spec [OF refl nulp r] t by (subst via_params.simps) (simp add: s_def)
    have "via_params v (i + (b + length p)) = concat (map param_of (subfields '';'' r))" if "r \<noteq> []"
      using less [of "i + (b + length p)"] more that False rest by (cases p) auto
    then show ?thesis unfolding step using fields by (auto simp: s_def subfields_def)
  qed
qed

section \<open>Looking a parameter up\<close>

interpretation via_pairs: containable nv_hash "\<lambda>p q. nv_cmp p q = 0" "\<lambda>p. nul_free (nv_name p)"
  by unfold_locales (auto simp: nv_cmp_def nv_hash_def str_cmp_0)

lemma insert_params_ok:
  assumes "bag_ok nv_hash bag" and "mElements bag + length ps < SIZE_MOD"
  shows "returns (insert_params ps bag) (\<lambda>bag'. bag_ok nv_hash bag' \<and> bag_contents bag' = bag_contents bag + mset ps)"
  using assms
proof (induction ps arbitrary: bag)
  case (Cons p ps)
  have size: "mElements b = size (bag_contents b)" if "bag_ok nv_hash b" for b using that by (simp add: bag_ok_def bag_contents_def)
  have room: "Suc (mElements bag) < SIZE_MOD" using Cons.prems by simp
  have "returns (bag_insert nv_hash bag (Some p) \<bind> (\<lambda>(bag1, _). insert_params ps bag1))
      (\<lambda>bag'. bag_ok nv_hash bag' \<and> bag_contents bag' = bag_contents bag + mset (p # ps))"
  proof (rule returns_bind [OF bag_insert_ok [OF Cons.prems(1) room, of p]], goal_cases)
    case (1 x)
    then obtain b where x: "x = (b, Some p)" "bag_ok nv_hash b" "bag_contents b = add_mset p (bag_contents bag)" by (cases x) auto
    have "mElements b + length ps < SIZE_MOD" using size [OF x(2)] size [OF Cons.prems(1)] x(3) Cons.prems(2) by simp
    from Cons.IH [OF x(2) this] show ?case using x by (auto elim!: returns_mono)
  qed
  then show ?case by simp
qed simp

lemma parse_bound: "nul_free v \<Longrightarrow> length (parseViaParameters v) \<le> length v"
proof -
  assume "nul_free v"
  have "length (concat (map param_of ps)) \<le> length ps" for ps by (induction ps) (auto simp: param_of_def Let_def)
  from this [of "subfields '';'' v"] show ?thesis
    using via_params_spec [OF \<open>nul_free v\<close>, of 0] \<open>nul_free v\<close> subfields_length [of "'';''" v] by (simp add: parseViaParameters_def)
qed

lemma parse_names:
  assumes "nul_free v" and "p \<in> set (parseViaParameters v)"
  shows "nul_free (nv_name p)"
proof -
  obtain q where q: "q \<in> set (subfields '';'' v)" "p \<in> set (param_of q)"
    using assms via_params_spec [OF assms(1), of 0] by (auto simp: parseViaParameters_def)
  have "set (nv_name p) \<subseteq> set q"
    using q(2) set_frontBackTrim by (fastforce simp: param_of_def Let_def split: if_splits dest!: set_dropWhileD set_takeWhileD)
  moreover have "set q \<subseteq> set v" using q(1) pieces_chars by (auto simp: subfields_def)
  ultimately show ?thesis using assms(1) by (intro nul_free_sub [of "nv_name p" v]) auto
qed

lemma getViaTag_spec:
  assumes "nul_free v" and "length v < SIZE_MOD"
  shows "returns (getViaTag v tagName) (\<lambda>(found, value).
           if found then \<exists>p \<in> set (parseViaParameters v). nv_name p = c_prefix tagName \<and> value = nv_value p
           else value = [] \<and> (\<forall>p \<in> set (parseViaParameters v). nv_name p \<noteq> c_prefix tagName))"
proof -
  let ?ps = "parseViaParameters v"
  have "mElements (UtlHashBag_new :: nv bag) + length ?ps < SIZE_MOD"
    using parse_bound [OF assms(1)] assms(2) by (simp add: UtlHashBag_new_def)
  note fill = insert_params_ok [OF bag_new_ok(1) this]
  show ?thesis
    unfolding getViaTag_def
  proof (rule returns_bind [OF fill], goal_cases)
    case (1 bag)
    then have ok: "bag_ok nv_hash bag" and cont: "set_mset (bag_contents bag) = set ?ps" by (auto simp: bag_new_ok)
    have names: "\<forall>x \<in># bag_contents bag. nul_free (nv_name x)" using parse_names [OF assms(1)] cont by auto
    have "returns (bag_find nv_hash (\<lambda>p q. nv_cmp p q = 0) bag (NV (c_prefix tagName) [])) (\<lambda>r. case r of
        None \<Rightarrow> \<not> (\<exists>x \<in> set ?ps. nv_name x = c_prefix tagName) | Some x \<Rightarrow> x \<in> set ?ps \<and> nv_name x = c_prefix tagName)"
      by (rule returns_mono [OF via_pairs.bag_find_ok [OF ok _ names]]) (use names cont in \<open>auto simp: nv_cmp_def str_cmp_0 split: option.splits\<close>)
    then show ?case by (rule returns_bind) (auto split: option.splits)
  qed
qed

text \<open>C19. The parameters of a Via entry are its pieces between semicolons, each cut at its equals signs; \<open>getViaTag\<close> finds a parameter
  exactly when a piece has its name, and returns the value of such a piece (the value, if there is only one).\<close>

theorem via_parameters:
  assumes "nul_free v" and "length v < SIZE_MOD"
  shows "parseViaParameters v = concat (map param_of (subfields '';'' v))
         \<and> returns (getViaTag v tagName) (\<lambda>(found, value).
             if found then \<exists>p \<in> set (parseViaParameters v). nv_name p = c_prefix tagName \<and> value = nv_value p
             else value = [] \<and> (\<forall>p \<in> set (parseViaParameters v). nv_name p \<noteq> c_prefix tagName))"
  using via_params_spec [OF assms(1), of 0] assms(1) getViaTag_spec [OF assms] by (simp add: parseViaParameters_def)

theorem via_parameters_witness:
  "getViaTag ''SIP/2.0/UDP 10.1.1.1:5060 ; branch=z9hG4bK77;rport'' ''branch'' = Some (True, ''z9hG4bK77'')"
proof -
  let ?v = "''SIP/2.0/UDP 10.1.1.1:5060 ; branch=z9hG4bK77;rport''"
  have h: "nul_free ?v" "length ?v < SIZE_MOD" by code_simp+
  have p: "parseViaParameters ?v = [NV ''SIP/2.0/UDP 10.1.1.1:5060'' [], NV ''branch'' ''z9hG4bK77'', NV ''rport'' []]" "c_prefix ''branch'' = ''branch''"
    by code_simp+
  show ?thesis using conjunct2 [OF via_parameters [OF h, of "''branch''"]] unfolding p by (auto simp: returns_iff split: if_splits)
qed

end
