(* ===== verification/BranchId.thy ===== *)
theory BranchId
  imports SipVia NetBase64Codec UtlRegex
begin

text \<open>
  Branch identifiers of Via entries (\<^verbatim>\<open>sipXtackLib/src/net/BranchId.cpp\<close>): a fixed cookie, a counter, a signature over a secret, the
  counter and the Call-Id, and, for a request that is forked, a loop detection key, which is a signature over the URIs
  it is forked to. A request that comes back to a proxy carries the identifiers of the earlier pass in its Via
  entries, and \<open>loopDetected\<close> compares the keys.

  The regular expression engine is the parameter \<open>br_exec\<close>, of which \<open>br_law\<close> states what it does with the
  one pattern of this class; class \<open>Url\<close> is the function that gives the URI a contact is compared by. The static members of the class, the
  secret and the counter, are arguments and results.
\<close>

section \<open>State\<close>

record branch_env =
  br_exec :: pcre_exec
  br_mem :: "byte list"
  br_vec :: "int list"

record branch_id =
  bid_string :: string
  mParentStringValid :: bool
  mLoopDetectionKey :: string
  mForks :: "string ulist"

definition RFC3261_MAGIC_COOKIE :: string where "RFC3261_MAGIC_COOKIE = ''z9hG4bK''"
definition SIPXECS_MAGIC_COOKIE :: string where "SIPXECS_MAGIC_COOKIE = ''z9hG4bK-XX-''"
definition SIPXECS_LOOP_KEY_SEPARATOR :: string where "SIPXECS_LOOP_KEY_SEPARATOR = ''~''"

definition setSecret :: "string \<Rightarrow> string \<Rightarrow> string" where
  "setSecret smIdSecret secret =
     (if smIdSecret \<noteq> [] \<and> str_cmp smIdSecret secret \<noteq> 0 then [] else smIdSecret) @ secret"

section \<open>Generating\<close>

text \<open>\<^verbatim>\<open>%04x\<close> of a number below \<open>0x10000\<close>; the bytes of a \<open>size_t\<close>.\<close>

definition hex4 :: "nat \<Rightarrow> string" where
  "hex4 n = map hex_digit [n div 4096 mod 16, n div 256 mod 16, n div 16 mod 16, n mod 16]"

definition size_bytes :: "nat \<Rightarrow> byte list" where
  "size_bytes n = map (\<lambda>i. word_of_nat (n div 256 ^ i)) [0..<8]"

definition generateUniquePart :: "branch_env \<Rightarrow> string \<Rightarrow> http_message \<Rightarrow> nat \<Rightarrow> string option" where
  "generateUniquePart env smIdSecret message uniqueCounter = do {
     c \<leftarrow> hash_pieces (NetMd5Codec_new (br_mem env))
            [bytes_of smIdSecret, size_bytes uniqueCounter, bytes_of (getCallIdField message)];
     (_, uniqueValue) \<leftarrow> appendBase64Sig c (SIPXECS_MAGIC_COOKIE @ hex4 (uniqueCounter mod 0x10000)) SipTokenSafeAlphabet;
     Some uniqueValue }"

definition next_counter :: "nat \<Rightarrow> nat" where
  "next_counter smCounter = (smCounter + 1) mod 0x10000"

definition BranchId_message :: "branch_env \<Rightarrow> string \<Rightarrow> nat \<Rightarrow> http_message \<Rightarrow> (branch_id \<times> nat) option" where
  "BranchId_message env smIdSecret smCounter message = do {
     v \<leftarrow> generateUniquePart env smIdSecret message smCounter;
     Some (\<lparr>bid_string = v, mParentStringValid = True, mLoopDetectionKey = [], mForks = UtlList_new\<rparr>, next_counter smCounter) }"

definition BranchId_existing :: "string \<Rightarrow> branch_id" where
  "BranchId_existing existingBranchIdValue =
     \<lparr>bid_string = existingBranchIdValue, mParentStringValid = True, mLoopDetectionKey = [], mForks = UtlList_new\<rparr>"

text \<open>The URI of the contact is put into the ordered list, unless it is there.\<close>

definition addFork :: "('u \<Rightarrow> string) \<Rightarrow> branch_id \<Rightarrow> 'u \<Rightarrow> branch_id" where
  "addFork contact_uri b contact =
     (let contactUri = contact_uri contact in
      b\<lparr>mParentStringValid := False,
        mForks := (if sorted_contains str_cmp (mForks b) contactUri then mForks b
                   else sorted_insert str_cmp str_hash (mForks b) (linkPool (mForks b), contactUri))\<rparr>)"

section \<open>Parsing\<close>

definition hex_value :: "string \<Rightarrow> nat" where
  "hex_value s = fold (\<lambda>c n. 16 * n + (let d = of_char c :: nat in
     if isdigit c then d - 48 else if 97 \<le> d then d - 87 else d - 55)) s 0"

text \<open>The counter, the unique part and the loop detection key of an identifier of this class.\<close>

definition branch_parse :: "branch_env \<Rightarrow> string \<Rightarrow> (nat \<times> string \<times> string) option option" where
  "branch_parse env branchValue = do {
     (re, isAsipXbranch) \<leftarrow> Search (br_exec env) (RegEx_copy (RegEx_new 3 (br_vec env)) (br_vec env)) (map Some branchValue @ [Some NUL]) (-1) False;
     if isAsipXbranch then do {
       (m1, _) \<leftarrow> MatchString re (Some []) 1;
       hexCounter \<leftarrow> m1;
       (m2, _) \<leftarrow> MatchString re (Some []) 2;
       uniqueValue \<leftarrow> m2;
       (m3, had3) \<leftarrow> MatchString re (Some []) 3;
       loopDetectKey \<leftarrow> m3;
       Some (Some (hex_value hexCounter, uniqueValue, if had3 then loopDetectKey else [])) }
     else Some None }"

definition generateFullValue :: "branch_env \<Rightarrow> branch_id \<Rightarrow> branch_id option" where
  "generateFullValue env b =
     (if mParentStringValid b then Some b
      else do {
        c \<leftarrow> hash_pieces (NetMd5Codec_new (br_mem env)) (map (\<lambda>n. bytes_of (nobj n)) (nodes (mForks b)));
        (_, key) \<leftarrow> appendBase64Sig c [] SipTokenSafeAlphabet;
        r \<leftarrow> branch_parse env (bid_string b);
        Some (case r of
                Some (existingCounter, existingUniquePart, oldLoopKey) \<Rightarrow>
                  b\<lparr>mLoopDetectionKey := key,
                    bid_string := SIPXECS_MAGIC_COOKIE @ hex4 (existingCounter mod 0x10000) @ existingUniquePart
                      @ (if key \<noteq> [] then SIPXECS_LOOP_KEY_SEPARATOR @ key else []),
                    mParentStringValid := True\<rparr>
              | None \<Rightarrow> b\<lparr>mLoopDetectionKey := key\<rparr>) })"

text \<open>The branch of a client transaction of a proxy has the key of the server transaction.\<close>

definition BranchId_child :: "branch_env \<Rightarrow> string \<Rightarrow> nat \<Rightarrow> branch_id \<Rightarrow> http_message \<Rightarrow> (branch_id \<times> branch_id \<times> nat) option" where
  "BranchId_child env smIdSecret smCounter parentId message = do {
     v \<leftarrow> generateUniquePart env smIdSecret message smCounter;
     p \<leftarrow> generateFullValue env parentId;
     Some (\<lparr>bid_string = v @ (if mLoopDetectionKey p \<noteq> [] then SIPXECS_LOOP_KEY_SEPARATOR @ mLoopDetectionKey p else []),
            mParentStringValid = True, mLoopDetectionKey = mLoopDetectionKey p, mForks = UtlList_new\<rparr>, p, next_counter smCounter) }"

definition branch_data :: "branch_env \<Rightarrow> branch_id \<Rightarrow> (branch_id \<times> string) option" where
  "branch_data env b = map_option (\<lambda>b1. (b1, bid_string b1)) (generateFullValue env b)"

definition branch_equals :: "branch_env \<Rightarrow> branch_id \<Rightarrow> string \<Rightarrow> (branch_id \<times> bool) option" where
  "branch_equals env b otherBranchId = map_option (\<lambda>b1. (b1, str_cmp (bid_string b1) otherBranchId = 0)) (generateFullValue env b)"

definition isRFC3261 :: "string \<Rightarrow> bool" where
  "isRFC3261 otherBranchId \<longleftrightarrow> take (length RFC3261_MAGIC_COOKIE) otherBranchId = RFC3261_MAGIC_COOKIE"

section \<open>Loop detection\<close>

text \<open>Whether the branch of one Via entry has the key and was signed here.\<close>

definition hop_matches :: "branch_env \<Rightarrow> string \<Rightarrow> string \<Rightarrow> http_message \<Rightarrow> string \<Rightarrow> bool option" where
  "hop_matches env smIdSecret key message via = do {
     (found, branch) \<leftarrow> getViaTag via ''branch'';
     if found then do {
       r \<leftarrow> branch_parse env branch;
       case r of
         None \<Rightarrow> Some False
       | Some (counter, uniqueKey, loopDetectKey) \<Rightarrow>
           if str_cmp key loopDetectKey = 0 then do {
             generatedKey \<leftarrow> generateUniquePart env smIdSecret message counter;
             let generatedSignature = drop (length SIPXECS_MAGIC_COOKIE + 4) generatedKey;
             Some (str_cmp generatedSignature uniqueKey = 0) }
           else Some False }
     else Some False }"

text \<open>The loop over the Via entries, of which a message has no more than characters.\<close>

fun loop_hops :: "nat \<Rightarrow> branch_env \<Rightarrow> string \<Rightarrow> string \<Rightarrow> http_message \<Rightarrow> nat \<Rightarrow> nat option" where
  "loop_hops 0 env smIdSecret key message viaNumber = None"
| "loop_hops (Suc fuel) env smIdSecret key message viaNumber =
     (case getViaFieldSubField message viaNumber of
        None \<Rightarrow> Some 0
      | Some via \<Rightarrow> do {
          hit \<leftarrow> hop_matches env smIdSecret key message via;
          if hit then Some (Suc viaNumber) else loop_hops fuel env smIdSecret key message (Suc viaNumber) })"

definition loopDetected :: "branch_env \<Rightarrow> string \<Rightarrow> branch_id \<Rightarrow> http_message \<Rightarrow> (branch_id \<times> nat) option" where
  "loopDetected env smIdSecret b message = do {
     b1 \<leftarrow> generateFullValue env b;
     loopDetectedWithHop \<leftarrow>
       (if mLoopDetectionKey b1 \<noteq> []
        then loop_hops (Suc (length (concat (header_values message SIP_VIA_FIELD)))) env smIdSecret (mLoopDetectionKey b1) message 0
        else Some 0);
     Some (b1, loopDetectedWithHop) }"

definition topViaIsMyBranch :: "branch_env \<Rightarrow> string \<Rightarrow> http_message \<Rightarrow> bool option" where
  "topViaIsMyBranch env smIdSecret response =
     (case getViaFieldSubField response 0 of
        None \<Rightarrow> Some False
      | Some via \<Rightarrow> do {
          (found, branch) \<leftarrow> getViaTag via ''branch'';
          if found then do {
            r \<leftarrow> branch_parse env branch;
            case r of
              None \<Rightarrow> Some False
            | Some (counter, uniqueKey, loopDetectKey) \<Rightarrow> do {
                generatedKey \<leftarrow> generateUniquePart env smIdSecret response counter;
                Some (str_cmp generatedKey uniqueKey = 0) } }
          else Some False })"

section \<open>What the regular expression matches\<close>

text \<open>
  \<^verbatim>\<open>^z9hG4bK-XX-([0-9a-fA-F]{4})([0-9a-zA-Z_`]{22})(?:\~([0-9a-zA-Z_`]{22}))?$\<close>: whether the subject matches, and then whether it has a loop detection key. The
  dollar sign also matches before a newline at the end.
\<close>

definition hex_char :: "char \<Rightarrow> bool" where
  "hex_char c \<longleftrightarrow> c \<in> set ''0123456789abcdefABCDEF''"

definition sig_char :: "char \<Rightarrow> bool" where
  "sig_char c \<longleftrightarrow> isalnum c \<or> c = CHR ''_'' \<or> c = CHR 0x60"

definition at_end :: "string \<Rightarrow> bool" where
  "at_end s \<longleftrightarrow> s = [] \<or> s = [CHR 0x0A]"

definition br_ref :: "string \<Rightarrow> bool option" where
  "br_ref s =
     (if take 11 s = SIPXECS_MAGIC_COOKIE \<and> 37 \<le> length s \<and> list_all hex_char (take 4 (drop 11 s)) \<and> list_all sig_char (take 22 (drop 15 s)) then
        if at_end (drop 37 s) then Some False
        else if 60 \<le> length s \<and> s ! 37 = CHR ''~'' \<and> list_all sig_char (take 22 (drop 38 s)) \<and> at_end (drop 60 s) then Some True
        else None
      else None)"

definition br_vector :: "bool \<Rightarrow> int list" where
  "br_vector has_key = (if has_key then [0, 60, 11, 15, 15, 37, 38, 60] else [0, 37, 11, 15, 15, 37])"

definition br_law :: "(string \<Rightarrow> bool) \<Rightarrow> pcre_exec \<Rightarrow> bool" where
  "br_law fits exec \<longleftrightarrow> (\<forall>s vec. length vec = 12 \<longrightarrow>
     (let (rc, vec') = exec s 0 False vec in
        length vec' = 12 \<and>
        (0 < rc \<longrightarrow> (\<exists>k. br_ref s = Some k \<and> rc = (if k then 4 else 3) \<and> take (length (br_vector k)) vec' = br_vector k)) \<and>
        (fits s \<and> br_ref s \<noteq> None \<longrightarrow> 0 < rc)))"

definition br_env_law :: "(string \<Rightarrow> bool) \<Rightarrow> branch_env \<Rightarrow> bool" where
  "br_env_law fits env \<longleftrightarrow> br_law fits (br_exec env) \<and> length (br_mem env) = 64 \<and> length (br_vec env) = 12"

text \<open>An engine that behaves so.\<close>

definition br_exec_ref :: pcre_exec where
  "br_exec_ref s start anchored vec =
     (case br_ref s of None \<Rightarrow> (-1, vec) | Some k \<Rightarrow> (if k then 4 else 3, br_vector k @ drop (length (br_vector k)) vec))"

definition ref_branch_env :: branch_env where
  "ref_branch_env = \<lparr>br_exec = br_exec_ref, br_mem = replicate 64 0, br_vec = replicate 12 0\<rparr>"

lemma ref_branch_env_law: "br_env_law (\<lambda>_. True) ref_branch_env"
proof -
  have "length (br_vector k) \<le> 12" for k by (simp add: br_vector_def)
  then show ?thesis by (auto simp: br_env_law_def ref_branch_env_def br_law_def br_exec_ref_def split: option.splits)
qed

text \<open>What \<open>parse\<close> returns for a subject that the engine has the resources for.\<close>

definition parsed :: "string \<Rightarrow> (nat \<times> string \<times> string) option" where
  "parsed s = map_option (\<lambda>k. (hex_value (take 4 (drop 11 s)), take 22 (drop 15 s), if k then take 22 (drop 38 s) else [])) (br_ref s)"

lemma br_ref_length: "br_ref s = Some k \<Longrightarrow> 37 \<le> length s \<and> (k \<longrightarrow> 60 \<le> length s)"
  by (auto simp: br_ref_def split: if_splits)

lemma branch_parse_cases:
  assumes env: "br_env_law fits env" and "nul_free s" and "length s < 2 ^ 31"
  shows "branch_parse env s = Some (parsed s) \<or> branch_parse env s = Some None \<and> \<not> fits s"
proof -
  let ?re = "RegEx_copy (RegEx_new 3 (br_vec env)) (br_vec env)"
  have vec: "length (ovector ?re) = 12" using env by (simp add: RegEx_copy_def RegEx_new_def br_env_law_def)
  obtain rc v where e: "br_exec env s 0 False (ovector ?re) = (rc, v)" by fastforce
  have "let (rc, vec') = br_exec env s 0 False (ovector ?re) in length vec' = 12 \<and>
        (0 < rc \<longrightarrow> (\<exists>k. br_ref s = Some k \<and> rc = (if k then 4 else 3) \<and> take (length (br_vector k)) vec' = br_vector k)) \<and>
        (fits s \<and> br_ref s \<noteq> None \<longrightarrow> 0 < rc)"
    using env vec unfolding br_env_law_def br_law_def by blast
  then have v: "length v = 12" "0 < rc \<Longrightarrow> \<exists>k. br_ref s = Some k \<and> rc = (if k then 4 else 3) \<and> take (length (br_vector k)) v = br_vector k"
    "fits s \<and> br_ref s \<noteq> None \<Longrightarrow> 0 < rc"
    unfolding e by auto
  let ?re1 = "?re\<lparr>subjectStr := s, lastStart := 0, lastMatches := rc, ovector := v\<rparr>"
  have search: "Search (br_exec env) ?re (map Some s @ [Some NUL]) (-1) False = Some (?re1, 0 < rc)"
    using subject_of_cstr [OF assms(2,3), of "[]"] e by (simp add: Search_def)
  show ?thesis
  proof (cases "0 < rc")
    case False
    then have "branch_parse env s = Some None" by (simp add: branch_parse_def search)
    moreover have "parsed s = None" if "fits s" using v(3) that False by (cases "br_ref s") (auto simp: parsed_def)
    ultimately show ?thesis by auto
  next
    case True
    then obtain k where k: "br_ref s = Some k" "rc = (if k then 4 else 3)" "take (length (br_vector k)) v = br_vector k" using v(2) by blast
    have o: "ov ?re1 (int i) = Some (br_vector k ! i)" if "i < length (br_vector k)" for i
    proof -
      have "br_vector k ! i = v ! i" using k(3) that by (metis nth_take)
      moreover have "i < 12" using that by (auto simp: br_vector_def split: if_splits)
      ultimately show ?thesis using v(1) by (simp add: ov_def)
    qed
    have len: "37 \<le> length s" "k \<Longrightarrow> 60 \<le> length s" using br_ref_length [OF k(1)] by auto
    have m: "MatchString ?re1 (Some []) 1 = Some (Some (take 4 (drop 11 s)), True)"
      "MatchString ?re1 (Some []) 2 = Some (Some (take 22 (drop 15 s)), True)"
      using o [of 2] o [of 3] o [of 4] o [of 5] k(2) len(1)
      by (simp_all add: MatchString_def br_vector_def subject_part_def subjectLen_def append_to_def Let_def split: if_splits)
    have m3: "MatchString ?re1 (Some []) 3 = (if k then Some (Some (take 22 (drop 38 s)), True) else Some (Some [], False))"
      using o [of 6] o [of 7] k(2) len(2)
      by (simp add: MatchString_def br_vector_def subject_part_def subjectLen_def append_to_def Let_def split: if_splits)
    show ?thesis using True k(1) by (simp add: branch_parse_def search m m3 parsed_def)
  qed
qed

section \<open>Signatures\<close>

definition branch_sig :: "byte list list \<Rightarrow> string" where
  "branch_sig xs = take 22 (b64_encode (md5 (concat xs)) SipTokenSafeAlphabet)"

lemma base64_sig:
  assumes "length g = 64" and "\<forall>x \<in> set xs. length x < 2 ^ 32"
  shows "hash_pieces (NetMd5Codec_new g) xs \<bind> (\<lambda>c. appendBase64Sig c out SipTokenSafeAlphabet \<bind> (\<lambda>(_, v). f v)) = f (out @ branch_sig xs)"
proof -
  have "returns (hash_pieces (NetMd5Codec_new g) xs) (\<lambda>c. \<not> mFinalized c \<and> ctx_ok (mContext c) ([] @ concat xs))"
    by (rule hash_pieces_ok) (use assms in \<open>auto simp: NetMd5Codec_new_def MD5Init_ok\<close>)
  then obtain c where c: "hash_pieces (NetMd5Codec_new g) xs = Some c" "\<not> mFinalized c" "ctx_ok (mContext c) (concat xs)"
    by (auto simp: returns_iff)
  then show ?thesis by (simp add: appendBase64Sig_def MD5Final_ok case_prod_unfold branch_sig_def BASE64_ENCODED_SIZE_def)
qed

lemma branch_sig_shape: "length (branch_sig xs) = 22" "list_all sig_char (branch_sig xs)" "nul_free (branch_sig xs)"
proof -
  obtain ys where ys: "b64_encode (md5 (concat xs)) SipTokenSafeAlphabet = ys @ replicate (pads 16) (SipTokenSafeAlphabet ! PAD_CHAR)"
    "set ys \<subseteq> set (take PAD_CHAR SipTokenSafeAlphabet)" "length ys + pads 16 = encodedSize 16"
    using b64_encode_shape [of SipTokenSafeAlphabet "md5 (concat xs)"] by (auto simp: length_md5 b64_alphabet_def)
  have "length ys = 22" using ys(3) by (simp add: pads_def encodedSize_def)
  then have "branch_sig xs = ys" using ys(1) by (simp add: branch_sig_def)
  moreover have "list_all sig_char (take PAD_CHAR SipTokenSafeAlphabet)" "nul_free (take PAD_CHAR SipTokenSafeAlphabet)" by code_simp+
  ultimately show "length (branch_sig xs) = 22" "list_all sig_char (branch_sig xs)" "nul_free (branch_sig xs)"
    using \<open>length ys = 22\<close> ys(2) nul_free_sub [OF ys(2)] by (auto simp: list_all_iff)
qed

text \<open>The signature that makes the unique part for a call.\<close>

definition call_sig :: "string \<Rightarrow> string \<Rightarrow> nat \<Rightarrow> string" where
  "call_sig secret callId counter = branch_sig [bytes_of secret, size_bytes counter, bytes_of callId]"

definition fits_md5 :: "string \<Rightarrow> bool" where
  "fits_md5 s \<longleftrightarrow> length s < 2 ^ 32"

lemma generateUniquePart_sig:
  assumes "br_env_law fits env" and "fits_md5 secret" and "fits_md5 (getCallIdField message)"
  shows "generateUniquePart env secret message counter =
           Some (SIPXECS_MAGIC_COOKIE @ hex4 (counter mod 0x10000) @ call_sig secret (getCallIdField message) counter)"
  unfolding generateUniquePart_def call_sig_def
  by (subst base64_sig) (use assms in \<open>auto simp: br_env_law_def fits_md5_def bytes_of_def size_bytes_def\<close>)

lemma hex4_digits:
  assumes "n < 0x10000"
  shows "hex_value (hex4 n) = n" and "length (hex4 n) = 4" and "list_all hex_char (hex4 n)"
proof -
  have digit: "(let d = of_char (hex_digit k) :: nat in if isdigit (hex_digit k) then d - 48 else if 97 \<le> d then d - 87 else d - 55) = k \<and> hex_char (hex_digit k)"
    if "k < 16" for k
  proof -
    have "\<forall>k \<in> set [0..<16]. (let d = of_char (hex_digit k) :: nat in if isdigit (hex_digit k) then d - 48 else if 97 \<le> d then d - 87 else d - 55) = k
        \<and> hex_char (hex_digit k)" by code_simp
    then show ?thesis using that by simp
  qed
  have top: "n div 4096 < 16" using assms by simp
  have sum: "16 * (n div 4096) + n div 256 mod 16 = n div 256" "16 * (n div 256) + n div 16 mod 16 = n div 16" "16 * (n div 16) + n mod 16 = n"
    using mult_div_mod_eq [of 16 "n div 256"] mult_div_mod_eq [of 16 "n div 16"] by (simp_all add: div_mult2_eq [symmetric])
  show "hex_value (hex4 n) = n"
    using digit [of "n div 4096"] digit [of "n div 256 mod 16"] digit [of "n div 16 mod 16"] digit [of "n mod 16"] top
    by (simp add: hex_value_def hex4_def sum)
  show "length (hex4 n) = 4" by (simp add: hex4_def)
  show "list_all hex_char (hex4 n)" using digit by (simp add: hex4_def)
qed

lemma hex_char_nul: "hex_char c \<Longrightarrow> c \<noteq> NUL" and sig_char_nul: "sig_char c \<Longrightarrow> c \<noteq> NUL"
proof -
  have "\<not> hex_char NUL" "\<not> sig_char NUL" by code_simp+
  then show "hex_char c \<Longrightarrow> c \<noteq> NUL" "sig_char c \<Longrightarrow> c \<noteq> NUL" by auto
qed

text \<open>An identifier as this class writes it, with or without a key.\<close>

definition branch_text :: "nat \<Rightarrow> string \<Rightarrow> string \<Rightarrow> string" where
  "branch_text n sig key = SIPXECS_MAGIC_COOKIE @ hex4 n @ sig @ (if key = [] then [] else CHR ''~'' # key)"

lemma cookie: "length SIPXECS_MAGIC_COOKIE = 11" "nul_free SIPXECS_MAGIC_COOKIE"
  by code_simp+

lemma parsed_text:
  assumes "n < 0x10000" and "length sig = 22" and "list_all sig_char sig" and "key = [] \<or> length key = 22 \<and> list_all sig_char key"
  shows "parsed (branch_text n sig key) = Some (n, sig, key)" and "nul_free (branch_text n sig key)" and "length (branch_text n sig key) \<le> 60"
proof -
  note h = hex4_digits [OF assms(1)]
  let ?tail = "if key = [] then [] else CHR ''~'' # key"
  have d: "drop 11 (branch_text n sig key) = hex4 n @ sig @ ?tail" "drop 15 (branch_text n sig key) = sig @ ?tail" "drop 37 (branch_text n sig key) = ?tail"
    "take 11 (branch_text n sig key) = SIPXECS_MAGIC_COOKIE" "length (branch_text n sig key) = 37 + length ?tail"
    using h(2) assms(2) cookie(1) by (simp_all add: branch_text_def)
  have "br_ref (branch_text n sig key) = Some (key \<noteq> [])"
  proof (cases "key = []")
    case True
    then show ?thesis using h assms d by (simp add: br_ref_def at_end_def)
  next
    case False
    then have k: "length key = 22" "list_all sig_char key" using assms(4) by auto
    have d2: "drop 38 (branch_text n sig key) = key" "drop 60 (branch_text n sig key) = []" "branch_text n sig key ! 37 = CHR ''~''"
      using d(3) False k(1) h(2) assms(2) cookie(1) by (simp_all add: branch_text_def nth_append)
    have "\<not> at_end (drop 37 (branch_text n sig key))" using d(3) False k(1) by (auto simp: at_end_def)
    then show ?thesis using h assms d d2 False k by (simp add: br_ref_def at_end_def)
  qed
  then show "parsed (branch_text n sig key) = Some (n, sig, key)"
    using h d assms by (auto simp: parsed_def branch_text_def cookie(1))
  have "NUL \<noteq> CHR ''~''" by code_simp
  then show "nul_free (branch_text n sig key)"
    using h(3) assms cookie(2) by (auto simp: branch_text_def nul_free_def list_all_iff dest: hex_char_nul sig_char_nul)
  show "length (branch_text n sig key) \<le> 60" using d(5) assms(4) by auto
qed
lemma branch_parse_parsed:
  assumes "br_env_law fits env" and "\<forall>t. length t \<le> 61 \<longrightarrow> fits t" and "nul_free s" and "length s < 2 ^ 31"
  shows "branch_parse env s = Some (parsed s)"
proof -
  have "length s \<le> 61" if "parsed s \<noteq> None"
    using that by (auto simp: parsed_def br_ref_def at_end_def split: if_splits dest: arg_cong [where f = length])
  then show ?thesis using branch_parse_cases [OF assms(1,3,4)] assms(2) by (cases "parsed s") auto
qed

lemma parsed_nul_free: "nul_free s \<Longrightarrow> parsed s = Some (n, sig, key) \<Longrightarrow> nul_free sig \<and> nul_free key \<and> length sig \<le> 22"
  by (auto simp: parsed_def nul_free_def dest!: in_set_takeD in_set_dropD)

section \<open>The keys of forked requests\<close>

definition fork_uris :: "branch_id \<Rightarrow> string list" where
  "fork_uris b = map nobj (nodes (mForks b))"

definition forks_ok :: "branch_id \<Rightarrow> bool" where
  "forks_ok b \<longleftrightarrow> sorted_inv str_cmp (\<lambda>_. True) (mForks b) \<and> distinct (fork_uris b) \<and> (\<forall>u \<in> set (fork_uris b). nul_free u \<and> fits_md5 u)"

definition add_forks :: "('u \<Rightarrow> string) \<Rightarrow> branch_id \<Rightarrow> 'u list \<Rightarrow> branch_id" where
  "add_forks contact_uri b us = fold (\<lambda>u b. addFork contact_uri b u) us b"

lemma forks_ok_new: "mForks b = UtlList_new \<Longrightarrow> forks_ok b \<and> fork_uris b = []"
  by (simp add: forks_ok_def fork_uris_def UtlList_new_def sorted_inv_def list_inv_def in_order_def)

lemma BranchId_existing_forks: "forks_ok (BranchId_existing s)" "fork_uris (BranchId_existing s) = []"
  using forks_ok_new by (auto simp: BranchId_existing_def)

lemma add_forks_string: "bid_string (add_forks contact_uri b us) = bid_string b"
  by (induction us arbitrary: b) (auto simp: add_forks_def addFork_def Let_def)

lemma addFork_ok:
  assumes "forks_ok b" and "nul_free (contact_uri u)" and "fits_md5 (contact_uri u)"
  shows "forks_ok (addFork contact_uri b u) \<and> set (fork_uris (addFork contact_uri b u)) = insert (contact_uri u) (set (fork_uris b))"
proof -
  let ?x = "contact_uri u" and ?l = "mForks b"
  have inv: "sorted_inv str_cmp (\<lambda>_. True) ?l" "list_inv ?l" "in_order str_cmp (\<lambda>_. True) (nodes ?l)" using assms(1) by (auto simp: forks_ok_def sorted_inv_def)
  have same: "str_cmp y ?x = 0 \<longleftrightarrow> y = ?x" if "y \<in> set (fork_uris b)" for y using that assms(1,2) by (simp add: forks_ok_def str_cmp_0)
  have "sorted_contains str_cmp ?l ?x \<longleftrightarrow> (\<exists>n \<in> set (nodes ?l). str_cmp (nobj n) ?x = 0)"
    using strings.findNode_exactly_find [OF inv(3)]
    by (cases "find (\<lambda>n. str_cmp (nobj n) ?x = 0) (nodes ?l)")
      (auto simp: sorted_contains_def sorted_find_def find_None_iff dest: find_in)
  then have here: "sorted_contains str_cmp ?l ?x \<longleftrightarrow> ?x \<in> set (fork_uris b)" using same by (force simp: fork_uris_def)
  show ?thesis
  proof (cases "?x \<in> set (fork_uris b)")
    case True
    then show ?thesis using assms(1) here by (auto simp: addFork_def Let_def forks_ok_def fork_uris_def)
  next
    case False
    let ?l1 = "sorted_insert str_cmp str_hash ?l (linkPool ?l, ?x)"
    have m: "mset (map nobj (nodes ?l1)) = add_mset ?x (mset (fork_uris b))"
      by (simp add: sorted_insert_def insert_before_def fork_uris_def)
    have "distinct (map nobj (nodes ?l1)) \<longleftrightarrow> distinct (?x # fork_uris b)" by (rule mset_eq_imp_distinct_iff) (use m in simp)
    then have "distinct (map nobj (nodes ?l1))" using False assms(1) by (simp add: forks_ok_def)
    moreover have "set (map nobj (nodes ?l1)) = insert ?x (set (fork_uris b))" using m by (metis set_mset_add_mset_insert set_mset_mset)
    ultimately show ?thesis
      using False here strings.sorted_insert_inv [OF inv(1)] assms by (auto simp: addFork_def Let_def forks_ok_def fork_uris_def)
  qed
qed

lemma add_forks_ok:
  assumes "forks_ok b" and "\<forall>u \<in> set us. nul_free (contact_uri u) \<and> fits_md5 (contact_uri u)"
  shows "forks_ok (add_forks contact_uri b us) \<and> set (fork_uris (add_forks contact_uri b us)) = contact_uri ` set us \<union> set (fork_uris b)
         \<and> mParentStringValid (add_forks contact_uri b us) = (mParentStringValid b \<and> us = [])"
  using assms
proof (induction us arbitrary: b)
  case (Cons u us)
  note step = addFork_ok [OF Cons.prems(1), of contact_uri u]
  then have "forks_ok (addFork contact_uri b u)" using Cons.prems(2) by simp
  from Cons.IH [OF this] show ?case using Cons.prems(2) step by (auto simp: add_forks_def addFork_def Let_def)
qed (simp add: add_forks_def)

text \<open>The order of the list depends on the set of the URIs only.\<close>

lemma sorted_unique:
  assumes "sorted_wrt (\<lambda>s t. str_cmp s t \<le> 0) xs" and "sorted_wrt (\<lambda>s t. str_cmp s t \<le> 0) ys"
    and "distinct xs" and "distinct ys" and "set xs = set ys" and "\<forall>s \<in> set xs. nul_free s"
  shows "xs = ys"
  using assms
proof (induction xs arbitrary: ys)
  case (Cons x xs)
  then obtain y zs where y: "ys = y # zs" by (cases ys) auto
  have refl: "str_cmp x x = 0" by (simp add: str_cmp_0)
  have in_both: "x = y \<or> x \<in> set zs" "x = y \<or> y \<in> set xs" using Cons.prems(5) y by auto
  have "str_cmp x y \<le> 0" using in_both(2) Cons.prems(1) refl by auto
  moreover have "str_cmp y x \<le> 0" using in_both(1) Cons.prems(2) refl y by auto
  ultimately have "str_cmp x y = 0" using strings.cmp_flip [of y x] by simp
  then have "x = y" using Cons.prems(5,6) y by (auto simp: str_cmp_0)
  moreover have "xs = zs" using Cons.prems \<open>x = y\<close> y by (intro Cons.IH) auto
  ultimately show ?case using y by simp
qed simp

lemma fork_uris_unique:
  assumes "forks_ok b" and "forks_ok c" and "set (fork_uris b) = set (fork_uris c)"
  shows "fork_uris b = fork_uris c"
  using assms unfolding forks_ok_def sorted_inv_def in_order_def
  by (intro sorted_unique) (auto simp: fork_uris_def sorted_wrt_map)

definition fork_key :: "branch_id \<Rightarrow> string" where
  "fork_key b = branch_sig (map bytes_of (fork_uris b))"

lemma fork_key_shape: "length (fork_key b) = 22" "list_all sig_char (fork_key b)" "nul_free (fork_key b)"
  using branch_sig_shape unfolding fork_key_def by auto

lemma generateFullValue_key:
  assumes env: "br_env_law fits env" "\<forall>t. length t \<le> 61 \<longrightarrow> fits t" and b: "forks_ok b" "\<not> mParentStringValid b"
    and s: "nul_free (bid_string b)" "length (bid_string b) < 2 ^ 31"
  shows "\<exists>b1. generateFullValue env b = Some b1 \<and> mLoopDetectionKey b1 = fork_key b \<and> mForks b1 = mForks b
           \<and> bid_string b1 = (case parsed (bid_string b) of Some (n, sig, _) \<Rightarrow> branch_text (n mod 0x10000) sig (fork_key b) | None \<Rightarrow> bid_string b)"
proof -
  have sig: "hash_pieces (NetMd5Codec_new (br_mem env)) (map (\<lambda>n. bytes_of (nobj n)) (nodes (mForks b)))
      \<bind> (\<lambda>c. appendBase64Sig c [] SipTokenSafeAlphabet \<bind> (\<lambda>(_, v). f v)) = f (fork_key b)" for f :: "string \<Rightarrow> branch_id option"
    unfolding fork_key_def fork_uris_def
    by (subst base64_sig) (use env(1) b(1) in \<open>auto simp: br_env_law_def forks_ok_def fork_uris_def fits_md5_def bytes_of_def comp_def\<close>)
  have ne: "fork_key b \<noteq> []" using fork_key_shape(1) [of b] by auto
  show ?thesis
    using b(2) branch_parse_parsed [OF env s] ne unfolding generateFullValue_def sig
    by (auto simp: branch_text_def SIPXECS_LOOP_KEY_SEPARATOR_def split: option.splits)
qed

section \<open>The loop over the Via entries\<close>

lemma parse_values:
  assumes "nul_free v" and "p \<in> set (parseViaParameters v)"
  shows "nul_free (nv_value p)" and "length (nv_value p) \<le> length v"
proof -
  obtain q where q: "q \<in> set (subfields '';'' v)" "p \<in> set (param_of q)"
    using assms via_params_spec [OF assms(1), of 0] by (auto simp: parseViaParameters_def)
  have "set (nv_value p) \<subseteq> set q"
    using q(2) set_frontBackTrim by (fastforce simp: param_of_def Let_def split: if_splits dest!: set_dropWhileD)
  moreover have "set q \<subseteq> set v" using q(1) pieces_chars by (auto simp: subfields_def)
  ultimately show "nul_free (nv_value p)" using assms(1) by (intro nul_free_sub [of "nv_value p" v]) auto
  have trim: "length (frontBackTrim P s) \<le> length s" for P s
    by (simp add: frontBackTrim_def drop_back_def) (metis length_dropWhile_le length_rev order_trans)
  have "length (nv_value p) \<le> length q"
    using q(2) by (auto simp: param_of_def Let_def split: if_splits) (metis trim length_dropWhile_le order_trans)
  moreover have "length q \<le> length (concat (pieces (\<lambda>c. c \<in> set '';'') v))"
    using q(1) by (auto simp: subfields_def length_concat intro!: member_le_sum_list)
  ultimately show "length (nv_value p) \<le> length v" using pieces_length [of "\<lambda>c. c \<in> set '';''" v] by linarith
qed

text \<open>Whether a Via entry has a branch that was signed with the secret for the call, and has the key.\<close>

definition my_hop :: "string \<Rightarrow> string \<Rightarrow> string \<Rightarrow> string \<Rightarrow> bool" where
  "my_hop secret callId key via =
     (case getViaTag via ''branch'' of
        Some (True, branch) \<Rightarrow> (case parsed branch of Some (n, sig, k) \<Rightarrow> k = key \<and> sig = call_sig secret callId n | None \<Rightarrow> False)
      | _ \<Rightarrow> False)"

lemma hop_matches_spec:
  assumes env: "br_env_law fits env" "\<forall>t. length t \<le> 61 \<longrightarrow> fits t" and md5: "fits_md5 secret" "fits_md5 (getCallIdField message)"
    and v: "nul_free v" "length v < 2 ^ 31" and key: "nul_free key"
  shows "hop_matches env secret key message v = Some (my_hop secret (getCallIdField message) key v)"
proof -
  have "length v < SIZE_MOD" using v(2) by (simp add: SIZE_MOD_def)
  from getViaTag_spec [OF v(1) this, of "''branch''"] obtain found branch where tag: "getViaTag v ''branch'' = Some (found, branch)"
    "found \<Longrightarrow> \<exists>p \<in> set (parseViaParameters v). branch = nv_value p" by (fastforce simp: returns_iff split: if_splits)
  show ?thesis
  proof (cases found)
    case True
    then have b: "nul_free branch" "length branch < 2 ^ 31" using tag(2) parse_values [OF v(1)] v(2) by force+
    show ?thesis
    proof (cases "parsed branch")
      case None
      then show ?thesis using True tag(1) branch_parse_parsed [OF env b] by (simp add: hop_matches_def my_hop_def)
    next
      case (Some r)
      then obtain n sig k where r: "parsed branch = Some (n, sig, k)" by (cases r) auto
      have "drop (length SIPXECS_MAGIC_COOKIE + 4) (SIPXECS_MAGIC_COOKIE @ hex4 (n mod 65536) @ t) = t" for t
        by (simp add: hex4_def)
      then show ?thesis
        using True tag(1) r parsed_nul_free [OF b(1) r] key branch_parse_parsed [OF env b] generateUniquePart_sig [OF env(1) md5] branch_sig_shape(3)
        by (auto simp: hop_matches_def my_hop_def str_cmp_0 call_sig_def)
    qed
  qed (simp add: hop_matches_def my_hop_def tag(1))
qed
lemma loop_hops_spec:
  assumes env: "br_env_law fits env" "\<forall>t. length t \<le> 61 \<longrightarrow> fits t" and md5: "fits_md5 secret" "fits_md5 (getCallIdField message)"
    and plain: "list_all (plain True) (field_lines message SIP_VIA_FIELD)"
    and bound: "int (length (field_entries message SIP_VIA_FIELD)) < BOTTOM_SUBFIELD"
    and short: "\<forall>v \<in> set (field_entries message SIP_VIA_FIELD). length v < 2 ^ 31" and key: "nul_free key"
    and "i \<le> length (field_entries message SIP_VIA_FIELD)" and "length (field_entries message SIP_VIA_FIELD) - i < fuel"
  shows "loop_hops fuel env secret key message i =
           Some (let n = i + length (takeWhile (\<lambda>v. \<not> my_hop secret (getCallIdField message) key v) (drop i (field_entries message SIP_VIA_FIELD)))
                 in if n < length (field_entries message SIP_VIA_FIELD) then Suc n else 0)"
  using assms(9,10)
proof (induction fuel arbitrary: i)
  case (Suc fuel)
  let ?es = "field_entries message SIP_VIA_FIELD"
  have get: "getViaFieldSubField message i = (if i < length ?es then Some (?es ! i) else None)"
    using getViaFieldSubField_plain [OF plain, of i] bound Suc.prems(1) by simp
  show ?case
  proof (cases "i < length ?es")
    case True
    have "hop_matches env secret key message (?es ! i) = Some (my_hop secret (getCallIdField message) key (?es ! i))"
      by (rule hop_matches_spec [OF env md5 _ _ key]) (use True short field_entries_nul_free(1) [OF plain] in auto)
    moreover have "drop i ?es = ?es ! i # drop (Suc i) ?es" using True by (rule Cons_nth_drop_Suc [symmetric])
    ultimately show ?thesis using get True Suc.IH [of "Suc i"] Suc.prems(2) by (simp add: Let_def)
  qed (use get Suc.prems in simp)
qed simp

text \<open>The position of the first Via entry that is a hop of this proxy with this key, counted from one; zero if there is none.\<close>

definition first_hop :: "(string \<Rightarrow> bool) \<Rightarrow> string list \<Rightarrow> nat" where
  "first_hop mine vias = (let n = length (takeWhile (\<lambda>v. \<not> mine v) vias) in if n < length vias then Suc n else 0)"

lemma first_hop_bound:
  assumes "k < length vias" and "mine (vias ! k)"
  shows "0 < first_hop mine vias \<and> first_hop mine vias \<le> Suc k \<and> mine (vias ! (first_hop mine vias - 1))"
proof -
  have n: "length (takeWhile (\<lambda>v. \<not> mine v) vias) \<le> k"
    by (rule ccontr) (use assms in \<open>metis not_le nth_mem set_takeWhileD takeWhile_nth\<close>)
  then have "mine (vias ! length (takeWhile (\<lambda>v. \<not> mine v) vias))" using nth_length_takeWhile [of "\<lambda>v. \<not> mine v" vias] assms(1) by simp
  then show ?thesis using n assms(1) by (simp add: first_hop_def Let_def)
qed

definition via_ok :: "http_message \<Rightarrow> bool" where
  "via_ok message \<longleftrightarrow> list_all (plain True) (field_lines message SIP_VIA_FIELD)
     \<and> int (length (field_entries message SIP_VIA_FIELD)) < BOTTOM_SUBFIELD
     \<and> (\<forall>v \<in> set (field_entries message SIP_VIA_FIELD). length v < 2 ^ 31) \<and> fits_md5 (getCallIdField message)"

lemma loopDetected_spec:
  assumes env: "br_env_law fits env" "\<forall>t. length t \<le> 61 \<longrightarrow> fits t" and "fits_md5 secret" and m: "via_ok message"
    and b: "forks_ok b" "\<not> mParentStringValid b" and s: "nul_free (bid_string b)" "length (bid_string b) < 2 ^ 31"
  shows "map_option snd (loopDetected env secret b message) =
           Some (first_hop (my_hop secret (getCallIdField message) (fork_key b)) (field_entries message SIP_VIA_FIELD))"
proof -
  obtain b1 where b1: "generateFullValue env b = Some b1" "mLoopDetectionKey b1 = fork_key b" using generateFullValue_key [OF env b s] by blast
  have "fork_key b \<noteq> []" using fork_key_shape(1) [of b] by auto
  moreover have "loop_hops (Suc (length (concat (header_values message SIP_VIA_FIELD)))) env secret (fork_key b) message 0 =
      Some (first_hop (my_hop secret (getCallIdField message) (fork_key b)) (field_entries message SIP_VIA_FIELD))"
    using loop_hops_spec [OF env assms(3) _ _ _ _ fork_key_shape(3), of message 0 "Suc (length (concat (header_values message SIP_VIA_FIELD)))" b]
      field_entries_length [of message SIP_VIA_FIELD] m
    by (simp add: via_ok_def first_hop_def Let_def)
  ultimately show ?thesis by (simp add: loopDetected_def b1)
qed

text \<open>The branch of a fork: what the constructor for the client transaction of a proxy writes.\<close>

lemma BranchId_child_text:
  assumes env: "br_env_law fits env" "\<forall>t. length t \<le> 61 \<longrightarrow> fits t" and md5: "fits_md5 secret" "fits_md5 (getCallIdField message)"
    and b: "forks_ok b" "\<not> mParentStringValid b" and s: "nul_free (bid_string b)" "length (bid_string b) < 2 ^ 31" and "smCounter < 0x10000"
  shows "\<exists>child p. BranchId_child env secret smCounter b message = Some (child, p, next_counter smCounter)
           \<and> bid_string child = branch_text smCounter (call_sig secret (getCallIdField message) smCounter) (fork_key b) \<and> mParentStringValid child"
proof -
  obtain b1 where b1: "generateFullValue env b = Some b1" "mLoopDetectionKey b1 = fork_key b" using generateFullValue_key [OF env b s] by blast
  have "fork_key b \<noteq> []" using fork_key_shape(1) [of b] by auto
  then show ?thesis
    using assms(9) by (simp add: BranchId_child_def generateUniquePart_sig [OF env(1) md5] b1 branch_text_def SIPXECS_LOOP_KEY_SEPARATOR_def)
qed

lemma my_hop_own:
  assumes "getViaTag via ''branch'' = Some (True, branch_text n (call_sig secret callId n) (fork_key b))" and "n < 0x10000"
  shows "my_hop secret callId (fork_key b) via"
  using assms parsed_text(1) [OF assms(2), of "call_sig secret callId n" "fork_key b"] branch_sig_shape fork_key_shape
  by (simp add: my_hop_def call_sig_def)

text \<open>C16. A request that comes back to the proxy which forked it, or to one that has the same secret, is recognised. Of a request that was forked to the
  contacts \<open>us\<close>, one fork was sent with the branch \<open>child\<close>; if a request with the same Call-Id has that branch in its Via entry number \<open>k\<close>,
  and is about to be forked to contacts with the same URIs, in any order, \<open>loopDetected\<close> reports the hop of a Via entry that is not
  behind that one and has a branch that the proxy signed, with the same loop detection key.\<close>

theorem branch_loop_detected:
  assumes "br_env_law fits env" and "\<forall>t. length t \<le> 61 \<longrightarrow> fits t" and "fits_md5 secret" and "smCounter < 0x10000"
    and "nul_free s" and "length s < 2 ^ 31" and "nul_free s'" and "length s' < 2 ^ 31"
    and "\<forall>u \<in> set us \<union> set us'. nul_free (uri u) \<and> fits_md5 (uri u)" and "uri ` set us = uri ` set us'" and "us \<noteq> []"
    and "fits_md5 (getCallIdField sent)" and "via_ok message" and "getCallIdField message = getCallIdField sent"
    and "BranchId_child env secret smCounter (add_forks uri (BranchId_existing s) us) sent = Some (child, p, n1)"
    and "k < length (field_entries message SIP_VIA_FIELD)"
    and "getViaTag (field_entries message SIP_VIA_FIELD ! k) ''branch'' = Some (True, bid_string child)"
  shows "\<exists>hop. map_option snd (loopDetected env secret (add_forks uri (BranchId_existing s') us') message) = Some hop \<and> 1 \<le> hop \<and> hop \<le> Suc k
           \<and> my_hop secret (getCallIdField message) (fork_key (add_forks uri (BranchId_existing s') us')) (field_entries message SIP_VIA_FIELD ! (hop - 1))"
proof -
  let ?b = "add_forks uri (BranchId_existing s) us" and ?b' = "add_forks uri (BranchId_existing s') us'"
  note new = BranchId_existing_forks and str = add_forks_string
  have ok: "forks_ok ?b" "\<not> mParentStringValid ?b" "forks_ok ?b'" "\<not> mParentStringValid ?b'" "set (fork_uris ?b) = set (fork_uris ?b')"
    using add_forks_ok [OF new(1), of us uri s] add_forks_ok [OF new(1), of us' uri s'] assms(9-11) new(2) by auto
  have key: "fork_key ?b = fork_key ?b'" unfolding fork_key_def using fork_uris_unique [OF ok(1,3,5)] by simp
  have "bid_string child = branch_text smCounter (call_sig secret (getCallIdField sent) smCounter) (fork_key ?b)"
    using BranchId_child_text [OF assms(1-3,12) ok(1,2) _ _ assms(4)] assms(5,6,15) by (auto simp: str BranchId_existing_def)
  then have "my_hop secret (getCallIdField message) (fork_key ?b') (field_entries message SIP_VIA_FIELD ! k)"
    unfolding key [symmetric] using assms(4,14,17) by (intro my_hop_own) auto
  note hop = first_hop_bound [OF assms(16), where mine = "my_hop secret (getCallIdField message) (fork_key ?b')", OF this]
  have "bid_string ?b' = s'" by (simp add: str BranchId_existing_def)
  with loopDetected_spec [OF assms(1-3,13) ok(3,4)] assms(7,8)
  have "map_option snd (loopDetected env secret ?b' message) =
      Some (first_hop (my_hop secret (getCallIdField message) (fork_key ?b')) (field_entries message SIP_VIA_FIELD))" by simp
  then show ?thesis by (intro exI conjI) (use hop in auto)
qed

section \<open>What does not hold\<close>

text \<open>\<open>topViaIsMyBranch\<close> compares an identifier with the signature in it, which is shorter: it is never true.\<close>

theorem topViaIsMyBranch_never:
  assumes env: "br_env_law fits env" "\<forall>t. length t \<le> 61 \<longrightarrow> fits t" and "fits_md5 secret" and m: "via_ok response"
  shows "topViaIsMyBranch env secret response = Some False"
proof (cases "field_entries response SIP_VIA_FIELD")
  case Nil
  then show ?thesis using getViaFieldSubField_plain [of response 0] m by (simp add: topViaIsMyBranch_def via_ok_def BOTTOM_SUBFIELD_def)
next
  case (Cons v vs)
  then have v: "nul_free v" "length v < 2 ^ 31" and get: "getViaFieldSubField response 0 = Some v"
    using getViaFieldSubField_plain [of response 0] field_entries_nul_free(1) [of True response SIP_VIA_FIELD v] m by (auto simp: via_ok_def BOTTOM_SUBFIELD_def)
  have "length v < SIZE_MOD" using v(2) by (simp add: SIZE_MOD_def)
  from getViaTag_spec [OF v(1) this, of "''branch''"] obtain found branch where tag: "getViaTag v ''branch'' = Some (found, branch)"
    "found \<Longrightarrow> \<exists>p \<in> set (parseViaParameters v). branch = nv_value p" by (fastforce simp: returns_iff split: if_splits)
  show ?thesis
  proof (cases "found \<and> parsed branch \<noteq> None")
    case True
    then obtain n sig k where r: "parsed branch = Some (n, sig, k)" by (cases "parsed branch") auto
    have b: "nul_free branch" "length branch < 2 ^ 31" using True tag(2) parse_values [OF v(1)] v(2) by force+
    let ?g = "SIPXECS_MAGIC_COOKIE @ hex4 (n mod 65536) @ call_sig secret (getCallIdField response) n"
    have "nul_free ?g"
      using cookie(2) hex4_digits(3) [of "n mod 65536"] branch_sig_shape(3) by (auto simp: call_sig_def nul_free_def list_all_iff dest: hex_char_nul)
    moreover have "length ?g = 37" using branch_sig_shape(1) by (simp add: call_sig_def cookie(1) hex4_def)
    ultimately have "str_cmp ?g sig \<noteq> 0" using parsed_nul_free [OF b(1) r] by (auto simp: str_cmp_0)
    then show ?thesis
      using True tag(1) r get branch_parse_parsed [OF env b] generateUniquePart_sig [OF env(1) assms(3)] m by (simp add: topViaIsMyBranch_def via_ok_def)
  next
    case False
    then show ?thesis
    proof (cases found)
      case True
      then have "nul_free branch" "length branch < 2 ^ 31" using tag(2) parse_values [OF v(1)] v(2) by force+
      moreover have "parsed branch = None" using True False by blast
      ultimately show ?thesis using True tag(1) get branch_parse_parsed [OF env] by (simp add: topViaIsMyBranch_def)
    qed (simp add: topViaIsMyBranch_def get tag(1))
  qed
qed

text \<open>Setting the secret that is set already changes it: the identifiers signed before are not recognised.\<close>

theorem setSecret_again: "setSecret (setSecret [] secret) secret = secret @ secret"
  by (simp add: setSecret_def str_cmp_0)
section \<open>A Via entry with a branch of this class\<close>

definition branch_char :: "char \<Rightarrow> bool" where
  "branch_char c \<longleftrightarrow> sig_char c \<or> c = CHR ''-'' \<or> c = CHR ''~''"

lemma branch_text_chars:
  assumes "n < 0x10000" and "list_all sig_char sig" and "list_all sig_char key"
  shows "list_all branch_char (branch_text n sig key)"
proof -
  have "list_all branch_char SIPXECS_MAGIC_COOKIE" by code_simp
  moreover have "\<forall>c \<in> set ''0123456789abcdefABCDEF''. branch_char c" by code_simp
  then have "list_all branch_char (hex4 n)" using hex4_digits(3) [OF assms(1)] unfolding list_all_iff hex_char_def by blast
  ultimately show ?thesis using assms(2,3) by (auto simp: branch_text_def list_all_iff branch_char_def)
qed

lemma branch_char_plain: "branch_char c \<Longrightarrow> c \<notin> set ''=;, '' \<and> \<not> param_white c \<and> c \<noteq> NUL \<and> isPrintableChar c"
proof -
  have all: "c \<in> set (map char_of [0..<256::nat])" for c :: char
    using of_char_mod_256 by (auto intro!: image_eqI [of _ _ "of_char c"])
  have "\<forall>c \<in> set (map char_of [0..<256::nat]). branch_char c \<longrightarrow> c \<notin> set ''=;, '' \<and> \<not> param_white c \<and> c \<noteq> NUL \<and> isPrintableChar c"
    by code_simp
  then show "branch_char c \<Longrightarrow> ?thesis" using all [of c] by blast
qed
lemma via_branch:
  assumes "list_all branch_char t" and "t \<noteq> []" and "length t \<le> 60"
  shows "getViaTag (''SIP/2.0/UDP p;branch='' @ t) ''branch'' = Some (True, t)" and "plain True (''SIP/2.0/UDP p;branch='' @ t)"
    and "subfields SIP_MULTIFIELD_SEPARATOR (''SIP/2.0/UDP p;branch='' @ t) = [''SIP/2.0/UDP p;branch='' @ t]"
proof -
  let ?v = "''SIP/2.0/UDP p;branch='' @ t"
  have t: "c \<notin> set ''=;, ''" "\<not> param_white c" "c \<noteq> NUL" "isPrintableChar c" if "c \<in> set t" for c
    using that assms(1) branch_char_plain unfolding list_all_iff by blast+
  have front: "nul_free ''SIP/2.0/UDP p;branch=''" "list_all isPrintableChar ''SIP/2.0/UDP p;branch=''" by code_simp+
  then have nul: "nul_free ?v" using t(3) unfolding nul_free_def by auto
  then show "plain True ?v" using front(2) t(4) assms(3) by (auto simp: plain_def list_all_iff)
  have "list_all (\<lambda>c. c \<notin> set SIP_MULTIFIELD_SEPARATOR) ''SIP/2.0/UDP p;branch=''" "set SIP_MULTIFIELD_SEPARATOR \<subseteq> set ''=;, ''" by code_simp+
  then have "list_all (\<lambda>c. \<not> c \<in> set SIP_MULTIFIELD_SEPARATOR) ?v" using t(1) unfolding list_all_iff set_append by blast
  from pieces_one [of "\<lambda>c. c \<in> set SIP_MULTIFIELD_SEPARATOR", OF this] show "subfields SIP_MULTIFIELD_SEPARATOR ?v = [?v]" by (simp add: subfields_def)
  have "list_all (\<lambda>c. c \<notin> set '';'') ''SIP/2.0/UDP p''" "list_all (\<lambda>c. c \<notin> set '';'') ''branch=''" by code_simp+
  moreover have "list_all (\<lambda>c. c \<notin> set '';'') t" using t(1) by (auto simp: list_all_iff)
  ultimately have "pieces (\<lambda>c. c \<in> set '';'') (''SIP/2.0/UDP p'' @ CHR '';'' # ''branch='' @ t) = [''SIP/2.0/UDP p'', ''branch='' @ t]"
    by (subst pieces_split) (simp_all add: pieces_one)
  then have "subfields '';'' ?v = [''SIP/2.0/UDP p'', ''branch='' @ t]" by (simp add: subfields_def)
  moreover have "param_of ''SIP/2.0/UDP p'' = [NV ''SIP/2.0/UDP p'' []]" by code_simp
  moreover have "param_of (''branch='' @ t) = [NV ''branch'' t]"
  proof -
    have "\<not> is_separator (CHR ''b'')" "frontBackTrim param_white ''branch'' = ''branch''" by code_simp+
    moreover have "dropWhile (\<lambda>c. c = CHR ''='') t = t" using t(1) [of "hd t"] assms(2) by (cases t) auto
    moreover have "dropWhile param_white t = t" "dropWhile param_white (rev t) = rev t"
      using t(2) assms(2) by (simp_all add: dropWhile_eq_self_iff hd_rev)
    then have "frontBackTrim param_white t = t" by (simp add: frontBackTrim_def drop_back_def)
    ultimately show ?thesis by (simp add: param_of_def Let_def)
  qed
  ultimately have ps: "parseViaParameters ?v = [NV ''SIP/2.0/UDP p'' [], NV ''branch'' t]"
    using via_params_spec [OF nul, of 0] nul by (simp add: parseViaParameters_def)
  have name: "c_prefix ''branch'' = ''branch''" by code_simp
  have "returns (getViaTag ?v ''branch'') (\<lambda>(found, value). found \<and> value = t)"
    using getViaTag_spec [OF nul, of "''branch''"] assms(3) name unfolding ps by (auto simp: SIZE_MOD_def elim!: returns_mono split: if_splits)
  then show "getViaTag ?v ''branch'' = Some (True, t)" by (auto simp: returns_iff)
qed
definition looped_message :: "string \<Rightarrow> http_message" where
  "looped_message t = \<lparr>mFirstHeaderLine = ''INVITE sip:b@y SIP/2.0'',
     mNameValues = [NV SIP_VIA_FIELD (''SIP/2.0/UDP p;branch='' @ t), NV SIP_CALLID_FIELD ''c1'']\<rparr>"

lemma looped_message_fields:
  assumes "list_all branch_char t" and "t \<noteq> []" and "length t \<le> 60"
  shows "getCallIdField (looped_message t) = ''c1''" and "field_entries (looped_message t) SIP_VIA_FIELD = [''SIP/2.0/UDP p;branch='' @ t]"
    and "via_ok (looped_message t)"
proof -
  have keys: "header_is (Some SIP_CALLID_FIELD) (NV SIP_CALLID_FIELD v)" "\<not> header_is (Some SIP_CALLID_FIELD) (NV SIP_VIA_FIELD v)"
    "header_is (Some SIP_VIA_FIELD) (NV SIP_VIA_FIELD v)" "\<not> header_is (Some SIP_VIA_FIELD) (NV SIP_CALLID_FIELD v)" for v
  proof -
    have "c_prefix SIP_CALLID_FIELD = header_key SIP_CALLID_FIELD" "c_prefix SIP_VIA_FIELD \<noteq> header_key SIP_CALLID_FIELD"
      "c_prefix SIP_VIA_FIELD = header_key SIP_VIA_FIELD" "c_prefix SIP_CALLID_FIELD \<noteq> header_key SIP_VIA_FIELD" by code_simp+
    then show "header_is (Some SIP_CALLID_FIELD) (NV SIP_CALLID_FIELD v)" "\<not> header_is (Some SIP_CALLID_FIELD) (NV SIP_VIA_FIELD v)"
      "header_is (Some SIP_VIA_FIELD) (NV SIP_VIA_FIELD v)" "\<not> header_is (Some SIP_VIA_FIELD) (NV SIP_CALLID_FIELD v)"
      by (simp_all add: header_is_key)
  qed
  show id: "getCallIdField (looped_message t) = ''c1''"
    by (simp add: getCallIdField_def field_value_def getHeaderValue_values header_values_def looped_message_def keys)
  have lines: "field_lines (looped_message t) SIP_VIA_FIELD = [''SIP/2.0/UDP p;branch='' @ t]"
    by (simp add: field_lines_def header_values_def looped_message_def keys)
  show entries: "field_entries (looped_message t) SIP_VIA_FIELD = [''SIP/2.0/UDP p;branch='' @ t]"
    unfolding field_entries_def lines using via_branch(3) [OF assms] by simp
  show "via_ok (looped_message t)"
    unfolding via_ok_def entries lines id using via_branch(2) [OF assms] assms(3) by (simp add: BOTTOM_SUBFIELD_def fits_md5_def)
qed

theorem branch_loop_detected_witness:
  "\<exists>t. map_option snd (loopDetected ref_branch_env ''s3'' (add_forks id (BranchId_existing ''z9hG4bK1'') [''sip:c@z'', ''sip:b@y'', ''sip:b@y'']) (looped_message t)) = Some 1"
proof -
  let ?uri = "id :: string \<Rightarrow> string" and ?us = "[''sip:b@y'', ''sip:c@z'']" and ?us' = "[''sip:c@z'', ''sip:b@y'', ''sip:b@y'']"
  let ?b = "add_forks id (BranchId_existing ''z9hG4bK0'') ?us" and ?sent = "looped_message ''x''"
  have "list_all branch_char ''x''" by code_simp
  note sent = looped_message_fields [OF this]
  have s: "nul_free ''z9hG4bK0''" "nul_free ''z9hG4bK1''" "nul_free ''sip:b@y''" "nul_free ''sip:c@z''" by code_simp+
  have uris: "\<forall>u \<in> set ?us. nul_free (?uri u) \<and> fits_md5 (?uri u)" using s by (simp add: fits_md5_def)
  have b: "forks_ok ?b" "\<not> mParentStringValid ?b" "bid_string ?b = ''z9hG4bK0''"
    using add_forks_ok [where contact_uri = ?uri, OF BranchId_existing_forks(1) uris, of "''z9hG4bK0''"] by (simp_all add: add_forks_string BranchId_existing_def)
  let ?t = "branch_text 5 (call_sig ''s3'' ''c1'' 5) (fork_key ?b)"
  have key: "length (call_sig ''s3'' ''c1'' 5) = 22" "list_all sig_char (call_sig ''s3'' ''c1'' 5)" using branch_sig_shape by (simp_all add: call_sig_def)
  have "list_all branch_char ?t" using branch_text_chars [OF _ key(2) fork_key_shape(2), of 5 ?b] by simp
  moreover have "?t \<noteq> []" by (simp add: branch_text_def SIPXECS_MAGIC_COOKIE_def)
  moreover have "length ?t \<le> 60" using parsed_text(3) [OF _ key, of 5 "fork_key ?b"] fork_key_shape [of ?b] by simp
  ultimately have t: "list_all branch_char ?t" "?t \<noteq> []" "length ?t \<le> 60" .
  note came = looped_message_fields [OF t]
  have sent_id: "getCallIdField ?sent = ''c1''" "fits_md5 (getCallIdField ?sent)" and secret: "fits_md5 ''s3''"
    using sent(1) by (simp_all add: fits_md5_def)
  have "\<exists>child p. BranchId_child ref_branch_env ''s3'' 5 ?b ?sent = Some (child, p, next_counter 5)
      \<and> bid_string child = branch_text 5 (call_sig ''s3'' (getCallIdField ?sent) 5) (fork_key ?b) \<and> mParentStringValid child"
    by (rule BranchId_child_text [OF ref_branch_env_law _ secret sent_id(2) b(1,2)]) (simp_all only: b(3) s, simp_all)
  then obtain child p where child: "BranchId_child ref_branch_env ''s3'' 5 ?b ?sent = Some (child, p, next_counter 5)" "bid_string child = ?t"
    unfolding sent_id(1) by blast
  have "\<exists>hop. map_option snd (loopDetected ref_branch_env ''s3'' (add_forks ?uri (BranchId_existing ''z9hG4bK1'') ?us') (looped_message ?t)) = Some hop
      \<and> 1 \<le> hop \<and> hop \<le> Suc 0 \<and> my_hop ''s3'' (getCallIdField (looped_message ?t)) (fork_key (add_forks ?uri (BranchId_existing ''z9hG4bK1'') ?us'))
           (field_entries (looped_message ?t) SIP_VIA_FIELD ! (hop - 1))"
    by (rule branch_loop_detected [OF ref_branch_env_law, where uri = ?uri and us = ?us and sent = ?sent and s = "''z9hG4bK0''" and smCounter = 5
          and child = child and p = p and ?n1.0 = "next_counter 5"])
      (use s sent came child via_branch(1) [OF t] in \<open>auto simp: fits_md5_def\<close>)
  then show ?thesis by (intro exI [of _ ?t]) (auto simp: le_antisym)
qed

end
