(* ===== verification/SipTransaction.thy ===== *)
theory SipTransaction
  imports Complex_Main BranchId
begin

text \<open>
  One SIP transaction (\<^verbatim>\<open>sipXtackLib/src/net/SipTransaction.cpp\<close>): its constructor, what a message has to do with it
  (\<open>whatRelation\<close>) and the messages it keeps (\<open>addResponse\<close>). The tree that the transactions of a
  forked request form is the subject of the next theory.

  A message is a value; a pointer to one that the transaction owns is an option. \<open>Url\<close> is the parameter \<open>url\<close>, that gives the
  parts of a parsed field; the clock is an argument. \<open>hasSdpBody\<close> of a message, whose body is not part of the model, is an argument too. The Expires value, the
  address to send to, the results of the DNS lookup and the timers are not modelled.
\<close>

section \<open>States and relationships\<close>

datatype transactionStates =
  TRANSACTION_UNKNOWN | TRANSACTION_LOCALLY_INIITATED | TRANSACTION_CALLING | TRANSACTION_PROCEEDING
| TRANSACTION_COMPLETE | TRANSACTION_CONFIRMED | TRANSACTION_TERMINATED

datatype messageRelationship =
  MESSAGE_UNKNOWN | MESSAGE_UNRELATED | MESSAGE_SAME_SESSION | MESSAGE_DIFFERENT_BRANCH | MESSAGE_REQUEST | MESSAGE_PROVISIONAL
| MESSAGE_FINAL | MESSAGE_NEW_FINAL | MESSAGE_CANCEL | MESSAGE_CANCEL_RESPONSE | MESSAGE_ACK | MESSAGE_2XX_ACK
| MESSAGE_2XX_ACK_PROXY | MESSAGE_DUPLICATE

text \<open>The states are compared as numbers.\<close>

primrec state_number :: "transactionStates \<Rightarrow> nat" where
  "state_number TRANSACTION_UNKNOWN = 0"
| "state_number TRANSACTION_LOCALLY_INIITATED = 1"
| "state_number TRANSACTION_CALLING = 2"
| "state_number TRANSACTION_PROCEEDING = 3"
| "state_number TRANSACTION_COMPLETE = 4"
| "state_number TRANSACTION_CONFIRMED = 5"
| "state_number TRANSACTION_TERMINATED = 6"

lemma state_number_inj: "state_number s = state_number t \<longleftrightarrow> s = t"
  by (cases s; cases t) simp_all

instantiation transactionStates :: linorder
begin

definition less_eq_transactionStates :: "transactionStates \<Rightarrow> transactionStates \<Rightarrow> bool" where
  "s \<le> t \<longleftrightarrow> state_number s \<le> state_number t"

definition less_transactionStates :: "transactionStates \<Rightarrow> transactionStates \<Rightarrow> bool" where
  "s < t \<longleftrightarrow> state_number s < state_number t"

instance
  by standard (auto simp: less_eq_transactionStates_def less_transactionStates_def state_number_inj)

end

definition stateString :: "transactionStates \<Rightarrow> string" where
  "stateString state = [''UNKNOWN'', ''LOCALLY_INITIATED'', ''CALLING'', ''PROCEEDING'', ''COMPLETE'', ''CONFIRMED'', ''TERMINATED''] ! state_number state"

record transaction =
  tx_hash :: string
  mCallId :: string
  mpBranchId :: branch_id
  mRequestUri :: string
  mFromField :: url_fields
  mToField :: url_fields
  mRequestMethod :: string
  mCseq :: int
  mIsServerTransaction :: bool
  mIsUaTransaction :: bool
  mCancelReasonValue :: string
  mpRequest :: "http_message option"
  mpLastProvisionalResponse :: "http_message option"
  mpLastFinalResponse :: "http_message option"
  mpAck :: "http_message option"
  mpCancel :: "http_message option"
  mpCancelResponse :: "http_message option"
  mTransactionCreateTime :: int
  mTransactionStartTime :: int
  mTimeStamp :: int
  mTransactionState :: transactionStates
  mDispatchedFinalResponse :: bool
  mProvisionalSdp :: bool
  mIsCanceled :: bool
  mIsRecursing :: bool
  mIsDnsSrvChild :: bool
  mQvalue :: rat
  mIsBusy :: int
  mProvoExtendsTimer :: bool
  mBusyTaskName :: string
  mWaitingList :: "nat list option"
  markedForDeletion :: bool

definition SIP_ACK_METHOD :: string where "SIP_ACK_METHOD = ''ACK''"
definition SIP_CANCEL_METHOD :: string where "SIP_CANCEL_METHOD = ''CANCEL''"

definition SIP_1XX_CLASS_CODE :: int where "SIP_1XX_CLASS_CODE = 100"
definition SIP_2XX_CLASS_CODE :: int where "SIP_2XX_CLASS_CODE = 200"
definition SIP_3XX_CLASS_CODE :: int where "SIP_3XX_CLASS_CODE = 300"

definition method_is :: "string \<Rightarrow> string \<Rightarrow> bool" where
  "method_is m n \<longleftrightarrow> str_cmp m n = 0"

section \<open>The constructor\<close>

definition isServerTransaction :: "http_message \<Rightarrow> bool \<Rightarrow> bool" where
  "isServerTransaction m isOutgoing = (if isResponse m then if isOutgoing then True else False else if isOutgoing then False else True)"

definition buildHash :: "http_message \<Rightarrow> bool \<Rightarrow> string" where
  "buildHash message isOutgoing =
     (let (_, cSeq, _) = getCSeqField message in
      getCallIdField message @ (if isServerTransaction message isOutgoing then ''s'' else ''c'') @ printf_d cSeq)"

definition buildHash_tx :: "transaction \<Rightarrow> bool \<Rightarrow> string" where
  "buildHash_tx t isServer = mCallId t @ (if isServer then ''s'' else ''c'') @ printf_d (mCseq t)"

text \<open>The branch parameter of the first Via entry, empty when there is none.\<close>

definition top_branch :: "http_message \<Rightarrow> string option" where
  "top_branch m = map_option snd (getViaTag (case getViaFieldSubField m 0 of Some via \<Rightarrow> via | None \<Rightarrow> []) ''branch'')"

text \<open>
  The constructor, with a message given. It may draw a new branch, for
  which it needs the secret and the counter of \<open>BranchId\<close>, and compute the full value of the branch of the parent.
\<close>

definition SipTransaction_new :: "branch_env \<Rightarrow> (string \<Rightarrow> url_fields) \<Rightarrow> string \<Rightarrow> nat \<Rightarrow> int \<Rightarrow> http_message \<Rightarrow> bool \<Rightarrow> bool \<Rightarrow> branch_id option
    \<Rightarrow> (transaction \<times> branch_id option \<times> nat) option" where
  "SipTransaction_new env url smIdSecret smCounter now initialMsg isOutgoing userAgentTransaction parentBranch = do {
     let isServer = isServerTransaction initialMsg isOutgoing;
     let (_, cseq, cseqMethod) = getCSeqField initialMsg;
     let isRequest = \<not> isResponse initialMsg;
     (branch, parentBranch', smCounter') \<leftarrow>
       (if \<not> isServer then
          (case (if userAgentTransaction then None else parentBranch) of
             Some parent \<Rightarrow> do { (b, p, c) \<leftarrow> BranchId_child env smIdSecret smCounter parent initialMsg; Some (b, Some p, c) }
           | None \<Rightarrow> do { (b, c) \<leftarrow> BranchId_message env smIdSecret smCounter initialMsg; Some (b, parentBranch, c) })
        else do { branchValue \<leftarrow> top_branch initialMsg; Some (BranchId_existing branchValue, parentBranch, smCounter) });
     Some (\<lparr>tx_hash = buildHash initialMsg isOutgoing, mCallId = getCallIdField initialMsg, mpBranchId = branch,
            mRequestUri = (if isRequest then getRequestUri initialMsg else []),
            mFromField = url (field_value initialMsg SIP_FROM_FIELD), mToField = url (field_value initialMsg SIP_TO_FIELD),
            mRequestMethod = (if isRequest then getRequestMethod initialMsg else cseqMethod),
            mCseq = cseq, mIsServerTransaction = isServer, mIsUaTransaction = userAgentTransaction, mCancelReasonValue = [],
            mpRequest = None, mpLastProvisionalResponse = None, mpLastFinalResponse = None, mpAck = None, mpCancel = None, mpCancelResponse = None,
            mTransactionCreateTime = now, mTransactionStartTime = -1, mTimeStamp = now, mTransactionState = TRANSACTION_LOCALLY_INIITATED,
            mDispatchedFinalResponse = False, mProvisionalSdp = False, mIsCanceled = False, mIsRecursing = False, mIsDnsSrvChild = False,
            mQvalue = 1, mIsBusy = 0, mProvoExtendsTimer = False, mBusyTaskName = [], mWaitingList = None, markedForDeletion = False\<rparr>,
           parentBranch', smCounter') }"

section \<open>What a message has to do with a transaction\<close>

text \<open>The ancestors of a transaction are listed from its parent up.\<close>

definition getTopMostParent :: "transaction list \<Rightarrow> transaction option" where
  "getTopMostParent parents = (if parents = [] then None else Some (last parents))"

text \<open>A response that matches; \<open>mustCheckTags\<close> tells whether the tags were compared before.\<close>

definition response_relation :: "(string \<Rightarrow> url_fields) \<Rightarrow> transaction \<Rightarrow> http_message \<Rightarrow> string \<Rightarrow> bool \<Rightarrow> messageRelationship option" where
  "response_relation url t message msgMethod mustCheckTags = do {
     msgResponseCode \<leftarrow> getResponseStatusCode message;
     if msgResponseCode < SIP_2XX_CLASS_CODE then Some MESSAGE_PROVISIONAL
     else if method_is msgMethod SIP_ACK_METHOD then Some MESSAGE_UNKNOWN
     else if method_is msgMethod SIP_CANCEL_METHOD then Some MESSAGE_CANCEL_RESPONSE
     else (case mpLastFinalResponse t of
             None \<Rightarrow> Some MESSAGE_FINAL
           | Some final \<Rightarrow> do {
               finalResponseCode \<leftarrow> getResponseStatusCode final;
               Some (if finalResponseCode = msgResponseCode then
                       if method_is msgMethod SIP_INVITE_METHOD then
                         let toTag = url_tag (url (field_value final SIP_TO_FIELD));
                             toTagMatches = (if \<not> mustCheckTags then toTag = [] \<or> str_cmp toTag (url_tag (url (field_value message SIP_TO_FIELD))) = 0 else True)
                         in if toTagMatches then MESSAGE_DUPLICATE else MESSAGE_NEW_FINAL
                       else MESSAGE_DUPLICATE
                     else MESSAGE_NEW_FINAL) }) }"

definition request_relation :: "transaction \<Rightarrow> string \<Rightarrow> messageRelationship option" where
  "request_relation t msgMethod =
     (case mpRequest t of
        Some request \<Rightarrow>
          if str_cmp (getRequestMethod request) msgMethod = 0 then Some MESSAGE_DUPLICATE
          else if method_is msgMethod SIP_ACK_METHOD then
            (case mpLastFinalResponse t of
               Some final \<Rightarrow> do {
                 finalResponseCode \<leftarrow> getResponseStatusCode final;
                 Some (if SIP_3XX_CLASS_CODE \<le> finalResponseCode then MESSAGE_ACK
                       else if mIsServerTransaction t then MESSAGE_2XX_ACK else MESSAGE_2XX_ACK_PROXY) }
             | None \<Rightarrow> Some MESSAGE_ACK)
          else if method_is msgMethod SIP_CANCEL_METHOD then Some MESSAGE_CANCEL
          else Some MESSAGE_DUPLICATE
      | None \<Rightarrow>
          Some (if method_is msgMethod SIP_CANCEL_METHOD then MESSAGE_CANCEL
                else if method_is msgMethod SIP_ACK_METHOD then MESSAGE_ACK
                else MESSAGE_REQUEST))"

text \<open>
  The relationship. \<open>BranchId::equals\<close> computes the full value of a branch and keeps it in the object; that is a cache, which the
  model computes each time.
\<close>

definition whatRelation :: "branch_env \<Rightarrow> (string \<Rightarrow> url_fields) \<Rightarrow> transaction list \<Rightarrow> transaction \<Rightarrow> http_message \<Rightarrow> bool \<Rightarrow> messageRelationship option" where
  "whatRelation env url parents t message isOutgoing =
     (if str_cmp (mCallId t) (getCallIdField message) = 0 then do {
        let (_, msgCseq, msgMethod) = getCSeqField message;
        let isResp = isResponse message;
        lastFinalResponseCode \<leftarrow> (case mpLastFinalResponse t of Some final \<Rightarrow> getResponseStatusCode final | None \<Rightarrow> Some (-1));
        let viaField = getViaFieldSubField message 0;
        let msgHasVia = (viaField \<noteq> None);
        msgBranch \<leftarrow> (case viaField of Some via \<Rightarrow> map_option snd (getViaTag via ''branch'') | None \<Rightarrow> Some []);
        let branchPrefixSet = isRFC3261 msgBranch;
        (_, branchIdMatches) \<leftarrow> branch_equals env (mpBranchId t) msgBranch;
        let had2xx = (lastFinalResponseCode < SIP_3XX_CLASS_CODE \<and> SIP_2XX_CLASS_CODE \<le> lastFinalResponseCode);
        let isAck = method_is msgMethod SIP_ACK_METHOD;
        let isCancel = method_is msgMethod SIP_CANCEL_METHOD;
        let notSent = (\<not> mIsServerTransaction t \<and> mTransactionState t = TRANSACTION_LOCALLY_INIITATED);
        let mustCheckTags = (\<not> branchPrefixSet \<or> (\<not> isResp \<and> (isCancel \<or> (isAck \<and> had2xx) \<or> notSent)));
        let fromTagMatches = (if mustCheckTags then str_cmp (url_tag (url (field_value message SIP_FROM_FIELD))) (url_tag (mFromField t)) = 0 else branchIdMatches);
        if fromTagMatches then do {
          let msgToTag = (if mustCheckTags then url_tag (url (field_value message SIP_TO_FIELD)) else []);
          let toTagMatches = (if mustCheckTags then url_tag (mToField t) = [] \<or> str_cmp (url_tag (mToField t)) msgToTag = 0 else branchIdMatches);
          if toTagMatches then
            if mCseq t = msgCseq then
              if isServerTransaction message isOutgoing = mIsServerTransaction t then do {
                let finalResponseToTag = (case mpLastFinalResponse t of
                  Some final \<Rightarrow> if mustCheckTags then url_tag (url (field_value final SIP_TO_FIELD)) else [] | None \<Rightarrow> []);
                parentBranchIdMatches \<leftarrow>
                  (if \<not> isResp \<and> notSent then
                     (case getTopMostParent parents of
                        Some parent \<Rightarrow> if mIsServerTransaction parent then map_option snd (branch_equals env (mpBranchId parent) msgBranch) else Some False
                      | None \<Rightarrow> Some (\<not> msgHasVia))
                   else Some False);
                if branchIdMatches
                   \<or> (parentBranchIdMatches \<and> str_cmp (getRequestUri message) (mRequestUri t) = 0)
                   \<or> (mIsUaTransaction t \<and> \<not> mIsServerTransaction t \<and> \<not> isResp \<and> \<not> msgHasVia \<and> isAck \<and> had2xx)
                   \<or> (mIsUaTransaction t \<and> mIsServerTransaction t \<and> \<not> isResp \<and> isAck \<and> had2xx \<and> str_cmp finalResponseToTag msgToTag = 0)
                   \<or> (\<not> mIsUaTransaction t \<and> \<not> isResp \<and> isAck \<and> had2xx)
                   \<or> (mIsUaTransaction t \<and> \<not> mIsServerTransaction t \<and> \<not> isResp \<and> \<not> msgHasVia \<and> isCancel)
                then if isResp then response_relation url t message msgMethod mustCheckTags else request_relation t msgMethod
                else Some MESSAGE_DIFFERENT_BRANCH }
              else Some MESSAGE_DIFFERENT_BRANCH
            else Some MESSAGE_SAME_SESSION
          else Some MESSAGE_UNRELATED }
        else Some MESSAGE_UNRELATED }
      else Some MESSAGE_UNRELATED)"

section \<open>The messages of a transaction\<close>

text \<open>
  \<open>addResponse\<close> takes over the message, or deletes it and sets the pointer of the caller to NULL. The result has that pointer and the
  messages that were deleted.
\<close>

definition store_or_delete :: "http_message option \<Rightarrow> http_message \<Rightarrow> (http_message option \<times> http_message option \<times> http_message list)" where
  "store_or_delete slot response = (case slot of Some old \<Rightarrow> (slot, None, [response]) | None \<Rightarrow> (Some response, Some response, []))"

definition keep_message :: "int \<Rightarrow> bool \<Rightarrow> transaction \<Rightarrow> http_message \<Rightarrow> bool \<Rightarrow> messageRelationship \<Rightarrow> (transaction \<times> http_message option \<times> http_message list) option" where
  "keep_message now hasSdpBody t response isOutGoing relationship =
     (case relationship of
        MESSAGE_REQUEST \<Rightarrow>
          (let (slot, r, d) = store_or_delete (mpRequest t) response; t1 = t\<lparr>mpRequest := slot\<rparr> in
           Some (if mTransactionState t1 < TRANSACTION_CALLING
                 then t1\<lparr>mTransactionState := TRANSACTION_CALLING, mTransactionStartTime := now\<rparr> else t1, r, d))
      | MESSAGE_PROVISIONAL \<Rightarrow> do {
          let d = (case mpLastProvisionalResponse t of Some old \<Rightarrow> [old] | None \<Rightarrow> []);
          let t1 = t\<lparr>mpLastProvisionalResponse := Some response\<rparr>;
          let t2 = (if mTransactionState t1 < TRANSACTION_PROCEEDING then t1\<lparr>mTransactionState := TRANSACTION_PROCEEDING\<rparr> else t1);
          t3 \<leftarrow> (if \<not> isOutGoing then do {
                   responseCode \<leftarrow> getResponseStatusCode response;
                   Some (if SIP_1XX_CLASS_CODE < responseCode \<and> responseCode < SIP_2XX_CLASS_CODE then t2\<lparr>mProvoExtendsTimer := True\<rparr> else t2) }
                 else Some t2);
          Some (if \<not> mProvisionalSdp t3 \<and> hasSdpBody then t3\<lparr>mProvisionalSdp := True\<rparr> else t3, Some response, d) }
      | MESSAGE_FINAL \<Rightarrow>
          (let d = (case mpLastFinalResponse t of Some old \<Rightarrow> [old] | None \<Rightarrow> []); t1 = t\<lparr>mpLastFinalResponse := Some response\<rparr> in
           Some (if mTransactionState t1 < TRANSACTION_COMPLETE then t1\<lparr>mTransactionState := TRANSACTION_COMPLETE\<rparr> else t1, Some response, d))
      | MESSAGE_ACK \<Rightarrow> (let (slot, r, d) = store_or_delete (mpAck t) response in Some (t\<lparr>mpAck := slot\<rparr>, r, d))
      | MESSAGE_2XX_ACK \<Rightarrow> (let (slot, r, d) = store_or_delete (mpAck t) response in Some (t\<lparr>mpAck := slot\<rparr>, r, d))
      | MESSAGE_2XX_ACK_PROXY \<Rightarrow> (let (slot, r, d) = store_or_delete (mpRequest t) response in Some (t\<lparr>mpRequest := slot\<rparr>, r, d))
      | MESSAGE_CANCEL \<Rightarrow> (let (slot, r, d) = store_or_delete (mpCancel t) response in Some (t\<lparr>mpCancel := slot\<rparr>, r, d))
      | MESSAGE_CANCEL_RESPONSE \<Rightarrow> (let (slot, r, d) = store_or_delete (mpCancelResponse t) response in Some (t\<lparr>mpCancelResponse := slot\<rparr>, r, d))
      | _ \<Rightarrow> Some (t, None, [response]))"

definition addResponse :: "branch_env \<Rightarrow> (string \<Rightarrow> url_fields) \<Rightarrow> transaction list \<Rightarrow> int \<Rightarrow> bool \<Rightarrow> transaction \<Rightarrow> http_message \<Rightarrow> bool \<Rightarrow> messageRelationship
    \<Rightarrow> (transaction \<times> messageRelationship \<times> http_message option \<times> http_message list) option" where
  "addResponse env url parents now hasSdpBody t response isOutGoing relationship0 = do {
     relationship \<leftarrow> (if relationship0 = MESSAGE_UNKNOWN then whatRelation env url parents t response isOutGoing else Some relationship0);
     (t1, response1, deleted) \<leftarrow> keep_message now hasSdpBody t response isOutGoing relationship;
     Some (t1, relationship, response1, deleted) }"

definition setCancelReasonValue :: "transaction \<Rightarrow> string \<Rightarrow> int \<Rightarrow> string option \<Rightarrow> transaction" where
  "setCancelReasonValue t protocol responseCode reasonText =
     t\<lparr>mCancelReasonValue := c_prefix protocol @ '';cause='' @ printf_d responseCode
        @ (case reasonText of Some r \<Rightarrow> if c_prefix r \<noteq> [] then '';text='' @ [CHR 0x22] @ c_prefix r @ [CHR 0x22] else [] | None \<Rightarrow> [])\<rparr>"

definition isMethod :: "transaction \<Rightarrow> string \<Rightarrow> bool" where
  "isMethod t methodToMatch \<longleftrightarrow> str_cmp (mRequestMethod t) methodToMatch = 0"

definition isEarlyDialogWithMedia :: "transaction \<Rightarrow> bool" where
  "isEarlyDialogWithMedia t \<longleftrightarrow> mProvisionalSdp t \<and> TRANSACTION_LOCALLY_INIITATED < mTransactionState t \<and> mTransactionState t < TRANSACTION_COMPLETE"

section \<open>Where else the state is written\<close>

text \<open>
  Five handlers that are not modelled as a whole write the state too. What each does to the transaction at these places is a definition, with the conditions of the
  code; what the transport, the timers and the DNS lookup give is an argument.
\<close>

text \<open>\<open>doFirstSend\<close>, after the message was given to the transport\<close>

definition first_send_done :: "messageRelationship \<Rightarrow> bool \<Rightarrow> transaction \<Rightarrow> transaction" where
  "first_send_done relationship sendSucceeded t =
     (if relationship = MESSAGE_REQUEST \<and> \<not> sendSucceeded then t\<lparr>mTransactionState := TRANSACTION_TERMINATED\<rparr> else t)"

text \<open>\<open>handleResendEvent\<close>, with the result and the next timeout that \<open>doResend\<close> gives\<close>

definition resend_event :: "bool \<Rightarrow> bool \<Rightarrow> messageRelationship \<Rightarrow> bool \<Rightarrow> int \<Rightarrow> transaction \<Rightarrow> transaction" where
  "resend_event isResp isFirstSend relationship sentOk nextTimeout t =
     (if isResp then
        if mIsServerTransaction t \<and> mpAck t = None \<and> mpLastFinalResponse t \<noteq> None \<and> \<not> sentOk \<and> relationship = MESSAGE_REQUEST
        then t\<lparr>mTransactionState := TRANSACTION_TERMINATED\<rparr> else t
      else if isFirstSend then t
      else if \<not> mIsCanceled t \<and> mpLastFinalResponse t = None \<and> mpLastProvisionalResponse t = None \<and> mTransactionState t = TRANSACTION_CALLING then
        if sentOk \<and> 0 < nextTimeout then t
        else if \<not> sentOk then
          if relationship = MESSAGE_REQUEST then t\<lparr>mTransactionState := TRANSACTION_TERMINATED\<rparr> else t\<lparr>mTransactionState := TRANSACTION_COMPLETE\<rparr>
        else if nextTimeout < 0 then t\<lparr>mTransactionState := TRANSACTION_COMPLETE\<rparr>
        else t
      else if mTransactionState t = TRANSACTION_CALLING then t\<lparr>mTransactionState := TRANSACTION_COMPLETE\<rparr>
      else t)"

text \<open>\<open>recurseDnsSrvChildren\<close>: the transaction waits for its children. \<open>lookupDue\<close> tells that there was no lookup yet, there are no children, and the address is not null.\<close>

definition dns_recursion :: "bool \<Rightarrow> transaction \<Rightarrow> transaction" where
  "dns_recursion lookupDue t =
     (if \<not> mIsServerTransaction t \<and> \<not> mIsDnsSrvChild t \<and> lookupDue \<and> mpRequest t \<noteq> None \<and> mpLastFinalResponse t = None
         \<and> mTransactionState t < TRANSACTION_CONFIRMED
      then t\<lparr>mTransactionState := TRANSACTION_CONFIRMED\<rparr> else t)"

text \<open>\<open>handleIncoming\<close>, for a request that comes again and is not quenched\<close>

definition request_resent :: "int \<Rightarrow> transaction \<Rightarrow> transaction" where
  "request_resent now t =
     (if mTransactionState t < TRANSACTION_CALLING then t\<lparr>mTransactionState := TRANSACTION_CALLING, mTransactionStartTime := now\<rparr> else t)"

section \<open>A response and the transaction of its request\<close>

text \<open>Responses whose branch and number match.\<close>

lemma whatRelation_response:
  assumes "isResponse r" and "mParentStringValid (mpBranchId t)" and "mIsServerTransaction t = isOutgoing" and "mCallId t = getCallIdField r"
    and "getCSeqField r = (found, mCseq t, meth)" and "top_branch r = Some (bid_string (mpBranchId t))"
    and "isRFC3261 (bid_string (mpBranchId t)) \<or> url_tag (mToField t) = []" and "url_tag (url (field_value r SIP_FROM_FIELD)) = url_tag (mFromField t)"
    and "mpLastFinalResponse t = None \<or> (\<exists>f c. mpLastFinalResponse t = Some f \<and> getResponseStatusCode f = Some c)"
  shows "whatRelation env url parents t r isOutgoing = response_relation url t r meth (\<not> isRFC3261 (bid_string (mpBranchId t)))"
proof -
  have last: "\<exists>c. (case mpLastFinalResponse t of Some final \<Rightarrow> getResponseStatusCode final | None \<Rightarrow> Some (-1)) = Some c" using assms(9) by auto
  have empty: "getViaTag [] ''branch'' = Some (False, [])" by code_simp
  then have via: "(case getViaFieldSubField r 0 of Some via \<Rightarrow> map_option snd (getViaTag via ''branch'') | None \<Rightarrow> Some []) = Some (bid_string (mpBranchId t))"
    using assms(6) by (auto simp: top_branch_def split: option.splits)
  have "branch_equals env (mpBranchId t) (bid_string (mpBranchId t)) = Some (mpBranchId t, True)"
    using assms(2) by (simp add: branch_equals_def generateFullValue_def str_cmp_0)
  then show ?thesis
    using last assms(1,3-5,7,8) by (auto simp: whatRelation_def via str_cmp_0 isServerTransaction_def Let_def split: if_splits)
qed

lemma SipTransaction_server:
  assumes "\<not> isResponse request" and "SipTransaction_new env url secret counter now request False ua parent = Some (t, p, c)"
  shows "mIsServerTransaction t \<and> mCallId t = getCallIdField request \<and> mCseq t = fst (snd (getCSeqField request)) \<and> mParentStringValid (mpBranchId t)
         \<and> top_branch request = Some (bid_string (mpBranchId t)) \<and> mFromField t = url (field_value request SIP_FROM_FIELD)
         \<and> mToField t = url (field_value request SIP_TO_FIELD) \<and> mpLastFinalResponse t = None \<and> p = parent \<and> c = counter"
  using assms by (auto simp: SipTransaction_new_def isServerTransaction_def BranchId_existing_def Let_def split: bind_splits prod.splits)

lemma status_code_written:
  assumes "line_text reason" and "int_ok code" and "mFirstHeaderLine r = mFirstHeaderLine (setResponseFirstHeaderLine m SIP_PROTOCOL_VERSION code reason)"
  shows "getResponseStatusCode r = Some code"
proof -
  have n: "line_word (printf_d code)"
    using printf_d_ok [of code] dec_digits_ok [of "nat code"] dec_digits_ok [of "nat (- code)"]
    by (auto simp: line_word_def printf_d_def list_all_iff is_strip_ws_def isdigit_def)
  have "line_part r 1 = line_part (setResponseFirstHeaderLine m SIP_PROTOCOL_VERSION code reason) 1"
    by (simp add: line_part_def getFirstHeaderLinePart_def assms(3))
  then show ?thesis
    using first_line_parts [OF version_word(1) n assms(1), of m] atoi_printf_d [OF assms(2)]
    by (simp add: getResponseStatusCode_def setResponseFirstHeaderLine_def)
qed

text \<open>The response has the Via entries of the request on lines of their own; the first of them is the same.\<close>

lemma pieces_clean: "p \<in> set (pieces sep s) \<Longrightarrow> list_all (\<lambda>c. \<not> sep c) p"
proof (induction s arbitrary: p)
  case (Cons c s)
  then show ?case by (cases "pieces sep s") (auto split: if_splits)
qed simp

lemma subfields_again: "p \<in> set (subfields seps s) \<Longrightarrow> subfields seps p = [p]"
  using pieces_clean [of p "\<lambda>c. c \<in> set seps" s] pieces_one [of "\<lambda>c. c \<in> set seps" p] by (simp add: subfields_def)

lemma field_entries_plain:
  assumes "list_all (plain v) (field_lines m name)" and "p \<in> set (field_entries m name)"
  shows "plain v p" and "subfields SIP_MULTIFIELD_SEPARATOR p = [p]"
proof -
  obtain s where s: "s \<in> set (field_lines m name)" "p \<in> set (subfields SIP_MULTIFIELD_SEPARATOR s)"
    using assms(2) by (auto simp: field_entries_def)
  then show "subfields SIP_MULTIFIELD_SEPARATOR p = [p]" by (simp add: subfields_again)
  have p: "p \<in> set (pieces (\<lambda>c. c \<in> set SIP_MULTIFIELD_SEPARATOR) s)" using s(2) by (simp add: subfields_def)
  have "length p \<le> length (concat (pieces (\<lambda>c. c \<in> set SIP_MULTIFIELD_SEPARATOR) s))"
    using p by (auto simp: length_concat intro!: member_le_sum_list)
  then have "length p \<le> length s" using pieces_length [of "\<lambda>c. c \<in> set SIP_MULTIFIELD_SEPARATOR" s] by simp
  moreover have "plain v s" "set p \<subseteq> set s" using assms(1) s(1) pieces_chars [OF p] by (auto simp: list_all_iff)
  ultimately show "plain v p" by (auto simp: plain_def list_all_iff nul_free_def)
qed

lemma top_branch_repeated:
  assumes plain: "list_all (plain True) (field_lines request SIP_VIA_FIELD)" and "header_values r SIP_VIA_FIELD = field_entries request SIP_VIA_FIELD"
  shows "top_branch r = top_branch request"
proof -
  let ?es = "field_entries request SIP_VIA_FIELD"
  have "field_lines r SIP_VIA_FIELD = ?es"
    using field_entries_nul_free(2) [OF plain] by (simp add: field_lines_def assms(2) takeWhile_eq_all_conv)
  moreover have "map (subfields SIP_MULTIFIELD_SEPARATOR) ?es = map (\<lambda>p. [p]) ?es" using field_entries_plain(2) [OF plain] by simp
  then have "concat (map (subfields SIP_MULTIFIELD_SEPARATOR) ?es) = ?es" by (simp only: concat_map_singleton list.map_ident)
  ultimately have "list_all (plain True) (field_lines r SIP_VIA_FIELD)" "field_entries r SIP_VIA_FIELD = ?es"
    using field_entries_plain(1) [OF plain] by (simp_all add: field_entries_def [of r] list_all_iff)
  then have "getViaFieldSubField r 0 = getViaFieldSubField request 0"
    using getViaFieldSubField_plain [of r 0] getViaFieldSubField_plain [OF plain, of 0] by (simp add: BOTTOM_SUBFIELD_def)
  then show ?thesis by (simp add: top_branch_def)
qed

text \<open>C21. A response made from a request belongs to the server transaction of the request: sent out, it is its provisional response or its
  final one, as its code says, whatever contact it has and whatever tag it adds. The request may have a branch of RFC 3261 or none, if its To field has no tag.\<close>

theorem transaction_response_related:
  assumes "\<not> isResponse request" and "getCSeqField request = (True, n, meth)" and "line_word meth" and "line_text reason"
    and "\<not> method_is meth SIP_ACK_METHOD" and "\<not> method_is meth SIP_CANCEL_METHOD" and "100 \<le> code" and "code \<le> 699"
    and "nul_free (field_value request SIP_FROM_FIELD)" and "nul_free (getCallIdField request)"
    and "list_all (plain True) (field_lines request SIP_VIA_FIELD)" and "int (length (field_entries request SIP_VIA_FIELD)) < BOTTOM_SUBFIELD"
    and "SipTransaction_new env url secret counter now request False ua parent = Some (t, p, c)"
    and "isRFC3261 (bid_string (mpBranchId t)) \<or> url_tag (url (field_value request SIP_TO_FIELD)) = []"
  shows "returns (setResponseData_request blank_message request code reason contact echo tag) (\<lambda>r.
           whatRelation env url parents t r True = Some (if code < 200 then MESSAGE_PROVISIONAL else MESSAGE_FINAL))"
proof -
  note t = SipTransaction_server [OF assms(1,13)]
  have nul: "nul_free reason" using assms(4) by (simp add: line_text_def)
  show ?thesis
  proof (rule returns_mono [OF response_from_request [OF assms(2,3) nul assms(9-12)]])
    fix r
    assume r: "isResponse r \<and> mFirstHeaderLine r = mFirstHeaderLine (setResponseFirstHeaderLine blank_message SIP_PROTOCOL_VERSION code reason)
       \<and> getCSeqField r = (True, n, meth) \<and> header_values r SIP_FROM_FIELD = [field_value request SIP_FROM_FIELD]
       \<and> header_values r SIP_TO_FIELD = [c_prefix (response_to code (field_value request SIP_TO_FIELD) tag)]
       \<and> header_values r SIP_CALLID_FIELD = [getCallIdField request] \<and> header_values r SIP_VIA_FIELD = field_entries request SIP_VIA_FIELD
       \<and> header_values r SIP_RECORD_ROUTE_FIELD =
           (if echo \<and> isRecordRouteAccepted request then map c_prefix (field_lines request SIP_RECORD_ROUTE_FIELD) else [])
       \<and> header_values r SIP_CONTACT_FIELD = (case contact of None \<Rightarrow> [] | Some c \<Rightarrow> [c_prefix c])"
    have id: "getCallIdField r = getCallIdField request" "field_value r SIP_FROM_FIELD = field_value request SIP_FROM_FIELD"
      using r by (simp_all add: getCallIdField_def field_value_hd [of r])
    have "whatRelation env url parents t r True = response_relation url t r meth (\<not> isRFC3261 (bid_string (mpBranchId t)))"
      by (rule whatRelation_response [where found = True])
        (use t r id assms(2,14) top_branch_repeated [OF assms(11), of r] in auto)
    moreover have "getResponseStatusCode r = Some code"
      by (rule status_code_written [OF assms(4)]) (use r assms(7,8) in \<open>auto simp: int_ok_def\<close>)
    ultimately show "whatRelation env url parents t r True = Some (if code < 200 then MESSAGE_PROVISIONAL else MESSAGE_FINAL)"
      using t assms(5,6) by (simp add: response_relation_def SIP_2XX_CLASS_CODE_def)
  qed
qed
definition sample_transaction :: transaction where
  "sample_transaction = fst (the (SipTransaction_new ref_branch_env no_url ''s3'' 0 17 sample_request False True None))"

lemma sample_transaction_new: "SipTransaction_new ref_branch_env no_url ''s3'' 0 17 sample_request False True None = Some (sample_transaction, None, 0)"
proof -
  have "\<not> isResponse sample_request" "top_branch sample_request = Some []" by code_simp+
  then show ?thesis by (simp add: sample_transaction_def SipTransaction_new_def isServerTransaction_def case_prod_unfold Let_def)
qed

theorem transaction_response_related_witness:
  "returns (setResponseData_request blank_message sample_request 200 ''OK'' None True ''9'') (\<lambda>r.
     whatRelation ref_branch_env no_url [] sample_transaction r True = Some MESSAGE_FINAL)"
proof -
  have h: "\<not> isResponse sample_request" "getCSeqField sample_request = (True, 7, ''INVITE'')" "line_word ''INVITE''" "line_text ''OK''"
    "\<not> method_is ''INVITE'' SIP_ACK_METHOD" "\<not> method_is ''INVITE'' SIP_CANCEL_METHOD"
    "nul_free (field_value sample_request SIP_FROM_FIELD)" "nul_free (getCallIdField sample_request)"
    "list_all (plain True) (field_lines sample_request SIP_VIA_FIELD)" "int (length (field_entries sample_request SIP_VIA_FIELD)) < BOTTOM_SUBFIELD"
    by code_simp+
  show ?thesis
    using transaction_response_related [OF h(1-6) _ _ h(7-10) sample_transaction_new, of 200 None True "''9''" "[]"] by (simp add: no_url_def)
qed

section \<open>The messages that a transaction keeps\<close>

definition opt_mset :: "'a option \<Rightarrow> 'a multiset" where
  "opt_mset x = (case x of None \<Rightarrow> {#} | Some a \<Rightarrow> {#a#})"

definition owned :: "transaction \<Rightarrow> http_message multiset" where
  "owned t = opt_mset (mpRequest t) + opt_mset (mpLastProvisionalResponse t) + opt_mset (mpLastFinalResponse t)
     + opt_mset (mpAck t) + opt_mset (mpCancel t) + opt_mset (mpCancelResponse t)"

lemma opt_mset_simps [simp]: "opt_mset None = {#}" "opt_mset (Some a) = {#a#}"
  by (simp_all add: opt_mset_def)

lemma state_order [simp]:
  "s \<le> TRANSACTION_TERMINATED" "TRANSACTION_UNKNOWN \<le> s"
  by (cases s; simp add: less_eq_transactionStates_def)+

text \<open>
  What the messages say of the state. More cannot be said: a transaction becomes complete, confirmed or terminated without a final response too, if it is not
  answered, if it waits for its children or if its request cannot be sent.
\<close>

definition tx_inv :: "transaction \<Rightarrow> bool" where
  "tx_inv t \<longleftrightarrow> TRANSACTION_LOCALLY_INIITATED \<le> mTransactionState t
     \<and> (mpLastProvisionalResponse t \<noteq> None \<longrightarrow> TRANSACTION_PROCEEDING \<le> mTransactionState t)
     \<and> (mpLastFinalResponse t \<noteq> None \<longrightarrow> TRANSACTION_COMPLETE \<le> mTransactionState t)"

text \<open>The state that a message calls for.\<close>

definition message_state :: "messageRelationship \<Rightarrow> transactionStates" where
  "message_state relationship =
     (case relationship of
        MESSAGE_REQUEST \<Rightarrow> TRANSACTION_CALLING
      | MESSAGE_PROVISIONAL \<Rightarrow> TRANSACTION_PROCEEDING
      | MESSAGE_FINAL \<Rightarrow> TRANSACTION_COMPLETE
      | _ \<Rightarrow> TRANSACTION_UNKNOWN)"

lemmas state_simps = less_eq_transactionStates_def less_transactionStates_def

text \<open>The fields after each kind of message.\<close>

lemma keep_provisional:
  assumes "keep_message now sdp t m out MESSAGE_PROVISIONAL = Some (t', r, d)"
  shows "mpRequest t' = mpRequest t" "mpLastProvisionalResponse t' = Some m" "mpLastFinalResponse t' = mpLastFinalResponse t" "mpAck t' = mpAck t"
    "mpCancel t' = mpCancel t" "mpCancelResponse t' = mpCancelResponse t" "r = Some m" "mset d = opt_mset (mpLastProvisionalResponse t)"
    "mTransactionState t' = (if mTransactionState t < TRANSACTION_PROCEEDING then TRANSACTION_PROCEEDING else mTransactionState t)"
proof -
  obtain t3 where t3: "mpRequest t3 = mpRequest t" "mpLastProvisionalResponse t3 = Some m" "mpLastFinalResponse t3 = mpLastFinalResponse t" "mpAck t3 = mpAck t"
    "mpCancel t3 = mpCancel t" "mpCancelResponse t3 = mpCancelResponse t"
    "mTransactionState t3 = (if mTransactionState t < TRANSACTION_PROCEEDING then TRANSACTION_PROCEEDING else mTransactionState t)"
    and e: "t' = (if \<not> mProvisionalSdp t3 \<and> sdp then t3\<lparr>mProvisionalSdp := True\<rparr> else t3)" "r = Some m"
      "d = (case mpLastProvisionalResponse t of Some old \<Rightarrow> [old] | None \<Rightarrow> [])"
    using assms unfolding keep_message_def Let_def
    by (cases out; cases "getResponseStatusCode m"; cases "mTransactionState t < TRANSACTION_PROCEEDING") (fastforce split: if_splits)+
  show "mpRequest t' = mpRequest t" "mpLastProvisionalResponse t' = Some m" "mpLastFinalResponse t' = mpLastFinalResponse t" "mpAck t' = mpAck t"
    "mpCancel t' = mpCancel t" "mpCancelResponse t' = mpCancelResponse t" "r = Some m"
    "mTransactionState t' = (if mTransactionState t < TRANSACTION_PROCEEDING then TRANSACTION_PROCEEDING else mTransactionState t)"
    using t3 e by simp_all
  show "mset d = opt_mset (mpLastProvisionalResponse t)" using e(3) by (simp split: option.splits)
qed

lemma keep_final:
  assumes "keep_message now sdp t m out MESSAGE_FINAL = Some (t', r, d)"
  shows "mpRequest t' = mpRequest t" "mpLastProvisionalResponse t' = mpLastProvisionalResponse t" "mpLastFinalResponse t' = Some m" "mpAck t' = mpAck t"
    "mpCancel t' = mpCancel t" "mpCancelResponse t' = mpCancelResponse t" "r = Some m" "mset d = opt_mset (mpLastFinalResponse t)"
    "mTransactionState t' = (if mTransactionState t < TRANSACTION_COMPLETE then TRANSACTION_COMPLETE else mTransactionState t)"
  using assms by (auto simp: keep_message_def Let_def split: option.splits)

lemma keep_slot:
  assumes "keep_message now sdp t m out rel = Some (t', r, d)" and "rel \<noteq> MESSAGE_PROVISIONAL" and "rel \<noteq> MESSAGE_FINAL"
  shows "owned t' + mset d = add_mset m (owned t)" and "r = Some m \<or> r = None \<and> d = [m]"
    and "mpLastProvisionalResponse t' = mpLastProvisionalResponse t" and "mpLastFinalResponse t' = mpLastFinalResponse t"
    and "mpRequest t \<noteq> None \<longrightarrow> mpRequest t' = mpRequest t"
    and "mTransactionState t' = (if rel = MESSAGE_REQUEST \<and> mTransactionState t < TRANSACTION_CALLING then TRANSACTION_CALLING else mTransactionState t)"
    and "rel = MESSAGE_REQUEST \<longrightarrow> mpRequest t' \<noteq> None"
  using assms by (cases rel; auto simp: keep_message_def store_or_delete_def owned_def Let_def split: option.splits)+

lemma keep_message_owned:
  assumes "keep_message now sdp t m out rel = Some (t', r, deleted)"
  shows "owned t' + mset deleted = add_mset m (owned t) \<and> (r = Some m \<or> r = None \<and> deleted = [m])"
proof -
  consider "rel = MESSAGE_PROVISIONAL" | "rel = MESSAGE_FINAL" | "rel \<noteq> MESSAGE_PROVISIONAL" "rel \<noteq> MESSAGE_FINAL" by blast
  then show ?thesis
  proof cases
    case 1
    then show ?thesis using keep_provisional [OF assms [unfolded 1]] by (simp add: owned_def)
  next
    case 2
    then show ?thesis using keep_final [OF assms [unfolded 2]] by (simp add: owned_def)
  next
    case 3
    then show ?thesis using keep_slot(1,2) [OF assms] by blast
  qed
qed

lemma keep_message_state:
  assumes "keep_message now sdp t m out rel = Some (t', r, deleted)"
  shows "mTransactionState t' = max (mTransactionState t) (message_state rel) \<and> (tx_inv t \<longrightarrow> tx_inv t')"
proof -
  consider "rel = MESSAGE_PROVISIONAL" | "rel = MESSAGE_FINAL" | "rel \<noteq> MESSAGE_PROVISIONAL" "rel \<noteq> MESSAGE_FINAL" by blast
  then show ?thesis
  proof cases
    case 1
    note k = keep_provisional [OF assms [unfolded 1]]
    show ?thesis unfolding tx_inv_def k 1 by (cases "mTransactionState t") (auto simp: state_simps message_state_def max_def)
  next
    case 2
    note k = keep_final [OF assms [unfolded 2]]
    show ?thesis unfolding tx_inv_def k 2 by (cases "mTransactionState t") (auto simp: state_simps message_state_def max_def)
  next
    case 3
    note k = keep_slot(3-7) [OF assms 3]
    show ?thesis unfolding tx_inv_def k(1,2,4) using 3 by (cases rel; cases "mTransactionState t") (auto simp: state_simps message_state_def max_def)
  qed
qed

text \<open>
  The ways of a transaction: messages are added, and the handlers write the state, in any order. Everything else leaves the state and the responses as they are.
\<close>

inductive tx_run :: "branch_env \<Rightarrow> (string \<Rightarrow> url_fields) \<Rightarrow> transaction \<Rightarrow> transaction \<Rightarrow> bool" for env url where
  tx_start: "tx_run env url t t"
| tx_message: "tx_run env url t t1 \<Longrightarrow> addResponse env url parents now sdp t1 m out rel = Some (t2, rel', r, deleted) \<Longrightarrow> tx_run env url t t2"
| tx_first_send: "tx_run env url t t1 \<Longrightarrow> tx_run env url t (first_send_done rel sendSucceeded t1)"
| tx_resend: "tx_run env url t t1 \<Longrightarrow> tx_run env url t (resend_event isResp isFirstSend rel sentOk nextTimeout t1)"
| tx_dns: "tx_run env url t t1 \<Longrightarrow> tx_run env url t (dns_recursion lookupDue t1)"
| tx_resent: "tx_run env url t t1 \<Longrightarrow> tx_run env url t (request_resent now t1)"
| tx_other: "tx_run env url t t1 \<Longrightarrow> mTransactionState t2 = mTransactionState t1 \<Longrightarrow> mpLastProvisionalResponse t2 = mpLastProvisionalResponse t1
    \<Longrightarrow> mpLastFinalResponse t2 = mpLastFinalResponse t1 \<Longrightarrow> tx_run env url t t2"

lemma addResponse_keep:
  "addResponse env url parents now sdp t m out rel = Some (t', rel', r, deleted) \<Longrightarrow> keep_message now sdp t m out rel' = Some (t', r, deleted)"
  by (auto simp: addResponse_def split: bind_splits)

text \<open>A handler that raises the state and leaves the responses alone.\<close>

definition raises :: "transaction \<Rightarrow> transaction \<Rightarrow> bool" where
  "raises t t' \<longleftrightarrow> mTransactionState t \<le> mTransactionState t' \<and> mpLastProvisionalResponse t' = mpLastProvisionalResponse t \<and> mpLastFinalResponse t' = mpLastFinalResponse t"

lemma state_number_le: "state_number s \<le> 6"
  by (cases s) simp_all

lemma handlers_raise:
  "raises t (first_send_done rel sendSucceeded t)" "raises t (resend_event isResp isFirstSend rel sentOk nextTimeout t)"
  "raises t (dns_recursion lookupDue t)" "raises t (request_resent now t)"
  by (simp_all add: raises_def first_send_done_def resend_event_def dns_recursion_def request_resent_def state_simps state_number_le)

lemma raises_inv: "raises t t' \<Longrightarrow> tx_inv t \<Longrightarrow> tx_inv t'"
  unfolding raises_def tx_inv_def using order_trans by metis

lemma tx_run_state: "tx_run env url t t' \<Longrightarrow> mTransactionState t \<le> mTransactionState t' \<and> (tx_inv t \<longrightarrow> tx_inv t')"
proof (induction rule: tx_run.induct)
  case (tx_message t t1 parents now sdp m out rel t2 rel' r deleted)
  then show ?case using keep_message_state [OF addResponse_keep [OF tx_message.hyps(2)]] by (metis max.cobounded1 order_trans)
next
  case (tx_other t t1 t2)
  then show ?case by (simp add: tx_inv_def)
qed (blast intro: handlers_raise order_trans raises_inv handlers_raise [unfolded raises_def, THEN conjunct1])+

lemma SipTransaction_new_inv:
  assumes "SipTransaction_new env url secret counter now m out ua parent = Some (t, p, c)"
  shows "tx_inv t" and "owned t = {#}" and "mTransactionState t = TRANSACTION_LOCALLY_INIITATED"
  using assms by (auto simp: SipTransaction_new_def tx_inv_def owned_def Let_def split: bind_splits prod.splits option.splits)

text \<open>C22. The state of a transaction through its life, whatever messages are added and wherever the code writes the state: it never goes back, it is at least
  proceeding once a provisional response is kept and at least complete once a final one is, and a message moves it exactly to the state it calls for, if that is a
  later one.\<close>

theorem transaction_state_invariant:
  assumes "SipTransaction_new env url secret counter now m out ua parent = Some (t0, p, c)" and "tx_run env url t0 t" and "tx_run env url t t'"
  shows "tx_inv t \<and> mTransactionState t \<le> mTransactionState t'
     \<and> (\<forall>parents now sdp m out rel t2 rel' r deleted. addResponse env url parents now sdp t m out rel = Some (t2, rel', r, deleted)
          \<longrightarrow> mTransactionState t2 = max (mTransactionState t) (message_state rel'))"
  using SipTransaction_new_inv [OF assms(1)] tx_run_state [OF assms(2)] tx_run_state [OF assms(3)] keep_message_state [OF addResponse_keep] by blast

lemma sample_final: "\<exists>t' r deleted. addResponse ref_branch_env no_url [] 20 False sample_transaction blank_message True MESSAGE_FINAL = Some (t', MESSAGE_FINAL, r, deleted)
    \<and> mTransactionState t' = TRANSACTION_COMPLETE"
  by (simp add: addResponse_def keep_message_def sample_transaction_def state_simps SipTransaction_new_inv(3) [OF sample_transaction_new, unfolded sample_transaction_def])

theorem transaction_state_invariant_witness:
  "\<exists>t2 r deleted. tx_run ref_branch_env no_url sample_transaction (dns_recursion True (request_resent 18 sample_transaction))
     \<and> addResponse ref_branch_env no_url [] 20 False (request_resent 18 sample_transaction) blank_message True MESSAGE_FINAL = Some (t2, MESSAGE_FINAL, r, deleted)
     \<and> mTransactionState t2 = max TRANSACTION_CALLING TRANSACTION_COMPLETE"
proof -
  let ?t = "request_resent 18 sample_transaction"
  have run: "tx_run ref_branch_env no_url sample_transaction ?t" "tx_run ref_branch_env no_url ?t (dns_recursion True ?t)"
    "tx_run ref_branch_env no_url sample_transaction (dns_recursion True ?t)"
    by (intro tx_resent tx_dns tx_start)+
  have s: "mTransactionState ?t = TRANSACTION_CALLING" using SipTransaction_new_inv(3) [OF sample_transaction_new] by (simp add: request_resent_def state_simps)
  obtain t2 r deleted where a: "addResponse ref_branch_env no_url [] 20 False ?t blank_message True MESSAGE_FINAL = Some (t2, MESSAGE_FINAL, r, deleted)"
    by (simp add: addResponse_def keep_message_def Let_def)
  have "mTransactionState t2 = max (mTransactionState ?t) (message_state MESSAGE_FINAL)"
    using transaction_state_invariant [OF sample_transaction_new run(1,2)] a by blast
  then show ?thesis using run(3) a by (simp add: s message_state_def)
qed

text \<open>C23. Every message handed to \<open>addResponse\<close> is afterwards kept by the transaction or was deleted, together with those it kept before: none is lost and
  none deleted twice. The pointer of the caller becomes NULL exactly if the message itself was deleted and nothing else.\<close>

theorem transaction_messages_kept:
  assumes "addResponse env url parents now sdp t m out rel = Some (t', rel', r, deleted)"
  shows "owned t' + mset deleted = add_mset m (owned t) \<and> (r = Some m \<or> r = None \<and> deleted = [m])"
  using keep_message_owned [OF addResponse_keep [OF assms]] .

theorem transaction_messages_kept_witness:
  "\<exists>t' r deleted. addResponse ref_branch_env no_url [] 20 False sample_transaction blank_message True MESSAGE_FINAL = Some (t', MESSAGE_FINAL, r, deleted)
     \<and> owned t' + mset deleted = {#blank_message#}"
proof -
  obtain t' r deleted where t': "addResponse ref_branch_env no_url [] 20 False sample_transaction blank_message True MESSAGE_FINAL = Some (t', MESSAGE_FINAL, r, deleted)"
    using sample_final by blast
  from transaction_messages_kept [OF t'] t' show ?thesis using SipTransaction_new_inv(2) [OF sample_transaction_new] by auto
qed

end
