(* ===== verification/HttpMessage.thy ===== *)
theory HttpMessage
  imports NameValueTokenizer
begin

text \<open>
  Messages on the wire (\<^verbatim>\<open>sipXtackLib/src/net/HttpMessage.cpp\<close>): reading a message from its bytes
  (\<open>parseMessage\<close>) and writing it (\<open>getBytes\<close>). A packet is a message, whose first line and header
  fields are those of theory \<open>SipMessage\<close>, with its body, kept as the bytes it consists of; which class
  of bodies \<open>HttpBody::createBody\<close> chooses for them is left out.
\<close>

section \<open>Reading\<close>

record packet =
  pk_message :: http_message
  pk_body :: "string option"

definition HTTP_NAME_VALUE_DELIMITER :: char where "HTTP_NAME_VALUE_DELIMITER = CHR '':''"
definition END_OF_LINE_DELIMITER :: string where "END_OF_LINE_DELIMITER = [CHR 0x0D, CHR 0x0A]"
definition HTTP_CONTENT_LENGTH_FIELD :: string where "HTTP_CONTENT_LENGTH_FIELD = ''CONTENT-LENGTH''"

text \<open>The first line and the number of bytes consumed.\<close>

definition parseFirstLine :: "string \<Rightarrow> string \<times> nat" where
  "parseFirstLine bytes =
     (let (headerLineLength, nextLineOffset) = (case findNextLineTerminator bytes of
            None \<Rightarrow> (length bytes, None) | Some (l, n) \<Rightarrow> (l, Some n)) in
      if 0 < headerLineLength then
        (take headerLineLength bytes, case nextLineOffset of Some n \<Rightarrow> n | None \<Rightarrow> length bytes)
      else ([], 0))"

lemma findNextLineTerminator_bound:
  "findNextLineTerminator s = Some (t, n) \<Longrightarrow> t < length s \<and> t < n \<and> n \<le> length s"
proof (induction s arbitrary: t n)
  case (Cons c s)
  then show ?case by (cases s) (auto split: if_splits)
qed simp

lemma getNextPair_advances:
  assumes "getNextPair separator t = (t', True, name, value)"
  shows "textPtr t' = textPtr t" and "bytesConsumed t < bytesConsumed t'" and "bytesConsumed t < length (textPtr t)"
proof -
  let ?rest = "drop (bytesConsumed t) (textPtr t)"
  have "strip_spec is_strip_ws both (take n []) = []" for n by simp
  then have rest: "?rest \<noteq> []"
    using assms by (auto simp: getNextPair_def Let_def split: option.splits prod.splits)
  show "textPtr t' = textPtr t" "bytesConsumed t < bytesConsumed t'" "bytesConsumed t < length (textPtr t)"
    using assms rest findNextLineTerminator_bound
    by (fastforce simp: getNextPair_def Let_def split: option.splits prod.splits)+
qed

text \<open>
  The loop of \<open>parseHeaders\<close>. A line is a continuation of the one before it if its name starts
  with a blank; but \<open>getNextPair\<close> has already stripped the name.
\<close>

definition add_line :: "nv list \<Rightarrow> string \<Rightarrow> string \<Rightarrow> nv list" where
  "add_line hs name value =
     (if hs \<noteq> [] \<and> (case name of [] \<Rightarrow> False | c # _ \<Rightarrow> is_separator c) then
        (let joined = (if value \<noteq> [] then name @ [HTTP_NAME_VALUE_DELIMITER] @ c_prefix value else name) in
         butlast hs @ [nv_put (last hs) (nv_value (last hs) @ joined)])
      else hs @ [NameValuePair (backTrim is_separator (map toupper name)) value])"

function parseHeaders :: "tokenizer \<Rightarrow> nv list \<Rightarrow> nv list \<times> nat" where
  "parseHeaders parser hs =
     (let (parser1, nameFound, name, value) = getNextPair HTTP_NAME_VALUE_DELIMITER parser in
      if nameFound then parseHeaders parser1 (add_line hs name value)
      else (hs, bytesConsumed parser1))"
  by pat_completeness auto
termination
proof (relation "measure (\<lambda>(t, hs). length (textPtr t) - bytesConsumed t)", goal_cases)
  case (2 parser hs x xa y xb ya xc yb)
  then have "getNextPair HTTP_NAME_VALUE_DELIMITER parser = (xa, True, xc, yb)" by simp
  from getNextPair_advances [OF this] show ?case by simp
qed simp

declare parseHeaders.simps [simp del]

definition parseMessage :: "string \<Rightarrow> packet" where
  "parseMessage messageBytes =
     (let (first, consumed) = parseFirstLine messageBytes;
          (hs, n) = parseHeaders \<lparr>textPtr = drop consumed messageBytes, bytesConsumed = 0\<rparr> [] in
      \<lparr>pk_message = \<lparr>mFirstHeaderLine = first, mNameValues = hs\<rparr>,
       pk_body = (if consumed + n < length messageBytes then Some (drop (consumed + n) messageBytes) else None)\<rparr>)"

section \<open>Writing\<close>

fun cannonize :: "bool \<Rightarrow> string \<Rightarrow> string" where
  "cannonize capNextChar [] = []"
| "cannonize capNextChar (c # s) = (if capNextChar then toupper c else tolower c) # cannonize (c = CHR ''-'') s"

definition cannonizeToken :: "string \<Rightarrow> string" where
  "cannonizeToken token = cannonize True token"

definition isContentLength :: "nv \<Rightarrow> bool" where
  "isContentLength h \<longleftrightarrow> str_casecmp (cannonizeToken (nv_name h)) HTTP_CONTENT_LENGTH_FIELD = 0"

text \<open>A Content-Length field with another number than the length of the body is corrected, in the message itself.\<close>

definition correct_length :: "nat \<Rightarrow> nv \<Rightarrow> nv option" where
  "correct_length bodyLen h =
     (if isContentLength h then
        map_option (\<lambda>v. if v \<noteq> int bodyLen then nv_put h (printf_d (int bodyLen)) else h) (atoi (nv_value h))
      else Some h)"

definition field_line :: "nv \<Rightarrow> string" where
  "field_line h = cannonizeToken (nv_name h) @ [HTTP_NAME_VALUE_DELIMITER] @ '' '' @ nv_value h @ END_OF_LINE_DELIMITER"

fun map_defined :: "('a \<Rightarrow> 'b option) \<Rightarrow> 'a list \<Rightarrow> 'b list option" where
  "map_defined f [] = Some []"
| "map_defined f (x # xs) = do { y \<leftarrow> f x; ys \<leftarrow> map_defined f xs; Some (y # ys) }"

definition body_bytes :: "packet \<Rightarrow> string" where
  "body_bytes p = (case pk_body p of None \<Rightarrow> [] | Some b \<Rightarrow> b)"

text \<open>The message as it is left and its bytes.\<close>

definition getBytes :: "bool \<Rightarrow> packet \<Rightarrow> (packet \<times> string) option" where
  "getBytes useChunkedEncoding p = do {
     let bodyLen = length (body_bytes p);
     hs \<leftarrow> map_defined (correct_length bodyLen) (mNameValues (pk_message p));
     let foundContentLengthHeader = list_ex isContentLength hs;
     Some (p\<lparr>pk_message := (pk_message p)\<lparr>mNameValues := hs\<rparr>\<rparr>,
           mFirstHeaderLine (pk_message p) @ END_OF_LINE_DELIMITER @ concat (map field_line hs)
           @ (if \<not> foundContentLengthHeader \<and> \<not> useChunkedEncoding
              then field_line (NV HTTP_CONTENT_LENGTH_FIELD (printf_d (int bodyLen))) else [])
           @ END_OF_LINE_DELIMITER @ body_bytes p) }"

section \<open>What is written is read back\<close>

definition name_char :: "char \<Rightarrow> bool" where
  "name_char c \<longleftrightarrow> c \<noteq> HTTP_NAME_VALUE_DELIMITER \<and> \<not> is_strip_ws c \<and> c \<noteq> NUL"

definition line_char :: "char \<Rightarrow> bool" where
  "line_char c \<longleftrightarrow> c \<noteq> NEWLINE \<and> c \<noteq> CARRIAGE_RETURN"

text \<open>The header fields that survive: a name in upper case without white space and colon, a value on one line
  without white space around it.\<close>

definition value_ok :: "string \<Rightarrow> bool" where
  "value_ok v \<longleftrightarrow> nul_free v \<and> list_all line_char v \<and> strip_spec is_strip_ws both v = v"

definition field_ok :: "nv \<Rightarrow> bool" where
  "field_ok h \<longleftrightarrow> nv_name h \<noteq> [] \<and> map toupper (nv_name h) = nv_name h \<and> list_all name_char (nv_name h) \<and> value_ok (nv_value h)"

lemma of_char_case:
  "(of_char (toupper c) :: nat) = (if 97 \<le> (of_char c :: nat) \<and> (of_char c :: nat) \<le> 122 then of_char c - 32 else of_char c)"
  "(of_char (tolower c) :: nat) = (if 65 \<le> (of_char c :: nat) \<and> (of_char c :: nat) \<le> 90 then of_char c + 32 else of_char c)"
  by (auto simp: toupper_def tolower_def Let_def intro!: mod_less)

lemma char_code: "c = d \<longleftrightarrow> (of_char c :: nat) = of_char d"
  using of_char_eq_iff by blast

lemma name_char_code: "name_char c \<longleftrightarrow> (of_char c :: nat) \<notin> {58, 9, 32, 10, 13, 0}"
  by (simp add: name_char_def is_strip_ws_def HTTP_NAME_VALUE_DELIMITER_def NUL_def char_code [of c])

lemma name_char_case: "name_char c \<Longrightarrow> name_char (toupper c)" "name_char c \<Longrightarrow> name_char (tolower c)"
  unfolding name_char_code of_char_case by (auto split: if_splits)

lemma toupper_case: "toupper (toupper c) = toupper c" "toupper (tolower c) = toupper c"
  unfolding char_code of_char_case by auto

lemma cannonize_chars: "list_all name_char s \<Longrightarrow> list_all name_char (cannonize cap s)"
  by (induction s arbitrary: cap) (auto simp: name_char_case)

lemma cannonize_upper: "map toupper (cannonize cap s) = map toupper s"
  by (induction s arbitrary: cap) (auto simp: toupper_case)

lemma cannonize_length [simp]: "length (cannonize cap s) = length s" "cannonize cap s = [] \<longleftrightarrow> s = []"
  by (induction s arbitrary: cap) auto

lemma find_line:
  assumes "list_all line_char xs"
  shows "findNextLineTerminator (xs @ END_OF_LINE_DELIMITER @ rest) = Some (length xs, length xs + 2)"
  using assms
proof (induction xs)
  case Nil
  show ?case by (simp add: END_OF_LINE_DELIMITER_def NEWLINE_def CARRIAGE_RETURN_def)
qed (auto simp: line_char_def)

lemma name_char_line: "list_all name_char s \<Longrightarrow> list_all line_char s" "list_all name_char s \<Longrightarrow> list_all (\<lambda>c. \<not> is_strip_ws c) s"
  "list_all name_char s \<Longrightarrow> nul_free s" "list_all name_char s \<Longrightarrow> list_all (\<lambda>c. c \<noteq> HTTP_NAME_VALUE_DELIMITER) s"
  by (auto simp: list_all_iff name_char_def line_char_def is_strip_ws_def NEWLINE_def CARRIAGE_RETURN_def nul_free_def)

lemma getNextPair_line:
  assumes h: "field_ok h"
  shows "getNextPair HTTP_NAME_VALUE_DELIMITER \<lparr>textPtr = pre @ field_line h @ rest, bytesConsumed = length pre\<rparr> =
           (\<lparr>textPtr = pre @ field_line h @ rest, bytesConsumed = length (pre @ field_line h)\<rparr>, True, cannonizeToken (nv_name h), nv_value h)"
proof -
  let ?n = "cannonizeToken (nv_name h)" and ?v = "nv_value h"
  let ?line = "?n @ HTTP_NAME_VALUE_DELIMITER # CHR '' '' # ?v"
  have n: "list_all name_char ?n" "?n \<noteq> []" using h by (auto simp: field_ok_def cannonizeToken_def cannonize_chars)
  note c = name_char_line [OF n(1)]
  have v: "list_all line_char ?v" "strip_spec is_strip_ws both ?v = ?v" using h by (auto simp: field_ok_def value_ok_def)
  have d: "line_char HTTP_NAME_VALUE_DELIMITER" "line_char (CHR '' '')" by code_simp+
  have "list_all line_char ?line" using c(1) v(1) d by simp
  then have f: "findNextLineTerminator (field_line h @ rest) = Some (length ?line, length ?line + 2)"
    using find_line [of ?line rest] by (simp add: field_line_def)
  have t: "take (length ?line) (field_line h @ rest) = ?line" by (simp add: field_line_def)
  have w: "takeWhile (\<lambda>c. c \<noteq> HTTP_NAME_VALUE_DELIMITER) ?line = ?n"
    using takeWhile_until [where p = "\<lambda>c. c = HTTP_NAME_VALUE_DELIMITER", OF c(4)] by simp
  have s: "strip_spec is_strip_ws both ?n = ?n" using c(2) by (simp add: dropWhile_none drop_back_none)
  have t2: "take (length ?n) (field_line h) = ?n" by (simp add: field_line_def)
  have b: "is_strip_ws (CHR '' '')" by code_simp
  have l: "length (field_line h) = length ?line + 2" by (simp add: field_line_def END_OF_LINE_DELIMITER_def)
  show ?thesis
    unfolding getNextPair_def Let_def
    using f t w s n(2) v(2) l t2 b by simp
qed

lemma add_line_field:
  assumes "field_ok h"
  shows "add_line hs (cannonizeToken (nv_name h)) (nv_value h) = hs @ [h]"
proof -
  let ?n = "cannonizeToken (nv_name h)"
  have n: "list_all name_char ?n" "?n \<noteq> []" "map toupper ?n = nv_name h"
    using assms by (auto simp: field_ok_def cannonizeToken_def cannonize_chars cannonize_upper)
  have sep: "\<not> is_separator c" if "name_char c" for c using that by (auto simp: name_char_def is_strip_ws_def is_separator_def)
  have first: "\<not> (case ?n of [] \<Rightarrow> False | c # _ \<Rightarrow> is_separator c)" using n(1,2) sep by (cases ?n) auto
  have name: "list_all name_char (nv_name h)" using assms by (simp add: field_ok_def)
  have "list_all (\<lambda>c. \<not> is_separator c) (nv_name h)" using name sep by (auto simp: list_all_iff)
  then have "backTrim is_separator (nv_name h) = nv_name h" by (simp add: backTrim_def drop_back_none)
  moreover have "c_prefix (nv_name h) = nv_name h" "c_prefix (nv_value h) = nv_value h"
    using name_char_line(3) [OF name] assms by (auto simp: field_ok_def value_ok_def)
  ultimately show ?thesis using first n(3) by (cases h) (simp add: add_line_def NameValuePair_def)
qed

lemma parseHeaders_lines:
  assumes "list_all field_ok hs"
  shows "parseHeaders \<lparr>textPtr = pre @ concat (map field_line hs) @ END_OF_LINE_DELIMITER @ rest, bytesConsumed = length pre\<rparr> acc =
           (acc @ hs, length (pre @ concat (map field_line hs)) + 2)"
  using assms
proof (induction hs arbitrary: pre acc)
  case Nil
  have f: "findNextLineTerminator (END_OF_LINE_DELIMITER @ rest) = Some (0, 2)" using find_line [of "[]" rest] by simp
  show ?case
    by (subst parseHeaders.simps) (simp add: getNextPair_def Let_def f)
next
  case (Cons h hs)
  let ?rest = "concat (map field_line hs) @ END_OF_LINE_DELIMITER @ rest"
  have h: "field_ok h" using Cons.prems by simp
  have "parseHeaders \<lparr>textPtr = pre @ field_line h @ ?rest, bytesConsumed = length pre\<rparr> acc =
      parseHeaders \<lparr>textPtr = (pre @ field_line h) @ ?rest, bytesConsumed = length (pre @ field_line h)\<rparr> (acc @ [h])"
    using getNextPair_line [OF h, of pre ?rest] add_line_field [OF h, of acc]
    by (subst parseHeaders.simps) simp
  also have "\<dots> = ((acc @ [h]) @ hs, length ((pre @ field_line h) @ concat (map field_line hs)) + 2)"
    by (rule Cons.IH) (use Cons.prems in simp)
  finally show ?case by simp
qed

lemma parse_written:
  assumes "list_all line_char first" and "first \<noteq> []" and "list_all field_ok hs"
  shows "parseMessage (first @ END_OF_LINE_DELIMITER @ concat (map field_line hs) @ END_OF_LINE_DELIMITER @ body) =
           \<lparr>pk_message = \<lparr>mFirstHeaderLine = first, mNameValues = hs\<rparr>, pk_body = (if body = [] then None else Some body)\<rparr>"
proof -
  let ?rest = "concat (map field_line hs) @ END_OF_LINE_DELIMITER @ body"
  have e: "length END_OF_LINE_DELIMITER = 2" by (simp add: END_OF_LINE_DELIMITER_def)
  have p: "parseFirstLine (first @ END_OF_LINE_DELIMITER @ ?rest) = (first, length first + 2)"
    using find_line [OF assms(1), of ?rest] assms(2) by (simp add: parseFirstLine_def)
  have d: "drop (length first + 2) (first @ END_OF_LINE_DELIMITER @ ?rest) = ?rest" by (simp add: END_OF_LINE_DELIMITER_def)
  have h: "parseHeaders \<lparr>textPtr = ?rest, bytesConsumed = 0\<rparr> [] = (hs, length (concat (map field_line hs)) + 2)"
    using parseHeaders_lines [OF assms(3), of "[]" body "[]"] by simp
  let ?all = "first @ END_OF_LINE_DELIMITER @ concat (map field_line hs) @ END_OF_LINE_DELIMITER"
  have "drop (length ?all) (?all @ body) = body" by simp
  moreover have "length ?all = length first + 2 + (length (concat (map field_line hs)) + 2)" by (simp add: e)
  moreover have "?all @ body = first @ END_OF_LINE_DELIMITER @ ?rest" by simp
  ultimately have b: "drop (length first + 2 + (length (concat (map field_line hs)) + 2)) (first @ END_OF_LINE_DELIMITER @ ?rest) = body"
    by (simp only:)
  show ?thesis unfolding parseMessage_def p prod.case Let_def d h b by (simp add: e)
qed

text \<open>The message with a correct Content-Length field.\<close>

definition normalized :: "packet \<Rightarrow> nv list" where
  "normalized p =
     (let bodyLen = length (body_bytes p);
          hs = map (\<lambda>h. if isContentLength h then NV (nv_name h) (if atoi (nv_value h) = Some (int bodyLen) then nv_value h else printf_d (int bodyLen)) else h)
                 (mNameValues (pk_message p)) in
      if list_ex isContentLength (mNameValues (pk_message p)) then hs else hs @ [NV HTTP_CONTENT_LENGTH_FIELD (printf_d (int bodyLen))])"

lemma printf_value_ok: "value_ok (printf_d i)"
proof -
  have p: "nul_free (printf_d i)" using printf_d_ok [of i] by simp
  have "list_all (\<lambda>c. c = CHR ''-'' \<or> isdigit c) (printf_d i)"
    using dec_digits_ok [of "nat i"] dec_digits_ok [of "nat (- i)"] by (auto simp: printf_d_def list_all_iff)
  then have "list_all (\<lambda>c. line_char c \<and> \<not> is_strip_ws c) (printf_d i)"
    by (rule list.pred_mono_strong) (auto simp: line_char_def is_strip_ws_def isdigit_def NEWLINE_def CARRIAGE_RETURN_def)
  then have "list_all line_char (printf_d i)" "list_all (\<lambda>c. \<not> is_strip_ws c) (printf_d i)" by (simp_all add: list_all_iff)
  then show ?thesis using p by (simp add: value_ok_def dropWhile_none drop_back_none)
qed

lemma map_defined_Some: "list_all (\<lambda>x. f x = Some (g x)) xs \<Longrightarrow> map_defined f xs = Some (map g xs)"
  by (induction xs) auto

section \<open>Properties\<close>

text \<open>C17. A message that is written and read again: the first line, the header fields in their order and the body come back, with a
  Content-Length field that holds the length of the body.\<close>

theorem http_print_parse:
  assumes "mFirstHeaderLine (pk_message p) \<noteq> []" and "list_all line_char (mFirstHeaderLine (pk_message p))"
    and "list_all field_ok (mNameValues (pk_message p))"
    and "list_all (\<lambda>h. isContentLength h \<longrightarrow> atoi (nv_value h) \<noteq> None) (mNameValues (pk_message p))"
  shows "returns (getBytes False p) (\<lambda>(p', bytes). parseMessage bytes =
           \<lparr>pk_message = \<lparr>mFirstHeaderLine = mFirstHeaderLine (pk_message p), mNameValues = normalized p\<rparr>,
            pk_body = (if body_bytes p = [] then None else Some (body_bytes p))\<rparr>)"
proof -
  let ?n = "length (body_bytes p)" and ?hs = "mNameValues (pk_message p)"
  let ?f = "\<lambda>h. if isContentLength h then NV (nv_name h) (if atoi (nv_value h) = Some (int ?n) then nv_value h else printf_d (int ?n)) else h"
  let ?l = "NV HTTP_CONTENT_LENGTH_FIELD (printf_d (int ?n))"
  have pd: "nul_free (printf_d (int ?n))" using printf_d_ok [of "int ?n"] by simp
  have "list_all (\<lambda>h. correct_length ?n h = Some (?f h)) ?hs"
    by (rule list.pred_mono_strong [OF assms(4)])
       (use pd in \<open>auto simp: correct_length_def nv_put_def split: option.splits nv.splits\<close>)
  then have c: "map_defined (correct_length ?n) ?hs = Some (map ?f ?hs)" by (rule map_defined_Some)
  have ex: "list_ex isContentLength (map ?f ?hs) = list_ex isContentLength ?hs"
  proof -
    have "isContentLength (?f h) = isContentLength h" for h by (simp add: isContentLength_def)
    then show ?thesis by (simp only: list_ex_iff set_map bex_simps)
  qed
  have ok: "list_all field_ok (map ?f ?hs)"
    using assms(3) printf_value_ok [of "int ?n"] by (auto simp: list_all_iff field_ok_def)
  have "list_all name_char HTTP_CONTENT_LENGTH_FIELD" "map toupper HTTP_CONTENT_LENGTH_FIELD = HTTP_CONTENT_LENGTH_FIELD"
    "HTTP_CONTENT_LENGTH_FIELD \<noteq> []" by code_simp+
  then have l: "field_ok ?l" using printf_value_ok by (simp add: field_ok_def)
  have norm: "normalized p = map ?f ?hs @ (if list_ex isContentLength ?hs then [] else [?l])" by (simp add: normalized_def Let_def)
  have okn: "list_all field_ok (normalized p)" using ok l by (simp add: norm)
  have "getBytes False p = Some (p\<lparr>pk_message := (pk_message p)\<lparr>mNameValues := map ?f ?hs\<rparr>\<rparr>,
      mFirstHeaderLine (pk_message p) @ END_OF_LINE_DELIMITER @ concat (map field_line (normalized p)) @ END_OF_LINE_DELIMITER @ body_bytes p)"
    using ex by (simp add: getBytes_def Let_def c norm)
  then show ?thesis using parse_written [OF assms(2,1) okn, of "body_bytes p"] by simp
qed

definition sample_packet :: packet where
  "sample_packet = \<lparr>pk_message = \<lparr>mFirstHeaderLine = ''INVITE sip:bob@x SIP/2.0'', mNameValues = [NV ''CALL-ID'' ''a1'']\<rparr>, pk_body = Some ''v=0''\<rparr>"

theorem http_print_parse_witness:
  "returns (getBytes False sample_packet) (\<lambda>(p', bytes). parseMessage bytes =
     \<lparr>pk_message = \<lparr>mFirstHeaderLine = ''INVITE sip:bob@x SIP/2.0'', mNameValues = [NV ''CALL-ID'' ''a1'', NV ''CONTENT-LENGTH'' ''3'']\<rparr>,
      pk_body = Some ''v=0''\<rparr>)"
proof -
  have h: "mFirstHeaderLine (pk_message sample_packet) \<noteq> []" "list_all line_char (mFirstHeaderLine (pk_message sample_packet))"
    "list_all field_ok (mNameValues (pk_message sample_packet))"
    "list_all (\<lambda>h. isContentLength h \<longrightarrow> atoi (nv_value h) \<noteq> None) (mNameValues (pk_message sample_packet))"
    by code_simp+
  have n: "normalized sample_packet = [NV ''CALL-ID'' ''a1'', NV ''CONTENT-LENGTH'' ''3'']" by code_simp
  show ?thesis using http_print_parse [OF h] by (simp add: n) (simp add: sample_packet_def body_bytes_def)
qed

text \<open>A continuation line is not joined with the line before it: it becomes a field of its own, since the tokenizer has
  stripped the blank that would tell.\<close>

lemma drop_back_first: "dropWhile p s = c # t \<Longrightarrow> drop_back p (c # t) \<noteq> [] \<and> hd (drop_back p (c # t)) = c"
proof -
  assume "dropWhile p s = c # t"
  then have c: "\<not> p c" using hd_dropWhile [of p s] by simp
  have "dropWhile p (rev t @ [c]) = dropWhile p (rev t) @ [c]" using c by (induction "rev t") (auto simp: dropWhile_append)
  then show ?thesis by (simp add: drop_back_def)
qed

theorem http_no_continuation:
  assumes "getNextPair HTTP_NAME_VALUE_DELIMITER parser = (parser', True, name, value)"
  shows "add_line hs name value = hs @ [NameValuePair (backTrim is_separator (map toupper name)) value]"
proof -
  obtain s where "name = strip_spec is_strip_ws both s" "name \<noteq> []"
    using assms by (auto simp: getNextPair_def Let_def split: option.splits prod.splits)
  then obtain c t where "dropWhile is_strip_ws s = c # t" "name = drop_back is_strip_ws (c # t)"
    by (cases "dropWhile is_strip_ws s") auto
  then have "hd name = c" "\<not> is_strip_ws c" "name \<noteq> []"
    using drop_back_first [of is_strip_ws s c t] hd_dropWhile [of is_strip_ws s] by auto
  then have "\<not> (case name of [] \<Rightarrow> False | c # _ \<Rightarrow> is_separator c)"
    by (cases name) (auto simp: is_strip_ws_def is_separator_def)
  then show ?thesis by (simp add: add_line_def)
qed

theorem http_continuation_sample:
  "mNameValues (pk_message (parseMessage (''OPTIONS sip:x SIP/2.0'' @ END_OF_LINE_DELIMITER @ ''Subject: one'' @ END_OF_LINE_DELIMITER
     @ '' two'' @ END_OF_LINE_DELIMITER @ END_OF_LINE_DELIMITER))) = [NV ''SUBJECT'' ''one'', NV ''TWO'' []]"
  by code_simp

end
