(* ===== verification/HttpAuth.thy ===== *)
theory HttpAuth
  imports HttpMessage SipHeaders NetMd5Codec
begin

text \<open>
  Digest authentication (\<^verbatim>\<open>sipXtackLib/src/net/HttpMessage.cpp\<close>) and the tokenizer for its fields (\<^verbatim>\<open>NetAttributeTokenizer.cpp\<close>): challenges,
  answers to them, and the check of an answer against the digest of the password. A C string is given by its contents, a pointer that may be NULL by an option.

  The state of the tokenizer, an index into its copy of the text, is the text from there on. After an equals sign at the end of the text the code takes the
  terminator for a quote and looks at the byte behind it; the result does not depend on that byte, and the model does without it.
\<close>

section \<open>The tokenizer\<close>

definition attr_sep :: "char \<Rightarrow> bool" where
  "attr_sep c \<longleftrightarrow> c = CHR '','' \<or> c = CHR '' '' \<or> c = CHR 0x09 \<or> c = CHR 0x0A \<or> c = CHR 0x0D"

definition attr_quote :: "char \<Rightarrow> bool" where
  "attr_quote c \<longleftrightarrow> c = CHR 0x27 \<or> c = CHR 0x22"

text \<open>Up to a quote that an even number of escape characters stands before.\<close>

fun quoted_value :: "nat \<Rightarrow> string \<Rightarrow> string" where
  "quoted_value escapeCount [] = []"
| "quoted_value escapeCount (c # s) =
     (if \<not> attr_quote c \<or> odd escapeCount then c # quoted_value (if c = CHR 0x5C then Suc escapeCount else 0) s else [])"

definition getNextAttribute :: "string \<Rightarrow> bool \<times> string \<times> string \<times> string" where
  "getNextAttribute s =
     (let s1 = dropWhile attr_sep s;
          name = takeWhile (\<lambda>c. \<not> attr_sep c \<and> c \<noteq> CHR ''='') s1;
          s2 = dropWhile (\<lambda>c. \<not> attr_sep c \<and> c \<noteq> CHR ''='') s1;
          valuePresent = (CHR ''='' \<in> set (takeWhile (\<lambda>c. attr_sep c \<or> c = CHR ''='') s2));
          s3 = dropWhile (\<lambda>c. attr_sep c \<or> c = CHR ''='') s2 in
      if valuePresent then
        (case s3 of
           [] \<Rightarrow> (name \<noteq> [], name, [], [])
         | c # s4 \<Rightarrow>
             if attr_quote c then (let value = quoted_value 0 s4 in (name \<noteq> [], name, value, tl (drop (length value) s4)))
             else (name \<noteq> [], name, takeWhile (\<lambda>c. \<not> attr_sep c) s3, dropWhile (\<lambda>c. \<not> attr_sep c) s3))
      else (name \<noteq> [], name, [], s3))"

lemma getNextAttribute_shorter: "getNextAttribute s = (True, name, value, tail) \<Longrightarrow> length tail < length s"
proof -
  assume a: "getNextAttribute s = (True, name, value, tail)"
  let ?n = "\<lambda>c. \<not> attr_sep c \<and> c \<noteq> CHR ''=''" and ?s = "\<lambda>c. attr_sep c \<or> c = CHR ''=''"
  let ?s1 = "dropWhile attr_sep s"
  have "takeWhile ?n ?s1 \<noteq> []" using a by (auto simp: getNextAttribute_def Let_def split: if_splits list.splits)
  then have "0 < length (takeWhile ?n ?s1)" by (rule length_greater_0_conv [THEN iffD2])
  then have "length (dropWhile ?n ?s1) < length ?s1"
    using arg_cong [OF takeWhile_dropWhile_id [of ?n ?s1], of length] by (simp only: length_append)
  moreover have "length ?s1 \<le> length s" by (rule length_dropWhile_le)
  moreover have "length (dropWhile ?s (dropWhile ?n ?s1)) \<le> length (dropWhile ?n ?s1)" by (rule length_dropWhile_le)
  moreover have "length tail \<le> length (dropWhile ?s (dropWhile ?n ?s1))"
  proof -
    define s3 where "s3 = dropWhile ?s (dropWhile ?n ?s1)"
    show ?thesis
      using a unfolding getNextAttribute_def Let_def s3_def [symmetric]
      by (auto split: if_splits list.splits intro: length_dropWhile_le [THEN le_SucI])
  qed
  ultimately show ?thesis by linarith
qed

text \<open>The attributes that a loop over the tokenizer sees.\<close>

function attributes :: "string \<Rightarrow> (string \<times> string) list" where
  "attributes s = (case getNextAttribute s of (found, name, value, tail) \<Rightarrow> if found then (name, value) # attributes tail else [])"
  by pat_completeness auto
termination by (relation "measure length") (auto dest: getNextAttribute_shorter [OF sym])

declare attributes.simps [simp del]

section \<open>Challenges\<close>

datatype HttpEndpointEnum = SERVER | PROXY

definition authenticate_name :: "HttpEndpointEnum \<Rightarrow> string" where
  "authenticate_name e = (case e of SERVER \<Rightarrow> ''WWW-AUTHENTICATE'' | PROXY \<Rightarrow> ''PROXY-AUTHENTICATE'')"

definition authorization_name :: "HttpEndpointEnum \<Rightarrow> string" where
  "authorization_name e = (case e of SERVER \<Rightarrow> ''AUTHORIZATION'' | PROXY \<Rightarrow> ''PROXY-AUTHORIZATION'')"

definition addAuthenticateField :: "http_message \<Rightarrow> string \<Rightarrow> HttpEndpointEnum \<Rightarrow> http_message" where
  "addAuthenticateField m authenticateField authEntity = addHeaderField m (authenticate_name authEntity) authenticateField"

definition getAuthenticateField :: "http_message \<Rightarrow> nat \<Rightarrow> HttpEndpointEnum \<Rightarrow> string option" where
  "getAuthenticateField m index authEntity = getHeaderValue m index (authenticate_name authEntity)"

record challenge_data =
  c_realm :: string
  c_nonce :: string
  c_opaque :: string
  c_algorithm :: string
  c_qop :: string
  c_domain :: string

definition blank_challenge :: challenge_data where
  "blank_challenge = \<lparr>c_realm = [], c_nonce = [], c_opaque = [], c_algorithm = [], c_qop = [], c_domain = []\<rparr>"

text \<open>One turn of the loop: of several realms or nonces the first counts, the values of the others are put together.\<close>

definition challenge_attr :: "string \<times> string \<Rightarrow> challenge_data \<times> bool \<times> bool \<Rightarrow> challenge_data \<times> bool \<times> bool" where
  "challenge_attr a r =
     (let (name, value) = a; (d, foundRealm, foundNonce) = r in
      if str_casecmp name ''realm'' = 0 then (if \<not> foundRealm then d\<lparr>c_realm := c_realm d @ value\<rparr> else d, True, foundNonce)
      else if str_casecmp name ''nonce'' = 0 then (if \<not> foundNonce then d\<lparr>c_nonce := c_nonce d @ value\<rparr> else d, foundRealm, True)
      else if str_casecmp name ''opaque'' = 0 then (d\<lparr>c_opaque := c_opaque d @ value\<rparr>, foundRealm, foundNonce)
      else if str_casecmp name ''algorithm'' = 0 then (d\<lparr>c_algorithm := c_algorithm d @ value\<rparr>, foundRealm, foundNonce)
      else if str_casecmp name ''qop'' = 0 then (d\<lparr>c_qop := c_qop d @ value\<rparr>, foundRealm, foundNonce)
      else if str_casecmp name ''domain'' = 0 then (d\<lparr>c_domain := c_domain d @ value\<rparr>, foundRealm, foundNonce)
      else r)"

definition parseAuthenticateData :: "string \<Rightarrow> bool \<times> string \<times> challenge_data" where
  "parseAuthenticateData authenticateField =
     (let (_, scheme, _, tail) = getNextAttribute (c_prefix authenticateField);
          (d, foundRealm, foundNonce) = fold challenge_attr (attributes tail) (blank_challenge, False, False) in
      (foundRealm \<and> foundNonce, cannonizeToken scheme, d))"

definition getAuthenticateData :: "http_message \<Rightarrow> HttpEndpointEnum \<Rightarrow> nat \<Rightarrow> (bool \<times> string \<times> challenge_data) option" where
  "getAuthenticateData m authorizationEntity index =
     map_option parseAuthenticateData (getHeaderValue m index (authenticate_name authorizationEntity))"

text \<open>A part of a field: nothing for a value that is NULL or empty.\<close>

definition quoted_part :: "string \<Rightarrow> string \<Rightarrow> string" where
  "quoted_part token value = token @ ''='' @ [CHR 0x22] @ value @ [CHR 0x22]"

definition part_if :: "string option \<Rightarrow> (string \<Rightarrow> string) \<Rightarrow> string" where
  "part_if value f = (case value of Some v \<Rightarrow> if v \<noteq> [] then f v else [] | None \<Rightarrow> [])"

definition setAuthenticateData ::
  "http_message \<Rightarrow> string option \<Rightarrow> string option \<Rightarrow> string option \<Rightarrow> string option \<Rightarrow> string option \<Rightarrow> HttpEndpointEnum \<Rightarrow> http_message" where
  "setAuthenticateData m scheme realm nonce opaque domain authEntity =
     (let digest = (case scheme of Some s \<Rightarrow> str_casecmp s ''Digest'' = 0 | None \<Rightarrow> False) in
      addAuthenticateField m
        ((case scheme of Some s \<Rightarrow> cannonizeToken s | None \<Rightarrow> ''Basic'') @ '' ''
         @ (case realm of Some r \<Rightarrow> quoted_part ''realm'' r | None \<Rightarrow> ''realm='')
         @ (if digest then
              part_if domain (\<lambda>v. '', '' @ quoted_part ''domain'' v)
              @ part_if nonce (\<lambda>v. '', '' @ quoted_part ''nonce'' v)
              @ part_if opaque (\<lambda>v. '', '' @ quoted_part ''opaque'' v)
              @ '', '' @ quoted_part ''qop'' ''auth''
            else [])) authEntity)"

section \<open>Answers\<close>

record digest_data =
  d_user :: string
  d_realm :: string
  d_nonce :: string
  d_opaque :: string
  d_response :: string
  d_uri :: string
  d_cnonce :: string
  d_nonceCount :: string
  d_qop :: string
  d_user_base :: string
  d_instrument :: string

definition blank_digest :: digest_data where
  "blank_digest = \<lparr>d_user = [], d_realm = [], d_nonce = [], d_opaque = [], d_response = [], d_uri = [], d_cnonce = [], d_nonceCount = [],
     d_qop = [], d_user_base = [], d_instrument = []\<rparr>"

text \<open>The user name, without the identification of the telephone behind its last slash.\<close>

definition split_user :: "string \<Rightarrow> string \<times> string" where
  "split_user value =
     (if CHR ''/'' \<in> set value
      then (rev (tl (dropWhile (\<lambda>c. c \<noteq> CHR ''/'') (rev value))), rev (takeWhile (\<lambda>c. c \<noteq> CHR ''/'') (rev value)))
      else (value, []))"

definition digest_attr :: "string \<times> string \<Rightarrow> digest_data \<Rightarrow> digest_data" where
  "digest_attr a d =
     (let (name0, value) = a; name = map toupper name0 in
      if str_casecmp name ''realm'' = 0 then d\<lparr>d_realm := d_realm d @ value\<rparr>
      else if str_casecmp name ''nonce'' = 0 then d\<lparr>d_nonce := d_nonce d @ value\<rparr>
      else if str_casecmp name ''cnonce'' = 0 then d\<lparr>d_cnonce := d_cnonce d @ value\<rparr>
      else if str_casecmp name ''nc'' = 0 then d\<lparr>d_nonceCount := d_nonceCount d @ value\<rparr>
      else if str_casecmp name ''qop'' = 0 then d\<lparr>d_qop := d_qop d @ value\<rparr>
      else if str_casecmp name ''opaque'' = 0 then d\<lparr>d_opaque := d_opaque d @ value\<rparr>
      else if str_casecmp name ''username'' = 0 then
        d\<lparr>d_user := d_user d @ value, d_user_base := d_user_base d @ fst (split_user value), d_instrument := d_instrument d @ snd (split_user value)\<rparr>
      else if str_casecmp name ''response'' = 0 then d\<lparr>d_response := d_response d @ value\<rparr>
      else if str_casecmp name ''uri'' = 0 then d\<lparr>d_uri := d_uri d @ value\<rparr>
      else d)"

definition digest_of :: "string \<Rightarrow> digest_data" where
  "digest_of field =
     (let (_, scheme, _, tail) = getNextAttribute field in
      if str_casecmp scheme ''Digest'' = 0 then fold digest_attr (attributes tail) blank_digest else blank_digest)"

definition getDigestAuthorizationData :: "http_message \<Rightarrow> HttpEndpointEnum \<Rightarrow> nat \<Rightarrow> digest_data option" where
  "getDigestAuthorizationData m authorizationEntity index = map_option digest_of (getHeaderValue m index (authorization_name authorizationEntity))"

definition setDigestAuthorizationData :: "http_message \<Rightarrow> string option \<Rightarrow> string option \<Rightarrow> string option \<Rightarrow> string option \<Rightarrow> string option \<Rightarrow> string option
    \<Rightarrow> string option \<Rightarrow> string option \<Rightarrow> string option \<Rightarrow> string option \<Rightarrow> HttpEndpointEnum \<Rightarrow> http_message" where
  "setDigestAuthorizationData m user realm nonce uri response algorithm cnonce opaque qop nonceCount authorizationEntity =
     addHeaderField m (authorization_name authorizationEntity)
       (''Digest''
        @ part_if user (\<lambda>v. '' '' @ quoted_part ''username'' v)
        @ (case realm of Some v \<Rightarrow> '', '' @ quoted_part ''realm'' v | None \<Rightarrow> [])
        @ part_if nonce (\<lambda>v. '', '' @ quoted_part ''nonce'' v)
        @ part_if uri (\<lambda>v. '', '' @ quoted_part ''uri'' v)
        @ part_if response (\<lambda>v. '', '' @ quoted_part ''response'' v)
        @ part_if algorithm (\<lambda>v. '', algorithm='' @ v)
        @ part_if cnonce (\<lambda>v. part_if qop (\<lambda>_. '', '' @ quoted_part ''cnonce'' v))
        @ part_if opaque (\<lambda>v. '', '' @ quoted_part ''opaque'' v)
        @ part_if qop (\<lambda>v. '', qop='' @ v)
        @ part_if nonceCount (\<lambda>v. '', nc='' @ v))"

section \<open>Digests\<close>

definition ptr_text :: "string option \<Rightarrow> string" where
  "ptr_text p = (case p of Some s \<Rightarrow> s | None \<Rightarrow> [])"

text \<open>The memory of the digest context before it is initialised is the argument \<open>g\<close>.\<close>

definition buildMd5UserPasswordDigest :: "byte list \<Rightarrow> string option \<Rightarrow> string option \<Rightarrow> string option \<Rightarrow> string" where
  "buildMd5UserPasswordDigest g user realm password = md5_encode g (ptr_text user @ '':'' @ ptr_text realm @ '':'' @ ptr_text password)"

definition buildMd5Digest :: "byte list \<Rightarrow> string \<Rightarrow> string option \<Rightarrow> string option \<Rightarrow> string option \<Rightarrow> string option \<Rightarrow> string option
    \<Rightarrow> string option \<Rightarrow> string option \<Rightarrow> string" where
  "buildMd5Digest g userPasswordDigest algorithm nonce cnonce nonceCount qop meth uri =
     (let encodedA1 = (if str_casecmp (ptr_text algorithm) ''MD5-sess'' = 0
                       then md5_encode g (userPasswordDigest @ '':'' @ ptr_text nonce @ '':'' @ ptr_text cnonce) else userPasswordDigest);
          encodedA2 = md5_encode g (ptr_text meth @ '':'' @ ptr_text uri) in
      md5_encode g (encodedA1 @ '':'' @ ptr_text nonce
        @ (case qop of Some q \<Rightarrow> '':'' @ ptr_text nonceCount @ '':'' @ ptr_text cnonce @ '':'' @ q | None \<Rightarrow> [])
        @ '':'' @ encodedA2))"

definition or_else :: "string option \<Rightarrow> string \<Rightarrow> string" where
  "or_else p s = (case p of Some t \<Rightarrow> if t \<noteq> [] then t else s | None \<Rightarrow> s)"

text \<open>The loop over the fields of the message.\<close>

function verify_loop :: "http_message \<Rightarrow> HttpEndpointEnum \<Rightarrow> string \<Rightarrow> nat \<Rightarrow> bool" where
  "verify_loop m authEntity referenceHash authIndex =
     (case getDigestAuthorizationData m authEntity authIndex of
        None \<Rightarrow> False
      | Some d \<Rightarrow> if str_cmp referenceHash (d_response d) = 0 then True else verify_loop m authEntity referenceHash (Suc authIndex))"
  by pat_completeness auto
termination
  by (relation "measure (\<lambda>(m, e, r, i). length (mNameValues m) - i)")
     (auto simp: getDigestAuthorizationData_def dest!: getHeaderValue_bound)

declare verify_loop.simps [simp del]

definition verifyMd5Authorization :: "byte list \<Rightarrow> http_message \<Rightarrow> string \<Rightarrow> string \<Rightarrow> string option \<Rightarrow> string \<Rightarrow> string option \<Rightarrow> string option
    \<Rightarrow> string option \<Rightarrow> string option \<Rightarrow> string option \<Rightarrow> HttpEndpointEnum \<Rightarrow> bool" where
  "verifyMd5Authorization g m userId password nonce realm cnonce nonceCount qop thisMessageMethod thisMessageUri authEntity =
     (let uri = or_else thisMessageUri (getRequestUri m);
          meth = or_else thisMessageMethod (getRequestMethod m);
          encodedA1 = md5_encode g (userId @ '':'' @ realm @ '':'' @ password);
          referenceHash = buildMd5Digest g encodedA1 None nonce cnonce nonceCount qop (Some meth) (Some uri) in
      verify_loop m authEntity referenceHash 0)"

definition verifyMd5Authorization_digest :: "byte list \<Rightarrow> http_message \<Rightarrow> string \<Rightarrow> string option \<Rightarrow> string option \<Rightarrow> string option \<Rightarrow> string option
    \<Rightarrow> string option \<Rightarrow> string option \<Rightarrow> bool" where
  "verifyMd5Authorization_digest g m userPasswordDigest nonce cnonce nonceCount qop thisMessageMethod thisMessageUri =
     (let uri = or_else thisMessageUri (getRequestUri m);
          meth = or_else thisMessageMethod (getRequestMethod m);
          referenceHash = buildMd5Digest g userPasswordDigest None nonce cnonce nonceCount qop (Some meth) (Some uri) in
      case getDigestAuthorizationData m PROXY 0 of Some d \<Rightarrow> str_cmp referenceHash (d_response d) = 0 | None \<Rightarrow> False)"

section \<open>Fields that are written and read\<close>

text \<open>Texts the tokenizer gives back: between quotes, and without them.\<close>

definition quotable :: "string \<Rightarrow> bool" where
  "quotable v \<longleftrightarrow> nul_free v \<and> list_all (\<lambda>c. \<not> attr_quote c \<and> c \<noteq> CHR 0x5C) v"

definition attr_token :: "string \<Rightarrow> bool" where
  "attr_token v \<longleftrightarrow> nul_free v \<and> list_all (\<lambda>c. \<not> attr_sep c \<and> \<not> attr_quote c \<and> c \<noteq> CHR ''='') v"

type_synonym part = "string \<times> string \<times> bool \<times> string"

fun part_text :: "part \<Rightarrow> string" where
  "part_text (pre, name, quoted, v) = pre @ (if quoted then quoted_part name v else name @ ''='' @ v)"

fun part_ok :: "part \<Rightarrow> bool" where
  "part_ok (pre, name, quoted, v) \<longleftrightarrow> pre \<noteq> [] \<and> list_all attr_sep pre \<and> attr_token name \<and> name \<noteq> []
     \<and> (if quoted then quotable v else attr_token v \<and> v \<noteq> [])"

fun part_pair :: "part \<Rightarrow> string \<times> string" where
  "part_pair (pre, name, quoted, v) = (name, v)"

lemma takeWhile_whole: "list_all P xs \<Longrightarrow> ys = [] \<or> \<not> P (hd ys) \<Longrightarrow> takeWhile P (xs @ ys) = xs \<and> dropWhile P (xs @ ys) = ys"
  by (induction xs) (cases ys; auto)+

lemma quoted_value_plain: "list_all (\<lambda>c. \<not> attr_quote c \<and> c \<noteq> CHR 0x5C) v \<Longrightarrow> quoted_value 0 (v @ CHR 0x22 # tail) = v"
  by (induction v) (auto simp: attr_quote_def)

lemma attr_consts: "\<not> attr_sep (CHR ''='')" "attr_quote (CHR 0x22)" "\<not> attr_sep (CHR 0x22)" "CHR 0x22 \<noteq> CHR ''=''"
  by code_simp+

lemma getNextAttribute_named:
  assumes "name \<noteq> []" and name: "list_all (\<lambda>c. \<not> attr_sep c \<and> c \<noteq> CHR ''='') name" and pre: "list_all attr_sep pre"
    and w: "w \<noteq> []" "\<not> (attr_sep (hd w) \<or> hd w = CHR ''='')"
  shows "getNextAttribute (pre @ name @ CHR ''='' # w) =
           (if attr_quote (hd w) then (let value = quoted_value 0 (tl w) in (True, name, value, tl (drop (length value) (tl w))))
            else (True, name, takeWhile (\<lambda>c. \<not> attr_sep c) w, dropWhile (\<lambda>c. \<not> attr_sep c) w))"
proof -
  let ?n = "\<lambda>c. \<not> attr_sep c \<and> c \<noteq> CHR ''=''" and ?s = "\<lambda>c. attr_sep c \<or> c = CHR ''=''"
  have "\<not> attr_sep (hd (name @ CHR ''='' # w))" using assms(1) name by (cases name) auto
  note a = takeWhile_whole [OF pre disjI2, OF this]
  have "\<not> ?n (hd (CHR ''='' # w))" by simp
  note b = takeWhile_whole [OF name disjI2, OF this]
  have "list_all ?s ''=''" by simp
  note c = takeWhile_whole [OF this disjI2, OF w(2)]
  have "getNextAttribute (pre @ name @ CHR ''='' # w) = (case w of
           [] \<Rightarrow> (name \<noteq> [], name, [], [])
         | c # s4 \<Rightarrow>
             if attr_quote c then (let value = quoted_value 0 s4 in (name \<noteq> [], name, value, tl (drop (length value) s4)))
             else (name \<noteq> [], name, takeWhile (\<lambda>c. \<not> attr_sep c) w, dropWhile (\<lambda>c. \<not> attr_sep c) w))"
    unfolding getNextAttribute_def conjunct2 [OF a] conjunct1 [OF b] conjunct2 [OF b] Let_def
    using c by (simp only: append_Cons append_Nil) simp
  then show ?thesis using assms(1) w(1) by (cases w) auto
qed

lemma getNextAttribute_part:
  assumes "part_ok p" and "tail = [] \<or> attr_sep (hd tail)"
  shows "getNextAttribute (part_text p @ tail) = (True, fst (part_pair p), snd (part_pair p), tail)"
proof -
  obtain pre name quoted v where p: "p = (pre, name, quoted, v)" by (cases p)
  have name: "name \<noteq> []" "list_all (\<lambda>c. \<not> attr_sep c \<and> c \<noteq> CHR ''='') name" "list_all attr_sep pre" using assms(1) by (auto simp: p attr_token_def list_all_iff)
  note step = getNextAttribute_named [OF name]
  show ?thesis
  proof (cases quoted)
    case True
    then show ?thesis
      using step [of "CHR 0x22 # v @ CHR 0x22 # tail"] assms(1) attr_consts quoted_value_plain [of v tail]
      by (simp add: p quoted_part_def quotable_def Let_def)
  next
    case False
    then have v: "v \<noteq> []" "list_all (\<lambda>c. \<not> attr_sep c \<and> \<not> attr_quote c \<and> c \<noteq> CHR ''='') v" using assms(1) by (auto simp: p attr_token_def)
    then have "list_all (\<lambda>c. \<not> attr_sep c) v" "\<not> attr_quote (hd v)" "\<not> (attr_sep (hd v) \<or> hd v = CHR ''='')" by (cases v; auto simp: list_all_iff)+
    moreover have "tail = [] \<or> \<not> \<not> attr_sep (hd tail)" using assms(2) by simp
    ultimately show ?thesis
      using step [of "v @ tail"] takeWhile_whole [of "\<lambda>c. \<not> attr_sep c" v tail] v(1) False by (simp add: p)
  qed
qed

lemma parts_tail: "list_all part_ok ps \<Longrightarrow> concat (map part_text ps) = [] \<or> attr_sep (hd (concat (map part_text ps)))"
  by (cases ps) (auto simp: list_all_iff)

lemma attributes_parts: "list_all part_ok ps \<Longrightarrow> attributes (concat (map part_text ps)) = map part_pair ps"
proof (induction ps)
  case Nil
  have "getNextAttribute [] = (False, [], [], [])" by code_simp
  then show ?case by (simp add: attributes.simps)
next
  case (Cons p ps)
  then show ?case
    using getNextAttribute_part [of p "concat (map part_text ps)"] parts_tail [of ps]
    by (simp add: attributes.simps [of "part_text p @ concat (map part_text ps)"])
qed

lemma attributes_skip: "attributes (dropWhile attr_sep s) = attributes s"
proof -
  have "dropWhile attr_sep (dropWhile attr_sep s) = dropWhile attr_sep s" by (metis dropWhile_idem)
  then have "getNextAttribute (dropWhile attr_sep s) = getNextAttribute s" unfolding getNextAttribute_def by simp
  then show ?thesis by (simp only: attributes.simps [of "dropWhile attr_sep s"] attributes.simps [of s])
qed
definition item :: "string \<Rightarrow> string \<Rightarrow> bool \<Rightarrow> string option \<Rightarrow> part list" where
  "item pre name quoted value = (case value of Some v \<Rightarrow> if v \<noteq> [] then [(pre, name, quoted, v)] else [] | None \<Rightarrow> [])"

definition digest_parts :: "string option \<Rightarrow> string option \<Rightarrow> string option \<Rightarrow> string option \<Rightarrow> string option \<Rightarrow> string option \<Rightarrow> string option
    \<Rightarrow> string option \<Rightarrow> string option \<Rightarrow> string option \<Rightarrow> part list" where
  "digest_parts user realm nonce uri response algorithm cnonce opaque qop nonceCount =
     item '' '' ''username'' True user @ (case realm of Some v \<Rightarrow> [('', '', ''realm'', True, v)] | None \<Rightarrow> [])
     @ item '', '' ''nonce'' True nonce @ item '', '' ''uri'' True uri @ item '', '' ''response'' True response
     @ item '', '' ''algorithm'' False algorithm @ (if ptr_text qop \<noteq> [] then item '', '' ''cnonce'' True cnonce else [])
     @ item '', '' ''opaque'' True opaque @ item '', '' ''qop'' False qop @ item '', '' ''nc'' False nonceCount"

lemma item_text: "part_if p (\<lambda>v. pre @ quoted_part name v) = concat (map part_text (item pre name True p))"
  "part_if p (\<lambda>v. (pre @ name @ ''='') @ v) = concat (map part_text (item pre name False p))"
  by (simp_all add: part_if_def item_def split: option.splits)

lemma digest_text:
  "setDigestAuthorizationData m user realm nonce uri response algorithm cnonce opaque qop nonceCount e =
     addHeaderField m (authorization_name e) (''Digest'' @ concat (map part_text (digest_parts user realm nonce uri response algorithm cnonce opaque qop nonceCount)))"
proof -
  have cn: "part_if cnonce (\<lambda>v. part_if qop (\<lambda>_. '', '' @ quoted_part ''cnonce'' v))
      = concat (map part_text (if ptr_text qop \<noteq> [] then item '', '' ''cnonce'' True cnonce else []))"
    by (simp add: part_if_def item_def ptr_text_def split: option.splits)
  have r: "(case realm of Some v \<Rightarrow> '', '' @ quoted_part ''realm'' v | None \<Rightarrow> []) = concat (map part_text (case realm of Some v \<Rightarrow> [('', '', ''realm'', True, v)] | None \<Rightarrow> []))"
    by (simp split: option.splits)
  have t: "part_if p (\<lambda>v. '', algorithm='' @ v) = concat (map part_text (item '', '' ''algorithm'' False p))"
    "part_if p (\<lambda>v. '', qop='' @ v) = concat (map part_text (item '', '' ''qop'' False p))"
    "part_if p (\<lambda>v. '', nc='' @ v) = concat (map part_text (item '', '' ''nc'' False p))" for p
    using item_text(2) [of p "'', ''" "''algorithm''"] item_text(2) [of p "'', ''" "''qop''"] item_text(2) [of p "'', ''" "''nc''"] by simp_all
  show ?thesis
    unfolding setDigestAuthorizationData_def digest_parts_def map_append concat_append item_text(1) cn r t ..
qed

definition digest_ok :: "string option \<Rightarrow> string option \<Rightarrow> string option \<Rightarrow> string option \<Rightarrow> string option \<Rightarrow> string option \<Rightarrow> string option
    \<Rightarrow> string option \<Rightarrow> string option \<Rightarrow> string option \<Rightarrow> bool" where
  "digest_ok user realm nonce uri response algorithm cnonce opaque qop nonceCount \<longleftrightarrow>
     list_all (\<lambda>p. quotable (ptr_text p)) [user, realm, nonce, uri, response, cnonce, opaque] \<and> list_all (\<lambda>p. attr_token (ptr_text p)) [algorithm, qop, nonceCount]"

lemma item_ok:
  "list_all attr_sep pre \<and> pre \<noteq> [] \<Longrightarrow> attr_token name \<and> name \<noteq> [] \<Longrightarrow> (if quoted then quotable (ptr_text p) else attr_token (ptr_text p)) \<Longrightarrow> list_all part_ok (item pre name quoted p)"
  by (auto simp: item_def ptr_text_def split: option.splits)

lemma digest_parts_ok:
  assumes "digest_ok user realm nonce uri response algorithm cnonce opaque qop nonceCount"
  shows "list_all part_ok (digest_parts user realm nonce uri response algorithm cnonce opaque qop nonceCount)"
proof -
  have "\<forall>n \<in> set [''username'', ''realm'', ''nonce'', ''uri'', ''response'', ''algorithm'', ''cnonce'', ''opaque'', ''qop'', ''nc'']. attr_token n \<and> n \<noteq> []"
    "list_all attr_sep '', '' \<and> '', '' \<noteq> []" "list_all attr_sep '' '' \<and> '' '' \<noteq> []" by code_simp+
  moreover have "realm = Some v \<Longrightarrow> quotable v" for v using assms by (simp add: digest_ok_def ptr_text_def)
  ultimately show ?thesis
    using assms unfolding digest_parts_def digest_ok_def list_all_append
    by (intro conjI; (intro item_ok)?) (auto intro!: item_ok split: option.splits)
qed

lemma digest_names:
  "digest_attr (''username'', v) d = d\<lparr>d_user := d_user d @ v, d_user_base := d_user_base d @ fst (split_user v), d_instrument := d_instrument d @ snd (split_user v)\<rparr>"
  "digest_attr (''realm'', v) d = d\<lparr>d_realm := d_realm d @ v\<rparr>" "digest_attr (''nonce'', v) d = d\<lparr>d_nonce := d_nonce d @ v\<rparr>"
  "digest_attr (''uri'', v) d = d\<lparr>d_uri := d_uri d @ v\<rparr>" "digest_attr (''response'', v) d = d\<lparr>d_response := d_response d @ v\<rparr>"
  "digest_attr (''algorithm'', v) d = d" "digest_attr (''cnonce'', v) d = d\<lparr>d_cnonce := d_cnonce d @ v\<rparr>"
  "digest_attr (''opaque'', v) d = d\<lparr>d_opaque := d_opaque d @ v\<rparr>" "digest_attr (''qop'', v) d = d\<lparr>d_qop := d_qop d @ v\<rparr>"
  "digest_attr (''nc'', v) d = d\<lparr>d_nonceCount := d_nonceCount d @ v\<rparr>"
proof -
  let ?ns = "[''username'', ''realm'', ''nonce'', ''uri'', ''response'', ''algorithm'', ''cnonce'', ''opaque'', ''qop'', ''nc'']"
  have eq: "\<forall>a \<in> set ?ns. \<forall>b \<in> set ?ns. (str_casecmp (map toupper a) b = 0) = (a = b)" by code_simp
  have d: "(str_casecmp (map toupper a) b = 0) = (a = b)" if "a \<in> set ?ns" "b \<in> set ?ns" for a b using eq that by blast
  show "digest_attr (''username'', v) d = d\<lparr>d_user := d_user d @ v, d_user_base := d_user_base d @ fst (split_user v), d_instrument := d_instrument d @ snd (split_user v)\<rparr>"
    "digest_attr (''realm'', v) d = d\<lparr>d_realm := d_realm d @ v\<rparr>" "digest_attr (''nonce'', v) d = d\<lparr>d_nonce := d_nonce d @ v\<rparr>"
    "digest_attr (''uri'', v) d = d\<lparr>d_uri := d_uri d @ v\<rparr>" "digest_attr (''response'', v) d = d\<lparr>d_response := d_response d @ v\<rparr>"
    "digest_attr (''algorithm'', v) d = d" "digest_attr (''cnonce'', v) d = d\<lparr>d_cnonce := d_cnonce d @ v\<rparr>"
    "digest_attr (''opaque'', v) d = d\<lparr>d_opaque := d_opaque d @ v\<rparr>" "digest_attr (''qop'', v) d = d\<lparr>d_qop := d_qop d @ v\<rparr>"
    "digest_attr (''nc'', v) d = d\<lparr>d_nonceCount := d_nonceCount d @ v\<rparr>"
    unfolding digest_attr_def Let_def prod.case by (simp_all add: d del: list.map)
qed
lemma getNextAttribute_scheme:
  assumes "attr_token n" and "n \<noteq> []" and ps: "list_all part_ok ps"
  shows "getNextAttribute (n @ concat (map part_text ps)) = (True, n, [], dropWhile attr_sep (concat (map part_text ps)))"
proof -
  let ?n = "\<lambda>c. \<not> attr_sep c \<and> c \<noteq> CHR ''=''" and ?s = "\<lambda>c. attr_sep c \<or> c = CHR ''=''" and ?t = "concat (map part_text ps)"
  have n: "list_all ?n n" "\<not> attr_sep (hd (n @ ?t))" using assms(1,2) by (cases n; auto simp: attr_token_def list_all_iff)+
  have t: "?t = [] \<or> \<not> ?n (hd ?t)" using parts_tail [OF ps] by auto
  have sep: "takeWhile ?s ?t = takeWhile attr_sep ?t \<and> dropWhile ?s ?t = dropWhile attr_sep ?t \<and> list_all attr_sep (takeWhile ?s ?t)"
  proof (cases ps)
    case (Cons p qs)
    obtain pre name quoted v where p: "p = (pre, name, quoted, v)" by (cases p)
    have pre: "list_all attr_sep pre" "list_all ?s pre" "name \<noteq> []" "\<not> attr_sep (hd name)" "\<not> ?s (hd name)"
      using ps Cons p by (cases name; auto simp: attr_token_def list_all_iff)+
    obtain w where w: "?t = pre @ name @ w" using Cons p by (cases quoted) (auto simp: quoted_part_def)
    have h: "name @ w = [] \<or> \<not> attr_sep (hd (name @ w))" "name @ w = [] \<or> \<not> ?s (hd (name @ w))" using pre(3-5) by simp_all
    show ?thesis unfolding w using takeWhile_whole [OF pre(1) h(1)] takeWhile_whole [OF pre(2) h(2)] pre(1) by simp
  qed simp
  then have "CHR ''='' \<notin> set (takeWhile ?s ?t)" using attr_consts(1) by (metis list_all_iff)
  moreover have "dropWhile attr_sep (n @ ?t) = n @ ?t" using n(2) assms(2) by (cases n) auto
  ultimately show ?thesis
    using takeWhile_whole [OF n(1) t] sep assms(2) by (simp add: getNextAttribute_def Let_def)
qed

lemma fold_item: "fold digest_attr (map part_pair (item pre name q p)) d = (if ptr_text p = [] then d else digest_attr (name, ptr_text p) d)"
  by (simp add: item_def ptr_text_def split: option.splits)

definition digest_result :: "string option \<Rightarrow> string option \<Rightarrow> string option \<Rightarrow> string option \<Rightarrow> string option \<Rightarrow> string option
    \<Rightarrow> string option \<Rightarrow> string option \<Rightarrow> string option \<Rightarrow> digest_data" where
  "digest_result user realm nonce uri response cnonce opaque qop nonceCount =
     \<lparr>d_user = ptr_text user, d_realm = ptr_text realm, d_nonce = ptr_text nonce, d_opaque = ptr_text opaque, d_response = ptr_text response,
      d_uri = ptr_text uri, d_cnonce = (if ptr_text qop = [] then [] else ptr_text cnonce), d_nonceCount = ptr_text nonceCount, d_qop = ptr_text qop,
      d_user_base = fst (split_user (ptr_text user)), d_instrument = snd (split_user (ptr_text user))\<rparr>"

lemma digest_fold:
  "fold digest_attr (map part_pair (digest_parts user realm nonce uri response algorithm cnonce opaque qop nonceCount)) blank_digest =
     digest_result user realm nonce uri response cnonce opaque qop nonceCount"
proof -
  have realm: "fold digest_attr (map part_pair (case realm of Some v \<Rightarrow> [('', '', ''realm'', True, v)] | None \<Rightarrow> [])) d = d\<lparr>d_realm := d_realm d @ ptr_text realm\<rparr>" for d
    by (simp add: digest_names ptr_text_def split: option.splits)
  have cn: "fold digest_attr (map part_pair (if ptr_text qop \<noteq> [] then item '', '' ''cnonce'' True cnonce else [])) d
      = d\<lparr>d_cnonce := d_cnonce d @ (if ptr_text qop = [] then [] else ptr_text cnonce)\<rparr>" for d
    by (simp add: fold_item digest_names)
  have items: "fold digest_attr (map part_pair (item pre ''username'' q p)) d
      = d\<lparr>d_user := d_user d @ ptr_text p, d_user_base := d_user_base d @ fst (split_user (ptr_text p)), d_instrument := d_instrument d @ snd (split_user (ptr_text p))\<rparr>"
    "fold digest_attr (map part_pair (item pre ''nonce'' q p)) d = d\<lparr>d_nonce := d_nonce d @ ptr_text p\<rparr>"
    "fold digest_attr (map part_pair (item pre ''uri'' q p)) d = d\<lparr>d_uri := d_uri d @ ptr_text p\<rparr>"
    "fold digest_attr (map part_pair (item pre ''response'' q p)) d = d\<lparr>d_response := d_response d @ ptr_text p\<rparr>"
    "fold digest_attr (map part_pair (item pre ''algorithm'' q p)) d = d"
    "fold digest_attr (map part_pair (item pre ''opaque'' q p)) d = d\<lparr>d_opaque := d_opaque d @ ptr_text p\<rparr>"
    "fold digest_attr (map part_pair (item pre ''qop'' q p)) d = d\<lparr>d_qop := d_qop d @ ptr_text p\<rparr>"
    "fold digest_attr (map part_pair (item pre ''nc'' q p)) d = d\<lparr>d_nonceCount := d_nonceCount d @ ptr_text p\<rparr>" for pre q p d
    by (auto simp: fold_item digest_names split_user_def)
  show ?thesis by (simp add: digest_parts_def items realm cn blank_digest_def digest_result_def)
qed

lemma parts_nul_free: "list_all part_ok ps \<Longrightarrow> nul_free (concat (map part_text ps))"
proof (induction ps)
  case (Cons p ps)
  obtain pre name quoted v where p: "p = (pre, name, quoted, v)" by (cases p)
  have "\<not> attr_sep NUL" "NUL \<noteq> CHR ''=''" "NUL \<noteq> CHR 0x22" by code_simp+
  moreover have "NUL \<notin> set pre" using Cons.prems \<open>\<not> attr_sep NUL\<close> by (auto simp: p list_all_iff)
  moreover have "NUL \<notin> set name" "NUL \<notin> set v"
    using Cons.prems by (cases quoted; simp add: p attr_token_def quotable_def nul_free_def list_all_iff; metis)+
  ultimately have "nul_free (part_text p)" by (simp add: p quoted_part_def nul_free_def)
  then show ?case using Cons by (simp add: nul_free_def)
qed (simp add: nul_free_def)

lemma digest_read_back:
  assumes "digest_ok user realm nonce uri response algorithm cnonce opaque qop nonceCount"
  shows "getDigestAuthorizationData (setDigestAuthorizationData m user realm nonce uri response algorithm cnonce opaque qop nonceCount e) e
           (length (header_values m (authorization_name e))) = Some (digest_result user realm nonce uri response cnonce opaque qop nonceCount)"
proof -
  let ?ps = "digest_parts user realm nonce uri response algorithm cnonce opaque qop nonceCount"
  let ?t = "''Digest'' @ concat (map part_text ?ps)"
  note ok = digest_parts_ok [OF assms]
  have tok: "attr_token ''Digest''" "''Digest'' \<noteq> []" "str_casecmp ''Digest'' ''Digest'' = 0" "nul_free ''Digest''" by code_simp+
  have "digest_of ?t = digest_result user realm nonce uri response cnonce opaque qop nonceCount"
    unfolding digest_of_def getNextAttribute_scheme [OF tok(1,2) ok] Let_def prod.case attributes_skip attributes_parts [OF ok] digest_fold
    using tok(3) by simp
  moreover have "nul_free ?t" using tok(4) parts_nul_free [OF ok] unfolding nul_free_def by auto
  ultimately show ?thesis
    unfolding digest_text getDigestAuthorizationData_def by (simp add: getHeaderValue_values)
qed
text \<open>C29. The answer to a challenge is read as it was written: the parts that were given come back, and those that were left out are empty.
  The user name is also split at its last slash.\<close>

theorem digest_authorization_roundtrip:
  assumes "digest_ok user realm nonce uri response algorithm cnonce opaque qop nonceCount"
  shows "getDigestAuthorizationData (setDigestAuthorizationData m user realm nonce uri response algorithm cnonce opaque qop nonceCount e) e
           (length (header_values m (authorization_name e))) = Some (digest_result user realm nonce uri response cnonce opaque qop nonceCount)"
  by (rule digest_read_back [OF assms])

theorem digest_authorization_roundtrip_witness:
  "getDigestAuthorizationData (setDigestAuthorizationData blank_message (Some ''bob/phone1'') (Some ''example.com'') (Some ''n1'') (Some ''sip:b@y'') (Some ''00ff'')
      None (Some ''zz'') None (Some ''auth'') (Some ''00000001'') PROXY) PROXY 0
   = Some \<lparr>d_user = ''bob/phone1'', d_realm = ''example.com'', d_nonce = ''n1'', d_opaque = [], d_response = ''00ff'', d_uri = ''sip:b@y'', d_cnonce = ''zz'',
       d_nonceCount = ''00000001'', d_qop = ''auth'', d_user_base = ''bob'', d_instrument = ''phone1''\<rparr>"
proof -
  have ok: "digest_ok (Some ''bob/phone1'') (Some ''example.com'') (Some ''n1'') (Some ''sip:b@y'') (Some ''00ff'') None (Some ''zz'') None (Some ''auth'') (Some ''00000001'')"
    and r: "digest_result (Some ''bob/phone1'') (Some ''example.com'') (Some ''n1'') (Some ''sip:b@y'') (Some ''00ff'') (Some ''zz'') None (Some ''auth'') (Some ''00000001'')
      = \<lparr>d_user = ''bob/phone1'', d_realm = ''example.com'', d_nonce = ''n1'', d_opaque = [], d_response = ''00ff'', d_uri = ''sip:b@y'', d_cnonce = ''zz'',
         d_nonceCount = ''00000001'', d_qop = ''auth'', d_user_base = ''bob'', d_instrument = ''phone1''\<rparr>" by code_simp+
  show ?thesis using digest_authorization_roundtrip [OF ok, of blank_message PROXY] unfolding r by (simp add: blank_values)
qed

section \<open>The check of an answer\<close>

lemma verify_loop_lines:
  assumes "i \<le> length (field_lines m (authorization_name e))"
  shows "verify_loop m e h i \<longleftrightarrow> (\<exists>line \<in> set (drop i (field_lines m (authorization_name e))). c_prefix (d_response (digest_of line)) = c_prefix h)"
  using assms
proof (induction "length (field_lines m (authorization_name e)) - i" arbitrary: i)
  case 0
  then show ?case using line_at [OF 0(2)] by (subst verify_loop.simps) (simp add: getDigestAuthorizationData_def)
next
  case (Suc n)
  let ?ls = "field_lines m (authorization_name e)"
  have i: "i < length ?ls" using Suc.hyps(2) by simp
  then have d: "drop i ?ls = ?ls ! i # drop (Suc i) ?ls" by (rule Cons_nth_drop_Suc [symmetric])
  have "verify_loop m e h i \<longleftrightarrow> (if str_cmp h (d_response (digest_of (?ls ! i))) = 0 then True else verify_loop m e h (Suc i))"
    using line_at [OF Suc.prems] i by (subst verify_loop.simps) (simp add: getDigestAuthorizationData_def)
  then show ?case using Suc.hyps(1) [of "Suc i"] Suc.hyps(2) i unfolding d by (auto simp: str_cmp_0)
qed

text \<open>C30. A request passes the check against user, realm and password exactly if one of its authorization fields has the digest, over the password digest, the
  nonce and the method and URI of the request, as its response; whatever else stands in the field plays no part.\<close>

theorem digest_verify_exact:
  "verifyMd5Authorization g m userId password nonce realm cnonce nonceCount qop meth uri e \<longleftrightarrow>
     (\<exists>line \<in> set (field_lines m (authorization_name e)). c_prefix (d_response (digest_of line)) =
        c_prefix (buildMd5Digest g (buildMd5UserPasswordDigest g (Some userId) (Some realm) (Some password)) None nonce cnonce nonceCount qop
          (Some (or_else meth (getRequestMethod m))) (Some (or_else uri (getRequestUri m)))))"
  using verify_loop_lines [OF le0, of m e]
  by (simp add: verifyMd5Authorization_def buildMd5UserPasswordDigest_def ptr_text_def Let_def)

lemma answer_accepted:
  assumes "response = buildMd5Digest g (buildMd5UserPasswordDigest g (Some user) (Some realm) (Some password)) None nonce cnonce nonceCount qop (Some meth) (Some uri)"
    and "digest_ok (Some user) (Some realm) nonce (Some uri) (Some response) None cnonce opaque qop nonceCount"
    and "meth \<noteq> []" and "uri \<noteq> []" and "\<forall>v \<in> set (header_values m (authorization_name e)). v \<noteq> []"
    and "m' = setDigestAuthorizationData m (Some user) (Some realm) nonce (Some uri) (Some response) None cnonce opaque qop nonceCount e"
  shows "verifyMd5Authorization g m' user password nonce realm cnonce nonceCount qop (Some meth) (Some uri) e
         \<and> (e = PROXY \<and> header_values m (authorization_name e) = [] \<longrightarrow>
            verifyMd5Authorization_digest g m' (buildMd5UserPasswordDigest g (Some user) (Some realm) (Some password)) nonce cnonce nonceCount qop (Some meth) (Some uri))"
proof -
  let ?n = "authorization_name e"
  obtain v where m': "m' = addHeaderField m ?n v" using assms(6) digest_text by blast
  have dig: "getDigestAuthorizationData m' e (length (header_values m ?n)) = Some (digest_result (Some user) (Some realm) nonce (Some uri) (Some response) cnonce opaque qop nonceCount)"
    unfolding assms(6) by (rule digest_read_back [OF assms(2)])
  then obtain line where line: "getHeaderValue m' (length (header_values m ?n)) ?n = Some line" "d_response (digest_of line) = response"
    by (auto simp: getDigestAuthorizationData_def digest_result_def ptr_text_def)
  have "header_values m' ?n = header_values m ?n @ [c_prefix v]" by (simp add: m')
  then have "line \<in> set (field_lines m' ?n)" using line(1) assms(5) by (auto simp: getHeaderValue_values field_lines_def split: if_splits)
  then have "verify_loop m' e response 0" using verify_loop_lines [OF le0, of m' e response] line(2) by auto
  moreover have "getDigestAuthorizationData m' PROXY 0 = Some (digest_of line)" if "e = PROXY" "header_values m ?n = []"
    using line(1) that by (simp add: getDigestAuthorizationData_def)
  ultimately show ?thesis
    using line(2) assms(1,3,4)
    by (auto simp: verifyMd5Authorization_def verifyMd5Authorization_digest_def buildMd5UserPasswordDigest_def ptr_text_def or_else_def str_cmp_0 Let_def)
qed

text \<open>Who knows the password passes: an answer with the response computed from user, realm, password, nonce, method and URI, written by
  \<open>setDigestAuthorizationData\<close> behind any authorization fields that the request has, is accepted by both checks.\<close>

theorem digest_answer_accepted:
  assumes "response = buildMd5Digest g (buildMd5UserPasswordDigest g (Some user) (Some realm) (Some password)) None nonce cnonce nonceCount qop (Some meth) (Some uri)"
    and "digest_ok (Some user) (Some realm) nonce (Some uri) (Some response) None cnonce opaque qop nonceCount"
    and "meth \<noteq> []" and "uri \<noteq> []" and "\<forall>v \<in> set (header_values m (authorization_name e)). v \<noteq> []"
    and "m' = setDigestAuthorizationData m (Some user) (Some realm) nonce (Some uri) (Some response) None cnonce opaque qop nonceCount e"
  shows "verifyMd5Authorization g m' user password nonce realm cnonce nonceCount qop (Some meth) (Some uri) e
         \<and> (e = PROXY \<and> header_values m (authorization_name e) = [] \<longrightarrow>
            verifyMd5Authorization_digest g m' (buildMd5UserPasswordDigest g (Some user) (Some realm) (Some password)) nonce cnonce nonceCount qop (Some meth) (Some uri))"
  by (rule answer_accepted [OF assms])

lemma md5_quotable: "quotable (md5_encode g t)"
proof -
  have "set (md5_encode g t) \<subseteq> set ''0123456789abcdef''"
    unfolding md5_encode_def Let_def case_prod_beta set_concat set_map using hex_byte_digits by blast
  moreover have "quotable ''0123456789abcdef''" by code_simp
  ultimately show ?thesis unfolding quotable_def nul_free_def list_all_iff by blast
qed

theorem digest_answer_accepted_witness:
  "\<exists>m'. header_values m' (authorization_name PROXY) \<noteq> [] \<and>
     verifyMd5Authorization (replicate 64 0) m' ''bob'' ''secret'' (Some ''n1'') ''example.com'' None None None (Some ''INVITE'') (Some ''sip:b@y'') PROXY"
proof -
  let ?g = "replicate 64 0 :: byte list"
  let ?a1 = "buildMd5UserPasswordDigest ?g (Some ''bob'') (Some ''example.com'') (Some ''secret'')"
  let ?r = "buildMd5Digest ?g ?a1 None (Some ''n1'') None None None (Some ''INVITE'') (Some ''sip:b@y'')"
  let ?m' = "setDigestAuthorizationData blank_message (Some ''bob'') (Some ''example.com'') (Some ''n1'') (Some ''sip:b@y'') (Some ?r) None None None None None PROXY"
  have "quotable ?r" unfolding buildMd5Digest_def Let_def by (rule md5_quotable)
  moreover have "quotable ''bob''" "quotable ''example.com''" "quotable ''n1''" "quotable ''sip:b@y''" "quotable []" "attr_token []" by code_simp+
  ultimately have ok: "digest_ok (Some ''bob'') (Some ''example.com'') (Some ''n1'') (Some ''sip:b@y'') (Some ?r) None None None None None"
    by (simp add: digest_ok_def ptr_text_def)
  have "verifyMd5Authorization ?g ?m' ''bob'' ''secret'' (Some ''n1'') ''example.com'' None None None (Some ''INVITE'') (Some ''sip:b@y'') PROXY"
    using digest_answer_accepted [where m = blank_message and e = PROXY, OF refl ok _ _ _ refl] by (simp add: blank_values)
  moreover have "header_values ?m' (authorization_name PROXY) \<noteq> []" unfolding digest_text by simp
  ultimately show ?thesis by blast
qed

end
