(* ===== verification/TransactionTree.thy ===== *)
theory TransactionTree
  imports SipTransaction HttpAuth
begin

text \<open>
  The tree of the transactions of a forked request (\<^verbatim>\<open>sipXtackLib/src/net/SipTransaction.cpp\<close>): a transaction owns its children, in the order of
  their q values, and points to its parent. The model is a tree of transaction records; what an operation does through the pointer to the parent is done to
  the whole tree, at the path of the transaction in it. Events of waiting tasks are numbers. The q values, doubles that are only compared here, are rational numbers.
\<close>

section \<open>The tree\<close>

datatype txn = Txn (tx: transaction) (kids: "txn list")

fun node_at :: "nat list \<Rightarrow> txn \<Rightarrow> transaction option" where
  "node_at [] (Txn t cs) = Some t"
| "node_at (i # is) (Txn t cs) = (if i < length cs then node_at is (cs ! i) else None)"

fun modify_at :: "nat list \<Rightarrow> (transaction \<Rightarrow> transaction) \<Rightarrow> txn \<Rightarrow> txn option" where
  "modify_at [] f (Txn t cs) = Some (Txn (f t) cs)"
| "modify_at (i # is) f (Txn t cs) = (if i < length cs then map_option (\<lambda>c. Txn t (cs[i := c])) (modify_at is f (cs ! i)) else None)"

fun transactions :: "txn \<Rightarrow> transaction list" where
  "transactions (Txn t cs) = t # concat (map transactions cs)"

text \<open>\<open>linkChild\<close>, for a child that is not in the tree yet.\<close>

fun insert_child :: "txn \<Rightarrow> txn list \<Rightarrow> txn list" where
  "insert_child new [] = [new]"
| "insert_child new (child # others) = (if mQvalue (tx child) < mQvalue (tx new) then new # child # others else child # insert_child new others)"

definition linkChild :: "txn \<Rightarrow> txn \<Rightarrow> txn" where
  "linkChild parent newChild =
     (let child = Txn ((tx newChild)\<lparr>mIsBusy := mIsBusy (tx parent)\<rparr>) (kids newChild) in
      Txn (if mIsServerTransaction (tx parent) \<and> mIsUaTransaction (tx parent) then (tx parent)\<lparr>mIsUaTransaction := False\<rparr> else tx parent)
        (insert_child child (kids parent)))"

section \<open>Time stamps, marks and waiting tasks\<close>

fun touchBelow :: "int \<Rightarrow> txn \<Rightarrow> txn" where
  "touchBelow newDate (Txn t cs) =
     Txn (if mTransactionState t < TRANSACTION_COMPLETE then t\<lparr>mTimeStamp := newDate\<rparr> else t) (map (touchBelow newDate) cs)"

text \<open>The time stamp is a long, the parameter of \<open>touchBelow\<close> an int.\<close>

definition touch :: "int \<Rightarrow> nat list \<Rightarrow> txn \<Rightarrow> txn option" where
  "touch now path tree = do {
     tree1 \<leftarrow> modify_at path (\<lambda>t. if mTransactionState t < TRANSACTION_COMPLETE then t\<lparr>mTimeStamp := now\<rparr> else t) tree;
     t \<leftarrow> node_at path tree1;
     Some (touchBelow (signed_take_bit 31 (mTimeStamp t)) tree1) }"

fun doMarkBusy :: "int \<Rightarrow> txn \<Rightarrow> txn" where
  "doMarkBusy markData (Txn t cs) = Txn (t\<lparr>mIsBusy := markData\<rparr>) (map (doMarkBusy markData) cs)"

definition on_top :: "(transaction \<Rightarrow> transaction) \<Rightarrow> txn \<Rightarrow> txn" where
  "on_top f tree = Txn (f (tx tree)) (kids tree)"

definition markBusy :: "int \<Rightarrow> string \<Rightarrow> txn \<Rightarrow> txn" where
  "markBusy now taskName tree =
     (let busyTime = (let b = signed_take_bit 31 now in if b = 0 then b + 1 else b) in
      on_top (\<lambda>t. t\<lparr>mBusyTaskName := taskName\<rparr>) (doMarkBusy busyTime tree))"

definition notifyWhenAvailable :: "nat \<Rightarrow> txn \<Rightarrow> txn" where
  "notifyWhenAvailable availableEvent tree =
     on_top (\<lambda>t. t\<lparr>mWaitingList := Some ((case mWaitingList t of Some es \<Rightarrow> es | None \<Rightarrow> []) @ [availableEvent])\<rparr>) tree"

text \<open>The event that is signalled. An event that was signalled before is deleted here, by the result of \<open>signal\<close>, which is not modelled.\<close>

definition signalNextAvailable :: "txn \<Rightarrow> txn \<times> nat option" where
  "signalNextAvailable tree =
     (case mWaitingList (tx tree) of
        Some (e # es) \<Rightarrow> (on_top (\<lambda>t. t\<lparr>mWaitingList := Some es\<rparr>) tree, Some e)
      | _ \<Rightarrow> (tree, None))"

definition signalAllAvailable :: "txn \<Rightarrow> txn \<times> nat list" where
  "signalAllAvailable tree =
     (case mWaitingList (tx tree) of
        Some es \<Rightarrow> (on_top (\<lambda>t. t\<lparr>mWaitingList := Some []\<rparr>) tree, es)
      | None \<Rightarrow> (tree, []))"

definition markAvailable :: "int \<Rightarrow> txn \<Rightarrow> (txn \<times> nat option) option" where
  "markAvailable now tree = do {
     tree1 \<leftarrow> touch now [] tree;
     Some (signalNextAvailable (doMarkBusy 0 tree1)) }"

text \<open>The children take over the reason, behind their own, and are put into the queue of transactions to be cancelled.\<close>

definition cancelChildren :: "txn \<Rightarrow> txn \<times> txn list" where
  "cancelChildren tree =
     (let reason = mCancelReasonValue (tx tree);
          cs = map (on_top (\<lambda>t. if reason \<noteq> [] then t\<lparr>mCancelReasonValue := mCancelReasonValue t
            @ (if mCancelReasonValue t \<noteq> [] then '', '' else []) @ c_prefix reason\<rparr> else t)) (kids tree) in
      (Txn (tx tree) cs, cs))"

fun early_media_loop :: "txn list \<Rightarrow> bool \<Rightarrow> bool" where
  "early_media_loop [] earlyDialogWithMedia = earlyDialogWithMedia"
| "early_media_loop (child # others) earlyDialogWithMedia =
     (if mTransactionState (tx child) = TRANSACTION_LOCALLY_INIITATED then earlyDialogWithMedia
      else early_media_loop others (isEarlyDialogWithMedia (tx child)))"

definition isChildEarlyDialogWithMedia :: "txn \<Rightarrow> bool" where
  "isChildEarlyDialogWithMedia tree = early_media_loop (kids tree) False"

section \<open>Whether a URI was tried\<close>

text \<open>
  For a child that was started and has another URI the method calls itself, on the same object. The number bounds the depth of the
  recursion; \<open>None\<close> stands for a call that has not returned.
\<close>

fun uri_loop :: "bool option \<Rightarrow> string \<Rightarrow> txn list \<Rightarrow> bool option" where
  "uri_loop again uriString [] = Some False"
| "uri_loop again uriString (child # others) = do {
     childHasSameUri \<leftarrow>
       (if TRANSACTION_LOCALLY_INIITATED < mTransactionState (tx child)
        then if str_cmp uriString (mRequestUri (tx child)) = 0 then Some True else again
        else Some False);
     if childHasSameUri then Some True else uri_loop again uriString others }"

fun isUriRecursedChildren :: "nat \<Rightarrow> string \<Rightarrow> txn \<Rightarrow> bool option" where
  "isUriRecursedChildren 0 uriString tree = None"
| "isUriRecursedChildren (Suc depth) uriString tree = uri_loop (isUriRecursedChildren depth uriString tree) uriString (kids tree)"

text \<open>\<open>isUriRecursed\<close> looks for the top of the tree, and then searches the transaction itself.\<close>

definition isUriRecursed :: "nat \<Rightarrow> string \<Rightarrow> txn \<Rightarrow> bool option" where
  "isUriRecursed depth uri tree = isUriRecursedChildren depth uri tree"

section \<open>The best response\<close>

datatype ResponsePriority =
  RESP_PRI_CHALLENGE | RESP_PRI_CANCEL | RESP_PRI_3XX | RESP_PRI_4XX | RESP_PRI_404 | RESP_PRI_5XX | RESP_PRI_6XX | RESP_PRI_LOWEST | RESP_PRI_NOMATCH

primrec priority_number :: "ResponsePriority \<Rightarrow> nat" where
  "priority_number RESP_PRI_CHALLENGE = 0"
| "priority_number RESP_PRI_CANCEL = 1"
| "priority_number RESP_PRI_3XX = 2"
| "priority_number RESP_PRI_4XX = 3"
| "priority_number RESP_PRI_404 = 4"
| "priority_number RESP_PRI_5XX = 5"
| "priority_number RESP_PRI_6XX = 6"
| "priority_number RESP_PRI_LOWEST = 7"
| "priority_number RESP_PRI_NOMATCH = 8"

lemma priority_number_inj: "priority_number s = priority_number t \<longleftrightarrow> s = t"
  by (cases s; cases t) simp_all

instantiation ResponsePriority :: linorder
begin

definition less_eq_ResponsePriority :: "ResponsePriority \<Rightarrow> ResponsePriority \<Rightarrow> bool" where
  "s \<le> t \<longleftrightarrow> priority_number s \<le> priority_number t"

definition less_ResponsePriority :: "ResponsePriority \<Rightarrow> ResponsePriority \<Rightarrow> bool" where
  "s < t \<longleftrightarrow> priority_number s < priority_number t"

instance
  by standard (auto simp: less_eq_ResponsePriority_def less_ResponsePriority_def priority_number_inj)

end

definition findRespPriority :: "int \<Rightarrow> ResponsePriority" where
  "findRespPriority responseCode =
     (if responseCode \<in> {401, 407} then RESP_PRI_CHALLENGE
      else if responseCode = 487 then RESP_PRI_CANCEL
      else if responseCode \<in> {300, 301, 302, 305} then RESP_PRI_3XX
      else if responseCode \<in> {400, 403, 603, 405, 408, 412, 415, 416, 420, 421, 423, 480, 481, 482, 483, 484, 486, 488, 489} then RESP_PRI_4XX
      else if responseCode = 404 then RESP_PRI_404
      else if responseCode \<in> {500, 501, 503, 505} then RESP_PRI_5XX
      else if responseCode = 600 then RESP_PRI_6XX
      else if 600 \<le> responseCode then RESP_PRI_6XX
      else if 500 \<le> responseCode then RESP_PRI_5XX
      else if 400 \<le> responseCode then RESP_PRI_4XX
      else if 300 \<le> responseCode then RESP_PRI_3XX
      else RESP_PRI_NOMATCH)"

text \<open>The challenges of a response: what a loop over \<open>getAuthenticateField\<close> sees.\<close>

definition challenges :: "http_message \<Rightarrow> HttpEndpointEnum \<Rightarrow> string list" where
  "challenges m e = field_lines m (authenticate_name e)"

fun realm_loop :: "string list \<Rightarrow> string list \<Rightarrow> string list" where
  "realm_loop [] realmList = realmList"
| "realm_loop (authField # others) realmList =
     (let (found, _, d) = parseAuthenticateData authField in
      realm_loop others (if found \<and> c_prefix (c_realm d) \<notin> set realmList then c_prefix (c_realm d) # realmList else realmList))"

definition getChallengeRealms :: "http_message \<Rightarrow> string list \<Rightarrow> string list" where
  "getChallengeRealms response realmList = realm_loop (challenges response PROXY) realmList"

text \<open>The proxy challenges of a response are added to another one, if their realm was not seen.\<close>

fun merge_challenges :: "string list \<Rightarrow> http_message \<Rightarrow> string list \<Rightarrow> http_message \<times> string list" where
  "merge_challenges [] best proxyRealmsSeen = (best, proxyRealmsSeen)"
| "merge_challenges (authField # others) best proxyRealmsSeen =
     (let (found, _, d) = parseAuthenticateData authField in
      if found \<and> c_prefix (c_realm d) \<notin> set proxyRealmsSeen
      then merge_challenges others (addAuthenticateField best authField PROXY) (c_prefix (c_realm d) # proxyRealmsSeen)
      else merge_challenges others best proxyRealmsSeen)"

definition SIP_SERVER_INTERNAL_ERROR_TEXT :: string where "SIP_SERVER_INTERNAL_ERROR_TEXT = ''Internal Server Error''"
definition SIP_REQUEST_TIMEOUT_TEXT :: string where "SIP_REQUEST_TIMEOUT_TEXT = ''Request timeout''"

text \<open>The response of a child as it is passed on; the fields for the transport, which are reset, are not modelled.\<close>

definition passed_on :: "http_message \<Rightarrow> int \<Rightarrow> http_message" where
  "passed_on childResponse childResponseCode =
     fst (removeTopVia (if childResponseCode = 503 then setResponseFirstHeaderLine childResponse SIP_PROTOCOL_VERSION 500 SIP_SERVER_INTERNAL_ERROR_TEXT
                        else childResponse))"

text \<open>The variables of the loop: the best response, whether one was found, \<open>useThisResp\<close>, and the realms seen.\<close>

type_synonym best_state = "http_message \<times> bool \<times> bool \<times> string list"

definition best_child :: "transaction \<Rightarrow> bool \<Rightarrow> best_state \<Rightarrow> best_state option" where
  "best_child child noChildren s =
     (let (bestResponse, responseFound, useThisResp, proxyRealmsSeen) = s in
      case mpLastFinalResponse child of
        None \<Rightarrow> Some s
      | Some childResponse \<Rightarrow> do {
          bestResponseCode \<leftarrow> getResponseStatusCode bestResponse;
          childResponseCode \<leftarrow> getResponseStatusCode childResponse;
          let respPri = findRespPriority childResponseCode;
          let bestPri = findRespPriority bestResponseCode;
          let (best1, use1, realms1) =
            (if bestPri = RESP_PRI_NOMATCH then (bestResponse, True, proxyRealmsSeen)
             else (case respPri of
                 RESP_PRI_CHALLENGE \<Rightarrow>
                   if bestPri = RESP_PRI_CHALLENGE then
                     (let (b, realms) = merge_challenges (challenges childResponse PROXY) bestResponse (getChallengeRealms bestResponse proxyRealmsSeen) in
                      (fold (\<lambda>f b. addAuthenticateField b f SERVER) (challenges childResponse SERVER) b, useThisResp, realms))
                   else (bestResponse, useThisResp \<or> RESP_PRI_4XX \<le> bestPri, proxyRealmsSeen)
               | RESP_PRI_CANCEL \<Rightarrow> (bestResponse, useThisResp \<or> (mIsCanceled child \<and> RESP_PRI_4XX \<le> bestPri), proxyRealmsSeen)
               | RESP_PRI_3XX \<Rightarrow> (bestResponse, useThisResp \<or> (RESP_PRI_4XX \<le> bestPri \<and> noChildren), proxyRealmsSeen)
               | RESP_PRI_4XX \<Rightarrow> (bestResponse, useThisResp \<or> RESP_PRI_4XX < bestPri, proxyRealmsSeen)
               | RESP_PRI_5XX \<Rightarrow> (bestResponse, useThisResp \<or> RESP_PRI_5XX < bestPri, proxyRealmsSeen)
               | RESP_PRI_6XX \<Rightarrow> (bestResponse, useThisResp \<or> RESP_PRI_6XX < bestPri, proxyRealmsSeen)
               | _ \<Rightarrow> (bestResponse, True, proxyRealmsSeen)));
          Some (if use1 then (passed_on childResponse childResponseCode, True, use1, realms1) else (best1, responseFound, use1, realms1)) })"

text \<open>Without any response the transaction at the top answers 408; \<open>tag\<close> is what \<open>CallId::getNewTag\<close> gives for that response.\<close>

fun findBestChildResponse :: "string \<Rightarrow> bool \<Rightarrow> txn \<Rightarrow> http_message \<Rightarrow> (http_message \<times> bool) option"
and best_loop :: "string \<Rightarrow> txn list \<Rightarrow> best_state \<Rightarrow> best_state option" where
  "findBestChildResponse tag hasParent (Txn t cs) bestResponse = do {
     (best1, responseFound, _, _) \<leftarrow> best_loop tag cs (bestResponse, False, False, []);
     if \<not> responseFound \<and> \<not> hasParent then
       (case mpRequest t of
          Some request \<Rightarrow> do { r \<leftarrow> setResponseData_request best1 request 408 SIP_REQUEST_TIMEOUT_TEXT None True tag; Some (r, True) }
        | None \<Rightarrow> Some (best1, False))
     else Some (best1, responseFound) }"
| "best_loop tag [] s = Some s"
| "best_loop tag (c # cs) (bestResponse, responseFound, useThisResp, proxyRealmsSeen) = do {
     (best1, foundChild) \<leftarrow> findBestChildResponse tag True c bestResponse;
     s \<leftarrow> best_child (tx c) (kids c = []) (best1, responseFound \<or> foundChild, useThisResp, proxyRealmsSeen);
     best_loop tag cs s }"

definition findBestResponse :: "string \<Rightarrow> txn \<Rightarrow> http_message \<Rightarrow> (http_message \<times> bool) option" where
  "findBestResponse tag tree bestResponse = findBestChildResponse tag False tree bestResponse"
text \<open>Whether children are searched one after the other: the q values of the first and the last one differ.\<close>

definition MIN_Q_DELTA_SQUARE :: rat where "MIN_Q_DELTA_SQUARE = 1 / 10 ^ 10"

definition isChildSerial :: "txn \<Rightarrow> bool" where
  "isChildSerial tree =
     (case kids tree of
        [] \<Rightarrow> False
      | child # _ \<Rightarrow> (let q1 = mQvalue (tx child); q2 = mQvalue (tx (last (kids tree))) in MIN_Q_DELTA_SQUARE < (q1 - q2) * (q1 - q2)))"

section \<open>The number of resends\<close>

text \<open>The setters keep the two numbers, which all transactions share, within bounds.\<close>

record resend_times =
  SIP_UDP_RESEND_TIMES :: int
  SIP_TCP_RESEND_TIMES :: int

definition SIP_MAX_RESEND_TIMES :: int where "SIP_MAX_RESEND_TIMES = 7"
definition SIP_MIN_RESEND_TIMES :: int where "SIP_MIN_RESEND_TIMES = 2"

definition initial_times :: resend_times where
  "initial_times = \<lparr>SIP_UDP_RESEND_TIMES = 4, SIP_TCP_RESEND_TIMES = 4\<rparr>"

definition setTcpResendTimes :: "resend_times \<Rightarrow> int \<Rightarrow> resend_times" where
  "setTcpResendTimes s resendTimes = s\<lparr>SIP_TCP_RESEND_TIMES :=
     (if SIP_MAX_RESEND_TIMES < resendTimes then SIP_MAX_RESEND_TIMES
      else if resendTimes < SIP_MIN_RESEND_TIMES then SIP_MIN_RESEND_TIMES else resendTimes)\<rparr>"

definition setUdpResendTimes :: "resend_times \<Rightarrow> int \<Rightarrow> resend_times" where
  "setUdpResendTimes s resendTimes = s\<lparr>SIP_UDP_RESEND_TIMES :=
     (if SIP_MAX_RESEND_TIMES < resendTimes then SIP_MAX_RESEND_TIMES
      else if resendTimes < SIP_MIN_RESEND_TIMES then SIP_MIN_RESEND_TIMES else resendTimes)\<rparr>"

section \<open>Lemmas\<close>

abbreviation by_q :: "txn \<Rightarrow> rat" where
  "by_q c \<equiv> - mQvalue (tx c)"

lemma insert_child_mset [simp]: "mset (insert_child c cs) = add_mset c (mset cs)"
  by (induction cs) auto

lemma insert_child_set: "set (insert_child c cs) = insert c (set cs)"
  by (induction cs) auto

lemma insert_child_sorted: "sorted (map by_q cs) \<Longrightarrow> sorted (map by_q (insert_child c cs))"
  by (induction cs) (auto simp: insert_child_set intro: order_less_imp_le order_trans)

lemma insert_child_filter:
  "sorted (map by_q cs) \<Longrightarrow> filter (\<lambda>x. k = by_q x) (insert_child c cs) = filter (\<lambda>x. k = by_q x) cs @ (if k = by_q c then [c] else [])"
proof (induction cs)
  case (Cons d ds)
  have none: "filter (\<lambda>x. by_q c = by_q x) (d # ds) = []" if "mQvalue (tx d) < mQvalue (tx c)"
    using Cons.prems that by (fastforce simp: filter_empty_conv)
  show ?case using Cons none by (auto simp: filter_empty_conv)
qed simp

lemma sort_key_filter: "filter (\<lambda>x. k = by_q x) (sort_key by_q xs) = filter (\<lambda>x. k = by_q x) xs"
  using sort_key_stable [of by_q k xs] by (simp only: eq_commute [of k])

lemma insert_child_sort:
  assumes "cs = sort_key by_q xs"
  shows "insert_child c cs = sort_key by_q (xs @ [c])"
  by (rule sym, rule properties_for_sort_key)
    (use assms in \<open>simp_all add: insert_child_sorted insert_child_filter sort_key_filter del: minus_equation_iff neg_equal_iff_equal\<close>)

definition busy_child :: "int \<Rightarrow> txn \<Rightarrow> txn" where
  "busy_child b c = Txn ((tx c)\<lparr>mIsBusy := b\<rparr>) (kids c)"

lemma linkChild_parts:
  "kids (linkChild p c) = insert_child (busy_child (mIsBusy (tx p)) c) (kids p)" "mIsBusy (tx (linkChild p c)) = mIsBusy (tx p)"
  by (simp_all add: linkChild_def busy_child_def Let_def)

lemma link_children:
  assumes "kids p = sort_key by_q xs"
  shows "kids (fold (\<lambda>c p. linkChild p c) cs p) = sort_key by_q (xs @ map (busy_child (mIsBusy (tx p))) cs)"
  using assms
proof (induction cs arbitrary: p xs)
  case (Cons c cs)
  show ?case using Cons.IH [of "linkChild p c" "xs @ [busy_child (mIsBusy (tx p)) c]"] insert_child_sort [OF Cons.prems]
    by (simp add: linkChild_parts)
qed simp
abbreviation restamp :: "int \<Rightarrow> transaction \<Rightarrow> transaction" where
  "restamp n t \<equiv> if mTransactionState t < TRANSACTION_COMPLETE then t\<lparr>mTimeStamp := n\<rparr> else t"

lemma transactions_touchBelow: "transactions (touchBelow n tree) = map (restamp n) (transactions tree)"
proof (induction tree)
  case (Txn t cs)
  then have "concat (map (transactions \<circ> touchBelow n) cs) = map (restamp n) (concat (map transactions cs))"
    by (simp add: map_concat comp_def cong: map_cong)
  then show ?case by simp
qed

lemma touchBelow_modify: "modify_at path (restamp n) tree = Some tree1 \<Longrightarrow> touchBelow d tree1 = touchBelow d tree"
proof (induction path arbitrary: tree tree1)
  case Nil
  then show ?case by (cases tree) (auto split: if_splits)
next
  case (Cons i path)
  obtain t cs where tree: "tree = Txn t cs" by (cases tree)
  obtain c where c: "i < length cs" "modify_at path (restamp n) (cs ! i) = Some c" "tree1 = Txn t (cs[i := c])"
    using Cons.prems tree by (auto split: if_splits)
  have "map (touchBelow d) (cs[i := c]) = map (touchBelow d) cs"
    using Cons.IH [OF c(2)] c(1) by (metis list_update_id map_update nth_map)
  then show ?case by (simp add: tree c(3))
qed

lemma modify_node:
  assumes "node_at path tree = Some t"
  shows "\<exists>tree1. modify_at path f tree = Some tree1 \<and> node_at path tree1 = Some (f t)"
  using assms by (induction path tree rule: node_at.induct) (fastforce split: if_splits)+

lemma touch_node:
  assumes "node_at path tree = Some t"
  shows "touch now path tree = Some (touchBelow (signed_take_bit 31 (if mTransactionState t < TRANSACTION_COMPLETE then now else mTimeStamp t)) tree)"
proof -
  obtain tree1 where m: "modify_at path (restamp now) tree = Some tree1" "node_at path tree1 = Some (restamp now t)"
    using modify_node [OF assms] by blast
  have "touch now path tree = Some (touchBelow (signed_take_bit 31 (mTimeStamp (restamp now t))) tree1)" by (simp add: touch_def m)
  then show ?thesis by (simp add: touchBelow_modify [OF m(1)])
qed

lemma stamp_width:
  assumes "int_ok n"
  shows "signed_take_bit 31 n = n"
  using assms signed_take_bit_int_eq_self [of 31 n] by (simp add: int_ok_def)

lemma transactions_doMarkBusy: "transactions (doMarkBusy b tree) = map (\<lambda>t. t\<lparr>mIsBusy := b\<rparr>) (transactions tree)"
proof (induction tree)
  case (Txn t cs)
  then have "concat (map (transactions \<circ> doMarkBusy b) cs) = map (\<lambda>t. t\<lparr>mIsBusy := b\<rparr>) (concat (map transactions cs))"
    by (simp add: map_concat comp_def cong: map_cong)
  then show ?case by simp
qed

lemma transactions_on_top: "transactions (on_top f tree) = f (tx tree) # tl (transactions tree)"
  by (cases tree) (simp add: on_top_def)

text \<open>Tasks that wait, and what \<open>markAvailable\<close> does for them at the times \<open>nows\<close>.\<close>

fun available_run :: "int list \<Rightarrow> txn \<Rightarrow> (txn \<times> nat option list) option" where
  "available_run [] tree = Some (tree, [])"
| "available_run (now # nows) tree = do {
     (tree1, e) \<leftarrow> markAvailable now tree;
     (tree2, es) \<leftarrow> available_run nows tree1;
     Some (tree2, e # es) }"

abbreviation waiting :: "txn \<Rightarrow> nat list" where
  "waiting tree \<equiv> (case mWaitingList (tx tree) of Some es \<Rightarrow> es | None \<Rightarrow> [])"

lemma on_top_tx [simp]: "tx (on_top f tree) = f (tx tree)" "kids (on_top f tree) = kids tree"
  by (simp_all add: on_top_def)

lemma waiting_kept [simp]:
  "mWaitingList (tx (touchBelow n tree)) = mWaitingList (tx tree)" "mWaitingList (tx (doMarkBusy b tree)) = mWaitingList (tx tree)"
  by (cases tree; simp)+

lemma waiting_notify: "waiting (fold notifyWhenAvailable es tree) = waiting tree @ es"
  by (induction es arbitrary: tree) (simp_all add: notifyWhenAvailable_def split: option.splits)

lemma markAvailable_waiting:
  "\<exists>tree'. markAvailable now tree = Some (tree', (case waiting tree of [] \<Rightarrow> None | e # _ \<Rightarrow> Some e)) \<and> waiting tree' = tl (waiting tree)"
proof -
  obtain t cs where tree: "tree = Txn t cs" by (cases tree)
  have "node_at [] tree = Some t" by (simp add: tree)
  from touch_node [OF this, of now] obtain d where d: "touch now [] tree = Some (touchBelow d tree)" by blast
  show ?thesis by (auto simp: markAvailable_def d signalNextAvailable_def split: option.splits list.splits)
qed

lemma available_run_waiting:
  "length nows \<le> length (waiting tree) \<Longrightarrow>
     \<exists>tree'. available_run nows tree = Some (tree', map Some (take (length nows) (waiting tree))) \<and> waiting tree' = drop (length nows) (waiting tree)"
proof (induction nows arbitrary: tree)
  case (Cons now nows)
  obtain e es where w: "waiting tree = e # es" using Cons.prems by (cases "waiting tree") auto
  obtain tree1 where m: "markAvailable now tree = Some (tree1, Some e)" "waiting tree1 = es"
    using markAvailable_waiting [of now tree] by (auto simp: w)
  show ?case using Cons.IH [of tree1] Cons.prems by (auto simp: m w)
qed simp

subsection \<open>Whether a URI was tried\<close>

abbreviation started :: "txn \<Rightarrow> bool" where
  "started c \<equiv> TRANSACTION_LOCALLY_INIITATED < mTransactionState (tx c)"

lemma uri_loop_cases:
  "filter started cs = [] \<Longrightarrow> uri_loop again u cs = Some False"
  "filter started cs = c # ds \<Longrightarrow> c_prefix u = c_prefix (mRequestUri (tx c)) \<Longrightarrow> uri_loop again u cs = Some True"
  "filter started cs = c # ds \<Longrightarrow> c_prefix u \<noteq> c_prefix (mRequestUri (tx c)) \<Longrightarrow> uri_loop None u cs = None"
  by (induction cs) (auto simp: str_cmp_0 split: if_splits)

lemma isUriRecursedChildren_cases:
  "isUriRecursedChildren d u tree =
     (if d = 0 then None
      else case filter started (kids tree) of [] \<Rightarrow> Some False
        | c # _ \<Rightarrow> if c_prefix u = c_prefix (mRequestUri (tx c)) then Some True else None)"
proof (induction d)
  case (Suc d)
  show ?case
  proof (cases "filter started (kids tree)")
    case Nil
    then show ?thesis by (simp add: uri_loop_cases(1))
  next
    case (Cons c ds)
    then have "isUriRecursedChildren d u tree = None" if "c_prefix u \<noteq> c_prefix (mRequestUri (tx c))" using Suc that by simp
    then show ?thesis using Cons uri_loop_cases(2,3) [OF Cons] by simp
  qed
qed simp

subsection \<open>The best response\<close>

lemma status_code_cong: "mFirstHeaderLine m = mFirstHeaderLine m' \<Longrightarrow> getResponseStatusCode m = getResponseStatusCode m'"
  by (simp add: getResponseStatusCode_def line_part_def getFirstHeaderLinePart_def)

lemma removeTopVia_line [simp]: "mFirstHeaderLine (fst (removeTopVia m)) = mFirstHeaderLine m"
  by (simp add: removeTopVia_def addViaField_def Let_def split: option.splits prod.splits)

lemma addAuthenticateField_line [simp]: "mFirstHeaderLine (addAuthenticateField m f e) = mFirstHeaderLine m"
  by (simp add: addAuthenticateField_def addHeaderField_def)

lemma fold_challenges_line [simp]: "mFirstHeaderLine (fold (\<lambda>f b. addAuthenticateField b f e) fs m) = mFirstHeaderLine m"
  by (induction fs arbitrary: m) simp_all

lemma merge_challenges_line: "mFirstHeaderLine (fst (merge_challenges fs m realms)) = mFirstHeaderLine m"
  by (induction fs m realms rule: merge_challenges.induct) (simp_all add: Let_def split: prod.splits)

text \<open>The code a response is passed on with.\<close>

definition passed_code :: "int \<Rightarrow> int" where
  "passed_code c = (if c = 503 then 500 else c)"

lemma passed_on_code:
  assumes "getResponseStatusCode r = Some c"
  shows "getResponseStatusCode (passed_on r c) = Some (passed_code c)"
proof -
  have phrase: "line_text SIP_SERVER_INTERNAL_ERROR_TEXT" by code_simp
  have "getResponseStatusCode (setResponseFirstHeaderLine r SIP_PROTOCOL_VERSION 500 SIP_SERVER_INTERNAL_ERROR_TEXT) = Some 500"
    by (rule status_code_written [OF phrase _ refl]) (simp add: int_ok_def)
  then show ?thesis
    using assms status_code_cong [OF removeTopVia_line] by (simp add: passed_on_def passed_code_def)
qed
text \<open>Whether the response of a child without children is taken instead of the best one, when the flag is not set yet.\<close>

definition wins :: "ResponsePriority \<Rightarrow> ResponsePriority \<Rightarrow> bool \<Rightarrow> bool" where
  "wins bestPri respPri canceled \<longleftrightarrow> bestPri = RESP_PRI_NOMATCH \<or>
     (case respPri of
        RESP_PRI_CHALLENGE \<Rightarrow> RESP_PRI_4XX \<le> bestPri
      | RESP_PRI_CANCEL \<Rightarrow> canceled \<and> RESP_PRI_4XX \<le> bestPri
      | RESP_PRI_3XX \<Rightarrow> RESP_PRI_4XX \<le> bestPri
      | RESP_PRI_4XX \<Rightarrow> RESP_PRI_4XX < bestPri
      | RESP_PRI_5XX \<Rightarrow> RESP_PRI_5XX < bestPri
      | RESP_PRI_6XX \<Rightarrow> RESP_PRI_6XX < bestPri
      | _ \<Rightarrow> True)"

lemma merged_line: "merge_challenges fs m realms = (m', realms') \<Longrightarrow> mFirstHeaderLine m' = mFirstHeaderLine m"
  using merge_challenges_line [of fs m realms] by simp

lemma best_child_leaf:
  assumes "mpLastFinalResponse d = Some r" and "getResponseStatusCode r = Some c" and "getResponseStatusCode best = Some b"
  defines "w \<equiv> wins (findRespPriority b) (findRespPriority c) (mIsCanceled d)"
  shows "\<exists>best' rs'. best_child d True (best, f, False, rs) = Some (best', f \<or> w, w, rs')
           \<and> getResponseStatusCode best' = Some (if w then passed_code c else b)"
proof (cases w)
  case True
  then have "\<exists>rs'. best_child d True (best, f, False, rs) = Some (passed_on r c, True, True, rs')"
    by (auto simp: best_child_def assms(1-3) w_def wins_def Let_def less_eq_ResponsePriority_def less_ResponsePriority_def
        split: ResponsePriority.splits if_splits prod.splits)
  then show ?thesis using True passed_on_code [OF assms(2)] by auto
next
  case False
  then have "\<exists>best' rs'. best_child d True (best, f, False, rs) = Some (best', f, False, rs') \<and> mFirstHeaderLine best' = mFirstHeaderLine best"
    by (auto simp: best_child_def assms(1-3) w_def wins_def Let_def less_eq_ResponsePriority_def less_ResponsePriority_def
        split: ResponsePriority.splits if_splits prod.splits dest: merged_line)
  then obtain best' rs' where s: "best_child d True (best, f, False, rs) = Some (best', f, False, rs')" "mFirstHeaderLine best' = mFirstHeaderLine best"
    by blast
  show ?thesis using False assms(3) status_code_cong [OF s(2)] s(1) by simp
qed

lemma best_child_decided:
  assumes "mpLastFinalResponse d = Some r" and "getResponseStatusCode r = Some c" and "getResponseStatusCode best = Some b"
  shows "\<exists>rs'. best_child d n (best, f, True, rs) = Some (passed_on r c, True, True, rs')"
  by (auto simp: best_child_def assms Let_def split: ResponsePriority.splits prod.splits)

text \<open>
  A fork: each child has one child of its own, for the address the request is sent to, and the final response is that one's. What is
  answered is the code, and whether the transaction was cancelled.
\<close>

fun fork_answer :: "txn \<Rightarrow> (int \<times> bool) option" where
  "fork_answer (Txn t [Txn d []]) =
     (case (mpLastFinalResponse t, mpLastFinalResponse d) of
        (None, Some r) \<Rightarrow> map_option (\<lambda>n. (n, mIsCanceled d)) (getResponseStatusCode r)
      | _ \<Rightarrow> None)"
| "fork_answer _ = None"

definition pick :: "int \<times> bool \<Rightarrow> int \<Rightarrow> int" where
  "pick a b = (if wins (findRespPriority b) (findRespPriority (fst a)) (snd a) then passed_code (fst a) else b)"

lemma fork_best_step:
  assumes "fork_answer c = Some a" and "getResponseStatusCode best = Some b"
  defines "w \<equiv> wins (findRespPriority b) (findRespPriority (fst a)) (snd a)"
  shows "\<exists>best'. best_loop tag (c # cs) (best, f, False, rs) = best_loop tag cs (best', f \<or> w, False, rs) \<and> getResponseStatusCode best' = Some (pick a b)"
proof -
  obtain t d r n where c: "c = Txn t [Txn d []]" "mpLastFinalResponse t = None" "mpLastFinalResponse d = Some r" "getResponseStatusCode r = Some n"
    "a = (n, mIsCanceled d)"
    using assms(1) by (cases c rule: fork_answer.cases) (auto split: option.splits)
  obtain best' rs' where b: "best_child d True (best, False, False, []) = Some (best', w, w, rs')" "getResponseStatusCode best' = Some (pick a b)"
    using best_child_leaf [OF c(3,4) assms(2), of False "[]"] by (auto simp: c(5) pick_def w_def)
  have "best_child t False (best', f \<or> w, False, rs) = Some (best', f \<or> w, False, rs)" by (simp add: best_child_def c(2))
  then show ?thesis using b by (auto simp: c(1))
qed

lemma fork_best_loop:
  assumes "map fork_answer cs = map Some as" and "getResponseStatusCode best = Some b"
  shows "\<exists>best' f'. best_loop tag cs (best, f, False, rs) = Some (best', f', False, rs) \<and> getResponseStatusCode best' = Some (fold pick as b)
           \<and> (f \<longrightarrow> f')"
  using assms
proof (induction cs arbitrary: as best b f)
  case (Cons c cs)
  then obtain a as' where as: "as = a # as'" "fork_answer c = Some a" "map fork_answer cs = map Some as'" by auto
  obtain best1 f1 where s: "best_loop tag (c # cs) (best, f, False, rs) = best_loop tag cs (best1, f \<or> f1, False, rs)"
    "getResponseStatusCode best1 = Some (pick a b)"
    using fork_best_step [OF as(2) Cons.prems(2)] by blast
  show ?case using Cons.IH [OF as(3) s(2), of "f \<or> f1"] by (auto simp only: s(1) as(1) fold_simps comp_def)
qed simp

text \<open>The classes of answers that \<open>findBestResponse\<close> tells apart.\<close>

definition answer_rank :: "int \<Rightarrow> nat" where
  "answer_rank n = (if findRespPriority n < RESP_PRI_4XX then 0 else priority_number (findRespPriority n))"

abbreviation final_answer :: "int \<times> bool \<Rightarrow> bool" where
  "final_answer a \<equiv> 300 \<le> fst a \<and> fst a \<noteq> 404 \<and> (fst a = 487 \<longrightarrow> snd a)"

lemma final_priority:
  assumes "300 \<le> n" and "n \<noteq> 404"
  shows "findRespPriority n \<notin> {RESP_PRI_NOMATCH, RESP_PRI_LOWEST, RESP_PRI_404}" "findRespPriority n = RESP_PRI_CANCEL \<longleftrightarrow> n = 487"
  using assms by (simp_all add: findRespPriority_def)

lemma passed_priority [simp]: "findRespPriority (passed_code n) = findRespPriority n"
  by (simp add: passed_code_def findRespPriority_def)

lemma pick_rank:
  assumes "final_answer a" and "300 \<le> b" and "b \<noteq> 404"
  shows "pick a b \<in> {passed_code (fst a), b} \<and> answer_rank (pick a b) \<le> answer_rank (fst a) \<and> answer_rank (pick a b) \<le> answer_rank b"
  using final_priority [of "fst a"] final_priority [OF assms(2,3)] assms(1)
  by (cases "findRespPriority (fst a)"; cases "findRespPriority b")
    (simp_all add: pick_def wins_def answer_rank_def less_eq_ResponsePriority_def less_ResponsePriority_def)

lemma fold_pick:
  assumes "\<forall>a\<in>set as. final_answer a" and "300 \<le> b" and "b \<noteq> 404"
  shows "fold pick as b \<in> insert b ((passed_code \<circ> fst) ` set as) \<and> answer_rank (fold pick as b) \<le> answer_rank b
           \<and> (\<forall>a\<in>set as. answer_rank (fold pick as b) \<le> answer_rank (fst a))"
  using assms
proof (induction as arbitrary: b)
  case (Cons a as)
  have p: "pick a b \<in> {passed_code (fst a), b}" "answer_rank (pick a b) \<le> answer_rank (fst a)" "answer_rank (pick a b) \<le> answer_rank b"
    using pick_rank [of a b] Cons.prems by auto
  moreover have "300 \<le> pick a b" "pick a b \<noteq> 404" using p(1) Cons.prems by (auto simp: passed_code_def split: if_splits)
  ultimately show ?case using Cons.IH [of "pick a b"] Cons.prems(1) by (auto intro: order_trans)
qed simp
text \<open>The flag \<open>useThisResp\<close> is not reset: among the children of one transaction, every response behind the first one is taken.\<close>

definition leaf_answer :: "txn \<Rightarrow> bool" where
  "leaf_answer c \<longleftrightarrow> kids c = [] \<and> (case mpLastFinalResponse (tx c) of None \<Rightarrow> False | Some r \<Rightarrow> getResponseStatusCode r \<noteq> None)"

lemma leaf_answer_parts:
  assumes "leaf_answer c"
  obtains d r n where "c = Txn d []" "mpLastFinalResponse d = Some r" "getResponseStatusCode r = Some n"
  using assms by (cases c) (auto simp: leaf_answer_def split: option.splits)

lemma best_loop_decided:
  assumes "\<forall>c\<in>set cs. leaf_answer c" and "getResponseStatusCode best = Some b" and "cs \<noteq> []" and "mpLastFinalResponse (tx (last cs)) = Some r"
    and "getResponseStatusCode r = Some n"
  shows "\<exists>rs'. best_loop tag cs (best, f, True, rs) = Some (passed_on r n, True, True, rs')"
  using assms(1-4)
proof (induction cs arbitrary: best b f rs)
  case (Cons c cs)
  obtain d r1 n1 where c: "c = Txn d []" "mpLastFinalResponse d = Some r1" "getResponseStatusCode r1 = Some n1"
    using leaf_answer_parts [of c] Cons.prems(1) by auto
  obtain rs1 where s: "best_loop tag (c # cs) (best, f, True, rs) = best_loop tag cs (passed_on r1 n1, True, True, rs1)"
    using best_child_decided [OF c(2,3) Cons.prems(2), of True f rs] by (auto simp: c(1))
  show ?case
  proof (cases "cs = []")
    case True
    then show ?thesis using s Cons.prems(4) c assms(5) by auto
  next
    case False
    then show ?thesis using Cons.IH [OF _ passed_on_code [OF c(3)] False] Cons.prems(1,4) unfolding s by simp
  qed
qed simp

lemma blank_code: "getResponseStatusCode blank_message = Some 0" "findRespPriority 0 = RESP_PRI_NOMATCH"
  by code_simp+

lemma best_loop_leaves:
  assumes "\<forall>c\<in>set cs. leaf_answer c" and "cs \<noteq> []" and "mpLastFinalResponse (tx (last cs)) = Some r" and "getResponseStatusCode r = Some n"
  shows "\<exists>rs'. best_loop tag cs (blank_message, False, False, []) = Some (passed_on r n, True, True, rs')"
proof (cases cs)
  case (Cons c cs')
  obtain d r1 n1 where c: "c = Txn d []" "mpLastFinalResponse d = Some r1" "getResponseStatusCode r1 = Some n1"
    using leaf_answer_parts [of c] assms(1) Cons by auto
  have "best_child d True (blank_message, False, False, []) = Some (passed_on r1 n1, True, True, [])"
    by (simp add: best_child_def c blank_code)
  then have s: "best_loop tag cs (blank_message, False, False, []) = best_loop tag cs' (passed_on r1 n1, True, True, [])"
    by (simp add: Cons c(1))
  show ?thesis
  proof (cases "cs' = []")
    case True
    then show ?thesis using s assms(3,4) c Cons by auto
  next
    case False
    then show ?thesis using best_loop_decided [OF _ passed_on_code [OF c(3)] False _ assms(4)] assms(1,3) Cons unfolding s by simp
  qed
qed (use assms(2) in simp)

subsection \<open>Serial search, early media and resends\<close>

lemma serial_children:
  assumes "sorted (map by_q (kids tree))"
  shows "isChildSerial tree \<longleftrightarrow> (\<exists>a\<in>set (kids tree). \<exists>b\<in>set (kids tree). MIN_Q_DELTA_SQUARE < (mQvalue (tx a) - mQvalue (tx b)) * (mQvalue (tx a) - mQvalue (tx b)))"
proof (cases "kids tree")
  case (Cons c cs)
  let ?q = "\<lambda>a. mQvalue (tx a)" and ?l = "last (kids tree)"
  have first: "?q a \<le> ?q c" if "a \<in> set (kids tree)" for a using assms that Cons by auto
  have final: "?q ?l \<le> ?q a" if "a \<in> set (kids tree)" for a
  proof -
    obtain i where i: "i < length (kids tree)" "kids tree ! i = a" using \<open>a \<in> set (kids tree)\<close> by (auto simp: in_set_conv_nth)
    have "kids tree \<noteq> []" using Cons by simp
    then show ?thesis using sorted_nth_mono [OF assms, of i "length (kids tree) - 1"] i by (simp add: last_conv_nth)
  qed
  have "(?q a - ?q b) * (?q a - ?q b) \<le> (?q c - ?q ?l) * (?q c - ?q ?l)" if "a \<in> set (kids tree)" "b \<in> set (kids tree)" for a b
  proof -
    have "\<bar>?q a - ?q b\<bar> \<le> ?q c - ?q ?l" using first [OF that(1)] first [OF that(2)] final [OF that(1)] final [OF that(2)] by arith
    then have "\<bar>?q a - ?q b\<bar> * \<bar>?q a - ?q b\<bar> \<le> (?q c - ?q ?l) * (?q c - ?q ?l)" by (intro mult_mono) auto
    then show ?thesis by simp
  qed
  moreover have "c \<in> set (kids tree)" "?l \<in> set (kids tree)" by (simp_all add: Cons)
  moreover have "isChildSerial tree \<longleftrightarrow> MIN_Q_DELTA_SQUARE < (?q c - ?q ?l) * (?q c - ?q ?l)" by (simp add: isChildSerial_def Cons Let_def)
  ultimately show ?thesis by (meson order.strict_trans2)
qed (simp add: isChildSerial_def)

lemma early_media_last:
  "isChildEarlyDialogWithMedia tree =
     (let cs = takeWhile (\<lambda>c. mTransactionState (tx c) \<noteq> TRANSACTION_LOCALLY_INIITATED) (kids tree) in cs \<noteq> [] \<and> isEarlyDialogWithMedia (tx (last cs)))"
proof -
  have "early_media_loop cs e = (let ds = takeWhile (\<lambda>c. mTransactionState (tx c) \<noteq> TRANSACTION_LOCALLY_INIITATED) cs in
      if ds = [] then e else isEarlyDialogWithMedia (tx (last ds)))" for cs e
    by (induction cs arbitrary: e) (simp_all add: Let_def)
  then show ?thesis by (simp add: isChildEarlyDialogWithMedia_def Let_def)
qed

definition times_ok :: "resend_times \<Rightarrow> bool" where
  "times_ok s \<longleftrightarrow> SIP_UDP_RESEND_TIMES s \<in> {2..7} \<and> SIP_TCP_RESEND_TIMES s \<in> {2..7}"

lemma resend_times_ok:
  "times_ok initial_times" "times_ok s \<Longrightarrow> times_ok (setTcpResendTimes s n)" "times_ok s \<Longrightarrow> times_ok (setUdpResendTimes s n)"
  by (auto simp: times_ok_def initial_times_def setTcpResendTimes_def setUdpResendTimes_def SIP_MAX_RESEND_TIMES_def SIP_MIN_RESEND_TIMES_def)

section \<open>Properties\<close>

text \<open>The code of the answer to a request that was forked to several targets: that of the first, unless a later one wins.\<close>

lemma fork_best_code:
  assumes "map fork_answer cs = map Some as" and "as \<noteq> []"
  shows "\<exists>best. findBestResponse tag (Txn t cs) blank_message = Some (best, True) \<and> getResponseStatusCode best = Some (fold pick (tl as) (passed_code (fst (hd as))))"
proof -
  obtain a as' where as: "as = a # as'" using assms(2) by (cases as) auto
  obtain c cs' where cs: "cs = c # cs'" "fork_answer c = Some a" "map fork_answer cs' = map Some as'" using assms(1) as by auto
  have w: "wins (findRespPriority 0) (findRespPriority (fst a)) (snd a)" by (simp add: wins_def blank_code)
  then have p: "pick a 0 = passed_code (fst a)" by (simp add: pick_def)
  obtain best1 where s: "best_loop tag cs (blank_message, False, False, []) = best_loop tag cs' (best1, True, False, [])"
    "getResponseStatusCode best1 = Some (passed_code (fst a))"
    using fork_best_step [OF cs(2) blank_code(1), of tag cs' False "[]"] w p by (auto simp: cs(1))
  obtain best' where "best_loop tag cs' (best1, True, False, []) = Some (best', True, False, [])"
    "getResponseStatusCode best' = Some (fold pick as' (passed_code (fst a)))"
    using fork_best_loop [OF cs(3) s(2), of tag True "[]"] by auto
  then show ?thesis using as by (simp add: findBestResponse_def s)
qed

text \<open>A 404 that comes last is the answer, whatever the others are.\<close>

lemma fork_not_found_wins:
  assumes "map fork_answer cs = map Some (as @ [(404, c)])"
  shows "\<exists>best. findBestResponse tag (Txn t cs) blank_message = Some (best, True) \<and> getResponseStatusCode best = Some 404"
proof -
  have "passed_code 404 = 404" "pick (404, c) b = 404" for b by (simp_all add: pick_def wins_def passed_code_def findRespPriority_def)
  then show ?thesis using fork_best_code [OF assms, of tag t] by (cases as) auto
qed

text \<open>C24. A request forked to several targets, each behind a transaction of its own that has exactly one child and the final answer below it, none of them a 404 and none
  a 487 of a transaction that was not cancelled, is answered with the response of one of the targets, 503 as 500, and of the best class among them: challenges, 487 of
  cancelled ones and redirections before 4xx, these before 5xx, these before 6xx. For a 404 it is not so, as \<open>fork_not_found_wins\<close> shows.\<close>

theorem fork_best_response:
  assumes "map fork_answer cs = map Some as" and "as \<noteq> []" and "\<forall>a\<in>set as. final_answer a"
  shows "\<exists>best code. findBestResponse tag (Txn t cs) blank_message = Some (best, True) \<and> getResponseStatusCode best = Some code
           \<and> code \<in> (passed_code \<circ> fst) ` set as \<and> (\<forall>a\<in>set as. answer_rank code \<le> answer_rank (fst a))"
proof -
  obtain a as' where as: "as = a # as'" using assms(2) by (cases as) auto
  have "300 \<le> passed_code (fst a)" "passed_code (fst a) \<noteq> 404" "answer_rank (passed_code (fst a)) = answer_rank (fst a)"
    using assms(3) as by (auto simp: passed_code_def answer_rank_def findRespPriority_def)
  then show ?thesis using fork_best_code [OF assms(1,2), of tag t] fold_pick [of as' "passed_code (fst a)"] assms(3) by (auto simp: as)
qed

definition answered :: "int \<Rightarrow> txn" where
  "answered n = Txn sample_transaction [Txn (sample_transaction\<lparr>mpLastFinalResponse := Some (setResponseFirstHeaderLine blank_message SIP_PROTOCOL_VERSION n ''x'')\<rparr>) []]"

lemma answered_code: "getResponseStatusCode (setResponseFirstHeaderLine blank_message SIP_PROTOCOL_VERSION n ''x'') = Some n" if "int_ok n"
proof -
  have "line_text ''x''" by code_simp
  then show ?thesis using status_code_written [OF _ that refl] by blast
qed

lemma SipTransaction_new_fields:
  assumes "SipTransaction_new env url secret counter now m out ua parent = Some (t, p, c)"
  shows "mpLastFinalResponse t = None" "\<not> mIsCanceled t" "mWaitingList t = None"
  using assms by (auto simp: SipTransaction_new_def Let_def split: bind_splits prod.splits option.splits)

lemmas sample_fields = SipTransaction_new_fields [OF sample_transaction_new] SipTransaction_new_inv(3) [OF sample_transaction_new]

theorem fork_best_response_witness:
  "\<exists>best. findBestResponse [] (Txn sample_transaction [answered 503, answered 486, answered 600]) blank_message = Some (best, True)
     \<and> getResponseStatusCode best = Some 486"
proof -
  have "map fork_answer [answered 503, answered 486, answered 600] = map Some [(503, False), (486, False), (600, False)]"
    by (simp add: answered_def answered_code int_ok_def sample_fields)
  moreover have "answer_rank 500 = 5" "answer_rank 486 = 3" "answer_rank 600 = 6" "passed_code 503 = 500" "passed_code 486 = 486" "passed_code 600 = 600"
    by code_simp+
  ultimately show ?thesis
    using fork_best_response [of "[answered 503, answered 486, answered 600]" "[(503, False), (486, False), (600, False)]" "[]" sample_transaction] by auto
qed
text \<open>Among children of one transaction that have no children of their own the response of the last one is returned, whatever its class: the first response
  sets \<open>useThisResp\<close>, and nothing sets it back.\<close>

theorem best_response_last:
  assumes "\<forall>c\<in>set cs. leaf_answer c" and "cs \<noteq> []" and "mpLastFinalResponse (tx (last cs)) = Some r" and "getResponseStatusCode r = Some n"
  shows "findBestResponse tag (Txn t cs) blank_message = Some (passed_on r n, True)"
  using best_loop_leaves [OF assms, of tag] by (auto simp: findBestResponse_def)

theorem best_response_last_witness:
  "\<exists>best. findBestResponse [] (Txn sample_transaction [hd (kids (answered 401)), hd (kids (answered 603))]) blank_message = Some (best, True)
     \<and> getResponseStatusCode best = Some 603"
proof -
  let ?cs = "[hd (kids (answered 401)), hd (kids (answered 603))]" and ?r = "setResponseFirstHeaderLine blank_message SIP_PROTOCOL_VERSION 603 ''x''"
  have "\<forall>c\<in>set ?cs. leaf_answer c" "mpLastFinalResponse (tx (last ?cs)) = Some ?r"
    by (simp_all add: answered_def leaf_answer_def answered_code int_ok_def)
  moreover have code: "getResponseStatusCode ?r = Some 603" by (simp add: answered_code int_ok_def)
  ultimately have "findBestResponse [] (Txn sample_transaction ?cs) blank_message = Some (passed_on ?r 603, True)"
    by (intro best_response_last) simp_all
  then show ?thesis using passed_on_code [OF code] by (simp add: passed_code_def)
qed

text \<open>C26. Children linked one after the other are in the order of a stable sort by q, the largest first, and have the mark of the parent.\<close>

theorem link_children_sorted:
  "kids (fold (\<lambda>c p. linkChild p c) cs (Txn t [])) = sort_key (\<lambda>c. - mQvalue (tx c)) (map (busy_child (mIsBusy t)) cs)"
  using link_children [of "Txn t []" "[]" cs] by simp

text \<open>Touching a transaction sets the time stamp of every transaction of its tree that is not complete, and of no other; to the time, if the touched one is
  not complete, and back to the stamp of the touched one if it is.\<close>

theorem touch_whole_tree:
  assumes "node_at path tree = Some t" and "int_ok now" and "int_ok (mTimeStamp t)"
  shows "\<exists>tree'. touch now path tree = Some tree'
           \<and> transactions tree' = map (restamp (if mTransactionState t < TRANSACTION_COMPLETE then now else mTimeStamp t)) (transactions tree)"
  using touch_node [OF assms(1), of now] assms(2,3) by (simp add: transactions_touchBelow stamp_width)

theorem touch_whole_tree_witness:
  "\<exists>tree'. touch 90 [0] (Txn (sample_transaction\<lparr>mTimeStamp := 80\<rparr>) [Txn (sample_transaction\<lparr>mTransactionState := TRANSACTION_COMPLETE, mTimeStamp := 30\<rparr>) []]) = Some tree'
     \<and> map mTimeStamp (transactions tree') = [30, 30]"
  using touch_whole_tree [of "[0]" "Txn (sample_transaction\<lparr>mTimeStamp := 80\<rparr>)
      [Txn (sample_transaction\<lparr>mTransactionState := TRANSACTION_COMPLETE, mTimeStamp := 30\<rparr>) []]"
      "sample_transaction\<lparr>mTransactionState := TRANSACTION_COMPLETE, mTimeStamp := 30\<rparr>" 90]
  by (auto simp: int_ok_def sample_fields state_simps)

text \<open>C27. Marking a tree as busy marks every transaction of it, with a mark that is not 0. Tasks that wait for it are signalled in the order in which they asked,
  one each time it becomes available.\<close>

theorem waiting_tasks_in_order:
  assumes "mWaitingList (tx tree) = None" and "length nows = length es"
  shows "list_all (\<lambda>t. mIsBusy t \<noteq> 0) (transactions (markBusy now taskName tree))
         \<and> (\<exists>tree'. available_run nows (fold notifyWhenAvailable es (markBusy now taskName tree)) = Some (tree', map Some es) \<and> waiting tree' = [])"
proof -
  let ?b = "let b = signed_take_bit 31 now in if b = 0 then b + 1 else b"
  have b: "?b \<noteq> 0" by (simp add: Let_def)
  obtain t cs where tree: "tree = Txn t cs" by (cases tree)
  have w: "waiting (fold notifyWhenAvailable es (markBusy now taskName tree)) = es"
    using assms(1) waiting_notify [of es "markBusy now taskName tree"] by (simp add: markBusy_def Let_def)
  have "list_all (\<lambda>t. mIsBusy t \<noteq> 0) (transactions (markBusy now taskName tree))"
    using b transactions_doMarkBusy [of ?b tree] by (auto simp: markBusy_def transactions_on_top tree list_all_iff Let_def)
  then show ?thesis using available_run_waiting [of nows "fold notifyWhenAvailable es (markBusy now taskName tree)"] assms(2) by (auto simp: w)
qed

theorem waiting_tasks_in_order_witness:
  "\<exists>tree'. available_run [12, 13] (fold notifyWhenAvailable [4, 9] (markBusy 0 ''t'' (Txn sample_transaction []))) = Some (tree', [Some 4, Some 9])"
  using waiting_tasks_in_order [of "Txn sample_transaction []" "[12, 13]" "[4, 9]" 0 "''t''"] by (auto simp: sample_fields)

text \<open>C25. The search for a URI among the children returns only if none of them was started or the first that was has the URI; otherwise it calls itself on
  the same transaction without end.\<close>

theorem uri_search_returns:
  "(\<exists>depth r. isUriRecursed depth uri tree = Some r) \<longleftrightarrow>
     (case filter started (kids tree) of [] \<Rightarrow> True | c # _ \<Rightarrow> c_prefix uri = c_prefix (mRequestUri (tx c)))"
  by (auto simp: isUriRecursed_def isUriRecursedChildren_cases intro: exI [of _ "Suc 0"] split: list.splits if_splits)

end
