(* ===== verification/SipNonceDb.thy ===== *)
theory SipNonceDb
  imports BranchId HttpAuth
begin

text \<open>
  Nonces of digest challenges (\<^verbatim>\<open>sipXcommserverLib/src/sipXecsService/SipNonceDb.cpp\<close>). There is no data base: a nonce is a signature over its time
  of creation, the call it is for and a secret that the servers share, followed by the time. The clock (seconds since the epoch) and the secret are arguments;
  \<open>g\<close> is what a new MD5 buffer contains.
\<close>

section \<open>Operations\<close>

definition HEX_TIMESTAMP_LENGTH :: nat where "HEX_TIMESTAMP_LENGTH = 8"
definition MD5_SIZE :: nat where "MD5_SIZE = 32"

text \<open>\<^verbatim>\<open>sprintf(dateString, "%08x", (int)now)\<close>\<close>

definition hex8 :: "nat \<Rightarrow> string" where
  "hex8 n = hex4 (n div 65536 mod 65536) @ hex4 (n mod 65536)"

text \<open>\<open>strtol\<close> with base 16: white space, a sign, a prefix and digits. What is too large for a long is not cut off here: the text has eight characters.\<close>

definition strtol16 :: "string \<Rightarrow> int" where
  "strtol16 s =
     (let s1 = dropWhile isspace s;
          neg = (s1 \<noteq> [] \<and> hd s1 = CHR ''-'');
          s2 = (if s1 \<noteq> [] \<and> hd s1 \<in> {CHR ''-'', CHR ''+''} then tl s1 else s1);
          s3 = (if 3 \<le> length s2 \<and> s2 ! 0 = CHR ''0'' \<and> s2 ! 1 \<in> {CHR ''x'', CHR ''X''} \<and> hex_char (s2 ! 2) then drop 2 s2 else s2);
          v = int (hex_value (takeWhile hex_char s3)) in
      if neg then - v else v)"

definition nonceSignature :: "byte list \<Rightarrow> string \<Rightarrow> string \<Rightarrow> string \<Rightarrow> string \<Rightarrow> string \<Rightarrow> string option" where
  "nonceSignature g secret callId fromTag realm timestamp = do {
     md5 \<leftarrow> hash_pieces (NetMd5Codec_new g)
       (map bytes_of [take HEX_TIMESTAMP_LENGTH timestamp, callId, '','', fromTag, '','', secret, '','', realm]);
     (_, signatureValue) \<leftarrow> appendHashValue md5 [];
     Some signatureValue }"

definition createNewNonce :: "byte list \<Rightarrow> string \<Rightarrow> nat \<Rightarrow> string \<Rightarrow> string \<Rightarrow> string \<Rightarrow> string option" where
  "createNewNonce g secret now callId fromTag realm = do {
     let dateString = hex8 (now mod 2 ^ 32);
     nonce \<leftarrow> nonceSignature g secret callId fromTag realm dateString;
     Some (nonce @ dateString) }"

text \<open>The times are unsigned longs, the number of seconds a nonce lives is a long.\<close>

definition isNonceValid :: "byte list \<Rightarrow> string \<Rightarrow> nat \<Rightarrow> string \<Rightarrow> string \<Rightarrow> string \<Rightarrow> string \<Rightarrow> int \<Rightarrow> bool option" where
  "isNonceValid g secret now nonce callId fromTag realm expiredTime =
     (if length nonce = MD5_SIZE + HEX_TIMESTAMP_LENGTH then do {
        let timestamp = take HEX_TIMESTAMP_LENGTH (drop MD5_SIZE nonce);
        let rcvdSignature = take MD5_SIZE nonce;
        msgSignature \<leftarrow> nonceSignature g secret callId fromTag realm timestamp;
        if str_cmp rcvdSignature msgSignature = 0 then
          (let nonceCreated = strtol16 (c_prefix timestamp) in Some (int now \<le> (nonceCreated + expiredTime) mod 2 ^ 64))
        else Some False }
      else Some False)"

section \<open>Lemmas\<close>

text \<open>The signature, by the reference definition of MD5.\<close>

definition nonce_sig :: "string \<Rightarrow> string \<Rightarrow> string \<Rightarrow> string \<Rightarrow> string \<Rightarrow> string" where
  "nonce_sig secret callId fromTag realm timestamp =
     concat (map hex_byte (md5 (bytes_of (timestamp @ callId @ '','' @ fromTag @ '','' @ secret @ '','' @ realm))))"

definition short :: "string \<Rightarrow> bool" where
  "short s \<longleftrightarrow> length s < 2 ^ 32"

lemma nonceSignature_ok:
  assumes "length g = 64" and "length timestamp = 8" and "short callId" "short fromTag" "short realm" "short secret"
  shows "nonceSignature g secret callId fromTag realm timestamp = Some (nonce_sig secret callId fromTag realm timestamp)"
proof -
  let ?xs = "map bytes_of [take HEX_TIMESTAMP_LENGTH timestamp, callId, '','', fromTag, '','', secret, '','', realm]"
  have "\<forall>x \<in> set ?xs. length x < 2 ^ 32" using assms(2-) by (simp add: short_def HEX_TIMESTAMP_LENGTH_def bytes_of_def)
  from hash_pieces_digest [OF assms(1) this, of "[]"] obtain c c' where
    "hash_pieces (NetMd5Codec_new g) ?xs = Some c" "appendHashValue c [] = Some (c', concat (map hex_byte (md5 (concat ?xs))))"
    by (auto simp: returns_iff bind_eq_Some_conv)
  then show ?thesis using assms(2) by (simp add: nonceSignature_def nonce_sig_def HEX_TIMESTAMP_LENGTH_def bytes_of_def)
qed

lemma nonce_sig_shape: "length (nonce_sig secret callId fromTag realm ts) = 32" "nul_free (nonce_sig secret callId fromTag realm ts)"
    "set (nonce_sig secret callId fromTag realm ts) \<subseteq> set ''0123456789abcdef''"
proof -
  show l: "length (nonce_sig secret callId fromTag realm ts) = 32" "set (nonce_sig secret callId fromTag realm ts) \<subseteq> set ''0123456789abcdef''"
    unfolding nonce_sig_def by (rule md5_hex_digits)+
  have "nul_free ''0123456789abcdef''" by code_simp
  then show "nul_free (nonce_sig secret callId fromTag realm ts)" using l(2) by (auto simp: nul_free_def)
qed

lemma c_prefix_length: "length (c_prefix s) \<le> length s"
  by (simp add: c_prefix_def length_takeWhile_le)

lemma c_prefix_whole:
  assumes "c_prefix s = t" and "length t = length s"
  shows "s = t"
  using assms takeWhile_eq_take [of "\<lambda>c. c \<noteq> NUL" s] by (simp add: c_prefix_def)

text \<open>A nonce is accepted exactly if it is a signature for the call with a time behind it that is not too long ago.\<close>

lemma isNonceValid_iff:
  assumes "length g = 64" and "short callId" "short fromTag" "short realm" "short secret"
  shows "isNonceValid g secret now nonce callId fromTag realm expiredTime = Some
           (\<exists>ts. length ts = 8 \<and> nonce = nonce_sig secret callId fromTag realm ts @ ts \<and> int now \<le> (strtol16 (c_prefix ts) + expiredTime) mod 2 ^ 64)"
proof (cases "length nonce = 40")
  case True
  let ?ts = "drop 32 nonce"
  let ?s = "nonce_sig secret callId fromTag realm ?ts"
  have sig: "nonceSignature g secret callId fromTag realm ?ts = Some ?s" using nonceSignature_ok [OF assms(1) _ assms(2-5)] True by simp
  have eq: "str_cmp (take 32 nonce) ?s = 0 \<longleftrightarrow> take 32 nonce = ?s"
    using nonce_sig_shape(1,2) [of secret callId fromTag realm ?ts] c_prefix_whole [of "take 32 nonce" ?s] True by (auto simp: str_cmp_0)
  have "(\<exists>ts. length ts = 8 \<and> nonce = nonce_sig secret callId fromTag realm ts @ ts \<and> P ts) \<longleftrightarrow> take 32 nonce = ?s \<and> P ?ts" for P
  proof
    assume "\<exists>ts. length ts = 8 \<and> nonce = nonce_sig secret callId fromTag realm ts @ ts \<and> P ts"
    then obtain ts where "length ts = 8" "nonce = nonce_sig secret callId fromTag realm ts @ ts" "P ts" by blast
    then show "take 32 nonce = ?s \<and> P ?ts" using nonce_sig_shape(1) by simp
  next
    assume "take 32 nonce = ?s \<and> P ?ts"
    then show "\<exists>ts. length ts = 8 \<and> nonce = nonce_sig secret callId fromTag realm ts @ ts \<and> P ts"
      using True append_take_drop_id [of 32 nonce] by (intro exI [of _ ?ts]) simp
  qed
  then show ?thesis using True sig eq by (simp add: Let_def isNonceValid_def MD5_SIZE_def HEX_TIMESTAMP_LENGTH_def)
next
  case False
  then show ?thesis using nonce_sig_shape(1) by (auto simp: isNonceValid_def MD5_SIZE_def HEX_TIMESTAMP_LENGTH_def)
qed

lemma positional:
  fixes v :: "'a \<Rightarrow> nat"
  shows "fold (\<lambda>c n. b * n + v c) t n = n * b ^ length t + fold (\<lambda>c n. b * n + v c) t 0"
proof (induction t arbitrary: n)
  case (Cons c t)
  show ?case unfolding fold_simps comp_def by (subst Cons, subst (2) Cons) (simp add: algebra_simps)
qed simp

lemma hex_value_append: "hex_value (s @ t) = hex_value s * 16 ^ length t + hex_value t"
  unfolding hex_value_def fold_append comp_def by (rule positional)

lemma hex8_digits:
  assumes "n < 2 ^ 32"
  shows "length (hex8 n) = 8" "list_all hex_char (hex8 n)" "hex_value (hex8 n) = n"
proof -
  have b: "n div 65536 mod 65536 < 65536" "n mod 65536 < 65536" "n div 65536 mod 65536 = n div 65536" using assms by simp_all
  note d = hex4_digits [of "n div 65536 mod 65536"] hex4_digits [of "n mod 65536"]
  show "length (hex8 n) = 8" "list_all hex_char (hex8 n)" using d b by (simp_all add: hex8_def)
  show "hex_value (hex8 n) = n" using d b by (simp add: hex8_def hex_value_append)
qed

lemma hex8_read:
  assumes "n < 2 ^ 32"
  shows "strtol16 (c_prefix (hex8 n)) = int n"
proof -
  note h = hex8_digits [OF assms]
  have nul: "nul_free (hex8 n)" using h(2) hex_char_nul by (fastforce simp: nul_free_def list_all_iff)
  have sp: "\<not> isspace c" "c \<notin> {CHR ''-'', CHR ''+''}" "c \<noteq> CHR ''x''" "c \<noteq> CHR ''X''" if "hex_char c" for c
  proof -
    have "\<forall>c \<in> set ''0123456789abcdefABCDEF''. \<not> isspace c \<and> c \<notin> {CHR ''-'', CHR ''+''} \<and> c \<noteq> CHR ''x'' \<and> c \<noteq> CHR ''X''" by code_simp
    then show "\<not> isspace c" "c \<notin> {CHR ''-'', CHR ''+''}" "c \<noteq> CHR ''x''" "c \<noteq> CHR ''X''" using that unfolding hex_char_def by blast+
  qed
  obtain a b t where s: "hex8 n = a # b # t" "hex_char a" "hex_char b" using h(1,2) by (cases "hex8 n"; cases "tl (hex8 n)") auto
  have "takeWhile hex_char (hex8 n) = hex8 n" using h(2) by (simp add: takeWhile_eq_all_conv list_all_iff)
  then show ?thesis using sp [OF s(2)] sp [OF s(3)] h(3) nul by (simp add: strtol16_def s(1) Let_def)
qed

lemma nonce_accepted:
  assumes "length g = 64" and "short callId" "short fromTag" "short realm" "short secret" and "created < 2 ^ 32" and "0 \<le> expiredTime" and "expiredTime < 2 ^ 63"
  shows "\<exists>nonce. createNewNonce g secret created callId fromTag realm = Some nonce
           \<and> isNonceValid g secret now nonce callId fromTag realm expiredTime = Some (int now \<le> int created + expiredTime)
           \<and> (\<forall>other. isNonceValid g secret now other callId fromTag realm expiredTime = Some True \<longrightarrow>
                (\<exists>ts. length ts = 8 \<and> other = nonce_sig secret callId fromTag realm ts @ ts))"
proof -
  let ?ts = "hex8 created"
  have m: "created mod 2 ^ 32 = created" "(int created + expiredTime) mod 2 ^ 64 = int created + expiredTime" using assms(6-8) by simp_all
  note h = hex8_digits(1) [OF assms(6)] hex8_read [OF assms(6)]
  have n: "createNewNonce g secret created callId fromTag realm = Some (nonce_sig secret callId fromTag realm ?ts @ ?ts)"
    unfolding createNewNonce_def Let_def m using nonceSignature_ok [OF assms(1) h(1) assms(2-5)] by simp
  have "(\<exists>ts. length ts = 8 \<and> nonce_sig secret callId fromTag realm ?ts @ ?ts = nonce_sig secret callId fromTag realm ts @ ts \<and> P ts) \<longleftrightarrow> P ?ts" for P
    using nonce_sig_shape(1) h(1) by (metis append_eq_append_conv)
  then show ?thesis using n isNonceValid_iff [OF assms(1-5)] h(2) m(2) by auto
qed

section \<open>Properties\<close>

text \<open>C28. The nonce of a challenge is accepted for the call it was made for, with the same secret, until the time has passed and no longer. Whatever else
  is accepted for the call is a time with the MD5 signature over that time, the call and the secret before it.\<close>

theorem nonce_valid_until:
  assumes "length g = 64" and "short callId" "short fromTag" "short realm" "short secret" and "created < 2 ^ 32" and "0 \<le> expiredTime" and "expiredTime < 2 ^ 63"
  shows "\<exists>nonce. createNewNonce g secret created callId fromTag realm = Some nonce
           \<and> isNonceValid g secret now nonce callId fromTag realm expiredTime = Some (int now \<le> int created + expiredTime)
           \<and> (\<forall>other. isNonceValid g secret now other callId fromTag realm expiredTime = Some True \<longrightarrow>
                (\<exists>ts. length ts = 8 \<and> other = nonce_sig secret callId fromTag realm ts @ ts))"
  by (rule nonce_accepted [OF assms])

theorem nonce_valid_until_witness:
  "\<exists>nonce. createNewNonce (replicate 64 0) ''s3'' 1000 ''c1'' ''t1'' ''example.com'' = Some nonce
     \<and> isNonceValid (replicate 64 0) ''s3'' 1300 nonce ''c1'' ''t1'' ''example.com'' 300 = Some True
     \<and> isNonceValid (replicate 64 0) ''s3'' 1301 nonce ''c1'' ''t1'' ''example.com'' 300 = Some False"
proof -
  have "short ''c1''" "short ''t1''" "short ''example.com''" "short ''s3''" by (simp_all add: short_def)
  note v = nonce_valid_until [OF _ this, of "replicate 64 0" 1000 300]
  show ?thesis using v [of 1300] v [of 1301] by auto
qed

end
