(* ===== verification/SipRouter.thy ===== *)
theory SipRouter
  imports SipNonceDb
begin

text \<open>
  The proxy (\<^verbatim>\<open>sipXproxy/src/SipRouter.cpp\<close>): which extensions a request may require, who sent it, whether it may pass, and what becomes of it.

  The environment \<open>router_env\<close> has the configuration of the proxy, the data base of users (a client of a data base server), and what the parts that are not
  modelled give: class \<open>Url\<close>, for the tag of a field and the identity of a URI, and the regular expression that \<open>findToken\<close> builds. The clock
  is an argument and is the same throughout a call. A value that undefined behaviour would give is \<open>None\<close>.
\<close>

section \<open>The environment\<close>

record entity =
  ent_userId :: string
  ent_identity :: string
  ent_realm :: string
  ent_password :: string
  ent_authType :: string

record router_env =
  r_garbage :: "byte list"
  r_url :: "string \<Rightarrow> url_fields"
  r_identity :: "string \<Rightarrow> string"
  r_findByUserId :: "string \<Rightarrow> entity option"
  r_findByIdentity :: "string \<Rightarrow> entity option"
  r_has_auth :: "string \<Rightarrow> bool"
  r_allowedExtensions :: "string list"
  r_realm :: string
  r_secret :: string
  r_nonceExpiration :: int
  r_newTag :: string

definition SIP_PROXY_REQUIRE_FIELD :: string where "SIP_PROXY_REQUIRE_FIELD = ''PROXY-REQUIRE''"

definition SIP_UNSUPPORTED_FIELD :: string where "SIP_UNSUPPORTED_FIELD = ''UNSUPPORTED''"

definition SIP_REPLACES_FIELD :: string where "SIP_REPLACES_FIELD = ''REPLACES''"

definition P_PID_HEADER :: string where "P_PID_HEADER = ''P-Preferred-Identity''"

section \<open>Extensions\<close>

definition getProxyRequireExtension :: "http_message \<Rightarrow> nat \<Rightarrow> string option" where
  "getProxyRequireExtension m extensionIndex = getFieldSubfield m SIP_PROXY_REQUIRE_FIELD (int extensionIndex) False"

text \<open>\<open>SipUserAgent::isExtensionAllowed\<close>\<close>

definition isExtensionAllowed :: "router_env \<Rightarrow> string \<Rightarrow> bool" where
  "isExtensionAllowed env extension \<longleftrightarrow> map tolower (c_prefix extension) \<in> set (r_allowedExtensions env)"

text \<open>There are no more extensions than characters in the fields, and one more turn ends the loop.\<close>

fun extension_loop :: "router_env \<Rightarrow> nat \<Rightarrow> http_message \<Rightarrow> nat \<Rightarrow> bool \<Rightarrow> string \<Rightarrow> (bool \<times> string) option" where
  "extension_loop env 0 m extensionIndex supported disallowed = None"
| "extension_loop env (Suc fuel) m extensionIndex supported disallowed =
     (case getProxyRequireExtension m extensionIndex of
        None \<Rightarrow> Some (supported, disallowed)
      | Some extension \<Rightarrow>
          if isExtensionAllowed env extension then extension_loop env fuel m (Suc extensionIndex) supported disallowed
          else extension_loop env fuel m (Suc extensionIndex) False (disallowed @ (if disallowed \<noteq> [] then '', '' else []) @ c_prefix extension))"

definition areAllExtensionsSupported :: "router_env \<Rightarrow> http_message \<Rightarrow> (bool \<times> string) option" where
  "areAllExtensionsSupported env m =
     extension_loop env (Suc (length (concat (header_values m SIP_PROXY_REQUIRE_FIELD)))) m 0 True []"

section \<open>Authentication\<close>

datatype AuthQopValues = AUTH_QOP_EMPTY | AUTH_QOP_HAS_AUTH | AUTH_QOP_NOT_SUPPORTED

definition parseQopValue :: "router_env \<Rightarrow> string \<Rightarrow> AuthQopValues" where
  "parseQopValue env qop =
     (if qop \<noteq> [] then if r_has_auth env qop then AUTH_QOP_HAS_AUTH else AUTH_QOP_NOT_SUPPORTED else AUTH_QOP_EMPTY)"

definition verifyQopConsistency :: "router_env \<Rightarrow> string \<Rightarrow> string \<Rightarrow> string \<Rightarrow> AuthQopValues" where
  "verifyQopConsistency env cnonce nonceCount qop =
     (case parseQopValue env qop of
        AUTH_QOP_HAS_AUTH \<Rightarrow> if c_prefix cnonce = [] \<or> c_prefix nonceCount = [] then AUTH_QOP_NOT_SUPPORTED else AUTH_QOP_HAS_AUTH
      | AUTH_QOP_EMPTY \<Rightarrow> if c_prefix cnonce \<noteq> [] \<or> c_prefix nonceCount \<noteq> [] then AUTH_QOP_NOT_SUPPORTED else AUTH_QOP_EMPTY
      | AUTH_QOP_NOT_SUPPORTED \<Rightarrow> AUTH_QOP_NOT_SUPPORTED)"

text \<open>\<open>SipMessage::verifyMd5Authorization\<close>; \<open>None\<close> for the URI is NULL.\<close>

definition sip_verifyMd5Authorization :: "router_env \<Rightarrow> http_message \<Rightarrow> string \<Rightarrow> string \<Rightarrow> string \<Rightarrow> string \<Rightarrow> string \<Rightarrow> string \<Rightarrow> string
    \<Rightarrow> string option \<Rightarrow> HttpEndpointEnum \<Rightarrow> bool" where
  "sip_verifyMd5Authorization env m userId password nonce realm cnonce nonceCount qop uri authEntity =
     (let uriString = (case uri of Some u \<Rightarrow> u | None \<Rightarrow> if isResponse m then [] else getRequestUri m);
          meth = (if isResponse m then snd (snd (getCSeqField m)) else getRequestMethod m) in
      verifyMd5Authorization (r_garbage env) m userId password (Some nonce) realm (Some cnonce) (Some nonceCount) (Some qop) (Some meth) (Some uriString) authEntity)"

definition getCredential_uri :: "router_env \<Rightarrow> string \<Rightarrow> string \<Rightarrow> (string \<times> string \<times> string) option" where
  "getCredential_uri env uri realm =
     (case r_findByIdentity env (r_identity env uri) of
        None \<Rightarrow> None
      | Some e \<Rightarrow> if ent_realm e \<noteq> realm then None else Some (ent_userId e, ent_password e, ent_authType e))"

definition getCredential_user :: "router_env \<Rightarrow> string \<Rightarrow> string \<Rightarrow> (string \<times> string \<times> string) option" where
  "getCredential_user env userid realm =
     (case r_findByUserId env userid of
        None \<Rightarrow> None
      | Some e \<Rightarrow> if ent_realm e \<noteq> realm then None else Some (c_prefix (ent_identity e), ent_password e, ent_authType e))"

text \<open>One authorization field: the user it authenticates, if any.\<close>

definition check_credential :: "router_env \<Rightarrow> nat \<Rightarrow> http_message \<Rightarrow> string \<Rightarrow> string \<Rightarrow> digest_data \<Rightarrow> string option option" where
  "check_credential env now m callId fromTag d =
     (if str_cmp (r_realm env) (d_realm d) \<noteq> 0 then Some None
      else do {
        valid \<leftarrow> isNonceValid (r_garbage env) (r_secret env) now (d_nonce d) callId fromTag (r_realm env) (r_nonceExpiration env);
        Some (if \<not> valid then None
              else if verifyQopConsistency env (d_cnonce d) (d_nonceCount d) (d_qop d) = AUTH_QOP_NOT_SUPPORTED then None
              else (case getCredential_user env (d_user_base d) (r_realm env) of
                      None \<Rightarrow> None
                    | Some (userUrl, passTokenDB, _) \<Rightarrow>
                        if sip_verifyMd5Authorization env m (c_prefix (d_user d)) (c_prefix passTokenDB) (c_prefix (d_nonce d)) (c_prefix (d_realm d))
                             (c_prefix (d_cnonce d)) (c_prefix (d_nonceCount d)) (c_prefix (d_qop d)) (Some (c_prefix (d_uri d))) PROXY
                        then Some (r_identity env userUrl) else None)) })"

function auth_loop :: "router_env \<Rightarrow> nat \<Rightarrow> http_message \<Rightarrow> string \<Rightarrow> string \<Rightarrow> nat \<Rightarrow> string option option" where
  "auth_loop env now m callId fromTag requestAuthIndex =
     (case getDigestAuthorizationData m PROXY requestAuthIndex of
        None \<Rightarrow> Some None
      | Some d \<Rightarrow> (case check_credential env now m callId fromTag d of
            None \<Rightarrow> None
          | Some (Some user) \<Rightarrow> Some (Some user)
          | Some None \<Rightarrow> auth_loop env now m callId fromTag (Suc requestAuthIndex)))"
  by pat_completeness auto
termination
  by (relation "measure (\<lambda>(env, now, m, c, f, i). length (mNameValues m) - i)")
     (auto simp: getDigestAuthorizationData_def dest!: getHeaderValue_bound)

declare auth_loop.simps [simp del]

text \<open>The result is the authenticated user, if the request is authenticated.\<close>

definition from_tag :: "router_env \<Rightarrow> http_message \<Rightarrow> string" where
  "from_tag env m = url_tag (r_url env (field_value m SIP_FROM_FIELD))"

definition isAuthenticated :: "router_env \<Rightarrow> nat \<Rightarrow> http_message \<Rightarrow> string option option" where
  "isAuthenticated env now sipRequest = auth_loop env now sipRequest (getCallIdField sipRequest) (from_tag env sipRequest) 0"

definition setRequestUnauthorized :: "http_message \<Rightarrow> http_message \<Rightarrow> string \<Rightarrow> string \<Rightarrow> string \<Rightarrow> HttpEndpointEnum \<Rightarrow> string \<Rightarrow> http_message option" where
  "setRequestUnauthorized m request scheme realm nonce authEntity tag = do {
     r \<leftarrow> (if authEntity = SERVER then setResponseData_request m request 401 ''Unauthorized'' None True tag
           else setResponseData_request m request 407 ''Proxy Authentication Required'' None True tag);
     Some (setAuthenticateData r (Some scheme) (Some realm) (Some nonce) None None authEntity) }"

definition authenticationChallenge :: "router_env \<Rightarrow> nat \<Rightarrow> http_message \<Rightarrow> http_message \<Rightarrow> http_message option" where
  "authenticationChallenge env now sipRequest challenge = do {
     newNonce \<leftarrow> createNewNonce (r_garbage env) (r_secret env) now (getCallIdField sipRequest) (from_tag env sipRequest) (r_realm env);
     setRequestUnauthorized challenge sipRequest ''Digest'' (c_prefix (r_realm env)) newNonce PROXY (r_newTag env) }"

definition setRequestBadExtension :: "http_message \<Rightarrow> http_message \<Rightarrow> string \<Rightarrow> string \<Rightarrow> http_message option" where
  "setRequestBadExtension m request disallowedExtension tag = do {
     r \<leftarrow> setResponseData_request m request 420 ''Extension Not Supported'' None True tag;
     Some (addHeaderField r SIP_UNSUPPORTED_FIELD disallowedExtension) }"

section \<open>Headers\<close>

text \<open>The hints for an identity are removed, the last one first.\<close>

definition performPreRoutingChecks :: "http_message \<Rightarrow> http_message" where
  "performPreRoutingChecks m = fold (\<lambda>i m. fst (removeHeader m P_PID_HEADER i)) (rev [0..<getCountHeaderFields m (Some P_PID_HEADER)]) m"

text \<open>\<open>SipXauthIdentity::normalize\<close>: the last header stays.\<close>

definition normalizeIdentity :: "http_message \<Rightarrow> string \<Rightarrow> http_message" where
  "normalizeIdentity m headerName =
     fold (\<lambda>i m. fst (removeHeader m headerName i)) (rev [0..<getCountHeaderFields m (Some headerName) - 1]) m"

section \<open>Authorization\<close>

datatype AuthResult = CONTINUE | DENY | ALLOW

text \<open>
  A plug-in is given the authenticated user, the target, the method, what is known so far, whether the request will come back, and, to change them, the route
  state, the request and the reason for a refusal. It may throw an exception, whose text is on the left. The route state is of type \<open>'rs\<close>.
\<close>

type_synonym 'rs plugin =
  "string \<Rightarrow> string \<Rightarrow> string \<Rightarrow> AuthResult \<Rightarrow> bool \<Rightarrow> 'rs \<times> http_message \<times> string \<Rightarrow> string + (AuthResult \<times> 'rs \<times> http_message \<times> string)"

text \<open>
  What the proxy does through parts that are not modelled here: class \<open>Url\<close> (normal form of the routes, contacts behind a NAT, the Path header, the next hop, the
  Record-Route headers), the signed identities, the forwarding rules, the registration data base, and the route state, the subject of theory \<open>RouteState\<close>.
\<close>

record 'rs router_ops =
  o_normalizeProxyRoutes :: "http_message \<Rightarrow> http_message \<times> string \<times> string list"
  o_routeState :: "http_message \<Rightarrow> string list \<Rightarrow> 'rs"
  o_isFound :: "'rs \<Rightarrow> bool"
  o_isMutable :: "'rs \<Rightarrow> bool"
  o_isDialogAuthorized :: "'rs \<Rightarrow> bool"
  o_recordRouteState :: "'rs \<Rightarrow> http_message \<Rightarrow> http_message"
  o_addNatMappingInfoToContacts :: "http_message \<Rightarrow> http_message"
  o_addPathHeader :: "http_message \<Rightarrow> http_message"
  o_signedIdentity :: "string list \<Rightarrow> http_message \<Rightarrow> string option"
  o_canonicalFrom :: "http_message \<Rightarrow> string"
  o_insertPAssertedIdentity :: "http_message \<Rightarrow> string \<Rightarrow> http_message"
  o_localGruu :: "string \<Rightarrow> (string \<times> string) option option"
  o_getRoute :: "string \<Rightarrow> http_message \<Rightarrow> (string \<times> bool \<times> string) option"
  o_nextHop :: "string \<Rightarrow> bool \<times> string"
  o_addRuriParams :: "http_message \<Rightarrow> string \<Rightarrow> http_message"
  o_recordRoute :: "http_message \<Rightarrow> http_message"
  o_recordRouteTls :: "http_message \<Rightarrow> http_message"
  o_modifyTrustedRequest :: "string \<Rightarrow> bool \<Rightarrow> http_message \<Rightarrow> http_message"
  o_plugins :: "'rs plugin list"
  o_maxForwards :: int
  o_setServerHeader :: "http_message \<Rightarrow> http_message"

definition AuthIdentityHeaderName :: string where "AuthIdentityHeaderName = ''X-sipX-Authidentity''"

definition PAssertedIdentityHeaderName :: string where "PAssertedIdentityHeaderName = ''P-Asserted-Identity''"

definition SIP_SIPX_SPIRAL_HEADER :: string where "SIP_SIPX_SPIRAL_HEADER = ''X-sipX-Spiral''"

text \<open>Every plug-in is called; the first answer other than \<open>CONTINUE\<close> decides. An exception leaves the loop with the request as it is.\<close>

fun plugin_loop :: "'rs plugin list \<Rightarrow> string \<Rightarrow> string \<Rightarrow> string \<Rightarrow> bool \<Rightarrow> AuthResult \<Rightarrow> AuthResult \<Rightarrow> 'rs \<times> http_message \<times> string
    \<Rightarrow> (string \<times> http_message) + (AuthResult \<times> 'rs \<times> http_message \<times> string)" where
  "plugin_loop [] authUser uri meth spiral authStatus authDecision s = Inr (authDecision, s)"
| "plugin_loop (authPlugin # others) authUser uri meth spiral authStatus authDecision s =
     (case authPlugin authUser uri meth authStatus spiral s of
        Inl errorString \<Rightarrow> Inl (errorString, fst (snd s))
      | Inr (pluginResult, s1) \<Rightarrow>
          if authDecision = CONTINUE \<and> pluginResult \<noteq> CONTINUE then plugin_loop others authUser uri meth spiral pluginResult pluginResult s1
          else plugin_loop others authUser uri meth spiral authStatus authDecision s1)"

text \<open>The result: the text of an exception with the request, or the action, the request and the response.\<close>

type_synonym proxied = "(string \<times> http_message) + (bool \<times> http_message \<times> http_message)"

text \<open>Who sent the request, if that is known: the identity that a sipX proxy has signed, of which the last header stays, or else the user of an authorization field.\<close>

definition request_sender :: "router_env \<Rightarrow> 'rs router_ops \<Rightarrow> nat \<Rightarrow> http_message \<Rightarrow> (string option \<times> http_message) option" where
  "request_sender env ops now sipRequest =
     (case o_signedIdentity ops [AuthIdentityHeaderName] sipRequest of
        Some u \<Rightarrow> Some (Some u, normalizeIdentity sipRequest AuthIdentityHeaderName)
      | None \<Rightarrow> do { u \<leftarrow> isAuthenticated env now sipRequest; Some (u, sipRequest) })"

definition user_text :: "string option \<Rightarrow> string" where
  "user_text user = (case user of Some u \<Rightarrow> u | None \<Rightarrow> [])"

text \<open>A dialog that was authorized before, as the route state says that can no longer change.\<close>

definition dialog_status :: "'rs router_ops \<Rightarrow> 'rs \<Rightarrow> AuthResult" where
  "dialog_status ops routeState = (if \<not> o_isMutable ops routeState \<and> o_isDialogAuthorized ops routeState then ALLOW else CONTINUE)"

definition authorizeRequest :: "router_env \<Rightarrow> 'rs router_ops \<Rightarrow> nat \<Rightarrow> string \<Rightarrow> bool \<Rightarrow> bool \<Rightarrow> 'rs \<Rightarrow> http_message \<Rightarrow> http_message \<Rightarrow> proxied option" where
  "authorizeRequest env ops now uri spiral sendResponse routeState sipRequest sipResponse = do {
     (user, request1) \<leftarrow> request_sender env ops now sipRequest;
     let meth = getRequestMethod request1;
     let always = (isResponse request1 \<or> str_cmp meth ''ACK'' = 0);
     (case plugin_loop (o_plugins ops) (user_text user) uri meth spiral
             (if always then ALLOW else dialog_status ops routeState) (if always then ALLOW else CONTINUE) (routeState, request1, []) of
        Inl e \<Rightarrow> Some (Inl e)
      | Inr (authDecision, routeState2, request2, rejectReason) \<Rightarrow>
          if authDecision = DENY then do {
            r \<leftarrow> (if user \<noteq> None then setResponseData_request sipResponse request2 403 (c_prefix rejectReason) None True (r_newTag env)
                  else authenticationChallenge env now request2 sipResponse);
            Some (Inr (True, request2, r)) }
          else Some (Inr (sendResponse, if o_isMutable ops routeState2 then o_recordRouteState ops routeState2 request2 else request2, sipResponse))) }"

section \<open>The way of a request\<close>

text \<open>Whether the sender is to be asked for an identity that the proxy asserts.\<close>

definition isPAIdentityApplicable :: "router_env \<Rightarrow> 'rs router_ops \<Rightarrow> http_message \<Rightarrow> bool" where
  "isPAIdentityApplicable env ops sipRequest \<longleftrightarrow>
     o_signedIdentity ops [AuthIdentityHeaderName, PAssertedIdentityHeaderName] sipRequest = None
     \<and> url_tag (r_url env (field_value sipRequest SIP_TO_FIELD)) = [] \<and> str_casecmp (getRequestMethod sipRequest) SIP_INVITE_METHOD = 0
     \<and> getHeaderValue sipRequest 0 SIP_REPLACES_FIELD = None"

text \<open>The flags are: a response is sent, authorize the request, evaluate the forwarding rules, the request will come back.\<close>

type_synonym flags = "bool \<times> bool \<times> bool \<times> bool"

definition classify :: "router_env \<Rightarrow> 'rs router_ops \<Rightarrow> nat \<Rightarrow> 'rs \<Rightarrow> string \<Rightarrow> http_message \<Rightarrow> http_message
    \<Rightarrow> (flags \<times> string \<times> http_message \<times> http_message) option" where
  "classify env ops now routeState uri sipRequest sipResponse =
     (if getHeaderValue sipRequest 0 SIP_SIPX_SPIRAL_HEADER = None then
        let request1 = o_addNatMappingInfoToContacts ops sipRequest in
        if \<not> o_isFound ops routeState then
          let request2 = o_addPathHeader ops (setHeaderValue request1 SIP_SIPX_SPIRAL_HEADER ''true'' 0);
              fromUrl = o_canonicalFrom ops request2 in
          if isPAIdentityApplicable env ops request2 \<and> getCredential_uri env fromUrl (r_realm env) \<noteq> None then do {
            user \<leftarrow> isAuthenticated env now request2;
            (case user of
               None \<Rightarrow> do { r \<leftarrow> authenticationChallenge env now request2 sipResponse; Some ((True, False, False, False), uri, request2, r) }
             | Some _ \<Rightarrow>
                 (let request3 = (if getHeaderValue request2 0 PAssertedIdentityHeaderName \<noteq> None
                                  then fst (removeHeader request2 PAssertedIdentityHeaderName 0) else request2) in
                  Some ((False, False, True, False), uri, o_insertPAssertedIdentity ops request3 fromUrl, sipResponse))) }
          else Some ((False, False, True, False), uri, request2, sipResponse)
        else if o_isMutable ops routeState then
          Some ((False, True, False, True), uri, setHeaderValue request1 SIP_SIPX_SPIRAL_HEADER ''true'' 0, sipResponse)
        else (case o_localGruu ops uri of
                None \<Rightarrow> Some ((False, True, False, False), uri, request1, sipResponse)
              | Some None \<Rightarrow> Some ((False, True, True, False), uri, request1, sipResponse)
              | Some (Some (contactUri, changedUri)) \<Rightarrow>
                  Some ((False, True, False, False), contactUri, changeRequestUri request1 changedUri, sipResponse))
      else Some ((False, True, True, False), uri, sipRequest, sipResponse))"

definition getRouteUri :: "http_message \<Rightarrow> nat \<Rightarrow> string option" where
  "getRouteUri m index =
     (case getFieldSubfield m SIP_ROUTE_FIELD (int index) False of
        None \<Rightarrow> None
      | Some u \<Rightarrow> (let t = frontBackTrim (\<lambda>c. c = CHR '' '' \<or> c = CHR 0x09) u in if t \<noteq> [] then Some t else None))"

definition evaluateForwardingRules :: "'rs router_ops \<Rightarrow> flags \<Rightarrow> string \<Rightarrow> http_message \<Rightarrow> flags \<times> http_message" where
  "evaluateForwardingRules ops fl uri sipRequest =
     (let (resp, auth, fwd, spiral) = fl in
      if fwd then
        let (request1, auth1, spiral1) =
          (case getRouteUri sipRequest 0 of
             Some _ \<Rightarrow> (sipRequest, True, spiral)
           | None \<Rightarrow>
               (case o_getRoute ops uri sipRequest of
                  None \<Rightarrow> (sipRequest, True, spiral)
                | Some (mappedTo, authRequired, ruriParams) \<Rightarrow>
                    let (toRegistrar, routeString) = o_nextHop ops mappedTo;
                        (request2, spiral2) = (if mappedTo \<noteq> [] then (addRouteUri sipRequest routeString, spiral \<or> toRegistrar) else (sipRequest, spiral)) in
                    (if ruriParams \<noteq> [] then o_addRuriParams ops request2 ruriParams else request2, auth \<or> authRequired, spiral2)))
        in ((resp, auth1, fwd, spiral1), if \<not> spiral1 then fst (removeHeader request1 SIP_SIPX_SPIRAL_HEADER 0) else request1)
      else (fl, sipRequest))"

text \<open>Up to the authorization: the route state, the flags, the target, the request and the response.\<close>

definition prepareRequest :: "router_env \<Rightarrow> 'rs router_ops \<Rightarrow> nat \<Rightarrow> http_message \<Rightarrow> http_message
    \<Rightarrow> ('rs \<times> flags \<times> string \<times> http_message \<times> http_message) option" where
  "prepareRequest env ops now sipRequest sipResponse = do {
     let (request0, uri0, removedRoutes) = o_normalizeProxyRoutes ops sipRequest;
     let routeState = o_routeState ops request0 removedRoutes;
     (fl, uri, request1, response1) \<leftarrow> classify env ops now routeState uri0 request0 sipResponse;
     let (fl1, request2) = evaluateForwardingRules ops fl uri request1;
     Some (routeState, fl1, uri, request2, response1) }"

text \<open>What happens inside the \<open>try\<close>; the last value tells whether the request will come back.\<close>

definition proxyBody :: "router_env \<Rightarrow> 'rs router_ops \<Rightarrow> nat \<Rightarrow> http_message \<Rightarrow> http_message \<Rightarrow> (proxied \<times> bool) option" where
  "proxyBody env ops now sipRequest sipResponse = do {
     (supported, disallowedExtensions) \<leftarrow> areAllExtensionsSupported env sipRequest;
     if supported then do {
       (routeState, (resp, auth, fwd, spiral), uri, request2, response1) \<leftarrow> prepareRequest env ops now sipRequest sipResponse;
       if auth then do {
         r \<leftarrow> authorizeRequest env ops now uri spiral resp routeState request2 response1;
         Some (case r of Inl e \<Rightarrow> Inl e
           | Inr (resp', request3, response2) \<Rightarrow> Inr (resp', if \<not> spiral then o_recordRouteTls ops request3 else request3, response2), spiral) }
       else Some (Inr (resp, o_modifyTrustedRequest ops uri spiral (o_recordRoute ops request2), response1), spiral) }
     else do {
       r \<leftarrow> setRequestBadExtension sipResponse sipRequest (c_prefix disallowedExtensions) (r_newTag env);
       Some (Inr (True, sipRequest, r), False) } }"

datatype ProxyAction = SendRequest | SendResponse | DoNothing

text \<open>Decrementing the smallest int is undefined.\<close>

definition proxyMessage :: "router_env \<Rightarrow> 'rs router_ops \<Rightarrow> nat \<Rightarrow> http_message \<Rightarrow> http_message \<Rightarrow> (ProxyAction \<times> http_message \<times> http_message) option" where
  "proxyMessage env ops now sipRequest sipResponse = do {
     (body, spiral) \<leftarrow> proxyBody env ops now sipRequest sipResponse;
     (resp, request1, response1) \<leftarrow>
       (case body of
          Inr r \<Rightarrow> Some r
        | Inl (errorString, request) \<Rightarrow> do {
            r \<leftarrow> setResponseData_request sipResponse request 503 (c_prefix errorString) None True (r_newTag env);
            Some (True, request, r) });
     if resp then Some (SendResponse, request1, o_setServerHeader ops response1)
     else do {
       old \<leftarrow> getMaxForwards request1;
       let maxForwards = (case old of Some n \<Rightarrow> n - 1 | None \<Rightarrow> o_maxForwards ops);
       if int_ok maxForwards then
         let request2 = setMaxForwards request1 maxForwards in
         Some (SendRequest, if \<not> spiral then performPreRoutingChecks request2 else request2, response1)
       else None } }"

text \<open>The messages that are given to the user agent.\<close>

definition handleRequest :: "router_env \<Rightarrow> 'rs router_ops \<Rightarrow> nat \<Rightarrow> http_message \<Rightarrow> http_message list option" where
  "handleRequest env ops now sipRequest = do {
     (action, request, response) \<leftarrow> proxyMessage env ops now sipRequest blank_message;
     Some (case action of SendRequest \<Rightarrow> [request] | SendResponse \<Rightarrow> [response] | DoNothing \<Rightarrow> []) }"

section \<open>Lemmas\<close>

subsection \<open>Authentication\<close>

lemma auth_loop_user:
  "auth_loop env now m callId tag i = Some (Some u) \<Longrightarrow> \<exists>k d. getDigestAuthorizationData m PROXY k = Some d \<and> check_credential env now m callId tag d = Some (Some u)"
proof (induction env now m callId tag i rule: auth_loop.induct)
  case (1 env now m callId tag i)
  show ?case
  proof (cases "getDigestAuthorizationData m PROXY i")
    case None
    then show ?thesis using "1.prems" by (simp add: auth_loop.simps)
  next
    case (Some d)
    show ?thesis
    proof (cases "check_credential env now m callId tag d")
      case None
      then show ?thesis using "1.prems" Some by (simp add: auth_loop.simps)
    next
      case (Some r)
      then show ?thesis using "1.prems" "1.IH" \<open>getDigestAuthorizationData m PROXY i = Some d\<close>
        by (cases r) (auto simp: auth_loop.simps [of env now m callId tag i])
    qed
  qed
qed

lemma auth_loop_first:
  "getDigestAuthorizationData m PROXY i = Some d \<Longrightarrow> check_credential env now m callId tag d = Some (Some u) \<Longrightarrow> auth_loop env now m callId tag i = Some (Some u)"
  by (simp add: auth_loop.simps)

text \<open>What the proxy's digest is over: the quality of protection is always put in, even if it is empty.\<close>

definition reference_digest :: "router_env \<Rightarrow> http_message \<Rightarrow> digest_data \<Rightarrow> string \<Rightarrow> string" where
  "reference_digest env m d password =
     buildMd5Digest (r_garbage env) (buildMd5UserPasswordDigest (r_garbage env) (Some (c_prefix (d_user d))) (Some (c_prefix (d_realm d))) (Some (c_prefix password)))
       None (Some (c_prefix (d_nonce d))) (Some (c_prefix (d_cnonce d))) (Some (c_prefix (d_nonceCount d))) (Some (c_prefix (d_qop d)))
       (Some (or_else (Some (if isResponse m then snd (snd (getCSeqField m)) else getRequestMethod m)) (getRequestMethod m)))
       (Some (or_else (Some (c_prefix (d_uri d))) (getRequestUri m)))"

lemma sip_verify_exact:
  "sip_verifyMd5Authorization env m (c_prefix (d_user d)) (c_prefix password) (c_prefix (d_nonce d)) (c_prefix (d_realm d))
      (c_prefix (d_cnonce d)) (c_prefix (d_nonceCount d)) (c_prefix (d_qop d)) (Some (c_prefix (d_uri d))) PROXY \<longleftrightarrow>
    (\<exists>line \<in> set (field_lines m (authorization_name PROXY)). c_prefix (d_response (digest_of line)) = c_prefix (reference_digest env m d password))"
  using verify_loop_lines [OF le0, of m PROXY]
  by (simp add: sip_verifyMd5Authorization_def reference_digest_def verifyMd5Authorization_def buildMd5UserPasswordDigest_def ptr_text_def Let_def)

definition env_ok :: "router_env \<Rightarrow> bool" where
  "env_ok env \<longleftrightarrow> length (r_garbage env) = 64 \<and> short (r_realm env) \<and> short (r_secret env) \<and> quotable (r_realm env)
     \<and> 0 \<le> r_nonceExpiration env \<and> r_nonceExpiration env < 2 ^ 63"

lemma check_credential_user:
  assumes "env_ok env" and "short callId" and "short tag"
  shows "check_credential env now m callId tag d = Some (Some u) \<longleftrightarrow>
     c_prefix (d_realm d) = c_prefix (r_realm env)
     \<and> (\<exists>ts. length ts = 8 \<and> d_nonce d = nonce_sig (r_secret env) callId tag (r_realm env) ts @ ts
          \<and> int now \<le> (strtol16 (c_prefix ts) + r_nonceExpiration env) mod 2 ^ 64)
     \<and> verifyQopConsistency env (d_cnonce d) (d_nonceCount d) (d_qop d) \<noteq> AUTH_QOP_NOT_SUPPORTED
     \<and> (\<exists>e. r_findByUserId env (d_user_base d) = Some e \<and> ent_realm e = r_realm env \<and> u = r_identity env (c_prefix (ent_identity e))
          \<and> (\<exists>line \<in> set (field_lines m (authorization_name PROXY)).
               c_prefix (d_response (digest_of line)) = c_prefix (reference_digest env m d (ent_password e))))"
proof -
  have "isNonceValid (r_garbage env) (r_secret env) now (d_nonce d) callId tag (r_realm env) (r_nonceExpiration env) = Some
      (\<exists>ts. length ts = 8 \<and> d_nonce d = nonce_sig (r_secret env) callId tag (r_realm env) ts @ ts
          \<and> int now \<le> (strtol16 (c_prefix ts) + r_nonceExpiration env) mod 2 ^ 64)"
    using isNonceValid_iff [of "r_garbage env" callId tag "r_realm env" "r_secret env"] assms by (simp add: env_ok_def)
  then show ?thesis
    by (auto simp: check_credential_def getCredential_user_def sip_verify_exact str_cmp_0 split: option.splits if_splits)
qed

text \<open>A field with the answer to a challenge leaves everything else of the message as it is.\<close>

lemma addHeaderField_others:
  "mFirstHeaderLine (addHeaderField m n v) = mFirstHeaderLine m"
  "header_key n \<noteq> header_key name \<Longrightarrow> field_value (addHeaderField m n v) name = field_value m name"
  unfolding field_value_hd header_values_add by (simp add: addHeaderField_def, simp)

lemma first_line_readers:
  assumes "mFirstHeaderLine m = mFirstHeaderLine m'"
  shows "isResponse m = isResponse m'" "getRequestMethod m = getRequestMethod m'" "getRequestUri m = getRequestUri m'"
  using assms by (simp_all add: isResponse_def getRequestMethod_def getRequestUri_def line_part_def getFirstHeaderLinePart_def)

lemma authorization_keys: "header_key (authorization_name PROXY) \<notin> header_key ` {SIP_FROM_FIELD, SIP_CALLID_FIELD, SIP_CSEQ_FIELD}"
  by code_simp

text \<open>The challenge as its receiver reads it.\<close>

definition challenge_parts :: "string \<Rightarrow> string \<Rightarrow> part list" where
  "challenge_parts realm nonce = [('' '', ''realm'', True, realm), ('', '', ''nonce'', True, nonce), ('', '', ''qop'', True, ''auth'')]"

lemma challenge_parsed:
  assumes "quotable realm" and "quotable nonce"
  shows "parseAuthenticateData (cannonizeToken ''Digest'' @ concat (map part_text (challenge_parts realm nonce)))
           = (True, cannonizeToken (cannonizeToken ''Digest''), \<lparr>c_realm = realm, c_nonce = nonce, c_opaque = [], c_algorithm = [], c_qop = ''auth'', c_domain = []\<rparr>)"
    and "nul_free (cannonizeToken ''Digest'' @ concat (map part_text (challenge_parts realm nonce)))"
proof -
  let ?D = "cannonizeToken ''Digest''" and ?ps = "challenge_parts realm nonce"
  have tok: "attr_token ?D" "?D \<noteq> []" "nul_free ?D" by code_simp+
  have names: "attr_token ''realm''" "attr_token ''nonce''" "attr_token ''qop''" "list_all attr_sep '', ''" "list_all attr_sep '' ''" "quotable ''auth''" by code_simp+
  have ok: "list_all part_ok ?ps" using names assms by (simp add: challenge_parts_def)
  show nul: "nul_free (?D @ concat (map part_text ?ps))" using tok(3) parts_nul_free [OF ok] by (auto simp: nul_free_def)
  then have c: "c_prefix (?D @ concat (map part_text ?ps)) = ?D @ concat (map part_text ?ps)" by (rule c_prefix_nul_free)
  have cmp: "str_casecmp ''realm'' ''realm'' = 0" "str_casecmp ''nonce'' ''realm'' \<noteq> 0" "str_casecmp ''nonce'' ''nonce'' = 0" "str_casecmp ''qop'' ''realm'' \<noteq> 0"
    "str_casecmp ''qop'' ''nonce'' \<noteq> 0" "str_casecmp ''qop'' ''opaque'' \<noteq> 0" "str_casecmp ''qop'' ''algorithm'' \<noteq> 0" "str_casecmp ''qop'' ''qop'' = 0" by code_simp+
  have "fold challenge_attr (map part_pair ?ps) (blank_challenge, False, False) =
      (\<lparr>c_realm = realm, c_nonce = nonce, c_opaque = [], c_algorithm = [], c_qop = ''auth'', c_domain = []\<rparr>, True, True)"
    by (simp add: challenge_parts_def challenge_attr_def blank_challenge_def cmp)
  then show "parseAuthenticateData (?D @ concat (map part_text ?ps)) =
      (True, cannonizeToken ?D, \<lparr>c_realm = realm, c_nonce = nonce, c_opaque = [], c_algorithm = [], c_qop = ''auth'', c_domain = []\<rparr>)"
    unfolding parseAuthenticateData_def c getNextAttribute_scheme [OF tok(1,2) ok] Let_def prod.case attributes_skip attributes_parts [OF ok] by simp
qed

lemma challenge_text:
  assumes "nonce \<noteq> []"
  shows "setAuthenticateData r (Some ''Digest'') (Some realm) (Some nonce) None None PROXY =
           addHeaderField r (authenticate_name PROXY) (cannonizeToken ''Digest'' @ concat (map part_text (challenge_parts realm nonce)))"
proof -
  have d: "str_casecmp ''Digest'' ''Digest'' = 0" by code_simp
  show ?thesis using assms by (simp add: setAuthenticateData_def addAuthenticateField_def challenge_parts_def part_if_def d)
qed

lemma nonce_quotable:
  assumes "list_all hex_char ts"
  shows "quotable (nonce_sig secret callId tag realm ts @ ts)"
proof -
  let ?A = "set ''0123456789abcdefABCDEF''"
  have A: "\<forall>c \<in> ?A. c \<noteq> NUL \<and> \<not> attr_quote c \<and> c \<noteq> CHR 0x5C" and sub: "set ''0123456789abcdef'' \<subseteq> ?A" by code_simp+
  have "set (nonce_sig secret callId tag realm ts) \<subseteq> ?A" using nonce_sig_shape(3) sub by (rule subset_trans)
  moreover have "set ts \<subseteq> ?A" using assms by (auto simp only: list_all_iff hex_char_def)
  ultimately have "set (nonce_sig secret callId tag realm ts @ ts) \<subseteq> ?A" by (simp only: set_append Un_subset_iff)
  then have "c \<noteq> NUL \<and> \<not> attr_quote c \<and> c \<noteq> CHR 0x5C" if "c \<in> set (nonce_sig secret callId tag realm ts @ ts)" for c
    by (rule bspec [OF A subsetD, OF _ that])
  then show ?thesis unfolding quotable_def nul_free_def list_all_iff by metis
qed

lemma challenge_read:
  assumes "env_ok env" and "short (getCallIdField m)" and "short (from_tag env m)" and "t0 < 2 ^ 32" and "authenticationChallenge env t0 m r = Some challenge"
  obtains k nonce where
    "getAuthenticateData challenge PROXY k = Some (True, cannonizeToken (cannonizeToken ''Digest''),
       \<lparr>c_realm = r_realm env, c_nonce = nonce, c_opaque = [], c_algorithm = [], c_qop = ''auth'', c_domain = []\<rparr>)"
    "quotable nonce" "nonce \<noteq> []"
    "nonce = nonce_sig (r_secret env) (getCallIdField m) (from_tag env m) (r_realm env) (hex8 t0) @ hex8 t0"
proof -
  let ?n = "nonce_sig (r_secret env) (getCallIdField m) (from_tag env m) (r_realm env) (hex8 t0) @ hex8 t0"
  note h = hex8_digits [OF assms(4)]
  have e: "length (r_garbage env) = 64" "short (r_realm env)" "short (r_secret env)" "quotable (r_realm env)" using assms(1) by (simp_all add: env_ok_def)
  have nonce: "createNewNonce (r_garbage env) (r_secret env) t0 (getCallIdField m) (from_tag env m) (r_realm env) = Some ?n"
    using nonceSignature_ok [OF e(1) h(1) assms(2,3) e(2,3)] assms(4) by (simp add: createNewNonce_def Let_def)
  have q: "quotable ?n" "?n \<noteq> []" using nonce_quotable [OF h(2)] h(1) by auto
  have realm: "c_prefix (r_realm env) = r_realm env" using e(4) by (simp add: quotable_def)
  obtain r' where "challenge = setAuthenticateData r' (Some ''Digest'') (Some (r_realm env)) (Some ?n) None None PROXY"
    using assms(5) nonce by (auto simp: authenticationChallenge_def setRequestUnauthorized_def realm split: bind_splits if_splits)
  then have ch: "challenge = addHeaderField r' (authenticate_name PROXY) (cannonizeToken ''Digest'' @ concat (map part_text (challenge_parts (r_realm env) ?n)))"
    using challenge_text [OF q(2)] by simp
  note p = challenge_parsed [OF e(4) q(1)]
  have "cannonizeToken ''Digest'' \<noteq> []" by code_simp
  then have "getHeaderValue challenge (length (header_values r' (authenticate_name PROXY))) (authenticate_name PROXY) =
      Some (cannonizeToken ''Digest'' @ concat (map part_text (challenge_parts (r_realm env) ?n)))"
    unfolding ch getHeaderValue_values header_values_add c_prefix_nul_free [OF p(2)] by simp
  then show thesis
    using that [of "length (header_values r' (authenticate_name PROXY))" ?n] q p(1) by (simp add: getAuthenticateData_def)
qed

lemma quotable_c_prefix [simp]: "quotable s \<Longrightarrow> c_prefix s = s"
  by (simp add: quotable_def)

lemma attr_token_c_prefix [simp]: "attr_token s \<Longrightarrow> c_prefix s = s"
  by (simp add: attr_token_def)

lemma first_credential:
  assumes "getDigestAuthorizationData m e 0 = Some d"
  shows "\<exists>line \<in> set (field_lines m (authorization_name e)). digest_of line = d"
proof -
  let ?ls = "field_lines m (authorization_name e)"
  have "?ls \<noteq> []" "digest_of (?ls ! 0) = d" using assms line_at [of 0 m "authorization_name e"] by (auto simp: getDigestAuthorizationData_def split: if_splits)
  then show ?thesis by (intro bexI [of _ "?ls ! 0"]) simp_all
qed

text \<open>An answer, made with the password for a nonce of the proxy.\<close>

definition answer_digest :: "router_env \<Rightarrow> http_message \<Rightarrow> string \<Rightarrow> string \<Rightarrow> string \<Rightarrow> string \<Rightarrow> string \<Rightarrow> string \<Rightarrow> string \<Rightarrow> string" where
  "answer_digest env m user realm password nonce cnonce nc uri =
     buildMd5Digest (r_garbage env) (buildMd5UserPasswordDigest (r_garbage env) (Some user) (Some realm) (Some password)) None (Some nonce) (Some cnonce) (Some nc)
       (Some ''auth'') (Some (getRequestMethod m)) (Some uri)"

definition answered_request :: "router_env \<Rightarrow> http_message \<Rightarrow> string \<Rightarrow> string \<Rightarrow> string \<Rightarrow> string \<Rightarrow> string \<Rightarrow> string \<Rightarrow> string \<Rightarrow> http_message" where
  "answered_request env m user realm password nonce cnonce nc uri =
     setDigestAuthorizationData m (Some user) (Some realm) (Some nonce) (Some uri) (Some (answer_digest env m user realm password nonce cnonce nc uri)) None
       (Some cnonce) None (Some ''auth'') (Some nc) PROXY"

lemma answered_request_read:
  assumes m: "\<not> isResponse m" "getRequestMethod m \<noteq> []" "header_values m (authorization_name PROXY) = []" and pw: "nul_free password" and realm: "quotable realm"
    and texts: "quotable user" "quotable uri" "uri \<noteq> []" "quotable cnonce" "cnonce \<noteq> []" "attr_token nc" "nc \<noteq> []" "quotable nonce"
    and m': "m' = answered_request env m user realm password nonce cnonce nc uri"
    and d: "d = digest_result (Some user) (Some realm) (Some nonce) (Some uri) (Some (answer_digest env m user realm password nonce cnonce nc uri)) (Some cnonce) None
             (Some ''auth'') (Some nc)"
  shows "getDigestAuthorizationData m' PROXY k = (if k = 0 then Some d else None)" "from_tag env m' = from_tag env m" "getCallIdField m' = getCallIdField m"
    and "\<exists>line \<in> set (field_lines m' (authorization_name PROXY)). c_prefix (d_response (digest_of line)) = c_prefix (reference_digest env m' d password)"
proof -
  let ?r = "answer_digest env m user realm password nonce cnonce nc uri"
  have r: "quotable ?r" unfolding answer_digest_def buildMd5Digest_def Let_def by (rule md5_quotable)
  have auth: "c_prefix ''auth'' = ''auth''" by code_simp
  have "attr_token ''auth''" "quotable []" "attr_token []" by code_simp+
  then have "digest_ok (Some user) (Some realm) (Some nonce) (Some uri) (Some ?r) None (Some cnonce) None (Some ''auth'') (Some nc)"
    using texts r realm by (simp add: digest_ok_def ptr_text_def)
  from digest_read_back [OF this, of m PROXY] have d0: "getDigestAuthorizationData m' PROXY 0 = Some d" by (simp add: answered_request_def m(3) m' d)
  obtain v where am: "m' = addHeaderField m (authorization_name PROXY) v" using digest_text unfolding answered_request_def m' by blast
  then have "getDigestAuthorizationData m' PROXY k = None" if "k \<noteq> 0" using that m(3) by (simp add: getDigestAuthorizationData_def getHeaderValue_values)
  with d0 show "getDigestAuthorizationData m' PROXY k = (if k = 0 then Some d else None)" by simp
  have same: "isResponse m' = isResponse m" "getRequestMethod m' = getRequestMethod m"
    using first_line_readers [OF addHeaderField_others(1), of m "authorization_name PROXY" v] by (simp_all add: am)
  show "from_tag env m' = from_tag env m" "getCallIdField m' = getCallIdField m"
    using authorization_keys by (auto simp: am from_tag_def getCallIdField_def addHeaderField_others(2))
  have resp: "d_response d = ?r" by (simp add: d digest_result_def ptr_text_def)
  have ref: "reference_digest env m' d password = ?r"
    using texts realm pw m(1,2) by (simp add: reference_digest_def answer_digest_def digest_result_def d ptr_text_def or_else_def same auth del: c_prefix_simps)
  show "\<exists>line \<in> set (field_lines m' (authorization_name PROXY)). c_prefix (d_response (digest_of line)) = c_prefix (reference_digest env m' d password)"
    unfolding ref using first_credential [OF d0] resp by metis
qed

lemma auth_loop_only:
  assumes "\<And>k. getDigestAuthorizationData m PROXY k = (if k = 0 then Some d else None)"
  shows "auth_loop env now m callId tag 0 = Some (Some u) \<longleftrightarrow> check_credential env now m callId tag d = Some (Some u)"
  by (auto simp: auth_loop.simps [of env now m callId tag 0] auth_loop.simps [of env now m callId tag "Suc 0"] assms split: option.splits)

lemma nonce_time:
  assumes "t0 < 2 ^ 32" and "0 \<le> expiration" and "expiration < 2 ^ 63"
  shows "(\<exists>ts. length ts = 8 \<and> nonce_sig secret callId tag realm (hex8 t0) @ hex8 t0 = nonce_sig secret callId tag realm ts @ ts
            \<and> int now \<le> (strtol16 (c_prefix ts) + expiration) mod 2 ^ 64) \<longleftrightarrow> int now \<le> int t0 + expiration"
proof -
  have m: "(int t0 + expiration) mod 2 ^ 64 = int t0 + expiration" using assms by simp
  have "ts = hex8 t0" if "length ts = 8" "nonce_sig secret callId tag realm (hex8 t0) @ hex8 t0 = nonce_sig secret callId tag realm ts @ ts" for ts
    using that nonce_sig_shape(1) by (metis append_eq_append_conv)
  then show ?thesis using hex8_digits(1) [OF assms(1)] hex8_read [OF assms(1)] m by metis
qed

lemma answered_request_authenticated:
  assumes env: "env_ok env" "r_has_auth env ''auth''"
    and m: "short (getCallIdField m)" "short (from_tag env m)" "\<not> isResponse m" "getRequestMethod m \<noteq> []" "header_values m (authorization_name PROXY) = []"
    and e: "r_findByUserId env (fst (split_user user)) = Some e" "ent_realm e = r_realm env" "nul_free (ent_password e)"
    and texts: "quotable user" "quotable uri" "uri \<noteq> []" "quotable cnonce" "cnonce \<noteq> []" "attr_token nc" "nc \<noteq> []" "quotable nonce"
    and nonce: "nonce = nonce_sig (r_secret env) (getCallIdField m) (from_tag env m) (r_realm env) (hex8 t0) @ hex8 t0" "t0 < 2 ^ 32"
  shows "isAuthenticated env now (answered_request env m user (r_realm env) (ent_password e) nonce cnonce nc uri) = Some (Some u) \<longleftrightarrow>
           int now \<le> int t0 + r_nonceExpiration env \<and> u = r_identity env (c_prefix (ent_identity e))"
proof -
  let ?m = "answered_request env m user (r_realm env) (ent_password e) nonce cnonce nc uri"
  define d where "d = digest_result (Some user) (Some (r_realm env)) (Some nonce) (Some uri)
    (Some (answer_digest env m user (r_realm env) (ent_password e) nonce cnonce nc uri)) (Some cnonce) None (Some ''auth'') (Some nc)"
  have realm: "quotable (r_realm env)" "0 \<le> r_nonceExpiration env" "r_nonceExpiration env < 2 ^ 63" using env(1) by (simp_all add: env_ok_def)
  note read = answered_request_read [OF m(3-5) e(3) realm(1) texts refl d_def]
  have fields: "d_realm d = r_realm env" "d_nonce d = nonce" "d_user_base d = fst (split_user user)" by (simp_all add: d_def digest_result_def ptr_text_def)
  have qop: "verifyQopConsistency env (d_cnonce d) (d_nonceCount d) (d_qop d) \<noteq> AUTH_QOP_NOT_SUPPORTED"
    using texts env(2) by (simp add: verifyQopConsistency_def parseQopValue_def d_def digest_result_def ptr_text_def)
  have time: "(\<exists>ts. length ts = 8 \<and> nonce = nonce_sig (r_secret env) (getCallIdField m) (from_tag env m) (r_realm env) ts @ ts
      \<and> int now \<le> (strtol16 (c_prefix ts) + r_nonceExpiration env) mod 2 ^ 64) \<longleftrightarrow> int now \<le> int t0 + r_nonceExpiration env"
    unfolding nonce(1) by (rule nonce_time [OF nonce(2) realm(2,3)])
  show ?thesis
    unfolding isAuthenticated_def read(2,3) auth_loop_only [OF read(1)] check_credential_user [OF env(1) m(1,2)] fields time
    using qop e(1,2) read(4) by auto
qed

subsection \<open>Extensions and headers\<close>

definition disallowed_text :: "router_env \<Rightarrow> string list \<Rightarrow> string \<Rightarrow> string" where
  "disallowed_text env es t = fold (\<lambda>x t. t @ (if t \<noteq> [] then '', '' else []) @ c_prefix x) (filter (\<lambda>x. \<not> isExtensionAllowed env x) es) t"

lemma extension_loop_entries:
  assumes "list_all (plain False) (field_lines m SIP_PROXY_REQUIRE_FIELD)" and "int (length (field_entries m SIP_PROXY_REQUIRE_FIELD)) < BOTTOM_SUBFIELD"
    and "length (field_entries m SIP_PROXY_REQUIRE_FIELD) - i < fuel" and "i \<le> length (field_entries m SIP_PROXY_REQUIRE_FIELD)"
  shows "extension_loop env fuel m i supported t =
           (let es = drop i (field_entries m SIP_PROXY_REQUIRE_FIELD) in Some (supported \<and> list_all (isExtensionAllowed env) es, disallowed_text env es t))"
  using assms(3,4)
proof (induction fuel arbitrary: i supported t)
  case (Suc fuel)
  let ?es = "field_entries m SIP_PROXY_REQUIRE_FIELD"
  have e: "getProxyRequireExtension m i = (if i < length ?es then Some (?es ! i) else None)"
    unfolding getProxyRequireExtension_def using getFieldSubfield_plain [OF assms(1), of i] assms(2) Suc.prems(2) by simp
  show ?case
  proof (cases "i < length ?es")
    case True
    then have d: "drop i ?es = ?es ! i # drop (Suc i) ?es" by (rule Cons_nth_drop_Suc [symmetric])
    show ?thesis using e True Suc.IH [of "Suc i"] Suc.prems by (simp add: d Let_def disallowed_text_def)
  next
    case False
    then show ?thesis using e by (simp add: disallowed_text_def)
  qed
qed simp

lemma areAllExtensionsSupported_entries:
  assumes "list_all (plain False) (field_lines m SIP_PROXY_REQUIRE_FIELD)" and "int (length (field_entries m SIP_PROXY_REQUIRE_FIELD)) < BOTTOM_SUBFIELD"
  shows "areAllExtensionsSupported env m = Some (list_all (isExtensionAllowed env) (field_entries m SIP_PROXY_REQUIRE_FIELD),
           disallowed_text env (field_entries m SIP_PROXY_REQUIRE_FIELD) [])"
  using extension_loop_entries [OF assms, of 0] field_entries_length [of m SIP_PROXY_REQUIRE_FIELD] by (simp add: areAllExtensionsSupported_def Let_def del: extension_loop.simps)

lemma remove_headers:
  "k \<le> length (header_values m n) \<Longrightarrow>
     header_values (fold (\<lambda>i m. fst (removeHeader m n i)) (rev [0..<k]) m) name =
       (if header_key n = header_key name then drop k (header_values m name) else header_values m name)"
proof (induction k arbitrary: m)
  case (Suc k)
  have len: "header_key n = header_key name \<Longrightarrow> length (header_values m name) = length (header_values m n)"
    using header_is_cong [of n name] by (simp add: header_values_def)
  have "k \<le> length (header_values (fst (removeHeader m n k)) n)" using Suc.prems by (simp add: header_values_remove)
  from Suc.IH [OF this] have *: "header_values (fold (\<lambda>i m. fst (removeHeader m n i)) (rev [0..<Suc k]) m) name =
      (if header_key n = header_key name then drop k (header_values (fst (removeHeader m n k)) name) else header_values (fst (removeHeader m n k)) name)"
    by simp
  have "drop k (take k vs @ drop (Suc k) vs) = drop (Suc k) vs" if "k < length vs" for vs :: "string list" using that by simp
  then show ?case unfolding * header_values_remove using Suc.prems len by (cases "header_key n = header_key name") simp_all
qed simp

lemma count_headers: "getCountHeaderFields m (Some n) = length (header_values m n)"
  by (simp add: getCountHeaderFields_def header_values_def)



lemma performPreRoutingChecks_values:
  "header_values (performPreRoutingChecks m) name = (if header_key P_PID_HEADER = header_key name then [] else header_values m name)"
proof -
  have "header_key P_PID_HEADER = header_key name \<Longrightarrow> header_values m name = header_values m P_PID_HEADER"
    using header_is_cong [of P_PID_HEADER name] by (simp add: header_values_def)
  then show ?thesis using remove_headers [of "length (header_values m P_PID_HEADER)" m P_PID_HEADER name]
    by (simp add: performPreRoutingChecks_def count_headers)
qed

subsection \<open>Authorization\<close>
















lemma proxyMessage_sent:
  assumes "proxyMessage env ops now m r = Some (SendRequest, m', r')"
  obtains m1 spiral where "proxyBody env ops now m r = Some (Inr (False, m1, r'), spiral)"
    "\<exists>old n. getMaxForwards m1 = Some old \<and> n = (case old of Some n \<Rightarrow> n - 1 | None \<Rightarrow> o_maxForwards ops) \<and> int_ok n
       \<and> m' = (if spiral then setMaxForwards m1 n else performPreRoutingChecks (setMaxForwards m1 n))"
  using assms by (auto simp: proxyMessage_def Let_def split: bind_splits sum.splits prod.splits if_splits)

lemma proxyBody_sent:
  assumes "proxyBody env ops now m r = Some (Inr (False, m1, r'), spiral)"
  obtains rs auth fwd uri m2 r2 where "areAllExtensionsSupported env m \<in> Some ` ({True} \<times> UNIV)"
    "prepareRequest env ops now m r = Some (rs, (False, auth, fwd, spiral), uri, m2, r2)"
    "auth \<Longrightarrow> \<exists>m3. authorizeRequest env ops now uri spiral False rs m2 r2 = Some (Inr (False, m3, r'))"
proof -
  obtain supported t where s: "areAllExtensionsSupported env m = Some (supported, t)" using assms by (auto simp: proxyBody_def split: bind_splits)
  then have sup: "supported" using assms by (auto simp: proxyBody_def split: bind_splits if_splits)
  obtain rs resp auth fwd sp uri m2 r2 where p: "prepareRequest env ops now m r = Some (rs, (resp, auth, fwd, sp), uri, m2, r2)"
    using assms s sup by (auto simp: proxyBody_def split: bind_splits)
  have sp: "sp = spiral" using assms s sup p by (auto simp: proxyBody_def split: bind_splits if_splits)
  have a: "\<exists>m3. authorizeRequest env ops now uri spiral resp rs m2 r2 = Some (Inr (False, m3, r'))" if auth
    using assms s sup p that sp by (auto simp: proxyBody_def split: bind_splits sum.splits)
  have "\<not> resp"
  proof (cases auth)
    case auth: True
    then show ?thesis using a [OF auth] by (auto simp: authorizeRequest_def Let_def split: option.splits sum.splits bind_splits if_splits prod.splits)
  next
    case False
    then show ?thesis using assms s sup p by (auto simp: proxyBody_def)
  qed
  then show thesis using that [of rs auth fwd uri m2 r2] s sup p a sp by force
qed

text \<open>A proxy with one user, and a request.\<close>

definition example_env :: router_env where
  "example_env = \<lparr>r_garbage = replicate 64 0,
     r_url = (\<lambda>s. \<lparr>url_tag = if s = ''<sip:bob@example.com>;tag=t1'' then ''t1'' else [], url_user = ''bob'', url_host = ''example.com'', url_port = -1, url_transport = []\<rparr>),
     r_identity = (\<lambda>s. s),
     r_findByUserId = (\<lambda>u. if u = ''bob'' then Some \<lparr>ent_userId = ''bob'', ent_identity = ''bob@example.com'', ent_realm = ''example.com'', ent_password = ''pass'', ent_authType = ''DIGEST''\<rparr>
        else None),
     r_findByIdentity = (\<lambda>_. None), r_has_auth = (\<lambda>q. q = ''auth''), r_allowedExtensions = [''path''], r_realm = ''example.com'', r_secret = ''s3'',
     r_nonceExpiration = 300, r_newTag = ''tt''\<rparr>"

definition example_request :: http_message where
  "example_request = \<lparr>mFirstHeaderLine = ''OPTIONS sip:alice@example.com SIP/2.0'',
     mNameValues = [NameValuePair ''VIA'' ''SIP/2.0/TCP 10.0.0.1'', NameValuePair ''FROM'' ''<sip:bob@example.com>;tag=t1'', NameValuePair ''TO'' ''<sip:alice@example.com>'',
       NameValuePair ''CALL-ID'' ''c1'', NameValuePair ''CSEQ'' ''7 OPTIONS'', NameValuePair ''MAX-FORWARDS'' ''20'']\<rparr>"

definition example_ops :: "unit router_ops" where
  "example_ops = \<lparr>o_normalizeProxyRoutes = (\<lambda>m. (m, ''sip:alice@example.com'', [])), o_routeState = (\<lambda>_ _. ()), o_isFound = (\<lambda>_. False), o_isMutable = (\<lambda>_. False),
     o_isDialogAuthorized = (\<lambda>_. False), o_recordRouteState = (\<lambda>_ m. m), o_addNatMappingInfoToContacts = (\<lambda>m. m), o_addPathHeader = (\<lambda>m. m),
     o_signedIdentity = (\<lambda>hs _. if hs = [AuthIdentityHeaderName] then Some ''bob@example.com'' else None), o_canonicalFrom = (\<lambda>_. ''sip:bob@example.com''),
     o_insertPAssertedIdentity = (\<lambda>m _. m), o_localGruu = (\<lambda>_. None), o_getRoute = (\<lambda>_ _. Some (''sip:reg.example.com'', False, [])),
     o_nextHop = (\<lambda>_. (False, ''<sip:reg.example.com;lr>'')), o_addRuriParams = (\<lambda>m _. m), o_recordRoute = (\<lambda>m. m), o_recordRouteTls = (\<lambda>m. m),
     o_modifyTrustedRequest = (\<lambda>_ _ m. m), o_plugins = [\<lambda>_ _ _ _ _ (rs, m, _). Inr (DENY, rs, m, ''No'')], o_maxForwards = 20, o_setServerHeader = (\<lambda>m. m)\<rparr>"

lemma example_facts:
  "env_ok example_env" "r_has_auth example_env ''auth''" "short (getCallIdField example_request)" "short (from_tag example_env example_request)"
  "\<not> isResponse example_request" "getRequestMethod example_request \<noteq> []" "header_values example_request (authorization_name PROXY) = []"
proof -
  have "quotable ''example.com''" by code_simp
  then show "env_ok example_env" by (simp add: env_ok_def example_env_def short_def)
  show "r_has_auth example_env ''auth''" by (simp add: example_env_def)
  have "length (getCallIdField example_request) = 2" "length (from_tag example_env example_request) = 2" by code_simp+
  then show "short (getCallIdField example_request)" "short (from_tag example_env example_request)" by (simp_all add: short_def)
  show "\<not> isResponse example_request" "getRequestMethod example_request \<noteq> []" "header_values example_request (authorization_name PROXY) = []" by code_simp+
qed

lemma example_user:
  obtains e where "r_findByUserId example_env (fst (split_user ''bob'')) = Some e" "ent_realm e = r_realm example_env" "nul_free (ent_password e)"
    "r_identity example_env (c_prefix (ent_identity e)) = ''bob@example.com''" "ent_password e = ''pass''"
proof -
  have "fst (split_user ''bob'') = ''bob''" "nul_free ''pass''" "c_prefix ''bob@example.com'' = ''bob@example.com''" by code_simp+
  then show thesis using that by (simp add: example_env_def)
qed

lemma example_texts: "quotable ''bob''" "quotable ''sip:alice@example.com''" "''sip:alice@example.com'' \<noteq> []" "quotable ''cn''" "''cn'' \<noteq> []" "attr_token ''00000001''" "''00000001'' \<noteq> []"
  by code_simp+


lemma challenge_made:
  assumes "env_ok env" and "short (getCallIdField m)" and "short (from_tag env m)" and "t0 < 2 ^ 32"
    and "setResponseData_request r m 407 ''Proxy Authentication Required'' None True (r_newTag env) \<noteq> None"
  obtains challenge where "authenticationChallenge env t0 m r = Some challenge"
proof -
  have e: "length (r_garbage env) = 64" "short (r_realm env)" "short (r_secret env)" using assms(1) by (simp_all add: env_ok_def)
  show thesis using that nonceSignature_ok [OF e(1) hex8_digits(1) [OF assms(4)] assms(2,3) e(2,3)] assms(4,5)
    by (auto simp: authenticationChallenge_def createNewNonce_def setRequestUnauthorized_def Let_def)
qed

lemma example_prepared:
  obtains m2 r2 where "prepareRequest example_env example_ops 1000 example_request blank_message = Some ((), (False, False, True, False), ''sip:alice@example.com'', m2, r2)"
    "getMaxForwards m2 = Some (Some 20)"
proof -
  have "(case prepareRequest example_env example_ops 1000 example_request blank_message of
      Some (u, fl, uri, m2, r2) \<Rightarrow> fl = (False, False, True, False) \<and> uri = ''sip:alice@example.com'' \<and> getMaxForwards m2 = Some (Some 20) | None \<Rightarrow> False)"
    by code_simp
  then obtain u fl uri m2 r2 where p: "prepareRequest example_env example_ops 1000 example_request blank_message = Some (u, fl, uri, m2, r2)"
    and "fl = (False, False, True, False)" "uri = ''sip:alice@example.com''" "getMaxForwards m2 = Some (Some 20)"
    by (simp only: split: option.splits prod.splits)
  then show thesis by (intro that [of m2 r2]) simp_all
qed

lemma example_sent:
  obtains m' r' where "proxyMessage example_env example_ops 1000 example_request blank_message = Some (SendRequest, m', r')"
proof -
  have s: "areAllExtensionsSupported example_env example_request = Some (True, [])" by code_simp
  obtain m2 r2 where p: "prepareRequest example_env example_ops 1000 example_request blank_message = Some ((), (False, False, True, False), ''sip:alice@example.com'', m2, r2)"
    "getMaxForwards m2 = Some (Some 20)" by (rule example_prepared)
  have o: "o_modifyTrustedRequest example_ops u b m = m" "o_recordRoute example_ops m = m" for u b m by (simp_all add: example_ops_def)
  show thesis using that s p by (simp add: proxyMessage_def proxyBody_def o int_ok_def)
qed

text \<open>
  The entries of a field are not stripped: of two extensions that are separated by a comma and a space the second one starts with the space, and the proxy takes it for
  one that it does not have.
\<close>

lemma spaced_extension_refused:
  "isExtensionAllowed example_env ''path''"
  "areAllExtensionsSupported example_env (addHeaderField example_request ''PROXY-REQUIRE'' ''path,path'') = Some (True, [])"
  "areAllExtensionsSupported example_env (addHeaderField example_request ''PROXY-REQUIRE'' ''path, path'') = Some (False, '' path'')"
  by code_simp+

text \<open>A plug-in that is not interested in the result so far can refuse a request of a dialog that was authorized: the loop starts as if there were no result.\<close>

lemma authorized_dialog_refused:
  "map_option fst (proxyMessage example_env (example_ops\<lparr>o_isFound := \<lambda>_. True, o_isDialogAuthorized := \<lambda>_. True\<rparr>) 1000 example_request blank_message) = Some SendResponse"
  by code_simp

section \<open>Properties\<close>

text \<open>C2. Whoever the proxy takes as the sender has proved it: for a user that \<open>isAuthenticated\<close> gives there is an authorization field for the proxy's realm whose
  nonce carries the proxy's signature over this very call and dialog and has not expired, its user is in the data base in this realm, the user given is the
  identity of that entry, and a field has as its response the digest over the password of that entry.
\<close>

theorem router_authenticated_sound:
  assumes "env_ok env" and "short (getCallIdField m)" and "short (from_tag env m)" and "isAuthenticated env now m = Some (Some u)"
  shows "\<exists>k d ts e. getDigestAuthorizationData m PROXY k = Some d \<and> c_prefix (d_realm d) = r_realm env
           \<and> length ts = 8 \<and> d_nonce d = nonce_sig (r_secret env) (getCallIdField m) (from_tag env m) (r_realm env) ts @ ts
           \<and> int now \<le> (strtol16 (c_prefix ts) + r_nonceExpiration env) mod 2 ^ 64
           \<and> r_findByUserId env (d_user_base d) = Some e \<and> ent_realm e = r_realm env \<and> u = r_identity env (c_prefix (ent_identity e))
           \<and> (\<exists>line \<in> set (field_lines m (authorization_name PROXY)).
                c_prefix (d_response (digest_of line)) = c_prefix (reference_digest env m d (ent_password e)))"
proof -
  obtain k d where d: "getDigestAuthorizationData m PROXY k = Some d" "check_credential env now m (getCallIdField m) (from_tag env m) d = Some (Some u)"
    using auth_loop_user assms(4) unfolding isAuthenticated_def by blast
  have "c_prefix (r_realm env) = r_realm env" using assms(1) by (simp add: env_ok_def quotable_def)
  then show ?thesis using d(1) d(2) [unfolded check_credential_user [OF assms(1-3)]] by metis
qed

theorem router_authenticated_sound_witness:
  "\<exists>m d e. isAuthenticated example_env 1300 m = Some (Some ''bob@example.com'') \<and> r_findByUserId example_env (d_user_base d) = Some e
     \<and> (\<exists>line \<in> set (field_lines m (authorization_name PROXY)).
          c_prefix (d_response (digest_of line)) = c_prefix (reference_digest example_env m d (ent_password e)))"
proof -
  let ?n = "nonce_sig (r_secret example_env) (getCallIdField example_request) (from_tag example_env example_request) (r_realm example_env) (hex8 1000) @ hex8 1000"
  obtain e where e: "r_findByUserId example_env (fst (split_user ''bob'')) = Some e" "ent_realm e = r_realm example_env" "nul_free (ent_password e)"
    "r_identity example_env (c_prefix (ent_identity e)) = ''bob@example.com''" by (rule example_user)
  define m where "m = answered_request example_env example_request ''bob'' (r_realm example_env) (ent_password e) ?n ''cn'' ''00000001'' ''sip:alice@example.com''"
  have q: "quotable ?n" using nonce_quotable hex8_digits(2) [of 1000] by simp
  have realm: "quotable (r_realm example_env)" using example_facts(1) by (simp add: env_ok_def)
  note same = answered_request_read(2,3) [OF example_facts(5-7) e(3) realm example_texts q m_def refl]
  have a: "isAuthenticated example_env 1300 m = Some (Some ''bob@example.com'')"
    unfolding m_def answered_request_authenticated [OF example_facts e(1-3) example_texts q refl, of 1300 "''bob@example.com''", simplified] e(4)
    by (simp add: example_env_def)
  show ?thesis using a router_authenticated_sound [OF example_facts(1) _ _ a] example_facts(3,4) same by metis
qed

text \<open>C3. The challenge and its answer: the field that \<open>authenticationChallenge\<close> puts into the response is read by \<open>getAuthenticateData\<close> as a digest challenge for the
  realm of the proxy, and the request that answers it with the password of the user is authenticated as this user until the nonce expires and not after.
\<close>

theorem challenge_answer_authenticated:
  assumes "env_ok env" "r_has_auth env ''auth''"
    and "short (getCallIdField m)" "short (from_tag env m)" "\<not> isResponse m" "getRequestMethod m \<noteq> []" "header_values m (authorization_name PROXY) = []"
    and "r_findByUserId env (fst (split_user user)) = Some e" "ent_realm e = r_realm env" "nul_free (ent_password e)"
    and "quotable user" "quotable uri" "uri \<noteq> []" "quotable cnonce" "cnonce \<noteq> []" "attr_token nc" "nc \<noteq> []"
    and "t0 < 2 ^ 32" and "authenticationChallenge env t0 m r = Some challenge"
  shows "\<exists>k scheme c. getAuthenticateData challenge PROXY k = Some (True, scheme, c) \<and> c_realm c = r_realm env \<and> c_qop c = ''auth''
           \<and> (\<forall>now u. isAuthenticated env now (answered_request env m user (c_realm c) (ent_password e) (c_nonce c) cnonce nc uri) = Some (Some u) \<longleftrightarrow>
                int now \<le> int t0 + r_nonceExpiration env \<and> u = r_identity env (c_prefix (ent_identity e)))"
proof -
  obtain k nonce where k: "getAuthenticateData challenge PROXY k = Some (True, cannonizeToken (cannonizeToken ''Digest''),
       \<lparr>c_realm = r_realm env, c_nonce = nonce, c_opaque = [], c_algorithm = [], c_qop = ''auth'', c_domain = []\<rparr>)"
    and n: "quotable nonce" "nonce = nonce_sig (r_secret env) (getCallIdField m) (from_tag env m) (r_realm env) (hex8 t0) @ hex8 t0"
    using challenge_read [OF assms(1,3,4,18,19)] by metis
  show ?thesis using k answered_request_authenticated [OF assms(1-17) n assms(18)] by (intro exI conjI) (assumption | simp)+
qed

theorem challenge_answer_authenticated_witness:
  "\<exists>challenge k scheme c m. authenticationChallenge example_env 1000 example_request blank_message = Some challenge
     \<and> getAuthenticateData challenge PROXY k = Some (True, scheme, c)
     \<and> m = answered_request example_env example_request ''bob'' (c_realm c) ''pass'' (c_nonce c) ''cn'' ''00000001'' ''sip:alice@example.com''
     \<and> isAuthenticated example_env 1300 m = Some (Some ''bob@example.com'') \<and> isAuthenticated example_env 1301 m \<noteq> Some (Some ''bob@example.com'')"
proof -
  have "setResponseData_request blank_message example_request 407 ''Proxy Authentication Required'' None True (r_newTag example_env) \<noteq> None" by code_simp
  then obtain challenge where c: "authenticationChallenge example_env 1000 example_request blank_message = Some challenge"
    using challenge_made [OF example_facts(1,3,4), of 1000 blank_message] by auto
  obtain e where e: "r_findByUserId example_env (fst (split_user ''bob'')) = Some e" "ent_realm e = r_realm example_env" "nul_free (ent_password e)"
    "r_identity example_env (c_prefix (ent_identity e)) = ''bob@example.com''" "ent_password e = ''pass''" by (rule example_user)
  have x: "r_nonceExpiration example_env = 300" by (simp add: example_env_def)
  obtain k scheme ch where k: "getAuthenticateData challenge PROXY k = Some (True, scheme, ch)"
    and a: "\<forall>now u. isAuthenticated example_env now (answered_request example_env example_request ''bob'' (c_realm ch) ''pass'' (c_nonce ch) ''cn'' ''00000001''
              ''sip:alice@example.com'') = Some (Some u) \<longleftrightarrow> int now \<le> int 1000 + 300 \<and> u = ''bob@example.com''"
    using challenge_answer_authenticated [OF example_facts e(1-3) example_texts _ c] unfolding e(4,5) x by auto
  have "isAuthenticated example_env 1300 m = Some (Some ''bob@example.com'') \<and> isAuthenticated example_env 1301 m \<noteq> Some (Some ''bob@example.com'')"
    if "m = answered_request example_env example_request ''bob'' (c_realm ch) ''pass'' (c_nonce ch) ''cn'' ''00000001'' ''sip:alice@example.com''" for m
    unfolding that using a by simp
  then show ?thesis using c k by blast
qed





text \<open>C8. A request that requires an extension the proxy does not have is not forwarded: it is answered with 420 and an \<open>Unsupported\<close> field that lists the extensions
  required and not allowed, in their order.
\<close>

theorem unsupported_extension_answered:
  assumes "list_all (plain False) (field_lines m SIP_PROXY_REQUIRE_FIELD)" and "int (length (field_entries m SIP_PROXY_REQUIRE_FIELD)) < BOTTOM_SUBFIELD"
    and "x \<in> set (field_entries m SIP_PROXY_REQUIRE_FIELD)" and "\<not> isExtensionAllowed env x"
    and "setResponseData_request r m 420 ''Extension Not Supported'' None True (r_newTag env) = Some r0"
  shows "proxyMessage env ops now m r = Some (SendResponse, m, o_setServerHeader ops
           (addHeaderField r0 SIP_UNSUPPORTED_FIELD (c_prefix (disallowed_text env (field_entries m SIP_PROXY_REQUIRE_FIELD) []))))"
proof -
  have "\<not> list_all (isExtensionAllowed env) (field_entries m SIP_PROXY_REQUIRE_FIELD)" using assms(3,4) by (auto simp: list_all_iff)
  then show ?thesis using areAllExtensionsSupported_entries [OF assms(1,2)] assms(5) by (simp add: proxyMessage_def proxyBody_def setRequestBadExtension_def)
qed

theorem unsupported_extension_answered_witness:
  "\<exists>r0. setResponseData_request blank_message (addHeaderField example_request ''PROXY-REQUIRE'' ''path,foo'') 420 ''Extension Not Supported'' None True ''tt'' = Some r0
     \<and> proxyMessage example_env example_ops 1000 (addHeaderField example_request ''PROXY-REQUIRE'' ''path,foo'') blank_message
         = Some (SendResponse, addHeaderField example_request ''PROXY-REQUIRE'' ''path,foo'', addHeaderField r0 ''UNSUPPORTED'' ''foo'')"
proof -
  let ?m = "addHeaderField example_request ''PROXY-REQUIRE'' ''path,foo''"
  have m: "list_all (plain False) (field_lines ?m SIP_PROXY_REQUIRE_FIELD)" "field_entries ?m SIP_PROXY_REQUIRE_FIELD = [''path'', ''foo'']"
    "\<not> isExtensionAllowed example_env ''foo''" "c_prefix (disallowed_text example_env [''path'', ''foo''] []) = ''foo''" "r_newTag example_env = ''tt''"
    "setResponseData_request blank_message ?m 420 ''Extension Not Supported'' None True ''tt'' \<noteq> None" by code_simp+
  then obtain r0 where r: "setResponseData_request blank_message ?m 420 ''Extension Not Supported'' None True ''tt'' = Some r0" by blast
  have o: "o_setServerHeader example_ops x = x" for x by (simp add: example_ops_def)
  show ?thesis using unsupported_extension_answered [of ?m "''foo''" example_env blank_message r0 example_ops 1000] m r o
    by (simp add: BOTTOM_SUBFIELD_def SIP_UNSUPPORTED_FIELD_def)
qed

text \<open>C9. A request that leaves the proxy for good has no \<open>P-Preferred-Identity\<close> field, and its \<open>Max-Forwards\<close> is one less than before, or the limit of the user agent
  if it had none.
\<close>

theorem forwarded_request_clean:
  assumes "proxyMessage env ops now m r = Some (SendRequest, m', r')" and "prepareRequest env ops now m r = Some (rs, (resp, auth, fwd, False), uri, m2, r2)"
  shows "header_values m' P_PID_HEADER = []
         \<and> (\<exists>m1 old. proxyBody env ops now m r = Some (Inr (False, m1, r'), False) \<and> getMaxForwards m1 = Some old
              \<and> getMaxForwards m' = Some (Some (case old of Some n \<Rightarrow> n - 1 | None \<Rightarrow> o_maxForwards ops)))"
proof -
  obtain m1 spiral old n where b: "proxyBody env ops now m r = Some (Inr (False, m1, r'), spiral)" and old: "getMaxForwards m1 = Some old"
    and n: "n = (case old of Some n \<Rightarrow> n - 1 | None \<Rightarrow> o_maxForwards ops)" "int_ok n"
    and m': "m' = (if spiral then setMaxForwards m1 n else performPreRoutingChecks (setMaxForwards m1 n))"
    using assms(1) by (rule proxyMessage_sent) blast
  have s: "\<not> spiral" using b assms(2) by (auto elim!: proxyBody_sent)
  have k: "header_key P_PID_HEADER \<noteq> header_key SIP_MAX_FORWARDS_FIELD" by code_simp
  have "getMaxForwards m' = getMaxForwards (setMaxForwards m1 n)"
    using k s m' performPreRoutingChecks_values [of _ SIP_MAX_FORWARDS_FIELD] by (simp add: getMaxForwards_def getHeaderValue_values)
  then show ?thesis using s b old n m' max_forwards_set performPreRoutingChecks_values by auto
qed

theorem forwarded_request_clean_witness:
  "\<exists>m' r'. proxyMessage example_env example_ops 1000 example_request blank_message = Some (SendRequest, m', r') \<and> header_values m' P_PID_HEADER = []
     \<and> (\<exists>n. getMaxForwards m' = Some (Some n))"
proof -
  obtain m' r' where p: "proxyMessage example_env example_ops 1000 example_request blank_message = Some (SendRequest, m', r')" by (rule example_sent)
  obtain m2 r2 where q: "prepareRequest example_env example_ops 1000 example_request blank_message = Some ((), (False, False, True, False), ''sip:alice@example.com'', m2, r2)"
    by (rule example_prepared)
  show ?thesis using forwarded_request_clean [OF p q] p by blast
qed

end
