(* ===== verification/XmlContent.thy ===== *)
theory XmlContent
  imports UtlRegex
begin

text \<open>
  Text in XML documents (\<^verbatim>\<open>sipXportLib/src/utl/XmlContent.cpp\<close>): escaping, unescaping, and that the one undoes the other, for every string of bytes.

  Both go through a string with a regular expression. What the two patterns match is stated by \<open>xe_ref\<close> and \<open>xu_ref\<close>, and \<open>xe_law\<close> and \<open>xu_law\<close> say that the
  engine finds that; it finds something in every subject that fits its limits (\<open>fits\<close>). Memory for the destination is always there.
\<close>

section \<open>Escaping\<close>

text \<open>The characters of \<open>XML_CHARS\<close>; those of \<open>ESC_CHARS\<close> are the others.\<close>

definition xml_char :: "char \<Rightarrow> bool" where
  "xml_char c \<longleftrightarrow> (let n = of_char c :: nat in n \<in> {0x09, 0x0a, 0x0d, 0x20, 0x21, 0x3d} \<or> (0x23 \<le> n \<and> n \<le> 0x25) \<or> (0x28 \<le> n \<and> n \<le> 0x3b) \<or> 0x3f \<le> n)"

definition hex_digit :: "nat \<Rightarrow> char" where
  "hex_digit n = ''0123456789abcdef'' ! n"

text \<open>The entity of a character. \<^verbatim>\<open>char\<close> is signed, and a number that does not fit the buffer is written over its end.\<close>

definition char_entity :: "char \<Rightarrow> string option" where
  "char_entity c =
     (if c = CHR 0x22 then Some ''&quot;''
      else if c = CHR 0x26 then Some ''&amp;''
      else if c = CHR 0x27 then Some ''&apos;''
      else if c = CHR 0x3c then Some ''&lt;''
      else if c = CHR 0x3e then Some ''&gt;''
      else (let n = of_char c :: nat in if n < 128 then Some (''&#x'' @ [hex_digit (n div 16), hex_digit (n mod 16)] @ '';'') else None))"

text \<open>The first character of a string object's data.\<close>

definition data_head :: "string \<Rightarrow> char" where
  "data_head s = hd (s @ [NUL])"

fun escape_loop :: "pcre_exec \<Rightarrow> nat \<Rightarrow> regex \<Rightarrow> string \<Rightarrow> string option" where
  "escape_loop exec 0 copyChars destination = None"
| "escape_loop exec (Suc fuel) copyChars destination = do {
     (d1, _) \<leftarrow> MatchString copyChars (Some destination) 1;
     destination1 \<leftarrow> d1;
     (e, had) \<leftarrow> MatchString copyChars (Some []) 2;
     escapeChar \<leftarrow> e;
     destination2 \<leftarrow> (if had then map_option (\<lambda>t. destination1 @ t) (char_entity (data_head escapeChar)) else Some destination1);
     (copyChars1, matched) \<leftarrow> SearchAgain exec copyChars False;
     if matched then escape_loop exec fuel copyChars1 destination2 else Some destination2 }"

text \<open>The fuel is more than the characters of the source, of which every match takes one.\<close>

definition XmlEscapeInternal :: "pcre_exec \<Rightarrow> int list \<Rightarrow> string \<Rightarrow> string \<Rightarrow> string option" where
  "XmlEscapeInternal exec garbage destination source =
     (if source \<noteq> [] then do {
        (copyChars, matched) \<leftarrow> Search exec (RegEx_copy (RegEx_new 2 garbage) garbage) (map Some source @ [Some NUL]) (int (length source)) False;
        if matched then escape_loop exec (Suc (length source)) copyChars destination else Some destination
      } else Some destination)"

definition XmlEscape :: "pcre_exec \<Rightarrow> int list \<Rightarrow> string \<Rightarrow> string \<Rightarrow> string option" where
  "XmlEscape exec garbage destination source = XmlEscapeInternal exec garbage destination source"

definition XmlEscape_cstr :: "pcre_exec \<Rightarrow> int list \<Rightarrow> string \<Rightarrow> string \<Rightarrow> string option" where
  "XmlEscape_cstr exec garbage destination source = XmlEscapeInternal exec garbage destination (c_prefix source)"

section \<open>Unescaping\<close>

text \<open>\<open>strtol\<close> on a text without sign and blanks: the number, and what was not converted.\<close>

definition digit_value :: "char \<Rightarrow> nat" where
  "digit_value c = (let n = of_char c :: nat in
     if 48 \<le> n \<and> n \<le> 57 then n - 48 else if 97 \<le> n \<and> n \<le> 122 then n - 87 else if 65 \<le> n \<and> n \<le> 90 then n - 55 else 36)"

definition strtol_digits :: "nat \<Rightarrow> string \<Rightarrow> nat \<times> string" where
  "strtol_digits base s =
     (foldl (\<lambda>n c. n * base + digit_value c) 0 (takeWhile (\<lambda>c. digit_value c < base) s), dropWhile (\<lambda>c. digit_value c < base) s)"

definition number_text :: "nat \<Rightarrow> string \<Rightarrow> string" where
  "number_text base number = (let (n, unconverted) = strtol_digits base number in if unconverted = [] \<and> n < 256 then [char_of n] else number)"

text \<open>The text of the entity of the last match; one of the groups has to be set.\<close>

definition entity_text :: "regex \<Rightarrow> string option" where
  "entity_text entity = do {
     (_, quot) \<leftarrow> MatchString entity None 1;
     (_, amp) \<leftarrow> MatchString entity None 2;
     (_, apos) \<leftarrow> MatchString entity None 3;
     (_, lt) \<leftarrow> MatchString entity None 4;
     (_, gt) \<leftarrow> MatchString entity None 5;
     (d, decimal) \<leftarrow> MatchString entity (Some []) 6;
     (x, hexadecimal) \<leftarrow> MatchString entity (Some []) 7;
     if quot then Some [CHR 0x22]
     else if amp then Some ''&''
     else if apos then Some [CHR 0x27]
     else if lt then Some ''<''
     else if gt then Some ''>''
     else if decimal then map_option (number_text 10) d
     else if hexadecimal then map_option (number_text 16) x
     else None }"

fun unescape_loop :: "pcre_exec \<Rightarrow> nat \<Rightarrow> regex \<Rightarrow> string \<Rightarrow> string option" where
  "unescape_loop exec 0 entity destination = None"
| "unescape_loop exec (Suc fuel) entity destination = do {
     t \<leftarrow> entity_text entity;
     (d, _) \<leftarrow> MatchString entity (Some (destination @ t)) 8;
     destination1 \<leftarrow> d;
     (entity1, matched) \<leftarrow> SearchAgain exec entity False;
     if matched then unescape_loop exec fuel entity1 destination1 else Some destination1 }"

definition XmlUnEscape :: "pcre_exec \<Rightarrow> int list \<Rightarrow> string \<Rightarrow> string \<Rightarrow> string option" where
  "XmlUnEscape exec garbage destination source =
     (if source \<noteq> [] then do {
        (entity, matched) \<leftarrow> Search exec (RegEx_copy (RegEx_new 8 garbage) garbage) (map Some source @ [Some NUL]) (int (length source)) False;
        if matched then do {
          (b, _) \<leftarrow> BeforeMatchString entity (Some destination);
          destination1 \<leftarrow> b;
          unescape_loop exec (Suc (length source)) entity destination1
        } else Some (destination @ source)
      } else Some destination)"

section \<open>What the patterns match\<close>

text \<open>\<^verbatim>\<open>(XML_CHARS*)(ESC_CHARS)?\<close>, found where the search starts: the return code and the offsets.\<close>

definition xe_ref :: "string \<Rightarrow> nat \<Rightarrow> int \<times> int list" where
  "xe_ref s i =
     (let k = i + length (takeWhile xml_char (drop i s)) in
      if k < length s then (3, map int [i, Suc k, i, k, k, Suc k]) else (2, map int [i, k, i, k]))"

definition xe_law :: "(string \<Rightarrow> bool) \<Rightarrow> pcre_exec \<Rightarrow> bool" where
  "xe_law fits exec \<longleftrightarrow> (\<forall>s i vec. i \<le> length s \<longrightarrow> length vec = 9 \<longrightarrow>
     (let (rc, vec') = exec s (int i) False vec in
        length vec' = 9 \<and> (0 < rc \<longrightarrow> (rc, take (2 * nat rc) vec') = xe_ref s i) \<and> (fits s \<longrightarrow> 0 < rc)))"

text \<open>The pattern of entities: the group that is set, where it starts and ends, and the length of the entity.\<close>

definition number_at :: "nat \<Rightarrow> nat \<Rightarrow> nat \<Rightarrow> nat \<Rightarrow> string \<Rightarrow> (nat \<times> nat \<times> nat \<times> nat) option" where
  "number_at base most grp offset s =
     (let n = length (takeWhile (\<lambda>c. digit_value c < base) (drop offset s)) in
      if 1 \<le> n \<and> n \<le> most \<and> take 1 (drop (offset + n) s) = '';'' then Some (grp, offset, offset + n, offset + n + 1) else None)"

definition entity_at :: "string \<Rightarrow> (nat \<times> nat \<times> nat \<times> nat) option" where
  "entity_at s =
     (if take 6 s = ''&quot;'' then Some (1, 1, 5, 6)
      else if take 5 s = ''&amp;'' then Some (2, 1, 4, 5)
      else if take 6 s = ''&apos;'' then Some (3, 1, 5, 6)
      else if take 4 s = ''&lt;'' then Some (4, 1, 3, 4)
      else if take 4 s = ''&gt;'' then Some (5, 1, 3, 4)
      else if take 3 s = ''&#x'' then number_at 16 2 7 3 s
      else if take 2 s = ''&#'' then number_at 10 3 6 2 s
      else None)"

text \<open>The first entity from an offset on, with the characters behind it.\<close>

function xu_find :: "string \<Rightarrow> nat \<Rightarrow> (nat \<times> nat \<times> nat \<times> nat \<times> nat) option" where
  "xu_find s i =
     (if length s \<le> i then None
      else (case entity_at (drop i s) of Some m \<Rightarrow> Some (i, m) | None \<Rightarrow> xu_find s (Suc i)))"
  by pat_completeness auto
termination by (relation "measure (\<lambda>(s, i). length s - i)") auto

declare xu_find.simps [simp del]

definition xu_vector :: "string \<Rightarrow> nat \<times> nat \<times> nat \<times> nat \<times> nat \<Rightarrow> int list" where
  "xu_vector s m =
     (let (i, grp, a, b, n) = m; e = i + n + length (takeWhile (\<lambda>c. c \<noteq> CHR ''&'') (drop (i + n) s)) in
      [int i, int e] @ concat (map (\<lambda>g. if g = grp then [int (i + a), int (i + b)] else [-1, -1]) [1, 2, 3, 4, 5, 6, 7]) @ [int (i + n), int e])"

definition xu_law :: "(string \<Rightarrow> bool) \<Rightarrow> pcre_exec \<Rightarrow> bool" where
  "xu_law fits exec \<longleftrightarrow> (\<forall>s i vec. i \<le> length s \<longrightarrow> length vec = 27 \<longrightarrow>
     (let (rc, vec') = exec s (int i) False vec in
        length vec' = 27 \<and> (0 < rc \<longrightarrow> (\<exists>m. xu_find s i = Some m \<and> rc = 9 \<and> take 18 vec' = xu_vector s m)) \<and> (fits s \<and> xu_find s i \<noteq> None \<longrightarrow> 0 < rc)))"

text \<open>Engines that behave so.\<close>

definition xe_run :: pcre_exec where
  "xe_run s start anchored vec = (let (rc, v) = xe_ref s (nat start) in (rc, v @ drop (length v) vec))"

definition xu_run :: pcre_exec where
  "xu_run s start anchored vec = (case xu_find s (nat start) of None \<Rightarrow> (-1, vec) | Some m \<Rightarrow> (9, xu_vector s m @ drop 18 vec))"

lemma xe_run_law: "xe_law (\<lambda>_. True) xe_run"
  by (auto simp: xe_law_def xe_run_def xe_ref_def Let_def split: if_splits)

lemma length_xu_vector [simp]: "length (xu_vector s m) = 18"
  by (simp add: xu_vector_def Let_def split: prod.splits)

lemma xu_run_law: "xu_law (\<lambda>_. True) xu_run"
  by (auto simp: xu_law_def xu_run_def split: option.splits)

section \<open>Escaping, character by character\<close>

definition xml_escape :: "string \<Rightarrow> string" where
  "xml_escape s = concat (map (\<lambda>c. if xml_char c then [c] else the (char_entity c)) s)"

lemma xml_escape_simps [simp]:
  "xml_escape [] = []" "xml_escape (c # s) = (if xml_char c then [c] else the (char_entity c)) @ xml_escape s" "xml_escape (s @ t) = xml_escape s @ xml_escape t"
  by (simp_all add: xml_escape_def)

lemma xml_escape_plain [simp]: "list_all xml_char s \<Longrightarrow> xml_escape s = s"
  by (induction s) auto

lemma escaped_small: "\<not> xml_char c \<Longrightarrow> (of_char c :: nat) < 128"
  by (simp add: xml_char_def Let_def)

lemma char_entity_some: "\<not> xml_char c \<Longrightarrow> \<exists>t. char_entity c = Some t"
  using escaped_small by (simp add: char_entity_def Let_def)

text \<open>The object after a search from \<open>i\<close> that found the first pattern.\<close>

definition at_copy :: "string \<Rightarrow> nat \<Rightarrow> regex \<Rightarrow> bool" where
  "at_copy s i re \<longleftrightarrow> subjectStr re = s \<and> length (ovector re) = 9 \<and> (lastMatches re, take (2 * nat (lastMatches re)) (ovector re)) = xe_ref s i"

lemma at_copy_parts:
  assumes "at_copy s i re" and "i < length s"
  defines "w \<equiv> takeWhile xml_char (drop i s)"
  shows "MatchString re (Some d) 1 = Some (Some (d @ w), True)"
    and "MatchString re (Some []) 2 = Some (if i + length w < length s then (Some [s ! (i + length w)], True) else (Some [], False))"
    and "ov re 1 = Some (int (min (length s) (Suc (i + length w))))"
proof -
  have k: "i + length w \<le> length s" using assms(2) length_takeWhile_le [of xml_char "drop i s"] by (simp add: w_def)
  have w: "take (length w) (drop i s) = w" unfolding w_def by (metis takeWhile_eq_take)
  have "MatchString re (Some d) 1 = Some (Some (d @ w), True) \<and>
        MatchString re (Some []) 2 = Some (if i + length w < length s then (Some [s ! (i + length w)], True) else (Some [], False)) \<and>
        ov re 1 = Some (int (min (length s) (Suc (i + length w))))"
  proof (cases "i + length w < length s")
    case True
    have v: "lastMatches re = 3" "take 6 (ovector re) = map int [i, Suc (i + length w), i, i + length w, i + length w, Suc (i + length w)]"
      using assms(1) True by (auto simp: at_copy_def xe_ref_def w_def Let_def)
    have o: "ovector re ! j = take 6 (ovector re) ! j" if "j < 6" for j using that by simp
    have c: "take 1 (drop (i + length w) s) = [s ! (i + length w)]" using True by (simp add: take_Suc_conv_app_nth hd_drop_conv_nth take_Suc)
    show ?thesis using assms(1) True w c o [of 1] o [of 2] o [of 3] o [of 4] o [of 5]
      by (auto simp: MatchString_def ov_def v(1) v(2) at_copy_def subject_part_def subjectLen_def append_to_def nat_add_distrib min_def)
  next
    case False
    have v: "lastMatches re = 2" "take 4 (ovector re) = map int [i, i + length w, i, i + length w]"
      using assms(1) False by (auto simp: at_copy_def xe_ref_def w_def Let_def)
    have o: "ovector re ! j = take 4 (ovector re) ! j" if "j < 4" for j using that by simp
    show ?thesis using assms(1) False k w o [of 1] o [of 2] o [of 3]
      by (auto simp: MatchString_def ov_def v(1) v(2) at_copy_def subject_part_def subjectLen_def append_to_def nat_add_distrib min_def)
  qed
  then show "MatchString re (Some d) 1 = Some (Some (d @ w), True)"
    and "MatchString re (Some []) 2 = Some (if i + length w < length s then (Some [s ! (i + length w)], True) else (Some [], False))"
    and "ov re 1 = Some (int (min (length s) (Suc (i + length w))))" by blast+
qed

lemma escape_split:
  assumes "i < length s"
  defines "w \<equiv> takeWhile xml_char (drop i s)"
  shows "xml_escape (drop i s) = w @ (if i + length w < length s then the (char_entity (s ! (i + length w))) @ xml_escape (drop (Suc (i + length w)) s) else [])"
    and "i + length w < length s \<Longrightarrow> \<not> xml_char (s ! (i + length w))"
proof -
  have split: "drop i s = w @ drop (i + length w) s"
    unfolding w_def by (metis dropWhile_eq_drop drop_drop add.commute takeWhile_dropWhile_id)
  have w: "list_all xml_char w" unfolding w_def by (auto simp: list_all_iff dest: set_takeWhileD)
  show c: "\<not> xml_char (s ! (i + length w))" if "i + length w < length s"
    using nth_length_takeWhile [of xml_char "drop i s"] that by (simp add: w_def)
  have "xml_escape (drop i s) = w @ xml_escape (drop (i + length w) s)" by (subst split) (simp add: w)
  also have "xml_escape (drop (i + length w) s) =
      (if i + length w < length s then the (char_entity (s ! (i + length w))) @ xml_escape (drop (Suc (i + length w)) s) else [])"
    using c by (auto simp flip: Cons_nth_drop_Suc)
  finally show "xml_escape (drop i s) = w @ (if i + length w < length s then the (char_entity (s ! (i + length w))) @ xml_escape (drop (Suc (i + length w)) s) else [])" .
qed

lemma xe_found:
  assumes "xe_law fits exec" and "fits s" and "i \<le> length s" and "length vec = 9" and "exec s (int i) False vec = (rc, vec')"
  shows "0 < rc" "length vec' = 9" "(rc, take (2 * nat rc) vec') = xe_ref s i"
  using assms unfolding xe_law_def by fastforce+

lemma copy_again:
  assumes "xe_law fits exec" and "fits s" and "at_copy s i re" and "ov re 1 = Some (int j)" and "j \<le> length s"
  shows "\<exists>re'. SearchAgain exec re False = Some (re', j < length s) \<and> (j < length s \<longrightarrow> at_copy s j re')"
proof -
  have re: "subjectStr re = s" "length (ovector re) = 9" using assms(3) by (simp_all add: at_copy_def)
  obtain rc vec' where e: "exec s (int j) False (ovector re) = (rc, vec')" by fastforce
  note f = xe_found [OF assms(1,2,5) re(2) e]
  show ?thesis using assms(4) re e f by (cases "j < length s") (auto simp: SearchAgain_def subjectLen_def at_copy_def Let_def)
qed

lemma escape_loop_all:
  assumes law: "xe_law fits exec" and fits: "fits s"
  shows "at_copy s i re \<Longrightarrow> i < length s \<Longrightarrow> length s - i < fuel \<Longrightarrow> escape_loop exec fuel re d = Some (d @ xml_escape (drop i s))"
proof (induction fuel arbitrary: i re d)
  case (Suc fuel)
  define w where "w = takeWhile xml_char (drop i s)"
  define j where "j = min (length s) (Suc (i + length w))"
  note p = at_copy_parts [OF Suc.prems(1,2), folded w_def] and e = escape_split [OF Suc.prems(2), folded w_def]
  obtain re' where a: "SearchAgain exec re False = Some (re', j < length s)" "j < length s \<Longrightarrow> at_copy s j re'"
    using copy_again [OF law fits Suc.prems(1), of j] p(3) by (auto simp: j_def)
  have next_: "escape_loop exec fuel re' d' = Some (d' @ xml_escape (drop j s))" if "j < length s" for d'
    using Suc.IH [OF a(2) [OF that] that] that Suc.prems(2,3) by (auto simp: j_def)
  show ?case
  proof (cases "i + length w < length s")
    case True
    obtain t where "char_entity (s ! (i + length w)) = Some t" using char_entity_some [OF e(2) [OF True]] by blast
    then show ?thesis using p(1,2) a next_ True e(1) by (auto simp: data_head_def j_def)
  next
    case False
    then show ?thesis using p(1,2) a(1) e(1) by (auto simp: j_def)
  qed
qed simp

lemma XmlEscape_exact:
  assumes "xe_law fits exec" and "fits s" and "9 \<le> length garbage"
  shows "XmlEscape exec garbage destination s = Some (destination @ xml_escape s)"
proof (cases "s = []")
  case False
  define re where "re = RegEx_copy (RegEx_new 2 garbage) garbage"
  have re: "length (ovector re) = 9" using assms(3) by (simp add: re_def RegEx_copy_def RegEx_new_def)
  obtain rc vec where e: "exec s (int 0) False (ovector re) = (rc, vec)" by fastforce
  note f = xe_found [OF assms(1,2) le0 re e]
  have "Search exec re (map Some s @ [Some NUL]) (int (length s)) False = Some (re\<lparr>subjectStr := s, lastStart := 0, lastMatches := rc, ovector := vec\<rparr>, True)"
    using e f by (simp add: Search_def subject_of_data)
  moreover have "at_copy s 0 (re\<lparr>subjectStr := s, lastStart := 0, lastMatches := rc, ovector := vec\<rparr>)" using f by (simp add: at_copy_def)
  ultimately show ?thesis using escape_loop_all [OF assms(1,2)] False by (simp add: XmlEscape_def XmlEscapeInternal_def re_def [symmetric] del: escape_loop.simps)
qed (simp add: XmlEscape_def XmlEscapeInternal_def)

section \<open>Entities\<close>

definition group_text :: "nat \<Rightarrow> string \<Rightarrow> string" where
  "group_text g t = (if g = 1 then [CHR 0x22] else if g = 2 then ''&'' else if g = 3 then [CHR 0x27] else if g = 4 then ''<'' else if g = 5 then ''>''
     else if g = 6 then number_text 10 t else number_text 16 t)"

lemma hex_pairs: "n < 128 \<Longrightarrow> number_text 16 [hex_digit (n div 16), hex_digit (n mod 16)] = [char_of n] \<and> digit_value (hex_digit (n div 16)) < 16 \<and> digit_value (hex_digit (n mod 16)) < 16"
proof -
  have "list_all (\<lambda>n. number_text 16 [hex_digit (n div 16), hex_digit (n mod 16)] = [char_of n] \<and> digit_value (hex_digit (n div 16)) < 16 \<and> digit_value (hex_digit (n mod 16)) < 16) [0..<128]"
    by code_simp
  then show "n < 128 \<Longrightarrow> ?thesis" by (auto simp: list_all_iff)
qed

text \<open>The entity of a character, in front of any text, is the whole entity that the pattern finds, and stands for the character.\<close>

lemma entity_of_char:
  assumes "\<not> xml_char c"
  shows "\<exists>t g a b. char_entity c = Some t \<and> t \<noteq> [] \<and> hd t = CHR ''&'' \<and> (\<forall>r. entity_at (t @ r) = Some (g, a, b, length t))
           \<and> 1 \<le> g \<and> g \<le> 7 \<and> a < b \<and> b \<le> length t \<and> group_text g (take (b - a) (drop a t)) = [c]"
proof -
  consider "c = CHR 0x22" | "c = CHR 0x26" | "c = CHR 0x27" | "c = CHR 0x3c" | "c = CHR 0x3e" | "c \<notin> {CHR 0x22, CHR 0x26, CHR 0x27, CHR 0x3c, CHR 0x3e}" by blast
  then show ?thesis
  proof cases
    case 6
    define n where "n = (of_char c :: nat)"
    have n: "n < 128" "char_of n = c" using escaped_small [OF assms] by (simp_all add: n_def)
    define t where "t = ''&#x'' @ [hex_digit (n div 16), hex_digit (n mod 16)] @ '';''"
    note h = hex_pairs [OF n(1)]
    have semi: "\<not> digit_value CHR '';'' < 16" by code_simp
    have "entity_at (t @ r) = Some (7, 3, 5, length t)" for r using h semi by (simp add: t_def entity_at_def number_at_def Let_def)
    moreover have "char_entity c = Some t" using 6 n by (simp add: char_entity_def t_def n_def Let_def)
    moreover have "group_text 7 (take (5 - 3) (drop 3 t)) = [c]" using h n(2) by (simp add: group_text_def t_def)
    ultimately show ?thesis by (intro exI [of _ t] exI [of _ 7] exI [of _ 3] exI [of _ 5]) (simp add: t_def)
  next
    case 1
    then show ?thesis by (intro exI [of _ "''&quot;''"] exI [of _ "1::nat"] exI [of _ 1] exI [of _ 5]) (simp add: char_entity_def entity_at_def group_text_def)
  next
    case 2
    then show ?thesis by (intro exI [of _ "''&amp;''"] exI [of _ 2] exI [of _ 1] exI [of _ 4]) (simp add: char_entity_def entity_at_def group_text_def)
  next
    case 3
    then show ?thesis by (intro exI [of _ "''&apos;''"] exI [of _ 3] exI [of _ 1] exI [of _ 5]) (simp add: char_entity_def entity_at_def group_text_def)
  next
    case 4
    then show ?thesis by (intro exI [of _ "''&lt;''"] exI [of _ 4] exI [of _ 1] exI [of _ 3]) (simp add: char_entity_def entity_at_def group_text_def)
  next
    case 5
    then show ?thesis by (intro exI [of _ "''&gt;''"] exI [of _ 5] exI [of _ 1] exI [of _ 3]) (simp add: char_entity_def entity_at_def group_text_def)
  qed
qed

lemma entity_needs_ampersand: "s \<noteq> [] \<Longrightarrow> hd s \<noteq> CHR ''&'' \<Longrightarrow> entity_at s = None"
  by (cases s) (auto simp: entity_at_def)

lemma xu_find_skip:
  "list_all (\<lambda>c. c \<noteq> CHR ''&'') w \<Longrightarrow> xu_find (p @ w @ t) (length p) = xu_find (p @ w @ t) (length (p @ w))"
proof (induction w arbitrary: p)
  case (Cons c w)
  have "entity_at (c # w @ t) = None" by (rule entity_needs_ampersand) (use Cons.prems in simp_all)
  then have "xu_find (p @ (c # w) @ t) (length p) = xu_find (p @ (c # w) @ t) (Suc (length p))" by (simp add: xu_find.simps [of _ "length p"])
  also have "\<dots> = xu_find (p @ (c # w) @ t) (length (p @ c # w))" using Cons.IH [of "p @ [c]"] Cons.prems by simp
  finally show ?case .
qed simp

lemma xu_find_at:
  assumes "entity_at t = Some m" and "t \<noteq> []"
  shows "xu_find (p @ t) (length p) = Some (length p, m)"
  using assms by (simp add: xu_find.simps)

lemma no_ampersand: "list_all xml_char w \<Longrightarrow> list_all (\<lambda>c. c \<noteq> CHR ''&'') w"
proof -
  have "\<not> xml_char CHR ''&''" by code_simp
  then show "list_all xml_char w \<Longrightarrow> ?thesis" by (auto simp: list_all_iff)
qed

lemma takeWhile_escaped: "takeWhile (\<lambda>c. c \<noteq> CHR ''&'') (xml_escape s) = takeWhile xml_char s"
proof (induction s)
  case (Cons c s)
  show ?case
  proof (cases "xml_char c")
    case True
    then show ?thesis using Cons no_ampersand [of "[c]"] by simp
  next
    case False
    then obtain t where t: "char_entity c = Some t" "t \<noteq> []" "hd t = CHR ''&''" using entity_of_char by blast
    then show ?thesis using False by (cases t) simp_all
  qed
qed simp

lemma escaped_longer: "length s \<le> length (xml_escape s)"
proof (induction s)
  case (Cons c s)
  obtain t where "\<not> xml_char c \<Longrightarrow> char_entity c = Some t \<and> t \<noteq> []" using entity_of_char by blast
  then show ?case using Cons by (cases t) auto
qed simp

text \<open>The object after a search that found an entity.\<close>

definition at_entity :: "string \<Rightarrow> nat \<times> nat \<times> nat \<times> nat \<times> nat \<Rightarrow> regex \<Rightarrow> bool" where
  "at_entity s m re \<longleftrightarrow> subjectStr re = s \<and> length (ovector re) = 27 \<and> lastMatches re = 9 \<and> take 18 (ovector re) = xu_vector s m"

lemma at_entity_parts:
  assumes "at_entity s (i, g, a, b, n) re" and "1 \<le> g" "g \<le> 7" "a < b" "b \<le> n" "i + n \<le> length s"
  defines "w \<equiv> takeWhile (\<lambda>c. c \<noteq> CHR ''&'') (drop (i + n) s)"
  shows "entity_text re = Some (group_text g (take (b - a) (drop (i + a) s)))"
    and "MatchString re (Some d) 8 = Some (Some (d @ w), True)" and "ov re 0 = Some (int i)" and "ov re 1 = Some (int (i + n + length w))"
proof -
  have w: "take (length w) (drop (i + n) s) = w" "i + n + length w \<le> length s"
    using assms(6) length_takeWhile_le [of "\<lambda>c. c \<noteq> CHR ''&''" "drop (i + n) s"] unfolding w_def by (metis takeWhile_eq_take, simp)
  have re: "subjectStr re = s" "length (ovector re) = 27" "lastMatches re = 9" using assms(1) by (simp_all add: at_entity_def)
  have nth: "ovector re ! j = xu_vector s (i, g, a, b, n) ! j" if "j < 18" for j
    using assms(1) that unfolding at_entity_def by (metis nth_take)
  have v: "xu_vector s (i, g, a, b, n) = [int i, int (i + n + length w)] @
      concat (map (\<lambda>h. if h = g then [int (i + a), int (i + b)] else [-1, -1]) [1, 2, 3, 4, 5, 6, 7]) @ [int (i + n), int (i + n + length w)]"
    by (simp add: xu_vector_def w_def Let_def)
  have o: "ov re j = Some (xu_vector s (i, g, a, b, n) ! nat j)" if "0 \<le> j" "j < 18" for j using that re nth by (simp add: ov_def nat_less_iff)
  show "MatchString re (Some d) 8 = Some (Some (d @ w), True)" "ov re 0 = Some (int i)" "ov re 1 = Some (int (i + n + length w))"
    using w re by (simp_all add: MatchString_def o v subject_part_def subjectLen_def append_to_def nat_add_distrib)
  have oh: "ov re (h * 2) = Some (if nat h = g then int (i + a) else -1) \<and> ov re (h * 2 + 1) = Some (if nat h = g then int (i + b) else -1)" if "1 \<le> h" "h \<le> 7" for h :: int
  proof -
    consider "h = 1" | "h = 2" | "h = 3" | "h = 4" | "h = 5" | "h = 6" | "h = 7" using \<open>1 \<le> h\<close> \<open>h \<le> 7\<close> by linarith
    then show ?thesis by cases (simp_all add: o v)
  qed
  have part: "subject_part re (int (i + a)) (int (i + b) - int (i + a)) = Some (take (b - a) (drop (i + a) s))"
    using assms(4-6) re by (simp add: subject_part_def subjectLen_def nat_diff_distrib nat_add_distrib)
  have m: "MatchString re x h = Some (if nat h = g then (append_to x (take (b - a) (drop (i + a) s)), True) else (x, False))" if "1 \<le> h" "h \<le> 7" for x h
    using oh [OF that] part assms(4) re(3) that unfolding MatchString_def by (cases x) (simp_all add: append_to_def Let_def)
  have g: "nat (int g) = g" by simp
  show "entity_text re = Some (group_text g (take (b - a) (drop (i + a) s)))"
    using assms(2,3) unfolding entity_text_def by (simp add: m append_to_def group_text_def)
qed

lemma xu_found:
  assumes "xu_law fits exec" and "fits s" and "i \<le> length s" and "length vec = 27" and "exec s (int i) False vec = (rc, vec')"
  shows "length vec' = 27" "0 < rc \<longleftrightarrow> xu_find s i \<noteq> None" "xu_find s i = Some m \<Longrightarrow> rc = 9 \<and> take 18 vec' = xu_vector s m"
  using assms unfolding xu_law_def by fastforce+

lemma entity_again:
  assumes "xu_law fits exec" and "fits s" and "at_entity s m re" and "ov re 1 = Some (int j)" and "j \<le> length s" and "j < length s \<Longrightarrow> xu_find s j = Some m'"
  shows "\<exists>re'. SearchAgain exec re False = Some (re', j < length s) \<and> (j < length s \<longrightarrow> at_entity s m' re')"
proof -
  have re: "subjectStr re = s" "length (ovector re) = 27" using assms(3) by (simp_all add: at_entity_def)
  obtain rc vec' where e: "exec s (int j) False (ovector re) = (rc, vec')" by fastforce
  note f = xu_found [OF assms(1,2,5) re(2) e]
  show ?thesis using assms(4,6) re e f by (cases "j < length s") (auto simp: SearchAgain_def subjectLen_def at_entity_def Let_def)
qed

text \<open>An escaped text that starts with a character that was escaped: its entity is found, and behind it the next one.\<close>

lemma escaped_entity:
  assumes "\<not> xml_char c"
  obtains t g a b where "xml_escape (c # s) = t @ xml_escape s" "xu_find (p @ xml_escape (c # s)) (length p) = Some (length p, g, a, b, length t)"
    "1 \<le> g" "g \<le> 7" "a < b" "b \<le> length t" "group_text g (take (b - a) (drop a t)) = [c]" "t \<noteq> []"
proof -
  obtain t g a b where t: "char_entity c = Some t" "t \<noteq> []" "\<forall>r. entity_at (t @ r) = Some (g, a, b, length t)" "1 \<le> g" "g \<le> 7" "a < b" "b \<le> length t"
    "group_text g (take (b - a) (drop a t)) = [c]" using entity_of_char [OF assms] by blast
  have "xu_find (p @ t @ xml_escape s) (length p) = Some (length p, g, a, b, length t)" by (rule xu_find_at) (use t in simp_all)
  then show thesis using that [of t] t assms by simp
qed

lemma unescape_loop_all:
  assumes law: "xu_law fits exec" and fits: "fits S"
  shows "S = p @ xml_escape (c # s) \<Longrightarrow> \<not> xml_char c \<Longrightarrow> at_entity S (the (xu_find S (length p))) re \<Longrightarrow> length s < fuel \<Longrightarrow>
    unescape_loop exec fuel re d = Some (d @ c # s)"
proof (induction fuel arbitrary: p c s re d)
  case (Suc fuel)
  obtain t g a b where t: "xml_escape (c # s) = t @ xml_escape s" "xu_find (p @ xml_escape (c # s)) (length p) = Some (length p, g, a, b, length t)"
    "1 \<le> g" "g \<le> 7" "a < b" "b \<le> length t" "group_text g (take (b - a) (drop a t)) = [c]" "t \<noteq> []" using escaped_entity [OF Suc.prems(2)] by blast
  define w where "w = takeWhile xml_char s"
  define rest' where "rest' = dropWhile xml_char s"
  have s: "s = w @ rest'" by (simp add: w_def rest'_def)
  have w: "list_all xml_char w" by (auto simp: w_def list_all_iff dest: set_takeWhileD)
  have S: "S = p @ t @ w @ xml_escape rest'" unfolding Suc.prems(1) t(1) using w by (simp add: s)
  have e: "at_entity S (length p, g, a, b, length t) re" using Suc.prems(1,3) t(2) by simp
  have bounds: "length p + length t \<le> length S" by (simp add: S)
  have "S = p @ t @ xml_escape s" by (simp only: Suc.prems(1) t(1))
  then have dw: "takeWhile (\<lambda>c. c \<noteq> CHR ''&'') (drop (length p + length t) S) = w" using takeWhile_escaped [of s] by (simp add: w_def)
  note parts = at_entity_parts [OF e t(3-6) bounds, unfolded dw]
  have ctext: "entity_text re = Some [c]" using parts(1) t(5-7) by (simp add: S)
  let ?p = "p @ t @ w"
  have j: "ov re 1 = Some (int (length ?p))" "length ?p \<le> length S" using parts(4) by (simp_all add: S)
  show ?case
  proof (cases rest')
    case Nil
    then have "\<not> length ?p < length S" by (simp add: S)
    then obtain re' where "SearchAgain exec re False = Some (re', False)" using entity_again [OF law fits e j] by auto
    then show ?thesis using ctext parts(2) s Nil by simp
  next
    case (Cons c' s')
    have c': "\<not> xml_char c'" using hd_dropWhile [of xml_char s] Cons unfolding rest'_def by (metis list.distinct(1) list.sel(1))
    have S': "S = ?p @ xml_escape (c' # s')" using S Cons by simp
    obtain t' g' a' b' where t': "xml_escape (c' # s') = t' @ xml_escape s'" "t' \<noteq> []"
      and m'0: "xu_find (?p @ xml_escape (c' # s')) (length ?p) = Some (length ?p, g', a', b', length t')"
      by (rule escaped_entity [OF c', of s' ?p])
    define m' where "m' = (length ?p, g', a', b', length t')"
    have m': "xu_find S (length ?p) = Some m'" using m'0 by (simp only: S' m'_def)
    have less: "length ?p < length S" unfolding S' t'(1) using t'(2) by simp
    obtain re' where r: "SearchAgain exec re False = Some (re', True)" "at_entity S m' re'"
      using entity_again [OF law fits e j, of m'] m' less by auto
    have "unescape_loop exec fuel re' (d @ c # w) = Some ((d @ c # w) @ c' # s')"
      by (rule Suc.IH [OF S' c']) (use m' r(2) Suc.prems(4) s Cons in simp_all)
    then show ?thesis using ctext parts(2) r(1) s Cons by simp
  qed
qed simp

lemma xu_find_none: "list_all (\<lambda>c. c \<noteq> CHR ''&'') w \<Longrightarrow> xu_find w 0 = None"
  using xu_find_skip [of w "[]" "[]"] by (simp add: xu_find.simps [of _ "length w"])

lemma XmlUnEscape_escaped:
  assumes "xu_law fits exec" and "fits (xml_escape s)" and "27 \<le> length garbage"
  shows "XmlUnEscape exec garbage destination (xml_escape s) = Some (destination @ s)"
proof -
  define S where "S = xml_escape s"
  define re where "re = RegEx_copy (RegEx_new 8 garbage) garbage"
  have re: "length (ovector re) = 27" using assms(3) by (simp add: re_def RegEx_copy_def RegEx_new_def)
  obtain rc vec where e: "exec S (int 0) False (ovector re) = (rc, vec)" by fastforce
  note f = xu_found [OF assms(1,2) [folded S_def] le0 re e]
  let ?re = "re\<lparr>subjectStr := S, lastStart := 0, lastMatches := rc, ovector := vec\<rparr>"
  have search: "Search exec re (map Some S @ [Some NUL]) (int (length S)) False = Some (?re, 0 < rc)" using e by (simp add: Search_def subject_of_data)
  show ?thesis
  proof (cases "list_all xml_char s")
    case True
    then have "S = s" "xu_find S 0 = None" using xu_find_none [OF no_ampersand] by (simp_all add: S_def)
    then show ?thesis using f(2) search by (simp add: XmlUnEscape_def re_def [symmetric] S_def [symmetric])
  next
    case False
    define w where "w = takeWhile xml_char s"
    obtain c s' where c: "dropWhile xml_char s = c # s'" using False by (cases "dropWhile xml_char s") (auto simp: list_all_iff)
    have s: "s = w @ c # s'" "\<not> xml_char c" using c takeWhile_dropWhile_id [of xml_char s] hd_dropWhile [of xml_char s] by (auto simp: w_def)
    have w: "list_all xml_char w" by (auto simp: w_def list_all_iff dest: set_takeWhileD)
    have S: "S = w @ xml_escape (c # s')" using w by (simp add: S_def s(1))
    obtain g a b n where m: "xu_find S (length w) = Some (length w, g, a, b, n)" using escaped_entity [OF s(2), of s' w] unfolding S by metis
    have len: "length s' < length S" "S \<noteq> []" using escaped_longer [of "c # s'"] by (auto simp: S simp del: xml_escape_simps)
    have find: "xu_find S 0 = xu_find S (length w)" using xu_find_skip [OF no_ampersand [OF w], of "[]"] by (simp add: S)
    have at: "at_entity S (the (xu_find S (length w))) ?re" "0 < rc" using f m find by (simp_all add: at_entity_def)
    have ov0: "ov ?re 0 = Some (int (length w))" using f(1) f(3) [unfolded find, OF m] nth_take [of 0 18 vec] by (simp add: ov_def xu_vector_def Let_def)
    have before: "BeforeMatchString ?re (Some destination) = Some (Some (destination @ w), w \<noteq> [])"
      using ov0 at(2) by (simp add: BeforeMatchString_def subject_part_def subjectLen_def append_to_def S)
    have "unescape_loop exec (Suc (length S)) ?re (destination @ w) = Some ((destination @ w) @ c # s')"
      by (rule unescape_loop_all [OF assms(1,2) [folded S_def] S s(2) at(1)]) (use len(1) in simp)
    then show ?thesis unfolding XmlUnEscape_def re_def [symmetric] S_def [symmetric] using search at(2) before len(2) by (simp add: s(1) [symmetric] del: unescape_loop.simps)
  qed
qed

text \<open>Nothing of the markup is left in an escaped text.\<close>

definition markup :: "char \<Rightarrow> bool" where
  "markup c \<longleftrightarrow> c \<in> {CHR 0x22, CHR 0x27, CHR 0x3c, CHR 0x3e}"

lemma hex_digit_plain:
  assumes "n < 16"
  shows "\<not> markup (hex_digit n)"
proof -
  have "list_all (\<lambda>n. \<not> markup (hex_digit n)) [0..<16]" by code_simp
  then show ?thesis using assms by (simp add: list_all_iff)
qed

lemma escaped_no_markup: "list_all (\<lambda>c. \<not> markup c) (xml_escape s)"
proof (induction s)
  case (Cons c s)
  have "list_all (\<lambda>c. \<not> markup c) (if xml_char c then [c] else the (char_entity c))"
  proof (cases "xml_char c")
    case True
    then show ?thesis by (auto simp: xml_char_def markup_def)
  next
    case False
    have n: "(of_char c :: nat) div 16 < 16" "(of_char c :: nat) mod 16 < 16" using escaped_small [OF False] by simp_all
    show ?thesis using False escaped_small [OF False] n [THEN hex_digit_plain] by (simp add: char_entity_def markup_def Let_def)
  qed
  then show ?case using Cons by simp
qed simp

text \<open>
  A reference that the pattern does not know is dropped with what follows it, up to the next ampersand, if it comes behind one that the pattern knows: each turn of the
  loop copies what stands behind its entity, but not what stands before it. If it comes first it is kept.
\<close>

lemma malformed_reference_dropped:
  "XmlUnEscape xu_run (replicate 27 0) [] ''&lt;a&foo;b&gt;c'' = Some ''<a>c''"
  "XmlUnEscape xu_run (replicate 27 0) [] ''&foo;b&gt;c'' = Some ''&foo;b>c''"
  by code_simp+

section \<open>Properties\<close>

text \<open>C39. Escaping is symmetric, for every string of bytes that the regular expression engine can take: what \<open>XmlEscape\<close> writes has no markup characters in it,
  and \<open>XmlUnEscape\<close> appends the original string to its destination.\<close>

theorem xml_escape_roundtrip:
  assumes "xe_law fits copyChars" and "xu_law fits' entity" and "fits s" and "fits' (xml_escape s)" and "9 \<le> length g" and "27 \<le> length g'"
  shows "\<exists>t. XmlEscape copyChars g [] s = Some t \<and> list_all (\<lambda>c. \<not> markup c) t \<and> XmlUnEscape entity g' destination t = Some (destination @ s)"
  using XmlEscape_exact [OF assms(1,3,5), of "[]"] XmlUnEscape_escaped [OF assms(2,4,6), of destination] escaped_no_markup by simp

theorem xml_escape_roundtrip_witness:
  "\<exists>t. XmlEscape xe_run (replicate 9 0) [] ''a<b & c'' = Some t \<and> list_all (\<lambda>c. \<not> markup c) t
     \<and> XmlUnEscape xu_run (replicate 27 0) ''x: '' t = Some ''x: a<b & c''"
  using xml_escape_roundtrip [OF xe_run_law xu_run_law, where s = "''a<b & c''" and g = "replicate 9 0" and g' = "replicate 27 0" and destination = "''x: ''"] by simp

end
