(* ===== verification/Spec2Isabelle.thy ===== *)
theory Spec2Isabelle
  imports UtlChain UtlHashMap RouteParams RedirectResponse UtlHashBag SipVia TransactionTree SipRouter XmlContent
begin

text \<open>
  \<^bold>\<open>sipXrouter.\<close> The program is the SIP routing part of sipXecs. A proxy (\<^verbatim>\<open>src/sipXproxy\<close>) takes a request from its user agent, decides by forwarding rules
  and authorization plug-ins where it goes, keeps signed state about a dialog in the Record-Route header, and hands it back to the user agent, whose transactions
  (\<^verbatim>\<open>src/sipXtackLib/src/net/SipTransaction.cpp\<close>) fork it to the targets and choose the response. A redirect server (\<^verbatim>\<open>src/sipXregistry\<close>) asks a
  chain of plug-ins for the contacts of a request; a plug-in may suspend a request and resume it later. Both live on the messages and codecs of
  \<^verbatim>\<open>src/sipXtackLib/src/net\<close> and on the strings and containers of \<^verbatim>\<open>src/sipXportLib/src/utl\<close>.

  \<^bold>\<open>How code becomes definitions.\<close> A class is a record or a datatype, a method a function on it that keeps the name of the method (with a suffix if it is
  overloaded or taken), a static variable an argument and a result. An undefined outcome of the C++ (a read outside a buffer, a released block, a failed
  assertion, an overflow of \<open>int\<close>, a recursion that does not end) is the value \<open>None\<close>; errors and exceptions are values. Machine integers have their width
  (\<open>32 word\<close> in the codecs and hashes, \<open>int_ok\<close> and explicit \<open>mod\<close> elsewhere). Class \<open>UtlString\<close> and the containers are modelled with their buffers, blocks
  and pools; above them a string is its contents, with \<open>c_prefix\<close> wherever the code passes it as a C string and an embedded NUL would cut it.

  \<^bold>\<open>The theories.\<close>

  \<^item> \<open>Prelude\<close>: results that may be undefined (\<open>returns\<close>, total correctness), blocks of bytes, C strings, \<open>printf\<close> and \<open>atoi\<close>; the facts every theory uses.

  \<^item> \<open>UtlString\<close> (\<^verbatim>\<open>utl/UtlString.cpp\<close>): the buffer, its growth and every operation but \<open>findToken\<close>. Each operation is defined on a well-formed string, keeps it
    well formed, and does to the contents what the operation on lists does.

  \<^item> \<open>UtlContainable\<close> (\<^verbatim>\<open>utl/UtlContainable.cpp, UtlInt.cpp, UtlLongLongInt.cpp, UtlBool.cpp, UtlVoidPtr.cpp\<close>): comparison and hashing. The locale
    \<open>containable\<close> has the law that equal objects have equal hashes, and is interpreted for the objects of the sources.

  \<^item> \<open>UtlChain\<close> (\<^verbatim>\<open>utl/UtlLink.cpp, UtlLink.h\<close>): doubly linked chains on a heap of nodes, and the pool of free blocks. The heap operations refine those on lists.

  \<^item> \<open>UtlList\<close> (\<^verbatim>\<open>utl/UtlList.cpp, UtlSList.cpp, UtlDList.cpp, UtlSortedList.cpp\<close> and their iterators): no iterator ever stands on a block that has left its
    list; sorted lists stay sorted (locale \<open>comparable\<close>).

  \<^item> \<open>UtlHashMap\<close>, \<open>UtlHashBag\<close> (\<^verbatim>\<open>utl/UtlHashMap.cpp, UtlHashMapIterator.cpp, UtlHashBag.cpp\<close>): the tables, with resizing and live iterators, implement a map
    and a multiset. The locales \<open>bucket_inserter\<close> (one chain of a bucket) and \<open>key_value_store\<close> (insert, find, remove) are interpreted on them.

  \<^item> \<open>UtlRegex\<close> (\<^verbatim>\<open>utl/UtlRegex.cpp\<close>): the wrapper of the PCRE engine, which is a parameter with the law \<open>pcre_law\<close>.

  \<^item> \<open>XmlContent\<close> (\<^verbatim>\<open>utl/XmlContent.cpp\<close>): text escaped for XML documents has no markup in it, and unescaping gives it back.

  \<^item> \<open>NetMd5Codec\<close>, \<open>NetBase64Codec\<close> (\<^verbatim>\<open>net/NetMd5Codec.cpp, NetBase64Codec.cpp\<close>): MD5 in any pieces is MD5 of the whole (the reference pads the message and runs the
    block transformation of the code over it, so it is the streaming and padding that are shown, not the constants of the rounds); decoding an encoding gives the data.

  \<^item> \<open>SipMessage\<close>, \<open>NameValueTokenizer\<close>, \<open>HttpMessage\<close>, \<open>SipHeaders\<close>, \<open>SipVia\<close> (\<^verbatim>\<open>net/HttpMessage.cpp, SipMessage.cpp, NameValueTokenizer.cpp, NameValuePair.cpp\<close>):
    the first line, the header fields (locale \<open>header_fields\<close>: what a field has after it was set, added or removed), parsing and printing, fields with several
    entries, Via parameters, and the response made from a request. Printing and parsing are inverse, the subfields are the pieces between separators (and
    one more, empty, if the field ends with a separator), a response matches its request.

  \<^item> \<open>BranchId\<close> (\<^verbatim>\<open>net/BranchId.cpp\<close>): signed branch identifiers; a request that comes back and would be forked to the same targets is recognised as a loop.

  \<^item> \<open>SipTransaction\<close>, \<open>TransactionTree\<close> (\<^verbatim>\<open>net/SipTransaction.cpp\<close>): what a message has to do with a transaction, the messages it keeps and its state, the
    tree of children in the order of their q values, marks and waiting tasks, and the best response of a fork. The handlers that send, resend and look up DNS records are
    modelled only in what they do to the state; over all places that write it, it never goes back (\<open>tx_run\<close>). The best response is of the best class unless a 404 or
    a 487 that was not cancelled is among the answers.

  \<^item> \<open>HttpAuth\<close>, \<open>SipNonceDb\<close> (\<^verbatim>\<open>net/HttpMessage.cpp, NetAttributeTokenizer.cpp, sipXecsService/SipNonceDb.cpp\<close>): digest challenges and authorizations as text and as
    data, the digest and its check, nonces signed with a secret and their expiry.

  \<^item> \<open>RouteState\<close>, \<open>RouteToken\<close>, \<open>RouteParams\<close> (\<^verbatim>\<open>sipXproxy/src/RouteState.cpp\<close>): the parameters of the proxy's plug-ins in a signed token of the Record-Route header;
    decoding accepts what is signed and gives the parameters back, also through the messages of a dialog. The law \<open>ss_law\<close> of the pattern for a whole token reads it as
    it is written: the dot between pairs is not escaped and stands for any character but a newline, and the end may come before a last newline.

  \<^item> \<open>SipRouter\<close> (\<^verbatim>\<open>sipXproxy/src/SipRouter.cpp\<close>, with parts of \<^verbatim>\<open>SipMessage.cpp, SipUserAgent.cpp, SipXauthIdentity.cpp\<close>): one pass of a request through the proxy.
    An authenticated sender has answered a nonce of this proxy for this call with the password; the proxy's own challenge can be answered that way until the nonce
    expires; a request is forwarded only if the first plug-in with an answer about it did not refuse it, it is exempt, or a rule sends it on without authorization; a
    refused one gets exactly the answer that is due to its sender; required extensions are checked.

  \<^item> \<open>RedirectPlugin\<close>, \<open>SipRedirectServer\<close>, \<open>RedirectRun\<close>, \<open>RedirectEvents\<close>, \<open>RedirectResponse\<close> (\<^verbatim>\<open>sipXregistry/src/RedirectPlugin.cpp, SipRedirectServer.cpp, RedirectSuspend.cpp\<close>):
    the objects plug-ins fill in, the server as an event loop over the table of suspended requests, and its answers. After any run in which no plug-in throws an
    exception and no warning is too long for its buffer (\<open>run_ok\<close>) every request was answered once or still waits; a resumed or cancelled request is answered (locale \<open>visitor\<close>: a walk over the table while it changes).

  \<^bold>\<open>Parameters and their laws.\<close> What is not part of the modelled code is an argument of the definitions: the PCRE engine (\<open>pcre_law\<close>; for one pattern each
  \<open>br_law\<close>, \<open>pn_law\<close>, \<open>nv_law\<close>, \<open>ss_law\<close>, \<open>b64_search_law\<close>, \<open>xe_law\<close>, \<open>xu_law\<close>, which say what the pattern matches), class \<open>Url\<close> (\<open>url_fields\<close>, \<open>url_ops\<close> with \<open>url_law\<close>, that a
  parameter that was set is read back), the plug-ins of the redirect server and of the proxy, the data bases and the forwarding rules (\<open>router_env\<close>, \<open>router_ops\<close>),
  and the clock. Every property with such a law has a witness with a concrete function that obeys it. Nothing is assumed about MD5 but what the model computes.

  \<^bold>\<open>Fuel.\<close> Most loops are recursive with a measure. Fuel is used where the end follows from the data: copying and resizing a table (its elements and one more; the
  insertion that a resize makes needs a depth of 2, \<open>INSERT_DEPTH\<close>), emptying a list (its blocks), the tokens of a route state (pairs and one more; length of the
  token and one more), the walk over the suspended requests (elements and one more), the entries of a field (characters of its lines and one more), and the matches in a text
  that is escaped or unescaped (its characters and one more). The theorems
  show that this is enough, or are stated with \<open>returns\<close>. The exception is \<open>isUriRecursedChildren\<close>, which does call itself forever in the source: there \<open>None\<close> means
  just that.

  \<^bold>\<open>Not modelled.\<close> Threads, locks, timers and sockets (a transaction's sending and resending, the transports, the user agent's queues): what an operation does
  between its locks is modelled, interleavings are not, apart from the event loop of the redirect server. Class \<open>Url\<close>, whose parser is a set of PCRE patterns, and
  with it the parts of the proxy that only rewrite URLs. Clients of the Mongo data base and of the XML parser (registrar, forwarding rules, plug-ins, call records).
  Session descriptions, subscriptions and the HTTP server, which are not on the path of a routed call. Log lines are left out everywhere.
\<close>

end
